(* ===== verification/Prelude.thy ===== *)
theory Prelude
  imports Main "HOL-Library.Word" "HOL-Library.Char_ord" "HOL-Library.List_Lexorder"
begin

text \<open>
  Shared vocabulary of the development: the machine integers of the ILP32 platform the code is
  written for, the result type of code that can run into undefined behaviour or a failed
  assertion, and generic lemmas on lists and words that several components use.

  C++ \<open>unsigned int\<close> is \<open>u32\<close>, \<open>unsigned long long\<close> is \<open>u64\<close>; a signed \<open>int\<close> that is only
  stored, compared or sent over the wire is an \<open>int\<close> together with the range predicate
  \<open>int32_ok\<close>.  \<open>std::string\<close> is \<open>string\<close>: characters compare as unsigned bytes and strings
  lexicographically, as \<open>std::string::operator<\<close> does.
\<close>

named_theorems stdmap_simps \<open>lookup and update laws of the std::map model\<close>
named_theorems codec_intros \<open>composition rules for marshalling code\<close>

type_synonym byte = "8 word"
type_synonym u16 = "16 word"
type_synonym u32 = "32 word"
type_synonym u64 = "64 word"

definition int32_ok :: "int \<Rightarrow> bool" where
  "int32_ok x \<longleftrightarrow> - (2 ^ 31) \<le> x \<and> x < 2 ^ 31"

lemma sint_word_of_int32: "int32_ok x \<Longrightarrow> sint (word_of_int x :: u32) = x"
  by (simp add: int32_ok_def sint_sbintrunc' signed_take_bit_int_eq_self)

lemma take_length_eq: "length xs = n \<Longrightarrow> take n (xs @ ys) = xs"
  by simp

lemma drop_length_eq: "length xs = n \<Longrightarrow> drop n (xs @ ys) = ys"
  by simp

lemma u32_bound: "unat (x :: u32) < 2 ^ 32"
  using unsigned_less [where 'a = nat, of x] by simp

lemma upt_append: "i \<le> j \<Longrightarrow> j \<le> k \<Longrightarrow> [i ..< j] @ [j ..< k] = [i ..< k]"
  by (metis le_add_diff_inverse upt_add_eq_append)

lemma u32_no_wrap: "x \<noteq> (- 1 :: u32) \<Longrightarrow> unat (x + 1) = unat x + 1"
  by (metis Suc_eq_plus1 unatSuc add.commute add_eq_0_iff)

lemma u32_less_plus_one: "(x :: u32) < y \<Longrightarrow> unat (x + 1) = unat x + 1"
  by (rule u32_no_wrap) (use word_order.extremum_strict in blast)

lemma assoc_list_eqI:
  assumes "map fst xs = map fst ys" "distinct (map fst xs)" "map_of xs = map_of ys"
  shows "xs = ys"
  using assms
proof (induction xs arbitrary: ys)
  case (Cons x xs)
  then obtain y ys' where ys: "ys = y # ys'" by (cases ys) auto
  have keys: "fst ` set xs = fst ` set ys'"
    using Cons.prems(1) ys by (metis list.inject list.set_map list.simps(9))
  then have notin: "fst x \<notin> dom (map_of xs)" "fst x \<notin> dom (map_of ys')"
    using Cons.prems(2) by (simp_all add: dom_map_of_conv_image_fst)
  have "map_of (x # xs) (fst x) = map_of (y # ys') (fst x)"
    using Cons.prems(3) ys by metis
  then have xy: "x = y"
    using Cons.prems(1) ys by (cases x; cases y) auto
  have "map_of xs k = map_of ys' k" for k
  proof (cases "k = fst x")
    case True
    then show ?thesis using notin by (simp add: domIff)
  next
    case False
    have "map_of (x # xs) k = map_of (y # ys') k" using Cons.prems(3) ys by metis
    then show ?thesis using False xy by (cases x) auto
  qed
  then show ?case
    using Cons.prems Cons.IH [of ys'] ys xy by auto
qed simp

end
