(* ===== verification/StdMap.thy ===== *)
theory StdMap
  imports Prelude
begin

text \<open>
  The part of \<open>std::map\<close> the repository uses: an association list in ascending key order, so
  that iteration visits the entries in the order the C++ container does.  \<open>mfind\<close> is
  \<open>find\<close>/\<open>count\<close>, \<open>mput\<close> is \<open>m[k] = v\<close>, \<open>merase\<close> is \<open>erase(key)\<close> and \<open>mindex\<close> is the rvalue
  use of \<open>m[k]\<close>, which inserts a value-initialised entry when the key is absent.
\<close>

type_synonym ('k, 'v) stdmap = "('k \<times> 'v) list"

definition sm_ok :: "('k::linorder, 'v) stdmap \<Rightarrow> bool" where
  "sm_ok m \<longleftrightarrow> sorted_wrt (<) (map fst m)"

definition mfind :: "('k, 'v) stdmap \<Rightarrow> 'k \<Rightarrow> 'v option" where
  "mfind m k = map_of m k"

definition mcount :: "('k, 'v) stdmap \<Rightarrow> 'k \<Rightarrow> bool" where
  "mcount m k \<longleftrightarrow> mfind m k \<noteq> None"

fun mput :: "'k::linorder \<Rightarrow> 'v \<Rightarrow> ('k, 'v) stdmap \<Rightarrow> ('k, 'v) stdmap" where
  "mput k v [] = [(k, v)]"
| "mput k v ((a, b) # m) =
     (if k < a then (k, v) # (a, b) # m
      else if k = a then (k, v) # m
      else (a, b) # mput k v m)"

definition merase :: "'k \<Rightarrow> ('k, 'v) stdmap \<Rightarrow> ('k, 'v) stdmap" where
  "merase k m = filter (\<lambda>(k', v). k' \<noteq> k) m"

definition mget :: "'v \<Rightarrow> ('k, 'v) stdmap \<Rightarrow> 'k \<Rightarrow> 'v" where
  "mget d m k = (case mfind m k of Some v \<Rightarrow> v | None \<Rightarrow> d)"

definition mindex :: "'v \<Rightarrow> 'k::linorder \<Rightarrow> ('k, 'v) stdmap \<Rightarrow> ('k, 'v) stdmap" where
  "mindex d k m = (if mcount m k then m else mput k d m)"

text \<open>The interface the components rely on, with its laws.\<close>

locale finite_map =
  fixes empty_map :: "'m"
    and lookup :: "'m \<Rightarrow> 'k::linorder \<Rightarrow> 'v option"
    and store :: "'k \<Rightarrow> 'v \<Rightarrow> 'm \<Rightarrow> 'm"
    and delete :: "'k \<Rightarrow> 'm \<Rightarrow> 'm"
    and items :: "'m \<Rightarrow> ('k \<times> 'v) list"
    and wf_map :: "'m \<Rightarrow> bool"
  assumes wf_empty: "wf_map empty_map"
    and lookup_empty: "lookup empty_map k = None"
    and wf_store: "wf_map m \<Longrightarrow> wf_map (store k v m)"
    and lookup_store: "lookup (store k v m) = (lookup m)(k \<mapsto> v)"
    and wf_delete: "wf_map m \<Longrightarrow> wf_map (delete k m)"
    and lookup_delete: "lookup (delete k m) = (lookup m)(k := None)"
    and items_sorted: "wf_map m \<Longrightarrow> sorted_wrt (<) (map fst (items m))"
    and items_lookup: "wf_map m \<Longrightarrow> map_of (items m) = lookup m"
begin

lemma items_eqI:
  assumes "wf_map m" "wf_map m'" "lookup m = lookup m'"
  shows "items m = items m'"
proof (rule assoc_list_eqI)
  have ss: "sorted_wrt (<) (map fst (items m))" "sorted_wrt (<) (map fst (items m'))"
    using assms by (simp_all add: items_sorted)
  show eq: "map_of (items m) = map_of (items m')"
    using assms by (simp add: items_lookup)
  then have "set (map fst (items m)) = set (map fst (items m'))"
    by (metis dom_map_of_conv_image_fst list.set_map)
  with ss show "map fst (items m) = map fst (items m')"
    by (simp add: strict_sorted_equal)
  show "distinct (map fst (items m))"
    using ss(1) by (simp add: strict_sorted_iff)
qed

lemma lookup_items: "wf_map m \<Longrightarrow> lookup m k = Some v \<longleftrightarrow> (k, v) \<in> set (items m)"
  using items_lookup [of m] items_sorted [of m]
  by (metis map_of_eq_Some_iff strict_sorted_iff)

end

lemma mput_keys: "set (map fst (mput k v m)) = insert k (set (map fst m))"
  by (induction k v m rule: mput.induct) auto

lemma mput_again [simp]: "mput k v (mput k w m) = mput k v m"
  by (induction k w m rule: mput.induct) auto

lemma mput_sorted: "sm_ok m \<Longrightarrow> sm_ok (mput k v m)"
proof (induction k v m rule: mput.induct)
  case (2 k v a b m)
  then show ?case
    using mput_keys [of k v m] by (fastforce simp: sm_ok_def)
qed (simp add: sm_ok_def)

lemma mfind_mput [stdmap_simps, simp]: "mfind (mput k v m) = (mfind m)(k \<mapsto> v)"
  unfolding mfind_def by (induction k v m rule: mput.induct) (auto simp: fun_eq_iff)

lemma mfind_merase [stdmap_simps, simp]: "mfind (merase k m) = (mfind m)(k := None)"
  unfolding mfind_def merase_def by (induction m) (auto simp: fun_eq_iff)

lemma mfind_Nil [stdmap_simps, simp]: "mfind [] k = None"
  by (simp add: mfind_def)

lemma mindex_ok [simp]: "sm_ok m \<Longrightarrow> sm_ok (mindex d k m)"
  by (simp add: mindex_def mput_sorted)

lemma mfind_mindex [stdmap_simps]: "mfind (mindex d k m) k' = (if k' = k then Some (mget d m k) else mfind m k')"
  by (auto simp: mindex_def mget_def mcount_def)

lemma mcount_mput [stdmap_simps]: "mcount (mput k v m) k' \<longleftrightarrow> k' = k \<or> mcount m k'"
  by (auto simp: mcount_def)

lemma mcount_merase [stdmap_simps]: "mcount (merase k m) k' \<longleftrightarrow> k' \<noteq> k \<and> mcount m k'"
  by (auto simp: mcount_def)

lemma mcount_mindex: "mcount (mindex d k m) k' \<longleftrightarrow> k' = k \<or> mcount m k'"
  by (auto simp: mindex_def mcount_mput)

lemma mget_mindex [stdmap_simps, simp]: "mget d (mindex d k m) = mget d m"
  by (auto simp: mget_def mfind_mindex fun_eq_iff)

lemma mget_mput [stdmap_simps]: "mget d (mput k v m) k' = (if k' = k then v else mget d m k')"
  by (simp add: mget_def)

lemma mget_mput_fun: "mget d (mput k v m) = (mget d m)(k := v)"
  by (auto simp: mget_def)

lemma sm_ok_merase: "sm_ok m \<Longrightarrow> sm_ok (merase k m)"
  unfolding sm_ok_def merase_def sorted_wrt_map by (induction m) auto

interpretation stdmap: finite_map "[]" mfind mput merase "\<lambda>m. m" sm_ok
  by unfold_locales (auto simp: sm_ok_def mfind_def mput_sorted [unfolded sm_ok_def] sm_ok_merase [unfolded sm_ok_def])

lemmas sm_ok_intros [intro] = mput_sorted sm_ok_merase


end
