(* ===== verification/Marshall.thy ===== *)
theory Marshall
  imports StdMap "HOL-Library.Monad_Syntax"
begin

unbundle bit_operations_syntax

text \<open>
  The marshalling library: class \<open>marshall\<close> (a growable output buffer) and class \<open>unmarshall\<close>
  (an input cursor) of \<open>rpc/marshall.h\<close>, with the operators of \<open>rpc/rpc.cc\<close>.

  A buffer cell is \<open>None\<close> while its content is indeterminate (fresh from \<open>malloc\<close> or \<open>realloc\<close>).
  An operation returns \<open>None\<close> when it would store outside the allocation, so that memory safety
  of the growth policy is a theorem and not an assumption of the model.  Sizes are mathematical:
  messages are far below the 2 GiB at which the C++ \<open>int\<close> counters would overflow, since a
  connection refuses anything above 10 MiB.
\<close>

subsection \<open>The output buffer\<close>

definition RPC_HEADER_SZ :: nat where
  "RPC_HEADER_SZ = max 20 8 + 4"

definition DEFAULT_RPC_SZ :: nat where
  "DEFAULT_RPC_SZ = 1024"

record marshall =
  m_buf :: "byte option list"
  m_capa :: nat
  m_ind :: nat

definition marshall_new :: marshall where
  "marshall_new =
     \<lparr>m_buf = replicate DEFAULT_RPC_SZ None, m_capa = DEFAULT_RPC_SZ, m_ind = RPC_HEADER_SZ\<rparr>"

definition realloc :: "byte option list \<Rightarrow> nat \<Rightarrow> byte option list" where
  "realloc b n = take n b @ replicate (n - length b) None"

definition m_store :: "byte list \<Rightarrow> marshall \<Rightarrow> marshall option" where
  "m_store bs m =
     (if m_ind m + length bs \<le> length (m_buf m)
      then Some (m\<lparr>m_buf := take (m_ind m) (m_buf m) @ map Some bs
                             @ drop (m_ind m + length bs) (m_buf m),
                   m_ind := m_ind m + length bs\<rparr>)
      else None)"

definition m_rawbyte :: "byte \<Rightarrow> marshall \<Rightarrow> marshall option" where
  "m_rawbyte x m =
     (let m1 = (if m_ind m \<ge> m_capa m
                then m\<lparr>m_capa := 2 * m_capa m, m_buf := realloc (m_buf m) (2 * m_capa m)\<rparr>
                else m)
      in m_store [x] m1)"

definition m_rawbytes :: "byte list \<Rightarrow> marshall \<Rightarrow> marshall option" where
  "m_rawbytes p m =
     (let n = length p;
          m1 = (if m_ind m + n > m_capa m
                then (let c = (if m_capa m > n then 2 * m_capa m else m_capa m + n)
                      in m\<lparr>m_capa := c, m_buf := realloc (m_buf m) c\<rparr>)
                else m)
      in m_store p m1)"

fun put_all :: "('m \<Rightarrow> 'm option) list \<Rightarrow> 'm \<Rightarrow> 'm option" where
  "put_all [] m = Some m"
| "put_all (f # fs) m = f m \<bind> put_all fs"

definition bytes_of_string :: "string \<Rightarrow> byte list" where
  "bytes_of_string s = map (\<lambda>c. word_of_nat (of_char c)) s"

definition string_of_bytes :: "byte list \<Rightarrow> string" where
  "string_of_bytes bs = map (\<lambda>b. char_of (unat b)) bs"

definition put_u8 :: "byte \<Rightarrow> marshall \<Rightarrow> marshall option" where
  "put_u8 x = m_rawbyte x"

definition put_u16 :: "u16 \<Rightarrow> marshall \<Rightarrow> marshall option" where
  "put_u16 x = put_all [m_rawbyte (ucast (drop_bit 8 x AND 0xff)), m_rawbyte (ucast (x AND 0xff))]"

definition put_u32 :: "u32 \<Rightarrow> marshall \<Rightarrow> marshall option" where
  "put_u32 x =
     put_all [m_rawbyte (ucast (drop_bit 24 x AND 0xff)), m_rawbyte (ucast (drop_bit 16 x AND 0xff)),
              m_rawbyte (ucast (drop_bit 8 x AND 0xff)), m_rawbyte (ucast (x AND 0xff))]"

definition put_int :: "int \<Rightarrow> marshall \<Rightarrow> marshall option" where
  "put_int x = put_u32 (word_of_int x)"

definition put_string :: "string \<Rightarrow> marshall \<Rightarrow> marshall option" where
  "put_string s = put_all [put_u32 (word_of_nat (length s)), m_rawbytes (bytes_of_string s)]"

definition put_u64 :: "u64 \<Rightarrow> marshall \<Rightarrow> marshall option" where
  "put_u64 x = put_all [put_u32 (ucast (drop_bit 32 x)), put_u32 (ucast x)]"

definition put_vector :: "('a \<Rightarrow> marshall \<Rightarrow> marshall option) \<Rightarrow> 'a list \<Rightarrow> marshall \<Rightarrow> marshall option" where
  "put_vector p v = put_all (put_u32 (word_of_nat (length v)) # map p v)"

definition put_map :: "('a \<Rightarrow> marshall \<Rightarrow> marshall option) \<Rightarrow> ('b \<Rightarrow> marshall \<Rightarrow> marshall option)
    \<Rightarrow> ('a, 'b) stdmap \<Rightarrow> marshall \<Rightarrow> marshall option" where
  "put_map p q d =
     put_all (put_u32 (word_of_nat (length d)) # map (\<lambda>(a, b). put_all [p a, q b]) d)"

definition m_pack :: "u32 \<Rightarrow> marshall \<Rightarrow> marshall option" where
  "m_pack x =
     put_all [m_rawbyte (ucast (drop_bit 24 x AND 0xff)), m_rawbyte (ucast (drop_bit 16 x AND 0xff)),
              m_rawbyte (ucast (drop_bit 8 x AND 0xff)), m_rawbyte (ucast (x AND 0xff))]"

definition m_str :: "marshall \<Rightarrow> string option" where
  "m_str m = map_option string_of_bytes (those (drop RPC_HEADER_SZ (take (m_ind m) (m_buf m))))"

record req_header =
  rq_xid :: u32
  rq_proc :: u32
  rq_clt_nonce :: u32
  rq_srv_nonce :: u32
  rq_xid_rep :: u32

record reply_header =
  rp_xid :: u32
  rp_ret :: int

definition pack_req_header :: "req_header \<Rightarrow> marshall \<Rightarrow> marshall option" where
  "pack_req_header h m =
     (let saved_sz = m_ind m in
      put_all [m_pack (rq_xid h), m_pack (rq_proc h), m_pack (rq_clt_nonce h),
               m_pack (rq_srv_nonce h), m_pack (rq_xid_rep h)] (m\<lparr>m_ind := 4\<rparr>)
      \<bind> (\<lambda>m'. Some (m'\<lparr>m_ind := saved_sz\<rparr>)))"

definition pack_reply_header :: "reply_header \<Rightarrow> marshall \<Rightarrow> marshall option" where
  "pack_reply_header h m =
     (let saved_sz = m_ind m in
      put_all [m_pack (rp_xid h), m_pack (word_of_int (rp_ret h))] (m\<lparr>m_ind := 4\<rparr>)
      \<bind> (\<lambda>m'. Some (m'\<lparr>m_ind := saved_sz\<rparr>)))"

subsection \<open>The input cursor\<close>

text \<open>
  \<open>_sz\<close> is the length of \<open>u_buf\<close>; a null buffer is the empty list.  \<open>u_overread\<close> is no field of
  the class: it records that an operation has read past the end of the buffer.
\<close>

record unmarshall =
  u_buf :: "byte list"
  u_ind :: nat
  u_good :: bool
  u_overread :: bool

definition unmarshall_new :: unmarshall where
  "unmarshall_new = \<lparr>u_buf = [], u_ind = 0, u_good = False, u_overread = False\<rparr>"

definition unmarshall_pdu :: "byte list \<Rightarrow> unmarshall" where
  "unmarshall_pdu b = \<lparr>u_buf = b, u_ind = 0, u_good = True, u_overread = False\<rparr>"

text \<open>The cursor starts behind the header, whose cells \<open>take_content\<close> leaves indeterminate.\<close>

definition unmarshall_string :: "string \<Rightarrow> unmarshall" where
  "unmarshall_string s =
     \<lparr>u_buf = replicate RPC_HEADER_SZ 0 @ bytes_of_string s, u_ind = RPC_HEADER_SZ, u_good = True,
      u_overread = False\<rparr>"

definition take_in :: "unmarshall \<Rightarrow> unmarshall" where
  "take_in another =
     \<lparr>u_buf = u_buf another, u_ind = RPC_HEADER_SZ, u_good = (length (u_buf another) \<ge> RPC_HEADER_SZ),
      u_overread = u_overread another\<rparr>"

definition okdone :: "unmarshall \<Rightarrow> bool" where
  "okdone u \<longleftrightarrow> u_good u \<and> u_ind u = length (u_buf u)"

text \<open>The byte is read through a signed \<open>char\<close> and widened to \<open>unsigned int\<close>.\<close>

definition u_rawbyte :: "unmarshall \<Rightarrow> u32 \<times> unmarshall" where
  "u_rawbyte u =
     (if u_ind u \<ge> length (u_buf u) then (0, u\<lparr>u_good := False\<rparr>)
      else (scast (u_buf u ! u_ind u), u\<lparr>u_ind := u_ind u + 1\<rparr>))"

definition get_u8 :: "unmarshall \<Rightarrow> byte \<times> unmarshall" where
  "get_u8 u = (let (x, u) = u_rawbyte u in (ucast x, u))"

definition get_u16 :: "unmarshall \<Rightarrow> u16 \<times> unmarshall" where
  "get_u16 u =
     (let (a, u) = u_rawbyte u; (b, u) = u_rawbyte u
      in (ucast (push_bit 8 (a AND 0xff)) OR ucast (b AND 0xff), u))"

definition get_u32 :: "unmarshall \<Rightarrow> u32 \<times> unmarshall" where
  "get_u32 u =
     (let (a, u) = u_rawbyte u; (b, u) = u_rawbyte u; (c, u) = u_rawbyte u; (d, u) = u_rawbyte u
      in (((push_bit 24 (a AND 0xff) OR push_bit 16 (b AND 0xff)) OR push_bit 8 (c AND 0xff)) OR (d AND 0xff), u))"

definition get_int :: "unmarshall \<Rightarrow> int \<times> unmarshall" where
  "get_int u = (let (x, u) = get_u32 u in (sint x, u))"

definition get_u64 :: "unmarshall \<Rightarrow> u64 \<times> unmarshall" where
  "get_u64 u = (let (h, u) = get_u32 u; (l, u) = get_u32 u in (ucast l OR push_bit 32 (ucast h), u))"

text \<open>
  The bounds test adds in 32-bit arithmetic, as \<open>_ind+n\<close> is unsigned.  When the sum wraps the
  test passes although the \<open>n\<close> bytes do not lie in the buffer.
\<close>

definition u_rawbytes :: "string \<Rightarrow> u32 \<Rightarrow> unmarshall \<Rightarrow> string \<times> unmarshall" where
  "u_rawbytes ss n u =
     (if (word_of_nat (u_ind u) + n :: u32) > word_of_nat (length (u_buf u))
      then (ss, u\<lparr>u_good := False\<rparr>)
      else (string_of_bytes (take (unat n) (drop (u_ind u) (u_buf u))),
            u\<lparr>u_ind := u_ind u + unat n,
              u_overread := (u_overread u \<or> u_ind u + unat n > length (u_buf u))\<rparr>))"

definition get_string_into :: "string \<Rightarrow> unmarshall \<Rightarrow> string \<times> unmarshall" where
  "get_string_into s u =
     (let (sz, u) = get_u32 u in if u_good u then u_rawbytes s sz u else (s, u))"

definition get_string :: "unmarshall \<Rightarrow> string \<times> unmarshall" where
  "get_string = get_string_into []"

fun get_many :: "(unmarshall \<Rightarrow> 'a \<times> unmarshall) \<Rightarrow> nat \<Rightarrow> unmarshall \<Rightarrow> 'a list \<times> unmarshall" where
  "get_many g 0 u = ([], u)"
| "get_many g (Suc n) u = (let (z, u) = g u; (zs, u) = get_many g n u in (z # zs, u))"

definition get_vector_into :: "(unmarshall \<Rightarrow> 'a \<times> unmarshall) \<Rightarrow> 'a list \<Rightarrow> unmarshall \<Rightarrow> 'a list \<times> unmarshall" where
  "get_vector_into g v u =
     (let (n, u) = get_u32 u; (zs, u) = get_many g (unat n) u in (v @ zs, u))"

definition get_pair :: "(unmarshall \<Rightarrow> 'a \<times> unmarshall) \<Rightarrow> (unmarshall \<Rightarrow> 'b \<times> unmarshall)
    \<Rightarrow> unmarshall \<Rightarrow> ('a \<times> 'b) \<times> unmarshall" where
  "get_pair g h u = (let (a, u) = g u; (b, u) = h u in ((a, b), u))"

definition get_map :: "(unmarshall \<Rightarrow> 'a::linorder \<times> unmarshall) \<Rightarrow> (unmarshall \<Rightarrow> 'b \<times> unmarshall)
    \<Rightarrow> unmarshall \<Rightarrow> ('a, 'b) stdmap \<times> unmarshall" where
  "get_map g h u =
     (let (n, u) = get_u32 u; (zs, u) = get_many (get_pair g h) (unat n) u
      in (fold (\<lambda>(a, b). mput a b) zs [], u))"

definition u_unpack :: "unmarshall \<Rightarrow> u32 \<times> unmarshall" where
  "u_unpack u =
     (let (a, u) = u_rawbyte u; (b, u) = u_rawbyte u; (c, u) = u_rawbyte u; (d, u) = u_rawbyte u
      in (((push_bit 24 (a AND 0xff) OR push_bit 16 (b AND 0xff)) OR push_bit 8 (c AND 0xff)) OR (d AND 0xff), u))"

definition unpack_req_header :: "unmarshall \<Rightarrow> req_header \<times> unmarshall" where
  "unpack_req_header u =
     (let u = u\<lparr>u_ind := 4\<rparr>;
          (x, u) = u_unpack u; (p, u) = u_unpack u; (c, u) = u_unpack u;
          (s, u) = u_unpack u; (xr, u) = u_unpack u
      in (\<lparr>rq_xid = x, rq_proc = p, rq_clt_nonce = c, rq_srv_nonce = s, rq_xid_rep = xr\<rparr>,
          u\<lparr>u_ind := RPC_HEADER_SZ\<rparr>))"

definition unpack_reply_header :: "unmarshall \<Rightarrow> reply_header \<times> unmarshall" where
  "unpack_reply_header u =
     (let u = u\<lparr>u_ind := 4\<rparr>; (x, u) = u_unpack u; (r, u) = u_unpack u
      in (\<lparr>rp_xid = x, rp_ret = sint r\<rparr>, u\<lparr>u_ind := RPC_HEADER_SZ\<rparr>))"

subsection \<open>Bytes and words\<close>

lemma and_ff: "(x::'a::len word) AND 255 = take_bit 8 x"
  by (simp add: take_bit_eq_mask mask_eq_exp_minus_1)

lemma scast_and_ff: "(scast (b::byte) :: u32) AND 0xff = ucast b"
proof (rule bit_word_eqI)
  fix n :: nat assume "n < LENGTH(32)"
  then show "bit ((scast b :: u32) AND 0xff) n \<longleftrightarrow> bit (ucast b :: u32) n"
    unfolding and_ff
    by (cases "n < 8") (simp_all add: bit_simps impossible_bit min_absorb2)
qed

lemma u32_of_bytes:
  "((push_bit 24 (ucast (ucast (drop_bit 24 x AND 0xff) :: byte))
      OR push_bit 16 (ucast (ucast (drop_bit 16 x AND 0xff) :: byte)))
      OR push_bit 8 (ucast (ucast (drop_bit 8 x AND 0xff) :: byte)))
      OR ucast (ucast (x AND 0xff) :: byte) = (x::u32)" (is "?l = x")
proof (rule bit_word_eqI)
  fix n :: nat assume "n < LENGTH(32)"
  then have "n < 8 \<or> 8 \<le> n \<and> n < 16 \<or> 16 \<le> n \<and> n < 24 \<or> 24 \<le> n \<and> n < 32" by auto
  then show "bit ?l n \<longleftrightarrow> bit x n"
    unfolding and_ff by (elim disjE conjE) (simp_all add: bit_simps less_diff_conv2)
qed

lemma u16_of_bytes:
  "ucast (push_bit 8 (ucast (ucast (drop_bit 8 x AND 0xff) :: byte) :: u32))
     OR ucast (ucast (ucast (x AND 0xff) :: byte) :: u32) = (x::u16)" (is "?l = x")
proof (rule bit_word_eqI)
  fix n :: nat assume "n < LENGTH(16)"
  then have "n < 8 \<or> 8 \<le> n \<and> n < 16" by auto
  then show "bit ?l n \<longleftrightarrow> bit x n"
    unfolding and_ff by (elim disjE conjE) (simp_all add: bit_simps less_diff_conv2)
qed

lemma u64_of_u32s: "ucast (ucast x :: u32) OR push_bit 32 (ucast (ucast (drop_bit 32 x) :: u32)) = (x::u64)"
  (is "?l = x")
proof (rule bit_word_eqI)
  fix n :: nat assume "n < LENGTH(64)"
  then have "n < 32 \<or> 32 \<le> n \<and> n < 64" by auto
  then show "bit ?l n \<longleftrightarrow> bit x n"
    by (elim disjE conjE) (simp_all add: bit_simps less_diff_conv2)
qed

lemma string_of_bytes_of_string [simp]: "string_of_bytes (bytes_of_string s) = s"
  by (induction s) (simp_all add: string_of_bytes_def bytes_of_string_def unat_of_nat)

lemma bytes_of_string_of_bytes [simp]: "bytes_of_string (string_of_bytes bs) = bs"
proof -
  have "word_of_nat (of_char (char_of (unat b) :: char)) = b" for b :: byte
  proof -
    have "unat b < 2 ^ LENGTH(8)" by (rule unsigned_less)
    then show ?thesis by simp
  qed
  then show ?thesis by (simp add: string_of_bytes_def bytes_of_string_def comp_def)
qed

lemma length_string_of_bytes [simp]: "length (string_of_bytes bs) = length bs"
  by (simp add: string_of_bytes_def)

lemma length_bytes_of_string [simp]: "length (bytes_of_string s) = length s"
  by (simp add: bytes_of_string_def)

subsection \<open>What a writer appends\<close>

definition m_ok :: "marshall \<Rightarrow> bool" where
  "m_ok m \<longleftrightarrow> length (m_buf m) = m_capa m \<and> RPC_HEADER_SZ \<le> m_ind m \<and> m_ind m \<le> m_capa m
     \<and> None \<notin> set (drop RPC_HEADER_SZ (take (m_ind m) (m_buf m)))"

definition m_bytes :: "marshall \<Rightarrow> byte list" where
  "m_bytes m = map the (drop RPC_HEADER_SZ (take (m_ind m) (m_buf m)))"

definition emits :: "(marshall \<Rightarrow> marshall option) \<Rightarrow> byte list \<Rightarrow> bool" where
  "emits f bs \<longleftrightarrow> (\<forall>m. m_ok m \<longrightarrow> (\<exists>m'. f m = Some m' \<and> m_ok m' \<and> m_bytes m' = m_bytes m @ bs
     \<and> take RPC_HEADER_SZ (m_buf m') = take RPC_HEADER_SZ (m_buf m)))"

lemma emitsD:
  assumes "emits f bs" "m_ok m"
  obtains m' where "f m = Some m'" "m_ok m'" "m_bytes m' = m_bytes m @ bs"
    "take RPC_HEADER_SZ (m_buf m') = take RPC_HEADER_SZ (m_buf m)"
  using assms unfolding emits_def by blast

lemma m_store_ok:
  assumes "m_ok m" "m_ind m + length bs \<le> m_capa m"
  shows "\<exists>m'. m_store bs m = Some m' \<and> m_ok m' \<and> m_bytes m' = m_bytes m @ bs
     \<and> take RPC_HEADER_SZ (m_buf m') = take RPC_HEADER_SZ (m_buf m)"
proof -
  have split: "drop RPC_HEADER_SZ (take (m_ind m) (m_buf m) @ map Some bs)
    = drop RPC_HEADER_SZ (take (m_ind m) (m_buf m)) @ map Some bs"
    using assms by (simp add: m_ok_def)
  show ?thesis
    using assms split by (auto simp: m_store_def m_ok_def m_bytes_def comp_def)
qed

lemma m_ok_realloc:
  assumes "m_ok m" "m_capa m \<le> c"
  defines "m' \<equiv> m\<lparr>m_capa := c, m_buf := realloc (m_buf m) c\<rparr>"
  shows "m_ok m'" "m_bytes m' = m_bytes m" "m_capa m' = c" "m_ind m' = m_ind m"
    "take RPC_HEADER_SZ (m_buf m') = take RPC_HEADER_SZ (m_buf m)"
  using assms by (auto simp: m_ok_def m_bytes_def realloc_def)

text \<open>The growth policies of \<open>rawbyte\<close> and \<open>rawbytes\<close> always make room.\<close>

lemma emits_rawbyte [codec_intros]: "emits (m_rawbyte x) [x]"
  unfolding emits_def
proof (intro allI impI)
  fix m assume ok: "m_ok m"
  show "\<exists>m'. m_rawbyte x m = Some m' \<and> m_ok m' \<and> m_bytes m' = m_bytes m @ [x]
     \<and> take RPC_HEADER_SZ (m_buf m') = take RPC_HEADER_SZ (m_buf m)"
  proof (cases "m_ind m \<ge> m_capa m")
    case True
    have room: "m_ind m + length [x] \<le> 2 * m_capa m"
      using ok by (auto simp: m_ok_def RPC_HEADER_SZ_def)
    have grow: "m_capa m \<le> 2 * m_capa m" by simp
    show ?thesis
      using m_store_ok [of "m\<lparr>m_capa := 2 * m_capa m, m_buf := realloc (m_buf m) (2 * m_capa m)\<rparr>" "[x]"]
        m_ok_realloc [OF ok grow] room True
      by (simp add: m_rawbyte_def)
  next
    case False
    then show ?thesis
      using m_store_ok [OF ok, of "[x]"] by (simp add: m_rawbyte_def)
  qed
qed

lemma emits_rawbytes [codec_intros]: "emits (m_rawbytes p) p"
  unfolding emits_def
proof (intro allI impI)
  fix m assume ok: "m_ok m"
  define c where "c = (if m_capa m > length p then 2 * m_capa m else m_capa m + length p)"
  show "\<exists>m'. m_rawbytes p m = Some m' \<and> m_ok m' \<and> m_bytes m' = m_bytes m @ p
     \<and> take RPC_HEADER_SZ (m_buf m') = take RPC_HEADER_SZ (m_buf m)"
  proof (cases "m_ind m + length p > m_capa m")
    case True
    have room: "m_ind m + length p \<le> c" and grow: "m_capa m \<le> c"
      using ok by (auto simp: m_ok_def c_def)
    show ?thesis
      using m_store_ok [of "m\<lparr>m_capa := c, m_buf := realloc (m_buf m) c\<rparr>" p]
        m_ok_realloc [OF ok grow] room True
      by (simp add: m_rawbytes_def c_def Let_def)
  next
    case False
    then show ?thesis
      using m_store_ok [OF ok, of p] by (simp add: m_rawbytes_def)
  qed
qed

lemma emits_put_Nil [codec_intros]: "emits (put_all []) []"
  by (simp add: emits_def)

lemma emits_put_Cons [codec_intros]:
  assumes "emits f a" "emits (put_all fs) b"
  shows "emits (put_all (f # fs)) (a @ b)"
  using assms unfolding emits_def by (fastforce simp: bind_eq_Some_conv)

lemma emits_put_concat: "(\<And>x. x \<in> set xs \<Longrightarrow> emits (p x) (e x)) \<Longrightarrow> emits (put_all (map p xs)) (concat (map e xs))"
  by (induction xs) (auto intro!: emits_put_Cons emits_put_Nil simp del: put_all.simps)

lemma m_str_bytes: "m_ok m \<Longrightarrow> m_str m = Some (string_of_bytes (m_bytes m))"
proof -
  have "None \<notin> set xs \<Longrightarrow> those xs = Some (map the xs)" for xs :: "byte option list"
    by (induction xs) (auto split: option.splits, metis not_None_eq)
  then show "m_ok m \<Longrightarrow> ?thesis" by (simp add: m_str_def m_bytes_def m_ok_def)
qed

lemma m_ok_new [simp]: "m_ok marshall_new" and m_bytes_new [simp]: "m_bytes marshall_new = []"
  by (simp_all add: m_ok_def m_bytes_def marshall_new_def RPC_HEADER_SZ_def DEFAULT_RPC_SZ_def)


subsection \<open>What a reader consumes\<close>

definition u_ok :: "unmarshall \<Rightarrow> bool" where
  "u_ok u \<longleftrightarrow> u_good u \<and> u_ind u \<le> length (u_buf u) \<and> length (u_buf u) < 2 ^ 32"

definition u_rest :: "unmarshall \<Rightarrow> byte list" where
  "u_rest u = drop (u_ind u) (u_buf u)"

definition parses :: "(unmarshall \<Rightarrow> 'a \<times> unmarshall) \<Rightarrow> byte list \<Rightarrow> 'a \<Rightarrow> bool" where
  "parses g bs v \<longleftrightarrow> (\<forall>u rest. u_ok u \<longrightarrow> u_rest u = bs @ rest \<longrightarrow>
     g u = (v, u\<lparr>u_ind := u_ind u + length bs\<rparr>))"

lemma u_advance:
  assumes "u_ok u" "u_rest u = a @ b"
  shows "u_ok (u\<lparr>u_ind := u_ind u + length a\<rparr>)" "u_rest (u\<lparr>u_ind := u_ind u + length a\<rparr>) = b"
proof -
  have "length (u_buf u) - u_ind u = length a + length b"
    using assms by (metis length_append length_drop u_rest_def)
  then show "u_ok (u\<lparr>u_ind := u_ind u + length a\<rparr>)" using assms(1) by (auto simp: u_ok_def)
  show "u_rest (u\<lparr>u_ind := u_ind u + length a\<rparr>) = b"
    using assms(2) by (metis (no_types, lifting) add.commute append_eq_conv_conj drop_drop
        u_rest_def unmarshall.select_convs(1,2) unmarshall.surjective unmarshall.update_convs(2))
qed

lemma parsesD:
  "parses g bs v \<Longrightarrow> u_ok u \<Longrightarrow> u_rest u = bs @ rest \<Longrightarrow> g u = (v, u\<lparr>u_ind := u_ind u + length bs\<rparr>)"
  by (simp add: parses_def)

lemma parses_return [codec_intros]: "parses (\<lambda>u. (v, u)) [] v"
  by (simp add: parses_def)

lemma parses_bind [codec_intros]:
  assumes "parses g a x" "parses (k x) b y"
  shows "parses (\<lambda>u. let (x, u) = g u in k x u) (a @ b) y"
  unfolding parses_def
proof (intro allI impI)
  fix u rest assume u: "u_ok u" "u_rest u = (a @ b) @ rest"
  then have 1: "g u = (x, u\<lparr>u_ind := u_ind u + length a\<rparr>)"
    using assms(1) by (simp add: parses_def)
  have 2: "k x (u\<lparr>u_ind := u_ind u + length a\<rparr>) = (y, u\<lparr>u_ind := u_ind u + length a + length b\<rparr>)"
    using assms(2) u_advance [of u a "b @ rest"] u by (simp add: parses_def)
  show "(let (x, u) = g u in k x u) = (y, u\<lparr>u_ind := u_ind u + length (a @ b)\<rparr>)"
    by (simp add: 1 2 add.assoc)
qed

lemma parses_rawbyte: "parses u_rawbyte [b] (scast b)"
proof -
  have "u_ind u < length (u_buf u) \<and> u_buf u ! u_ind u = b" if "u_rest u = [b] @ rest" for u rest
    using that unfolding u_rest_def
    by (metis append_Cons append_Nil drop_eq_Nil hd_drop_conv_nth list.discI list.sel(1) not_le)
  then show ?thesis by (fastforce simp: parses_def u_rawbyte_def)
qed

lemma parses_conv: "parses g a x \<Longrightarrow> a = a' \<Longrightarrow> x = x' \<Longrightarrow> parses g a' x'"
  by simp

definition enc_u16 :: "u16 \<Rightarrow> byte list" where
  "enc_u16 x = [ucast (drop_bit 8 x AND 0xff), ucast (x AND 0xff)]"

definition enc_u32 :: "u32 \<Rightarrow> byte list" where
  "enc_u32 x = [ucast (drop_bit 24 x AND 0xff), ucast (drop_bit 16 x AND 0xff),
      ucast (drop_bit 8 x AND 0xff), ucast (x AND 0xff)]"

definition enc_u64 :: "u64 \<Rightarrow> byte list" where
  "enc_u64 x = enc_u32 (ucast (drop_bit 32 x)) @ enc_u32 (ucast x)"

definition enc_int :: "int \<Rightarrow> byte list" where
  "enc_int x = enc_u32 (word_of_int x)"

definition enc_string :: "string \<Rightarrow> byte list" where
  "enc_string s = enc_u32 (word_of_nat (length s)) @ bytes_of_string s"

definition enc_vector :: "('a \<Rightarrow> byte list) \<Rightarrow> 'a list \<Rightarrow> byte list" where
  "enc_vector e v = enc_u32 (word_of_nat (length v)) @ concat (map e v)"

lemma length_enc_u32 [simp]: "length (enc_u32 x) = 4"
  by (simp add: enc_u32_def)

lemma length_enc_words [simp]: "length (enc_u16 h) = 2" "length (enc_u64 l) = 8" "length (enc_int i) = 4"
  "length (enc_string s) = 4 + length s"
  by (simp_all add: enc_u16_def enc_u64_def enc_int_def enc_string_def)

lemma emits_conv: "emits f a \<Longrightarrow> a = b \<Longrightarrow> emits f b"
  by simp

lemma emits_u8: "emits (put_u8 x) [x]"
  unfolding put_u8_def by (rule emits_rawbyte)

lemma emits_u16: "emits (put_u16 x) (enc_u16 x)"
  unfolding put_u16_def enc_u16_def by (rule emits_conv, (rule codec_intros)+) simp

lemma emits_u32: "emits (put_u32 x) (enc_u32 x)"
  unfolding put_u32_def enc_u32_def by (rule emits_conv, (rule codec_intros)+) simp

lemma emits_u64: "emits (put_u64 x) (enc_u64 x)"
  unfolding put_u64_def enc_u64_def by (rule emits_conv, (rule codec_intros emits_u32)+) simp

lemma emits_int: "emits (put_int x) (enc_int x)"
  unfolding put_int_def enc_int_def by (rule emits_u32)

lemma emits_string: "emits (put_string s) (enc_string s)"
  unfolding put_string_def enc_string_def by (rule emits_conv, (rule codec_intros emits_u32)+) simp

lemma ucast_scast_byte: "ucast (scast b :: u32) = (b::byte)"
  by (rule bit_word_eqI) (simp add: bit_simps min_absorb2)

lemma parses_u8: "parses get_u8 [b] b"
  unfolding get_u8_def
  by (rule parses_conv, (rule codec_intros parses_rawbyte)+) (simp, simp add: ucast_scast_byte)

lemma parses_u16: "parses get_u16 (enc_u16 x) x"
  unfolding get_u16_def enc_u16_def
  by (rule parses_conv, (rule codec_intros parses_rawbyte)+)
     (simp, simp only: scast_and_ff u16_of_bytes)

lemma parses_u32: "parses get_u32 (enc_u32 x) x"
  unfolding get_u32_def enc_u32_def
  by (rule parses_conv, (rule codec_intros parses_rawbyte)+)
     (simp, simp only: scast_and_ff u32_of_bytes)

lemma parses_unpack: "parses u_unpack (enc_u32 x) x"
  using parses_u32 [of x] by (simp add: parses_def get_u32_def u_unpack_def)

lemma parses_u64: "parses get_u64 (enc_u64 x) x"
  unfolding get_u64_def enc_u64_def
  by (rule parses_conv, (rule codec_intros parses_u32)+) (simp, simp only: u64_of_u32s)

lemma parses_int: "int32_ok x \<Longrightarrow> parses get_int (enc_int x) x"
  unfolding get_int_def enc_int_def
  by (rule parses_conv, (rule codec_intros parses_u32)+) (simp, simp add: sint_word_of_int32)

text \<open>Within a buffer below 4 GiB the bounds test of \<open>rawbytes\<close> is exact.\<close>

lemma parses_rawbytes:
  assumes "length s < 2 ^ 32"
  shows "parses (u_rawbytes t (word_of_nat (length s))) (bytes_of_string s) s"
  unfolding parses_def
proof (intro allI impI)
  fix u rest assume u: "u_ok u" and rest: "u_rest u = bytes_of_string s @ rest"
  have "length (u_buf u) - u_ind u = length s + length rest"
    using rest by (metis length_append length_bytes_of_string length_drop u_rest_def)
  then have fits: "u_ind u + length s \<le> length (u_buf u)" and small: "length (u_buf u) < 2 ^ 32"
    using u by (auto simp: u_ok_def)
  then have "\<not> (word_of_nat (u_ind u) + word_of_nat (length s) :: u32) > word_of_nat (length (u_buf u))"
    by (simp add: word_less_nat_alt unat_of_nat flip: of_nat_add)
  moreover have "take (length s) (u_rest u) = bytes_of_string s"
    using rest by simp
  ultimately show "u_rawbytes t (word_of_nat (length s)) u
      = (s, u\<lparr>u_ind := u_ind u + length (bytes_of_string s)\<rparr>)"
    using assms fits by (simp add: u_rawbytes_def u_rest_def unat_of_nat)
qed

lemma parses_string:
  assumes "length s < 2 ^ 32"
  shows "parses get_string (enc_string s) s"
  unfolding parses_def
proof (intro allI impI)
  fix u rest assume u: "u_ok u" and rest: "u_rest u = enc_string s @ rest"
  have 1: "get_u32 u = (word_of_nat (length s), u\<lparr>u_ind := u_ind u + 4\<rparr>)"
    using parses_u32 u rest by (simp add: parses_def enc_string_def)
  have v: "u_ok (u\<lparr>u_ind := u_ind u + 4\<rparr>)" "u_rest (u\<lparr>u_ind := u_ind u + 4\<rparr>) = bytes_of_string s @ rest"
    using u_advance [OF u, of "enc_u32 (word_of_nat (length s))"] rest by (simp_all add: enc_string_def)
  show "get_string u = (s, u\<lparr>u_ind := u_ind u + length (enc_string s)\<rparr>)"
    using parses_rawbytes [OF assms, of "[]"] v u
    by (simp add: get_string_def get_string_into_def 1 parses_def u_ok_def add.assoc)
qed

lemma parses_many:
  assumes "\<And>x. x \<in> set xs \<Longrightarrow> parses g (e x) x"
  shows "parses (get_many g (length xs)) (concat (map e xs)) xs"
  using assms
proof (induction xs)
  case (Cons x xs)
  have 1: "parses g (e x) x" and 2: "parses (get_many g (length xs)) (concat (map e xs)) xs"
    using Cons by simp_all
  let ?k = "\<lambda>z u. let (zs, u) = get_many g (length xs) u in (z # zs, u)"
  have "parses (?k x) (concat (map e xs) @ []) (x # xs)"
    by (rule parses_bind [OF 2 parses_return])
  with 1 have "parses (\<lambda>u. let (z, u) = g u in ?k z u) (e x @ concat (map e xs) @ []) (x # xs)"
    by (rule parses_bind)
  then show ?case by (simp add: parses_def)
qed (simp add: parses_def)


subsection \<open>Codecs\<close>

text \<open>
  The contract of a pair of operators \<open><<\<close> and \<open>>>\<close> for one C++ type: on every value a client
  may send, the writer appends the encoding and the reader consumes exactly those bytes.
\<close>

locale codec =
  fixes wf :: "'a \<Rightarrow> bool"
    and put :: "'a \<Rightarrow> marshall \<Rightarrow> marshall option"
    and get :: "unmarshall \<Rightarrow> 'a \<times> unmarshall"
    and enc :: "'a \<Rightarrow> byte list"
  assumes put_emits: "wf x \<Longrightarrow> emits (put x) (enc x)"
    and get_parses: "wf x \<Longrightarrow> parses get (enc x) x"
begin

lemma get_put:
  assumes "wf x" "length (enc x) + RPC_HEADER_SZ < 2 ^ 32"
  shows "\<exists>m s u. put x marshall_new = Some m \<and> m_str m = Some s
    \<and> get (unmarshall_string s) = (x, u) \<and> okdone u \<and> \<not> u_overread u"
proof -
  obtain m where m: "put x marshall_new = Some m" "m_ok m" "m_bytes m = enc x"
    using emitsD [OF put_emits [OF assms(1)] m_ok_new] by auto
  define u where "u = unmarshall_string (string_of_bytes (enc x))"
  have "u_ok u" "u_rest u = enc x @ []"
    using assms(2) by (simp_all add: u_ok_def u_rest_def u_def unmarshall_string_def)
  then have "get u = (x, u\<lparr>u_ind := u_ind u + length (enc x)\<rparr>)"
    using get_parses [OF assms(1)] by (simp add: parses_def)
  then show ?thesis
    using m by (auto simp: m_str_bytes u_def unmarshall_string_def okdone_def)
qed

lemma enc_prefix_free:
  assumes "wf x" "wf y" "enc x @ r = enc y @ r'" "length (enc x @ r) < 2 ^ 32"
  shows "x = y \<and> r = r'"
proof -
  define u where "u = unmarshall_pdu (enc x @ r)"
  have u: "u_ok u" "u_rest u = enc x @ r" "u_rest u = enc y @ r'"
    using assms by (simp_all add: u_ok_def u_rest_def u_def unmarshall_pdu_def)
  have "get u = (x, u\<lparr>u_ind := u_ind u + length (enc x)\<rparr>)"
    using parsesD [OF get_parses u(1,2)] assms(1) by blast
  moreover have "get u = (y, u\<lparr>u_ind := u_ind u + length (enc y)\<rparr>)"
    using parsesD [OF get_parses u(1,3)] assms(2) by blast
  ultimately show ?thesis using assms(3) by simp
qed

lemma vector_codec:
  "codec (\<lambda>v. length v < 2 ^ 32 \<and> (\<forall>x \<in> set v. wf x)) (put_vector put) (get_vector_into get []) (enc_vector enc)"
proof (unfold_locales)
  fix v assume v: "length v < 2 ^ 32 \<and> (\<forall>x \<in> set v. wf x)"
  show "emits (put_vector put v) (enc_vector enc v)"
    unfolding put_vector_def enc_vector_def
    using v put_emits by (intro emits_put_Cons emits_u32 emits_put_concat) auto
  have n: "unat (word_of_nat (length v) :: u32) = length v"
    using v by (simp add: unat_of_nat)
  have 2: "parses (get_many get (unat (word_of_nat (length v) :: u32))) (concat (map enc v)) v"
    unfolding n using v get_parses by (intro parses_many) auto
  let ?k = "\<lambda>(n::u32) u. let (zs, u) = get_many get (unat n) u in ([] @ zs, u)"
  have "parses (?k (word_of_nat (length v))) (concat (map enc v) @ []) ([] @ v)"
    by (rule parses_bind [OF 2 parses_return])
  from parses_bind [of get_u32 _ _ ?k, OF parses_u32 this]
  show "parses (get_vector_into get []) (enc_vector enc v) v"
    unfolding get_vector_into_def enc_vector_def by simp
qed

end


lemma emits_put_two: "emits f a \<Longrightarrow> emits g b \<Longrightarrow> emits (put_all [f, g]) (a @ b)"
  using emits_put_Cons [of f a "[g]" b] emits_put_Cons [of g b "[]" "[]"] emits_put_Nil by simp

lemma fold_mput_lookup: "mfind (fold (\<lambda>(a, b). mput a b) zs m) = mfind m ++ map_of (rev zs)"
  by (induction zs arbitrary: m) (auto simp: map_add_def fun_eq_iff split: option.splits)

lemma fold_mput_ok: "sm_ok m \<Longrightarrow> sm_ok (fold (\<lambda>(a, b). mput a b) zs m)"
  by (induction zs arbitrary: m) (auto simp: mput_sorted)

lemma fold_mput_self:
  assumes "sm_ok d"
  shows "fold (\<lambda>(a, b). mput a b) d [] = d"
proof (rule stdmap.items_eqI)
  show "sm_ok (fold (\<lambda>(a, b). mput a b) d [])" by (rule fold_mput_ok) (simp add: sm_ok_def)
  have "distinct (map fst d)" using assms by (simp add: sm_ok_def strict_sorted_iff)
  then have "map_of (rev d) = map_of d" by (subst map_of_inject_set) (simp_all flip: rev_map)
  then show "mfind (fold (\<lambda>(a, b). mput a b) d []) = mfind d"
    by (simp add: fold_mput_lookup fun_eq_iff map_add_def mfind_def split: option.splits)
qed fact

definition enc_pair :: "('a \<Rightarrow> byte list) \<Rightarrow> ('b \<Rightarrow> byte list) \<Rightarrow> 'a \<times> 'b \<Rightarrow> byte list" where
  "enc_pair e f = (\<lambda>(a, b). e a @ f b)"

locale codec_pair = a: codec wfa puta geta enca + b: codec wfb putb getb encb
  for wfa :: "'a::linorder \<Rightarrow> bool" and puta geta enca
    and wfb :: "'b \<Rightarrow> bool" and putb getb encb
begin

lemma pair_parses: "wfa x \<Longrightarrow> wfb y \<Longrightarrow> parses (get_pair geta getb) (enc_pair enca encb (x, y)) (x, y)"
proof -
  assume "wfa x" "wfb y"
  let ?k = "\<lambda>x u. let (b, u) = getb u in ((x, b), u)"
  have "parses (?k x) (encb y @ []) (x, y)"
    by (rule parses_bind [OF b.get_parses [OF \<open>wfb y\<close>] parses_return])
  from parses_bind [of geta _ _ ?k, OF a.get_parses [OF \<open>wfa x\<close>] this]
  show ?thesis unfolding get_pair_def enc_pair_def by simp
qed

lemma pair_codec:
  "codec (\<lambda>(x, y). wfa x \<and> wfb y) (\<lambda>(a, b). put_all [puta a, putb b]) (get_pair geta getb) (enc_pair enca encb)"
proof (unfold_locales)
  fix p :: "'a \<times> 'b" assume p: "case p of (x, y) \<Rightarrow> wfa x \<and> wfb y"
  then show "emits (case p of (a, b) \<Rightarrow> put_all [puta a, putb b]) (enc_pair enca encb p)"
    using a.put_emits b.put_emits by (auto simp: enc_pair_def intro!: emits_put_two)
  from p show "parses (get_pair geta getb) (enc_pair enca encb p) p"
    using pair_parses by (cases p) auto
qed

lemma map_codec:
  "codec (\<lambda>d. sm_ok d \<and> length d < 2 ^ 32 \<and> (\<forall>(x, y) \<in> set d. wfa x \<and> wfb y))
     (put_map puta putb) (get_map geta getb) (enc_vector (enc_pair enca encb))"
proof (unfold_locales)
  fix d assume d: "sm_ok d \<and> length d < 2 ^ 32 \<and> (\<forall>(x, y) \<in> set d. wfa x \<and> wfb y)"
  have "emits (case p of (x, y) \<Rightarrow> put_all [puta x, putb y]) (enc_pair enca encb p)" if "p \<in> set d" for p
    using that d a.put_emits b.put_emits by (auto simp: enc_pair_def intro!: emits_put_two)
  then show "emits (put_map puta putb d) (enc_vector (enc_pair enca encb) d)"
    unfolding put_map_def enc_vector_def by (intro emits_put_Cons emits_u32 emits_put_concat)
  have n: "unat (word_of_nat (length d) :: u32) = length d"
    using d by (simp add: unat_of_nat)
  have 2: "parses (get_many (get_pair geta getb) (unat (word_of_nat (length d) :: u32)))
      (concat (map (enc_pair enca encb) d)) d"
    unfolding n using d pair_parses by (intro parses_many) auto
  let ?k = "\<lambda>(n::u32) u. let (zs, u) = get_many (get_pair geta getb) (unat n) u
      in (fold (\<lambda>(a, b). mput a b) zs [], u)"
  have "parses (?k (word_of_nat (length d))) (concat (map (enc_pair enca encb) d) @ [])
      (fold (\<lambda>(a, b). mput a b) d [])"
    by (rule parses_bind [OF 2 parses_return])
  from parses_bind [of get_u32 _ _ ?k, OF parses_u32 this] fold_mput_self [of d] d
  show "parses (get_map geta getb) (enc_vector (enc_pair enca encb) d) d"
    unfolding get_map_def enc_vector_def by simp
qed

end

interpretation c_u16: codec "\<lambda>_. True" put_u16 get_u16 enc_u16
  by unfold_locales (rule emits_u16 parses_u16)+

interpretation c_u32: codec "\<lambda>_. True" put_u32 get_u32 enc_u32
  by unfold_locales (rule emits_u32 parses_u32)+

interpretation c_u64: codec "\<lambda>_. True" put_u64 get_u64 enc_u64
  by unfold_locales (rule emits_u64 parses_u64)+

interpretation c_int: codec int32_ok put_int get_int enc_int
  by unfold_locales (rule emits_int parses_int, assumption?)+

abbreviation str_ok :: "string \<Rightarrow> bool" where
  "str_ok s \<equiv> length s < 2 ^ 32"

interpretation c_string: codec str_ok put_string get_string enc_string
  by unfold_locales (rule emits_string parses_string, assumption?)+


subsection \<open>RPC headers\<close>

lemma m_store_append:
  assumes "m_ind m + length (a @ b) \<le> length (m_buf m)"
  shows "m_store a m \<bind> m_store b = m_store (a @ b) m"
  using assms by (simp add: m_store_def min_absorb2 drop_append ac_simps)

lemma put_rawbytes_in_place:
  assumes "length (m_buf m) = m_capa m" "m_ind m + length bs \<le> m_capa m"
  shows "put_all (map m_rawbyte bs) m = m_store bs m"
  using assms
proof (induction bs arbitrary: m)
  case (Cons b bs)
  have 1: "m_rawbyte b m = m_store [b] m" and fits: "m_ind m + length ([b] @ bs) \<le> length (m_buf m)"
    using Cons.prems by (simp_all add: m_rawbyte_def)
  obtain m' where m': "m_store [b] m = Some m'" "length (m_buf m') = m_capa m'" "m_ind m' + length bs \<le> m_capa m'"
    using Cons.prems by (auto simp: m_store_def)
  show ?case
    using Cons.IH [OF m'(2,3)] m_store_append [OF fits] by (simp add: 1 m'(1))
qed (simp add: m_store_def)

lemma put_all_append: "put_all (fs @ gs) = (\<lambda>m. put_all fs m \<bind> put_all gs)"
  by (induction fs) (rule ext, simp)+

lemma m_pack_enc: "m_pack x = put_all (map m_rawbyte (enc_u32 x))"
  by (simp add: m_pack_def enc_u32_def)

lemma put_all_packs: "put_all (map m_pack xs) = put_all (map m_rawbyte (concat (map enc_u32 xs)))"
  by (induction xs) (simp, rule ext, simp add: put_all_append m_pack_enc)

definition req_words :: "req_header \<Rightarrow> u32 list" where
  "req_words h = [rq_xid h, rq_proc h, rq_clt_nonce h, rq_srv_nonce h, rq_xid_rep h]"

definition reply_words :: "reply_header \<Rightarrow> u32 list" where
  "reply_words h = [rp_xid h, word_of_int (rp_ret h)]"

lemma pack_header_store:
  assumes "m_ok m" "length xs \<le> 5"
  shows "put_all (map m_pack xs) (m\<lparr>m_ind := 4\<rparr>) \<bind> (\<lambda>m'. Some (m'\<lparr>m_ind := m_ind m\<rparr>))
    = Some (m\<lparr>m_buf := take 4 (m_buf m) @ map Some (concat (map enc_u32 xs)) @ drop (4 + 4 * length xs) (m_buf m)\<rparr>)"
proof -
  have len: "length (concat (map enc_u32 xs)) = 4 * length xs"
    by (induction xs) simp_all
  have "put_all (map m_pack xs) (m\<lparr>m_ind := 4\<rparr>) = m_store (concat (map enc_u32 xs)) (m\<lparr>m_ind := 4\<rparr>)"
    unfolding put_all_packs using assms len
    by (intro put_rawbytes_in_place) (auto simp: m_ok_def RPC_HEADER_SZ_def)
  then show ?thesis
    using assms len by (simp add: m_store_def m_ok_def RPC_HEADER_SZ_def)
qed

text \<open>
  The bytes of a sent message once the channel has filled in the size word.  An indeterminate cell is
  transmitted too, as whatever the allocation held; the model lets it hold 0.
\<close>

definition cell_byte :: "byte option \<Rightarrow> byte" where
  "cell_byte c = (case c of Some b \<Rightarrow> b | None \<Rightarrow> 0)"

lemma cell_byte_Some [simp]: "cell_byte (Some b) = b"
  by (simp add: cell_byte_def)

lemma map_cell_byte: "None \<notin> set xs \<Longrightarrow> map cell_byte xs = map the xs"
  by (auto simp: cell_byte_def split: option.splits)

definition pdu_bytes :: "u32 \<Rightarrow> marshall \<Rightarrow> byte list" where
  "pdu_bytes sz m = enc_u32 sz @ map cell_byte (drop 4 (take (m_ind m) (m_buf m)))"

lemma parses_unpacks:
  "parses (\<lambda>u. let (x, u) = u_unpack u; (p, u) = u_unpack u; (c, u) = u_unpack u;
      (s, u) = u_unpack u; (xr, u) = u_unpack u in ((x, p, c, s, xr), u))
    (concat (map enc_u32 [x, p, c, s, xr])) (x, p, c, s, xr)"
  by (rule parses_conv, (rule codec_intros parses_unpack)+) simp_all

lemma unpack_req_header_enc:
  assumes "length b = 4" "length (b @ concat (map enc_u32 (req_words h)) @ r) < 2 ^ 32" "u_good u"
    "u_buf u = b @ concat (map enc_u32 (req_words h)) @ r"
  shows "unpack_req_header u = (h, u\<lparr>u_ind := RPC_HEADER_SZ\<rparr>)"
proof -
  have ok: "u_ok (u\<lparr>u_ind := 4\<rparr>)" "u_rest (u\<lparr>u_ind := 4\<rparr>) = concat (map enc_u32 (req_words h)) @ r"
    using assms by (simp_all add: u_ok_def u_rest_def)
  show ?thesis
    using parsesD [OF parses_unpacks ok(1), of "rq_xid h" "rq_proc h" "rq_clt_nonce h" "rq_srv_nonce h" "rq_xid_rep h" r]
      ok(2)
    by (auto simp: unpack_req_header_def req_words_def Let_def split: prod.splits)
qed


lemma parses_unpacks2:
  "parses (\<lambda>u. let (x, u) = u_unpack u; (p, u) = u_unpack u in ((x, p), u))
    (concat (map enc_u32 [x, p])) (x, p)"
  by (rule parses_conv, (rule codec_intros parses_unpack)+) simp_all

lemma unpack_reply_header_enc:
  assumes "length b = 4" "length (b @ concat (map enc_u32 (reply_words h)) @ r) < 2 ^ 32" "u_good u"
    "u_buf u = b @ concat (map enc_u32 (reply_words h)) @ r" "int32_ok (rp_ret h)"
  shows "unpack_reply_header u = (h, u\<lparr>u_ind := RPC_HEADER_SZ\<rparr>)"
proof -
  have ok: "u_ok (u\<lparr>u_ind := 4\<rparr>)" "u_rest (u\<lparr>u_ind := 4\<rparr>) = concat (map enc_u32 (reply_words h)) @ r"
    using assms by (simp_all add: u_ok_def u_rest_def)
  show ?thesis
    using parsesD [OF parses_unpacks2 ok(1), of "rp_xid h" "word_of_int (rp_ret h)" r] ok(2) assms(5)
    by (auto simp: unpack_reply_header_def reply_words_def Let_def sint_word_of_int32 split: prod.splits)
qed

lemma take_header_drop4:
  assumes "m_ok m" "length bs \<le> 20"
    "m' = m\<lparr>m_buf := take 4 (m_buf m) @ map Some bs @ drop (4 + length bs) (m_buf m)\<rparr>"
  shows "m_ok m'" "m_bytes m' = m_bytes m"
    "pdu_bytes sz m' = enc_u32 sz @ bs @ map cell_byte (drop (4 + length bs) (take (m_ind m) (m_buf m)))"
proof -
  have len: "4 + length bs \<le> m_ind m" "length (m_buf m) = m_capa m" "m_ind m \<le> m_capa m" "24 \<le> m_ind m"
    using assms(1,2) by (auto simp: m_ok_def RPC_HEADER_SZ_def)
  have tk: "take (m_ind m) (m_buf m') = take 4 (m_buf m) @ map Some bs @ drop (4 + length bs) (take (m_ind m) (m_buf m))"
    using len by (simp add: assms(3) min_absorb2 drop_take)
  have "drop RPC_HEADER_SZ (take (m_ind m) (m_buf m')) = drop RPC_HEADER_SZ (take (m_ind m) (m_buf m))"
    using len assms(2) unfolding tk RPC_HEADER_SZ_def by (simp add: min_absorb2)
  then show "m_ok m'" "m_bytes m' = m_bytes m"
    using assms(1) len by (simp_all add: m_ok_def m_bytes_def assms(3))
  have "drop 4 (take (m_ind m) (m_buf m')) = map Some bs @ drop (4 + length bs) (take (m_ind m) (m_buf m))"
    using len unfolding tk by simp
  then show "pdu_bytes sz m' = enc_u32 sz @ bs @ map cell_byte (drop (4 + length bs) (take (m_ind m) (m_buf m)))"
    by (simp add: pdu_bytes_def assms(3) comp_def)
qed

text \<open>The two header kinds on the wire, in front of the marshalled content.\<close>

lemma req_pdu:
  assumes "m_ok m"
  shows "\<exists>m'. pack_req_header h m = Some m' \<and> m_ok m' \<and> m_bytes m' = m_bytes m \<and> m_ind m' = m_ind m
    \<and> pdu_bytes sz m' = enc_u32 sz @ concat (map enc_u32 (req_words h)) @ m_bytes m"
proof -
  define bs where "bs = concat (map enc_u32 (req_words h))"
  have len: "length bs = 20" by (simp add: bs_def req_words_def)
  define m' where "m' = m\<lparr>m_buf := take 4 (m_buf m) @ map Some bs @ drop (4 + length bs) (m_buf m)\<rparr>"
  have "pack_req_header h m = put_all (map m_pack (req_words h)) (m\<lparr>m_ind := 4\<rparr>) \<bind> (\<lambda>m'. Some (m'\<lparr>m_ind := m_ind m\<rparr>))"
    by (simp add: pack_req_header_def req_words_def Let_def)
  then have 1: "pack_req_header h m = Some m'"
    using pack_header_store [OF assms(1), of "req_words h"] len
    by (simp add: m'_def bs_def req_words_def)
  have "map cell_byte (drop 24 (take (m_ind m) (m_buf m))) = m_bytes m"
    using assms map_cell_byte by (auto simp: m_bytes_def m_ok_def RPC_HEADER_SZ_def)
  then show ?thesis
    using 1 take_header_drop4 [OF assms(1) _ m'_def] len by (auto simp: bs_def m'_def)
qed

lemma reply_pdu:
  assumes "m_ok m"
  shows "\<exists>m' junk. pack_reply_header h m = Some m' \<and> m_ok m' \<and> m_bytes m' = m_bytes m \<and> m_ind m' = m_ind m \<and> length junk = 12
    \<and> pdu_bytes sz m' = enc_u32 sz @ concat (map enc_u32 (reply_words h)) @ junk @ m_bytes m"
proof -
  define bs where "bs = concat (map enc_u32 (reply_words h))"
  have len: "length bs = 8" by (simp add: bs_def reply_words_def)
  define m' where "m' = m\<lparr>m_buf := take 4 (m_buf m) @ map Some bs @ drop (4 + length bs) (m_buf m)\<rparr>"
  have "pack_reply_header h m = put_all (map m_pack (reply_words h)) (m\<lparr>m_ind := 4\<rparr>) \<bind> (\<lambda>m'. Some (m'\<lparr>m_ind := m_ind m\<rparr>))"
    by (simp add: pack_reply_header_def reply_words_def Let_def)
  then have 1: "pack_reply_header h m = Some m'"
    using pack_header_store [OF assms(1), of "reply_words h"] len
    by (simp add: m'_def bs_def reply_words_def)
  define t where "t = take (m_ind m) (m_buf m)"
  have lt: "24 \<le> length t" using assms by (simp add: t_def m_ok_def RPC_HEADER_SZ_def)
  have "map cell_byte (drop 24 t) = m_bytes m"
    using assms map_cell_byte by (auto simp: m_bytes_def m_ok_def RPC_HEADER_SZ_def t_def)
  moreover have "drop 12 t = take 12 (drop 12 t) @ drop 24 t"
    by (metis append_take_drop_id drop_drop numeral_Bit0 mult_2 add.commute)
  ultimately have "map cell_byte (drop 12 t) = map cell_byte (take 12 (drop 12 t)) @ m_bytes m"
    by (metis map_append)
  moreover have "pdu_bytes sz m' = enc_u32 sz @ bs @ map cell_byte (drop 12 t)"
    using take_header_drop4(3) [OF assms(1) _ m'_def] len by (simp add: t_def)
  moreover have "m_ok m'" "m_bytes m' = m_bytes m" "m_ind m' = m_ind m"
    using take_header_drop4(1,2) [OF assms(1) _ m'_def] len by (simp_all add: m'_def)
  moreover have "length (map cell_byte (take 12 (drop 12 t))) = 12" using lt by simp
  ultimately show ?thesis using 1 by (metis bs_def)
qed

lemma req_header_lemma:
  assumes "m_ok m" "m_ind m < 2 ^ 32"
  shows "\<exists>m'. pack_req_header h m = Some m' \<and> m_ok m' \<and> m_bytes m' = m_bytes m
    \<and> unpack_req_header (unmarshall_pdu (pdu_bytes sz m'))
        = (h, (unmarshall_pdu (pdu_bytes sz m'))\<lparr>u_ind := RPC_HEADER_SZ\<rparr>)"
proof -
  obtain m' where m': "pack_req_header h m = Some m'" "m_ok m'" "m_bytes m' = m_bytes m"
    "pdu_bytes sz m' = enc_u32 sz @ concat (map enc_u32 (req_words h)) @ m_bytes m"
    using req_pdu [OF assms(1)] by blast
  have "length (m_bytes m) + 24 < 2 ^ 32"
    using assms by (simp add: m_ok_def m_bytes_def RPC_HEADER_SZ_def)
  then have "unpack_req_header (unmarshall_pdu (pdu_bytes sz m'))
      = (h, (unmarshall_pdu (pdu_bytes sz m'))\<lparr>u_ind := RPC_HEADER_SZ\<rparr>)"
    using m'(4) by (intro unpack_req_header_enc [of "enc_u32 sz"]) (simp_all add: unmarshall_pdu_def req_words_def)
  then show ?thesis using m' by blast
qed

text \<open>
  A request header survives the wire: packing it in front of any well-formed message
  succeeds without disturbing the marshalled arguments, and the receiver's \<open>unpack_req_header\<close>
  reads the same header back from the transmitted bytes and leaves the cursor at the arguments.
\<close>

lemma req_header_roundtrip:
  assumes "m_ok m" "m_ind m < 2 ^ 32"
  shows "\<exists>m'. pack_req_header h m = Some m' \<and> m_ok m' \<and> m_bytes m' = m_bytes m
    \<and> unpack_req_header (unmarshall_pdu (pdu_bytes sz m'))
        = (h, (unmarshall_pdu (pdu_bytes sz m'))\<lparr>u_ind := RPC_HEADER_SZ\<rparr>)"
  using assms by (rule req_header_lemma)

end
