(* ===== verification/Protocols.thy ===== *)
theory Protocols
  imports Marshall
begin

text \<open>
  The wire protocols: \<open>paxos_protocol.h\<close> (proposal numbers, prepare/accept/decide structs), \<open>rsm_protocol.h\<close>
  (viewstamps, state transfer and join results) and \<open>extent_protocol.h\<close> (attributes), with the comparison
  operators of \<open>paxos.cc\<close> and \<open>rsm_protocol.h\<close>.  Each struct's marshalling is an instance of the \<open>codec\<close> interface
  of theory \<open>Marshall\<close>, so its round trip comes from the interface.
\<close>

datatype prop_t = Prop (pn: u32) (pm: string)

text \<open>\<open>operator>\<close> and \<open>operator>=\<close> on proposal numbers.\<close>

definition prop_gt :: "prop_t \<Rightarrow> prop_t \<Rightarrow> bool" where
  "prop_gt a b \<longleftrightarrow> pn a > pn b \<or> (pn a = pn b \<and> pm a > pm b)"

definition prop_ge :: "prop_t \<Rightarrow> prop_t \<Rightarrow> bool" where
  "prop_ge a b \<longleftrightarrow> pn a > pn b \<or> (pn a = pn b \<and> pm a \<ge> pm b)"

datatype viewstamp = Viewstamp (vid: u32) (seqno: u32)

definition viewstamp_eq :: "viewstamp \<Rightarrow> viewstamp \<Rightarrow> bool" where
  "viewstamp_eq a b \<longleftrightarrow> vid a = vid b \<and> seqno a = seqno b"

definition viewstamp_gt :: "viewstamp \<Rightarrow> viewstamp \<Rightarrow> bool" where
  "viewstamp_gt a b \<longleftrightarrow> vid a > vid b \<or> (vid a = vid b \<and> seqno a > seqno b)"

definition viewstamp_ne :: "viewstamp \<Rightarrow> viewstamp \<Rightarrow> bool" where
  "viewstamp_ne a b \<longleftrightarrow> vid a \<noteq> vid b \<or> seqno a \<noteq> seqno b"

text \<open>Proposal numbers and viewstamps are linear orders, so the library's order automation applies.\<close>

instantiation prop_t :: linorder
begin

definition less_eq_prop_t :: "prop_t \<Rightarrow> prop_t \<Rightarrow> bool" where
  "less_eq_prop_t a b \<longleftrightarrow> pn a < pn b \<or> (pn a = pn b \<and> pm a \<le> pm b)"

definition less_prop_t :: "prop_t \<Rightarrow> prop_t \<Rightarrow> bool" where
  "less_prop_t a b \<longleftrightarrow> pn a < pn b \<or> (pn a = pn b \<and> pm a < pm b)"

instance
  by standard (auto simp: less_eq_prop_t_def less_prop_t_def prop_t.expand)

end

instantiation viewstamp :: linorder
begin

definition less_eq_viewstamp :: "viewstamp \<Rightarrow> viewstamp \<Rightarrow> bool" where
  "less_eq_viewstamp a b \<longleftrightarrow> vid a < vid b \<or> (vid a = vid b \<and> seqno a \<le> seqno b)"

definition less_viewstamp :: "viewstamp \<Rightarrow> viewstamp \<Rightarrow> bool" where
  "less_viewstamp a b \<longleftrightarrow> vid a < vid b \<or> (vid a = vid b \<and> seqno a < seqno b)"

instance
  by standard (auto simp: less_eq_viewstamp_def less_viewstamp_def viewstamp.expand)

end

lemma prop_gt_less [simp]: "prop_gt a b \<longleftrightarrow> b < a"
  by (auto simp: prop_gt_def less_prop_t_def)

lemma prop_ge_le [simp]: "prop_ge a b \<longleftrightarrow> b \<le> a"
  by (auto simp: prop_ge_def less_eq_prop_t_def)

lemma prop_le_pn: "a \<le> b \<Longrightarrow> pn a \<le> pn b"
  by (auto simp: less_eq_prop_t_def)

lemma viewstamp_ops [simp]:
  "viewstamp_gt a b \<longleftrightarrow> b < a" "viewstamp_eq a b \<longleftrightarrow> a = b" "viewstamp_ne a b \<longleftrightarrow> a \<noteq> b"
  by (auto simp: viewstamp_gt_def viewstamp_eq_def viewstamp_ne_def less_viewstamp_def viewstamp.expand)

subsection \<open>Structs\<close>

datatype paxos_status = POK | PERR

record preparearg =
  pa_instance :: u32
  pa_n :: prop_t
  pa_v :: string

record prepareres =
  oldinstance :: int
  accept :: int
  res_n_a :: prop_t
  res_v_a :: string

record acceptarg =
  aa_instance :: u32
  aa_n :: prop_t
  aa_v :: string

record decidearg =
  da_instance :: u32
  da_v :: string

record transferres =
  tr_state :: string
  tr_last :: viewstamp

record joinres =
  jr_log :: string

record attr =
  atime :: u32
  mtime :: u32
  ctime :: u32
  size_of :: u32

definition maxextent :: u32 where
  "maxextent = 8192 * 1000"

subsection \<open>Marshalling operators\<close>

definition put_prop :: "prop_t \<Rightarrow> marshall \<Rightarrow> marshall option" where
  "put_prop a = put_all [put_u32 (pn a), put_string (pm a)]"

definition get_prop :: "unmarshall \<Rightarrow> prop_t \<times> unmarshall" where
  "get_prop u = (let (n, u) = get_u32 u; (m, u) = get_string u in (Prop n m, u))"

definition put_preparearg :: "preparearg \<Rightarrow> marshall \<Rightarrow> marshall option" where
  "put_preparearg a = put_all [put_u32 (pa_instance a), put_prop (pa_n a), put_string (pa_v a)]"

definition get_preparearg :: "unmarshall \<Rightarrow> preparearg \<times> unmarshall" where
  "get_preparearg u = (let (i, u) = get_u32 u; (n, u) = get_prop u; (v, u) = get_string u
     in (\<lparr>pa_instance = i, pa_n = n, pa_v = v\<rparr>, u))"

definition put_prepareres :: "prepareres \<Rightarrow> marshall \<Rightarrow> marshall option" where
  "put_prepareres r =
     put_all [put_int (oldinstance r), put_int (accept r), put_prop (res_n_a r), put_string (res_v_a r)]"

definition get_prepareres :: "unmarshall \<Rightarrow> prepareres \<times> unmarshall" where
  "get_prepareres u = (let (i, u) = get_int u; (a, u) = get_int u; (n, u) = get_prop u; (v, u) = get_string u
     in (\<lparr>oldinstance = i, accept = a, res_n_a = n, res_v_a = v\<rparr>, u))"

definition put_acceptarg :: "acceptarg \<Rightarrow> marshall \<Rightarrow> marshall option" where
  "put_acceptarg a = put_all [put_u32 (aa_instance a), put_prop (aa_n a), put_string (aa_v a)]"

definition get_acceptarg :: "unmarshall \<Rightarrow> acceptarg \<times> unmarshall" where
  "get_acceptarg u = (let (i, u) = get_u32 u; (n, u) = get_prop u; (v, u) = get_string u
     in (\<lparr>aa_instance = i, aa_n = n, aa_v = v\<rparr>, u))"

definition put_decidearg :: "decidearg \<Rightarrow> marshall \<Rightarrow> marshall option" where
  "put_decidearg a = put_all [put_u32 (da_instance a), put_string (da_v a)]"

definition get_decidearg :: "unmarshall \<Rightarrow> decidearg \<times> unmarshall" where
  "get_decidearg u = (let (i, u) = get_u32 u; (v, u) = get_string u in (\<lparr>da_instance = i, da_v = v\<rparr>, u))"

definition put_viewstamp :: "viewstamp \<Rightarrow> marshall \<Rightarrow> marshall option" where
  "put_viewstamp v = put_all [put_u32 (vid v), put_u32 (seqno v)]"

definition get_viewstamp :: "unmarshall \<Rightarrow> viewstamp \<times> unmarshall" where
  "get_viewstamp u = (let (v, u) = get_u32 u; (s, u) = get_u32 u in (Viewstamp v s, u))"

definition put_transferres :: "transferres \<Rightarrow> marshall \<Rightarrow> marshall option" where
  "put_transferres r = put_all [put_string (tr_state r), put_viewstamp (tr_last r)]"

definition get_transferres :: "unmarshall \<Rightarrow> transferres \<times> unmarshall" where
  "get_transferres u = (let (s, u) = get_string u; (l, u) = get_viewstamp u in (\<lparr>tr_state = s, tr_last = l\<rparr>, u))"

definition put_joinres :: "joinres \<Rightarrow> marshall \<Rightarrow> marshall option" where
  "put_joinres r = put_string (jr_log r)"

definition get_joinres :: "unmarshall \<Rightarrow> joinres \<times> unmarshall" where
  "get_joinres u = (let (l, u) = get_string u in (\<lparr>jr_log = l\<rparr>, u))"

definition put_attr :: "attr \<Rightarrow> marshall \<Rightarrow> marshall option" where
  "put_attr a = put_all [put_u32 (atime a), put_u32 (mtime a), put_u32 (ctime a), put_u32 (size_of a)]"

definition get_attr :: "unmarshall \<Rightarrow> attr \<times> unmarshall" where
  "get_attr u = (let (a, u) = get_u32 u; (m, u) = get_u32 u; (c, u) = get_u32 u; (s, u) = get_u32 u
     in (\<lparr>atime = a, mtime = m, ctime = c, size_of = s\<rparr>, u))"

subsection \<open>Every struct is a codec\<close>

definition enc_prop :: "prop_t \<Rightarrow> byte list" where
  "enc_prop a = enc_u32 (pn a) @ enc_string (pm a)"

definition enc_preparearg :: "preparearg \<Rightarrow> byte list" where
  "enc_preparearg a = enc_u32 (pa_instance a) @ enc_prop (pa_n a) @ enc_string (pa_v a)"

definition enc_prepareres :: "prepareres \<Rightarrow> byte list" where
  "enc_prepareres r = enc_int (oldinstance r) @ enc_int (accept r) @ enc_prop (res_n_a r) @ enc_string (res_v_a r)"

definition enc_acceptarg :: "acceptarg \<Rightarrow> byte list" where
  "enc_acceptarg a = enc_u32 (aa_instance a) @ enc_prop (aa_n a) @ enc_string (aa_v a)"

definition enc_decidearg :: "decidearg \<Rightarrow> byte list" where
  "enc_decidearg a = enc_u32 (da_instance a) @ enc_string (da_v a)"

definition enc_viewstamp :: "viewstamp \<Rightarrow> byte list" where
  "enc_viewstamp v = enc_u32 (vid v) @ enc_u32 (seqno v)"

definition enc_transferres :: "transferres \<Rightarrow> byte list" where
  "enc_transferres r = enc_string (tr_state r) @ enc_viewstamp (tr_last r)"

definition enc_attr :: "attr \<Rightarrow> byte list" where
  "enc_attr a = enc_u32 (atime a) @ enc_u32 (mtime a) @ enc_u32 (ctime a) @ enc_u32 (size_of a)"

lemmas emits_prims = emits_u32 emits_int emits_string emits_u64 emits_u16

lemmas parses_prims = parses_u32 parses_int parses_string parses_u64 parses_u16

lemma emits_prop: "emits (put_prop a) (enc_prop a)"
  unfolding put_prop_def enc_prop_def
  by (rule emits_conv, (rule codec_intros emits_prims)+) simp

lemma parses_prop: "str_ok (pm a) \<Longrightarrow> parses get_prop (enc_prop a) a"
  unfolding get_prop_def enc_prop_def
  by (rule parses_conv, (rule codec_intros parses_prims, assumption?)+) (simp, simp)

lemma emits_viewstamp: "emits (put_viewstamp v) (enc_viewstamp v)"
  unfolding put_viewstamp_def enc_viewstamp_def
  by (rule emits_conv, (rule codec_intros emits_prims)+) simp

lemma parses_viewstamp: "parses get_viewstamp (enc_viewstamp v) v"
  unfolding get_viewstamp_def enc_viewstamp_def
  by (rule parses_conv, (rule codec_intros parses_prims, assumption?)+) (simp, simp)

interpretation c_prop: codec "\<lambda>a. str_ok (pm a)" put_prop get_prop enc_prop
  by unfold_locales (rule emits_prop parses_prop, assumption?)+

interpretation c_viewstamp: codec "\<lambda>_. True" put_viewstamp get_viewstamp enc_viewstamp
  by unfold_locales (rule emits_viewstamp parses_viewstamp)+

interpretation c_preparearg: codec "\<lambda>a. str_ok (pm (pa_n a)) \<and> str_ok (pa_v a)" put_preparearg get_preparearg enc_preparearg
proof
  fix a :: preparearg assume a: "str_ok (pm (pa_n a)) \<and> str_ok (pa_v a)"
  show "emits (put_preparearg a) (enc_preparearg a)"
    unfolding put_preparearg_def enc_preparearg_def
    by (rule emits_conv, (rule codec_intros emits_prims emits_prop)+) simp
  from a show "parses get_preparearg (enc_preparearg a) a"
    unfolding get_preparearg_def enc_preparearg_def
    by (elim conjE) (rule parses_conv, (rule codec_intros parses_prims parses_prop, assumption?)+, simp, simp)
qed

interpretation c_prepareres: codec
  "\<lambda>r. int32_ok (oldinstance r) \<and> int32_ok (accept r) \<and> str_ok (pm (res_n_a r)) \<and> str_ok (res_v_a r)"
  put_prepareres get_prepareres enc_prepareres
proof
  fix r :: prepareres
  assume r: "int32_ok (oldinstance r) \<and> int32_ok (accept r) \<and> str_ok (pm (res_n_a r)) \<and> str_ok (res_v_a r)"
  show "emits (put_prepareres r) (enc_prepareres r)"
    unfolding put_prepareres_def enc_prepareres_def
    by (rule emits_conv, (rule codec_intros emits_prims emits_prop)+) simp
  from r show "parses get_prepareres (enc_prepareres r) r"
    unfolding get_prepareres_def enc_prepareres_def
    by (elim conjE) (rule parses_conv, (rule codec_intros parses_prims parses_prop, assumption?)+, simp, simp)
qed

interpretation c_acceptarg: codec "\<lambda>a. str_ok (pm (aa_n a)) \<and> str_ok (aa_v a)" put_acceptarg get_acceptarg enc_acceptarg
proof
  fix a :: acceptarg assume a: "str_ok (pm (aa_n a)) \<and> str_ok (aa_v a)"
  show "emits (put_acceptarg a) (enc_acceptarg a)"
    unfolding put_acceptarg_def enc_acceptarg_def
    by (rule emits_conv, (rule codec_intros emits_prims emits_prop)+) simp
  from a show "parses get_acceptarg (enc_acceptarg a) a"
    unfolding get_acceptarg_def enc_acceptarg_def
    by (elim conjE) (rule parses_conv, (rule codec_intros parses_prims parses_prop, assumption?)+, simp, simp)
qed

interpretation c_decidearg: codec "\<lambda>a. str_ok (da_v a)" put_decidearg get_decidearg enc_decidearg
proof
  fix a :: decidearg assume a: "str_ok (da_v a)"
  show "emits (put_decidearg a) (enc_decidearg a)"
    unfolding put_decidearg_def enc_decidearg_def
    by (rule emits_conv, (rule codec_intros emits_prims)+) simp
  from a show "parses get_decidearg (enc_decidearg a) a"
    unfolding get_decidearg_def enc_decidearg_def
    by - (rule parses_conv, (rule codec_intros parses_prims, assumption?)+, simp, simp)
qed

interpretation c_transferres: codec "\<lambda>r. str_ok (tr_state r)" put_transferres get_transferres enc_transferres
proof
  fix r :: transferres assume r: "str_ok (tr_state r)"
  show "emits (put_transferres r) (enc_transferres r)"
    unfolding put_transferres_def enc_transferres_def
    by (rule emits_conv, (rule codec_intros emits_prims emits_viewstamp)+) simp
  from r show "parses get_transferres (enc_transferres r) r"
    unfolding get_transferres_def enc_transferres_def
    by - (rule parses_conv, (rule codec_intros parses_prims parses_viewstamp, assumption?)+, simp, simp)
qed

interpretation c_joinres: codec "\<lambda>r. str_ok (jr_log r)" put_joinres get_joinres "\<lambda>r. enc_string (jr_log r)"
proof
  fix r :: joinres assume r: "str_ok (jr_log r)"
  show "emits (put_joinres r) (enc_string (jr_log r))" unfolding put_joinres_def by (rule emits_string)
  from r show "parses get_joinres (enc_string (jr_log r)) r"
    unfolding get_joinres_def
    by - (rule parses_conv, (rule codec_intros parses_prims, assumption?)+, simp, simp)
qed

interpretation c_attr: codec "\<lambda>_. True" put_attr get_attr enc_attr
proof
  fix a :: attr
  show "emits (put_attr a) (enc_attr a)"
    unfolding put_attr_def enc_attr_def
    by (rule emits_conv, (rule codec_intros emits_prims)+) simp
  show "parses get_attr (enc_attr a) a"
    unfolding get_attr_def enc_attr_def
    by (rule parses_conv, (rule codec_intros parses_prims)+) (simp, simp)
qed

end
