(* ===== verification/PaxosLog.thy ===== *)
theory PaxosLog
  imports Protocols
begin

text \<open>
  The acceptor's state (\<open>paxos.h\<close>) and its durable log (\<open>log.cc\<close>): the three record writers, \<open>dump\<close>, \<open>restore\<close>
  and the reader \<open>logread\<close> that rebuilds the state after a restart.  The log file is a string; the extractions
  of \<open>std::ifstream\<close> the reader uses are functions on the rest of the stream, with \<open>None\<close> for a set failbit.
\<close>

record acceptor =
  acc_cfg :: bool
  acc_me :: string
  n_h :: prop_t
  n_a :: prop_t
  v_a :: string
  instance_h :: u32
  acc_values :: "(u32, string) stdmap"
  log_file :: string

subsection \<open>Stream insertion and extraction\<close>

abbreviation nl :: char where
  "nl \<equiv> CHR 0x0A"

fun show_nat :: "nat \<Rightarrow> string" where
  "show_nat n = (if n < 10 then [char_of (48 + n)] else show_nat (n div 10) @ [char_of (48 + n mod 10)])"

declare show_nat.simps [simp del]

definition show_u32 :: "u32 \<Rightarrow> string" where
  "show_u32 x = show_nat (unat x)"

definition isspace :: "char \<Rightarrow> bool" where
  "isspace c = (let n = of_char c :: nat in n = 32 \<or> (9 \<le> n \<and> n \<le> 13))"

definition isdigit :: "char \<Rightarrow> bool" where
  "isdigit c = (let n = of_char c :: nat in 48 \<le> n \<and> n \<le> 57)"

definition digits_val :: "string \<Rightarrow> nat" where
  "digits_val = foldl (\<lambda>a c. 10 * a + (of_char c - 48)) 0"

text \<open>\<open>from >> std::string\<close>\<close>

definition rd_word :: "string \<Rightarrow> (string \<times> string) option" where
  "rd_word s = (let s = dropWhile isspace s in
     if s = [] then None else Some (takeWhile (\<lambda>c. \<not> isspace c) s, dropWhile (\<lambda>c. \<not> isspace c) s))"

text \<open>\<open>from >> unsigned\<close>: an optional sign and decimal digits; the value must fit.\<close>

definition rd_digits :: "string \<Rightarrow> (nat \<times> string) option" where
  "rd_digits s = (let ds = takeWhile isdigit s in
     if ds = [] \<or> digits_val ds \<ge> 2 ^ 32 then None else Some (digits_val ds, dropWhile isdigit s))"

definition rd_unsigned :: "string \<Rightarrow> (u32 \<times> string) option" where
  "rd_unsigned s = (case dropWhile isspace s of
      [] \<Rightarrow> None
    | c # t \<Rightarrow> if c = CHR ''-'' then map_option (\<lambda>(n, r). (- word_of_nat n, r)) (rd_digits t)
               else if c = CHR ''+'' then map_option (\<lambda>(n, r). (word_of_nat n, r)) (rd_digits t)
               else map_option (\<lambda>(n, r). (word_of_nat n, r)) (rd_digits (c # t)))"

text \<open>\<open>from.get()\<close> and \<open>getline(from, v)\<close>\<close>

definition rd_get :: "string \<Rightarrow> (char \<times> string) option" where
  "rd_get s = (case s of [] \<Rightarrow> None | c # t \<Rightarrow> Some (c, t))"

definition rd_getline :: "string \<Rightarrow> (string \<times> string) option" where
  "rd_getline s = (if s = [] then None
     else Some (takeWhile (\<lambda>c. c \<noteq> nl) s, tl (dropWhile (\<lambda>c. c \<noteq> nl) s)))"

lemma rd_word_shorter: "rd_word s = Some (w, r) \<Longrightarrow> length r < length s"
proof -
  assume a: "rd_word s = Some (w, r)"
  define s' where "s' = dropWhile isspace s"
  have s': "s' \<noteq> []" "r = dropWhile (\<lambda>c. \<not> isspace c) s'"
    using a by (auto simp: rd_word_def Let_def s'_def split: if_splits)
  then obtain c t where c: "s' = c # t" by (cases s') auto
  have "\<not> isspace c" using c s'_def by (metis dropWhile_eq_Cons_conv)
  then have "length r \<le> length t" using s'(2) c by (simp add: length_dropWhile_le)
  moreover have "length s' \<le> length s" unfolding s'_def by (rule length_dropWhile_le)
  ultimately show ?thesis using c by simp
qed

lemma rd_digits_le: "rd_digits s = Some (n, r) \<Longrightarrow> length r \<le> length s"
  by (auto simp: rd_digits_def Let_def length_dropWhile_le split: if_splits)

lemma rd_unsigned_le: "rd_unsigned s = Some (n, r) \<Longrightarrow> length r \<le> length s"
  using length_dropWhile_le [of isspace s]
  by (fastforce simp: rd_unsigned_def dest: rd_digits_le split: list.splits if_splits)

lemma rd_get_le: "rd_get s = Some (c, r) \<Longrightarrow> length r \<le> length s"
  by (auto simp: rd_get_def split: list.splits)

lemma rd_getline_shorter: "rd_getline s = Some (v, r) \<Longrightarrow> length r < length s"
proof -
  assume a: "rd_getline s = Some (v, r)"
  then have "r = tl (dropWhile (\<lambda>c. c \<noteq> nl) s)" "s \<noteq> []" by (auto simp: rd_getline_def split: if_splits)
  moreover have "length (dropWhile (\<lambda>c. c \<noteq> nl) s) \<le> length s" by (rule length_dropWhile_le)
  moreover have "0 < length s" using \<open>s \<noteq> []\<close> by simp
  ultimately show ?thesis unfolding \<open>r = _\<close> length_tl by linarith
qed

subsection \<open>The log\<close>

text \<open>\<open>UnknownRecord\<close>: the \<open>assert(0)\<close>; \<open>BadRecord\<close>: an extraction set the failbit, and the code would go on
  with an indeterminate value.\<close>

datatype log_error = UnknownRecord | BadRecord

definition loginstance :: "u32 \<Rightarrow> string \<Rightarrow> string \<Rightarrow> string" where
  "loginstance i v f = f @ ''done'' @ '' '' @ show_u32 i @ '' '' @ v @ [nl]"

definition loghigh :: "prop_t \<Rightarrow> string \<Rightarrow> string" where
  "loghigh n f = f @ ''high'' @ '' '' @ show_u32 (pn n) @ '' '' @ pm n @ [nl]"

definition logprop :: "prop_t \<Rightarrow> string \<Rightarrow> string \<Rightarrow> string" where
  "logprop n v f = f @ ''prop'' @ '' '' @ show_u32 (pn n) @ '' '' @ pm n @ '' '' @ v @ [nl]"

definition log_restore :: "string \<Rightarrow> acceptor \<Rightarrow> acceptor" where
  "log_restore s a = a\<lparr>log_file := s\<rparr>"

text \<open>\<open>while (getline(from, v)) res = res + v + "\n"\<close>\<close>

function log_dump :: "string \<Rightarrow> string" where
  "log_dump s = (case rd_getline s of None \<Rightarrow> [] | Some (v, r) \<Rightarrow> v @ [nl] @ log_dump r)"
  by pat_completeness auto
termination by (relation "measure length") (auto dest: rd_getline_shorter)

declare log_dump.simps [simp del]

text \<open>The body of the loop of \<open>logread\<close> for each record type.\<close>

definition logread_done :: "string \<Rightarrow> acceptor \<Rightarrow> (acceptor \<times> string) option" where
  "logread_done s a = do {
     (i, s) \<leftarrow> rd_unsigned s; (_, s) \<leftarrow> rd_get s; (v, s) \<leftarrow> rd_getline s;
     Some (a\<lparr>acc_values := mput i v (acc_values a), instance_h := i, v_a := [],
             n_h := Prop 0 (pm (n_h a)), n_a := Prop 0 (pm (n_a a))\<rparr>, s) }"

definition logread_high :: "string \<Rightarrow> acceptor \<Rightarrow> (acceptor \<times> string) option" where
  "logread_high s a = do { (n, s) \<leftarrow> rd_unsigned s; (m, s) \<leftarrow> rd_word s; Some (a\<lparr>n_h := Prop n m\<rparr>, s) }"

definition logread_prop :: "string \<Rightarrow> acceptor \<Rightarrow> (acceptor \<times> string) option" where
  "logread_prop s a = do {
     (n, s) \<leftarrow> rd_unsigned s; (m, s) \<leftarrow> rd_word s; (_, s) \<leftarrow> rd_get s; (v, s) \<leftarrow> rd_getline s;
     Some (a\<lparr>n_a := Prop n m, v_a := v\<rparr>, s) }"

definition logread_one :: "string \<Rightarrow> string \<Rightarrow> acceptor \<Rightarrow> log_error + acceptor \<times> string" where
  "logread_one type s a =
     (if type = ''done'' then (case logread_done s a of Some r \<Rightarrow> Inr r | None \<Rightarrow> Inl BadRecord)
      else if type = ''high'' then (case logread_high s a of Some r \<Rightarrow> Inr r | None \<Rightarrow> Inl BadRecord)
      else if type = ''prop'' then (case logread_prop s a of Some r \<Rightarrow> Inr r | None \<Rightarrow> Inl BadRecord)
      else Inl UnknownRecord)"

lemma logread_one_le: "logread_one ty s a = Inr (a', s') \<Longrightarrow> length s' \<le> length s"
  by (fastforce simp: logread_one_def logread_done_def logread_high_def logread_prop_def bind_eq_Some_conv
      dest: rd_unsigned_le rd_get_le rd_getline_shorter rd_word_shorter split: if_splits option.splits)

function logread_from :: "string \<Rightarrow> acceptor \<Rightarrow> log_error + acceptor" where
  "logread_from s a = (case rd_word s of
      None \<Rightarrow> Inr a
    | Some (type, s) \<Rightarrow> (case logread_one type s a of
         Inl e \<Rightarrow> Inl e
       | Inr (a, s) \<Rightarrow> logread_from s a))"
  by pat_completeness auto
termination
  by (relation "measure (\<lambda>(s, a). length s)") (auto dest!: rd_word_shorter logread_one_le)

declare logread_from.simps [simp del]

definition logread :: "acceptor \<Rightarrow> log_error + acceptor" where
  "logread a = logread_from (log_file a) a"

subsection \<open>Reading back what was written\<close>

lemma of_char_digit: "n < 10 \<Longrightarrow> of_char (char_of (48 + n) :: char) = 48 + (n :: nat)"
  by simp

lemma show_nat_digits: "show_nat n \<noteq> [] \<and> (\<forall>c \<in> set (show_nat n). isdigit c)"
proof (induction n rule: show_nat.induct)
  case (1 n)
  show ?case
    using 1 by (auto simp: show_nat.simps [of n] isdigit_def Let_def of_char_digit)
qed

lemma digits_val_show: "digits_val (show_nat n) = n"
proof (induction n rule: show_nat.induct)
  case (1 n)
  show ?case
    using 1 by (simp add: show_nat.simps [of n] digits_val_def of_char_digit)
qed

lemma isdigit_not: "isdigit c \<Longrightarrow> \<not> isspace c \<and> c \<noteq> CHR ''-'' \<and> c \<noteq> CHR ''+''"
  by (auto simp: isdigit_def isspace_def Let_def)

lemma isspace_chars [simp]: "isspace nl" "isspace CHR '' ''" "\<not> isdigit CHR '' ''" "\<not> isdigit nl"
  by (simp_all add: isspace_def isdigit_def)

text \<open>A token written after a space is read back, and the separator that ends it stays in the stream.\<close>

lemma rd_unsigned_show:
  assumes "r = [] \<or> \<not> isdigit (hd r)"
  shows "rd_unsigned (CHR '' '' # show_u32 x @ r) = Some (x, r)"
proof -
  let ?d = "show_nat (unat x)"
  obtain c t where d: "?d = c # t" and c: "isdigit c" using show_nat_digits [of "unat x"] by (cases ?d) auto
  have tk: "takeWhile isdigit (?d @ r) = ?d" "dropWhile isdigit (?d @ r) = r"
    using assms show_nat_digits [of "unat x"] by (cases r; simp add: takeWhile_append2 dropWhile_append2)+
  then have "rd_digits (?d @ r) = Some (unat x, r)"
    using u32_bound [of x] show_nat_digits [of "unat x"] by (simp add: rd_digits_def digits_val_show)
  then show ?thesis
    using c d isdigit_not [OF c] by (simp add: rd_unsigned_def show_u32_def)
qed

definition name_ok :: "string \<Rightarrow> bool" where
  "name_ok m \<longleftrightarrow> m \<noteq> [] \<and> (\<forall>c \<in> set m. \<not> isspace c)"

definition line_ok :: "string \<Rightarrow> bool" where
  "line_ok v \<longleftrightarrow> nl \<notin> set v"

lemma rd_word_space: "isspace c \<Longrightarrow> rd_word (c # s) = rd_word s"
  by (simp add: rd_word_def)

lemma rd_word_name:
  assumes "name_ok m" "r = [] \<or> isspace (hd r)"
  shows "rd_word (m @ r) = Some (m, r)"
proof -
  obtain c t where m: "m = c # t" "\<not> isspace c" using assms(1) by (cases m) (auto simp: name_ok_def)
  have "takeWhile (\<lambda>c. \<not> isspace c) (m @ r) = m" "dropWhile (\<lambda>c. \<not> isspace c) (m @ r) = r"
    using assms by (cases r; simp add: takeWhile_append2 dropWhile_append2 name_ok_def)+
  then show ?thesis using m by (simp add: rd_word_def)
qed

lemma line_split:
  "line_ok v \<Longrightarrow> takeWhile (\<lambda>c. c \<noteq> nl) (v @ nl # r) = v"
  "line_ok v \<Longrightarrow> dropWhile (\<lambda>c. c \<noteq> nl) (v @ nl # r) = nl # r"
  by (induction v) (auto simp: line_ok_def)

lemma rd_getline_line: "line_ok v \<Longrightarrow> rd_getline (v @ nl # r) = Some (v, r)"
  by (simp add: rd_getline_def line_split)

lemma name_ok_types [simp]: "name_ok ''done''" "name_ok ''high''" "name_ok ''prop''"
  by (simp_all add: name_ok_def isspace_def)

lemma logread_from_space: "isspace c \<Longrightarrow> logread_from (c # s) a = logread_from s a"
  by (simp add: logread_from.simps [of "c # s"] logread_from.simps [of s] rd_word_space)

text \<open>The records of a log, and what each does to the state under replay.\<close>

datatype log_rec = Done u32 string | High prop_t | Accepted prop_t string

fun write_rec :: "log_rec \<Rightarrow> string \<Rightarrow> string" where
  "write_rec (Done i v) = loginstance i v"
| "write_rec (High n) = loghigh n"
| "write_rec (Accepted n v) = logprop n v"

fun rec_ok :: "log_rec \<Rightarrow> bool" where
  "rec_ok (Done i v) = line_ok v"
| "rec_ok (High n) = name_ok (pm n)"
| "rec_ok (Accepted n v) = (name_ok (pm n) \<and> line_ok v)"

fun replay :: "log_rec \<Rightarrow> acceptor \<Rightarrow> acceptor" where
  "replay (Done i v) a = a\<lparr>acc_values := mput i v (acc_values a), instance_h := i, v_a := [],
             n_h := Prop 0 (pm (n_h a)), n_a := Prop 0 (pm (n_a a))\<rparr>"
| "replay (High n) a = a\<lparr>n_h := n\<rparr>"
| "replay (Accepted n v) a = a\<lparr>n_a := n, v_a := v\<rparr>"

lemma logread_from_rec:
  assumes "rec_ok r"
  shows "logread_from (write_rec r [] @ s) a = logread_from s (replay r a)"
proof (cases r)
  case (Done i v)
  have "logread_done (CHR '' '' # show_u32 i @ CHR '' '' # v @ nl # s) a = Some (replay r a, s)"
    using assms by (simp add: Done logread_done_def rd_unsigned_show rd_get_def rd_getline_line)
  moreover have "rd_word (''done'' @ CHR '' '' # show_u32 i @ CHR '' '' # v @ nl # s)
      = Some (''done'', CHR '' '' # show_u32 i @ CHR '' '' # v @ nl # s)"
    by (rule rd_word_name) simp_all
  ultimately show ?thesis
    by (subst logread_from.simps) (simp add: Done loginstance_def logread_one_def)
next
  case (High n)
  have "rd_word (CHR '' '' # pm n @ nl # s) = Some (pm n, nl # s)"
    using assms by (simp add: High rd_word_space rd_word_name)
  then have "logread_high (CHR '' '' # show_u32 (pn n) @ CHR '' '' # pm n @ nl # s) a = Some (replay r a, nl # s)"
    by (simp add: High logread_high_def rd_unsigned_show)
  moreover have "rd_word (''high'' @ CHR '' '' # show_u32 (pn n) @ CHR '' '' # pm n @ nl # s)
      = Some (''high'', CHR '' '' # show_u32 (pn n) @ CHR '' '' # pm n @ nl # s)"
    by (rule rd_word_name) simp_all
  ultimately show ?thesis
    by (subst logread_from.simps) (simp add: High loghigh_def logread_one_def logread_from_space)
next
  case (Accepted n v)
  have "rd_word (CHR '' '' # pm n @ CHR '' '' # v @ nl # s) = Some (pm n, CHR '' '' # v @ nl # s)"
    using assms by (simp add: Accepted rd_word_space rd_word_name)
  then have "logread_prop (CHR '' '' # show_u32 (pn n) @ CHR '' '' # pm n @ CHR '' '' # v @ nl # s) a = Some (replay r a, s)"
    using assms by (simp add: Accepted logread_prop_def rd_unsigned_show rd_get_def rd_getline_line)
  moreover have "rd_word (''prop'' @ CHR '' '' # show_u32 (pn n) @ CHR '' '' # pm n @ CHR '' '' # v @ nl # s)
      = Some (''prop'', CHR '' '' # show_u32 (pn n) @ CHR '' '' # pm n @ CHR '' '' # v @ nl # s)"
    by (rule rd_word_name) simp_all
  ultimately show ?thesis
    by (subst logread_from.simps) (simp add: Accepted logprop_def logread_one_def)
qed

lemma write_rec_append: "write_rec r f = f @ write_rec r []"
  by (cases r) (simp_all add: loginstance_def loghigh_def logprop_def)

definition log_text :: "log_rec list \<Rightarrow> string" where
  "log_text rs = concat (map (\<lambda>r. write_rec r []) rs)"

lemma log_text_snoc: "log_text (rs @ [r]) = write_rec r (log_text rs)"
  by (simp add: log_text_def write_rec_append [of r "concat (map (\<lambda>r. write_rec r []) rs)"])

lemma logread_from_text: "\<forall>r \<in> set rs. rec_ok r \<Longrightarrow> logread_from (log_text rs) a = Inr (fold replay rs a)"
proof (induction rs arbitrary: a)
  case Nil
  show ?case by (simp add: log_text_def logread_from.simps rd_word_def)
next
  case (Cons r rs)
  then show ?case using logread_from_rec [of r "log_text rs" a] by (simp add: log_text_def)
qed

text \<open>\<open>dump\<close> is the identity on a log made of whole lines, so \<open>restore\<close> of a \<open>dump\<close> copies the log.\<close>

lemma log_dump_lines: "log_dump (concat (map (\<lambda>l. l @ [nl]) ls)) = concat (map (\<lambda>l. l @ [nl]) ls)" if "\<forall>l \<in> set ls. line_ok l"
  using that
proof (induction ls)
  case (Cons l ls)
  then show ?case
    using rd_getline_line [of l "concat (map (\<lambda>l. l @ [nl]) ls)"] by (subst log_dump.simps) simp
qed (simp add: log_dump.simps rd_getline_def)

lemma name_ok_line: "name_ok m \<Longrightarrow> line_ok m"
  by (auto simp: name_ok_def line_ok_def)

lemma line_ok_show [simp]: "line_ok (show_u32 x)"
  using show_nat_digits [of "unat x"] isdigit_not [of nl] by (auto simp: line_ok_def show_u32_def)

lemma line_ok_append [simp]: "line_ok (a @ b) \<longleftrightarrow> line_ok a \<and> line_ok b" "line_ok (c # b) \<longleftrightarrow> c \<noteq> nl \<and> line_ok b" "line_ok []"
  by (auto simp: line_ok_def)

lemma write_rec_line: "rec_ok r \<Longrightarrow> \<exists>l. write_rec r [] = l @ [nl] \<and> line_ok l"
  by (cases r) (auto simp: loginstance_def loghigh_def logprop_def name_ok_line)

lemma log_dump_text: "\<forall>r \<in> set rs. rec_ok r \<Longrightarrow> log_dump (log_text rs) = log_text rs"
proof -
  assume "\<forall>r \<in> set rs. rec_ok r"
  then have "\<exists>ls. log_text rs = concat (map (\<lambda>l. l @ [nl]) ls) \<and> (\<forall>l \<in> set ls. line_ok l)"
  proof (induction rs)
    case (Cons r rs)
    then obtain ls l where "log_text rs = concat (map (\<lambda>l. l @ [nl]) ls)" "\<forall>l \<in> set ls. line_ok l"
      "write_rec r [] = l @ [nl]" "line_ok l"
      using write_rec_line [of r] by auto
    then show ?case by (intro exI [of _ "l # ls"]) (simp add: log_text_def)
  qed (intro exI [of _ "[]"], simp add: log_text_def)
  then show ?thesis using log_dump_lines by auto
qed

end
