(* ===== verification/Acceptor.thy ===== *)
theory Acceptor
  imports PaxosLog
begin

text \<open>
  The acceptor of \<open>paxos.cc\<close>: constructor, the three request handlers, \<open>commit_wo\<close>, \<open>commit\<close>, \<open>value\<close>, \<open>dump\<close> and
  \<open>restore\<close>.  A commit returns the upcalls \<open>cfg->paxos_commit(instance, value)\<close> it makes.  A reply struct that a
  handler only partly fills in is an argument, so that the fields it leaves alone keep their old contents.
\<close>

definition acceptor_init :: "bool \<Rightarrow> string \<Rightarrow> string \<Rightarrow> acceptor" where
  "acceptor_init cfg me file = \<lparr>acc_cfg = cfg, acc_me = me, n_h = Prop 0 me, n_a = Prop 0 me, v_a = [],
     instance_h = 0, acc_values = [], log_file = file\<rparr>"

definition acceptor_new :: "bool \<Rightarrow> bool \<Rightarrow> string \<Rightarrow> string \<Rightarrow> string \<Rightarrow> log_error + acceptor" where
  "acceptor_new cfg first me val file =
     (case logread (acceptor_init cfg me file) of
        Inl e \<Rightarrow> Inl e
      | Inr a \<Rightarrow> Inr (if instance_h a = 0 \<and> first
          then a\<lparr>acc_values := mput 1 val (acc_values a), log_file := loginstance 1 val (log_file a), instance_h := 1\<rparr>
          else a))"

definition preparereq :: "string \<Rightarrow> preparearg \<Rightarrow> prepareres \<Rightarrow> acceptor \<Rightarrow> paxos_status \<times> prepareres \<times> acceptor" where
  "preparereq src a r s =
     (let r = r\<lparr>oldinstance := 0\<rparr> in
      if pa_instance a \<le> instance_h s
      then (POK, r\<lparr>oldinstance := 1, res_v_a := mget [] (acc_values s) (pa_instance a)\<rparr>,
            s\<lparr>acc_values := mindex [] (pa_instance a) (acc_values s)\<rparr>)
      else if prop_gt (pa_n a) (n_h s)
      then (let s = s\<lparr>n_h := pa_n a\<rparr>;
                r = r\<lparr>accept := 1\<rparr>;
                r = (if pn (n_a s) = 0 then r\<lparr>res_v_a := []\<rparr> else r\<lparr>res_v_a := v_a s, res_n_a := n_a s\<rparr>)
            in (POK, r, s\<lparr>log_file := loghigh (n_h s) (log_file s)\<rparr>))
      else (POK, r\<lparr>accept := 0\<rparr>, s))"

definition acceptreq :: "string \<Rightarrow> acceptarg \<Rightarrow> acceptor \<Rightarrow> paxos_status \<times> acceptor" where
  "acceptreq src a s =
     (if prop_ge (aa_n a) (n_h s)
      then (let s = s\<lparr>n_a := aa_n a, v_a := aa_v a\<rparr>
            in (POK, s\<lparr>log_file := logprop (n_a s) (v_a s) (log_file s)\<rparr>))
      else (PERR, s))"

definition commit_wo :: "u32 \<Rightarrow> string \<Rightarrow> acceptor \<Rightarrow> acceptor \<times> (u32 \<times> string) list" where
  "commit_wo i val s =
     (if i > instance_h s
      then (s\<lparr>acc_values := mput i val (acc_values s), log_file := loginstance i val (log_file s), instance_h := i,
              n_h := Prop 0 (acc_me s), n_a := Prop 0 (acc_me s), v_a := []\<rparr>,
            if acc_cfg s then [(i, val)] else [])
      else (s, []))"

definition decidereq :: "string \<Rightarrow> decidearg \<Rightarrow> acceptor \<Rightarrow> paxos_status \<times> acceptor \<times> (u32 \<times> string) list" where
  "decidereq src a s =
     (if \<not> da_instance a \<le> instance_h s then (POK, commit_wo (da_instance a) (da_v a) s) else (POK, s, []))"

definition acc_commit :: "u32 \<Rightarrow> string \<Rightarrow> acceptor \<Rightarrow> acceptor \<times> (u32 \<times> string) list" where
  "acc_commit = commit_wo"

definition acc_value :: "u32 \<Rightarrow> acceptor \<Rightarrow> string \<times> acceptor" where
  "acc_value i s = (mget [] (acc_values s) i, s\<lparr>acc_values := mindex [] i (acc_values s)\<rparr>)"

definition acc_dump :: "acceptor \<Rightarrow> string" where
  "acc_dump s = log_dump (log_file s)"

definition acc_restore :: "string \<Rightarrow> acceptor \<Rightarrow> log_error + acceptor" where
  "acc_restore f s = logread (log_restore f s)"

subsection \<open>Durability\<close>

text \<open>
  Two acceptor states that no request with a positive proposal number can tell apart: a \<open>values\<close> entry created
  by a mere look-up reads as empty anyway, and the name in a proposal number 0 never matters.
\<close>

definition prop_sim :: "prop_t \<Rightarrow> prop_t \<Rightarrow> bool" where
  "prop_sim p q \<longleftrightarrow> pn p = pn q \<and> (pn p \<noteq> 0 \<longrightarrow> p = q)"

definition acc_sim :: "acceptor \<Rightarrow> acceptor \<Rightarrow> bool" where
  "acc_sim a b \<longleftrightarrow> acc_cfg a = acc_cfg b \<and> acc_me a = acc_me b \<and> prop_sim (n_h a) (n_h b) \<and> prop_sim (n_a a) (n_a b)
     \<and> v_a a = v_a b \<and> instance_h a = instance_h b \<and> log_file a = log_file b
     \<and> (\<forall>i. mget [] (acc_values a) i = mget [] (acc_values b) i)"

definition acc_durable :: "acceptor \<Rightarrow> bool" where
  "acc_durable a \<longleftrightarrow> (\<exists>rs. log_file a = log_text rs \<and> (\<forall>r \<in> set rs. rec_ok r)
     \<and> acc_sim (fold replay rs (acceptor_init (acc_cfg a) (acc_me a) (log_file a))) a)"

datatype acc_event = Prepare preparearg | Accept acceptarg | Decide decidearg | Commit u32 string

datatype acc_reply = PrepareRes paxos_status prepareres | AcceptRes paxos_status
  | DecideRes paxos_status "(u32 \<times> string) list" | CommitRes "(u32 \<times> string) list"

definition res0 :: prepareres where
  "res0 = \<lparr>oldinstance = 0, accept = 0, res_n_a = Prop 0 [], res_v_a = []\<rparr>"

fun acc_step :: "acc_event \<Rightarrow> acceptor \<Rightarrow> acc_reply \<times> acceptor" where
  "acc_step (Prepare p) s = (case preparereq [] p res0 s of (st, r, s) \<Rightarrow> (PrepareRes st r, s))"
| "acc_step (Accept p) s = (case acceptreq [] p s of (st, s) \<Rightarrow> (AcceptRes st, s))"
| "acc_step (Decide d) s = (case decidereq [] d s of (st, s, ups) \<Rightarrow> (DecideRes st ups, s))"
| "acc_step (Commit i v) s = (case acc_commit i v s of (s, ups) \<Rightarrow> (CommitRes ups, s))"

fun acc_run :: "acc_event list \<Rightarrow> acceptor \<Rightarrow> acc_reply list \<times> acceptor" where
  "acc_run [] s = ([], s)"
| "acc_run (e # es) s = (case acc_step e s of (r, s) \<Rightarrow> case acc_run es s of (rs, s) \<Rightarrow> (r # rs, s))"

text \<open>Requests as this program sends them: node names are words, values are single lines.\<close>

fun event_ok :: "acc_event \<Rightarrow> bool" where
  "event_ok (Prepare p) = name_ok (pm (pa_n p))"
| "event_ok (Accept p) = (name_ok (pm (aa_n p)) \<and> line_ok (aa_v p))"
| "event_ok (Decide d) = line_ok (da_v d)"
| "event_ok (Commit i v) = line_ok v"

lemma prop_sim_simps [simp]: "prop_sim p p" "prop_sim (Prop 0 x) (Prop 0 y)"
  by (simp_all add: prop_sim_def)

lemma prop_sim_trans: "prop_sim p q \<Longrightarrow> prop_sim q r \<Longrightarrow> prop_sim p r"
  unfolding prop_sim_def by metis

lemma replay_sim:
  "acc_sim a b \<Longrightarrow> acc_sim (replay r a) (replay r b)"
  by (cases r) (simp_all add: acc_sim_def stdmap_simps)

lemma fold_replay_keeps:
  "acc_cfg (fold replay rs a) = acc_cfg a" "acc_me (fold replay rs a) = acc_me a" "log_file (fold replay rs a) = log_file a"
proof -
  have "acc_cfg (replay r a) = acc_cfg a \<and> acc_me (replay r a) = acc_me a \<and> log_file (replay r a) = log_file a" for r a
    by (cases r) auto
  then show "acc_cfg (fold replay rs a) = acc_cfg a" "acc_me (fold replay rs a) = acc_me a" "log_file (fold replay rs a) = log_file a"
    by (induction rs arbitrary: a) auto
qed

lemma replay_log: "(replay r a)\<lparr>log_file := f\<rparr> = replay r (a\<lparr>log_file := f\<rparr>)"
  by (cases r) auto

lemma fold_replay_log: "(fold replay rs a)\<lparr>log_file := f\<rparr> = fold replay rs (a\<lparr>log_file := f\<rparr>)"
  by (induction rs arbitrary: a) (auto simp: replay_log)

lemma acc_sim_trans: "acc_sim a b \<Longrightarrow> acc_sim b c \<Longrightarrow> acc_sim a c"
  unfolding acc_sim_def by (elim conjE, intro conjI) (blast intro: prop_sim_trans | simp)+

lemma acc_sim_log: "acc_sim a b \<Longrightarrow> acc_sim (a\<lparr>log_file := f\<rparr>) (b\<lparr>log_file := f\<rparr>)"
  by (auto simp: acc_sim_def)

text \<open>A state change is durable when it is, up to \<open>acc_sim\<close>, the replay of the record it logs.\<close>

lemma durable_step:
  assumes "acc_durable a" "rec_ok r" "acc_sim (replay r a\<lparr>log_file := write_rec r (log_file a)\<rparr>) a'"
  shows "acc_durable a'"
proof -
  obtain rs where rs: "log_file a = log_text rs" "\<forall>r \<in> set rs. rec_ok r"
      "acc_sim (fold replay rs (acceptor_init (acc_cfg a) (acc_me a) (log_file a))) a"
    using assms(1) by (auto simp: acc_durable_def)
  let ?f = "write_rec r (log_file a)"
  have keep: "acc_cfg a' = acc_cfg a" "acc_me a' = acc_me a" "log_file a' = ?f"
    using assms(3) fold_replay_keeps [of "[r]" a] by (auto simp: acc_sim_def)
  have "acc_sim (fold replay rs (acceptor_init (acc_cfg a) (acc_me a) ?f)) (a\<lparr>log_file := ?f\<rparr>)"
    using acc_sim_log [OF rs(3), of ?f] by (simp add: fold_replay_log acceptor_init_def)
  then have "acc_sim (fold replay (rs @ [r]) (acceptor_init (acc_cfg a) (acc_me a) ?f)) (replay r (a\<lparr>log_file := ?f\<rparr>))"
    by (simp add: replay_sim)
  moreover have "acc_sim (replay r (a\<lparr>log_file := ?f\<rparr>)) a'"
    using assms(3) by (simp add: replay_log)
  ultimately have "acc_sim (fold replay (rs @ [r]) (acceptor_init (acc_cfg a) (acc_me a) ?f)) a'"
    by (rule acc_sim_trans)
  then show ?thesis
    unfolding acc_durable_def keep using rs(1,2) assms(2)
    by (intro exI [of _ "rs @ [r]"]) (simp add: log_text_snoc)
qed

lemma acc_sim_refl [simp]: "acc_sim a a"
  by (simp add: acc_sim_def)

lemma durable_sim: "acc_durable a \<Longrightarrow> acc_sim a b \<Longrightarrow> acc_durable b"
proof -
  assume a: "acc_durable a" "acc_sim a b"
  then have keep: "acc_cfg b = acc_cfg a" "acc_me b = acc_me a" "log_file b = log_file a" by (auto simp: acc_sim_def)
  from a(1) show ?thesis unfolding acc_durable_def keep by (blast intro: acc_sim_trans [OF _ a(2)])
qed

lemma durable_init: "acc_durable (acceptor_init cfg me [])"
  unfolding acc_durable_def by (intro exI [of _ "[]"]) (simp add: log_text_def acceptor_init_def)

lemma durable_commit: "acc_durable s \<Longrightarrow> line_ok v \<Longrightarrow> acc_durable (fst (commit_wo i v s))"
  unfolding commit_wo_def
  by (auto intro!: durable_step [of s "Done i v"] simp: acc_sim_def)

lemma durable_prepare: "acc_durable s \<Longrightarrow> name_ok (pm (pa_n p)) \<Longrightarrow> acc_durable (snd (snd (preparereq src p r s)))"
proof -
  assume s: "acc_durable s" and p: "name_ok (pm (pa_n p))"
  have "acc_sim s (s\<lparr>acc_values := mindex [] i (acc_values s)\<rparr>)" for i
    by (simp add: acc_sim_def)
  then have "acc_durable (s\<lparr>acc_values := mindex [] i (acc_values s)\<rparr>)" for i
    using durable_sim s by blast
  moreover have "acc_durable (s\<lparr>n_h := pa_n p, log_file := loghigh (pa_n p) (log_file s)\<rparr>)"
    by (rule durable_step [OF s, of "High (pa_n p)"]) (simp_all add: p)
  ultimately show ?thesis
    using s by (simp add: preparereq_def Let_def)
qed

lemma durable_accept: "acc_durable s \<Longrightarrow> name_ok (pm (aa_n p)) \<Longrightarrow> line_ok (aa_v p) \<Longrightarrow> acc_durable (snd (acceptreq src p s))"
  unfolding acceptreq_def Let_def
  by (auto intro!: durable_step [of s "Accepted (aa_n p) (aa_v p)"] simp: acc_sim_def)

lemma durable_acc_step: "acc_durable s \<Longrightarrow> event_ok e \<Longrightarrow> acc_durable (snd (acc_step e s))"
proof (cases e)
  case (Prepare p)
  assume "acc_durable s" "event_ok e"
  with durable_prepare [of s p "[]" res0] Prepare show ?thesis by (auto split: prod.splits)
next
  case (Accept p)
  assume "acc_durable s" "event_ok e"
  with durable_accept [of s p "[]"] Accept show ?thesis by (auto split: prod.splits)
next
  case (Decide d)
  assume "acc_durable s" "event_ok e"
  with durable_commit [of s "da_v d" "da_instance d"] Decide show ?thesis
    by (auto simp: decidereq_def split: prod.splits)
next
  case (Commit i v)
  assume "acc_durable s" "event_ok e"
  with durable_commit [of s v i] Commit show ?thesis by (auto simp: acc_commit_def split: prod.splits)
qed

lemma durable_run: "acc_durable s \<Longrightarrow> \<forall>e \<in> set es. event_ok e \<Longrightarrow> acc_durable (snd (acc_run es s))"
proof (induction es arbitrary: s)
  case (Cons e es)
  then have "acc_durable (snd (acc_run es (snd (acc_step e s))))" by (simp add: durable_acc_step)
  then show ?case by (auto split: prod.splits)
qed simp

lemma restart_sim:
  assumes "acc_durable a" "instance_h a \<noteq> 0 \<or> \<not> first"
  shows "\<exists>b. acceptor_new (acc_cfg a) first (acc_me a) val (log_file a) = Inr b \<and> acc_sim b a"
proof -
  obtain rs where rs: "log_file a = log_text rs" "\<forall>r \<in> set rs. rec_ok r"
      "acc_sim (fold replay rs (acceptor_init (acc_cfg a) (acc_me a) (log_file a))) a"
    using assms(1) by (auto simp: acc_durable_def)
  let ?b = "fold replay rs (acceptor_init (acc_cfg a) (acc_me a) (log_file a))"
  have "logread (acceptor_init (acc_cfg a) (acc_me a) (log_file a)) = Inr ?b"
    using logread_from_text [OF rs(2)] rs(1) by (simp add: logread_def acceptor_init_def)
  moreover have "instance_h ?b = instance_h a" using rs(3) by (simp add: acc_sim_def)
  ultimately show ?thesis using rs(3) assms(2) by (auto simp: acceptor_new_def)
qed

subsection \<open>Restarting is invisible\<close>

lemma prop_sim_compare:
  assumes "prop_sim p q" "pn n \<noteq> 0"
  shows "p < n \<longleftrightarrow> q < n" "p \<le> n \<longleftrightarrow> q \<le> n"
proof -
  have "0 < pn n" using assms(2) by (simp add: word_neq_0_conv)
  then show "p < n \<longleftrightarrow> q < n" "p \<le> n \<longleftrightarrow> q \<le> n"
    using assms(1) by (cases "pn p = 0"; simp add: prop_sim_def less_prop_t_def less_eq_prop_t_def)+
qed

fun event_pos :: "acc_event \<Rightarrow> bool" where
  "event_pos (Prepare p) = (pn (pa_n p) \<noteq> 0)"
| "event_pos (Accept p) = (pn (aa_n p) \<noteq> 0)"
| "event_pos _ = True"

lemma acc_sim_step:
  assumes "acc_sim a b" "event_pos e"
  shows "fst (acc_step e a) = fst (acc_step e b)" "acc_sim (snd (acc_step e a)) (snd (acc_step e b))"
proof -
  have c: "pn n \<noteq> 0 \<Longrightarrow> n_h a < n \<longleftrightarrow> n_h b < n" "pn n \<noteq> 0 \<Longrightarrow> n_h a \<le> n \<longleftrightarrow> n_h b \<le> n" for n
    using prop_sim_compare [of "n_h a" "n_h b"] assms(1) by (simp_all add: acc_sim_def)
  have a: "pn (n_a a) = pn (n_a b)" "pn (n_a b) \<noteq> 0 \<Longrightarrow> n_a a = n_a b"
    using assms(1) unfolding acc_sim_def prop_sim_def by metis+
  note eq = assms(1) [unfolded acc_sim_def]
  have "fst (acc_step e a) = fst (acc_step e b) \<and> acc_sim (snd (acc_step e a)) (snd (acc_step e b))"
  proof (cases e)
    case (Prepare p)
    then have "pn (pa_n p) \<noteq> 0" using assms(2) by simp
    note c = c(1) [OF this]
    show ?thesis unfolding Prepare using eq a by (simp add: preparereq_def Let_def c acc_sim_def)
  next
    case (Accept p)
    then have "pn (aa_n p) \<noteq> 0" using assms(2) by simp
    note c = c(2) [OF this]
    show ?thesis unfolding Accept using eq by (simp add: acceptreq_def Let_def c acc_sim_def)
  next
    case (Decide d)
    show ?thesis unfolding Decide using eq by (simp add: decidereq_def commit_wo_def acc_sim_def stdmap_simps)
  next
    case (Commit i v)
    show ?thesis unfolding Commit using eq by (simp add: acc_commit_def commit_wo_def acc_sim_def stdmap_simps)
  qed
  then show "fst (acc_step e a) = fst (acc_step e b)" "acc_sim (snd (acc_step e a)) (snd (acc_step e b))"
    by auto
qed

lemma acc_sim_run:
  "acc_sim a b \<Longrightarrow> \<forall>e \<in> set es. event_pos e \<Longrightarrow>
    fst (acc_run es a) = fst (acc_run es b) \<and> acc_sim (snd (acc_run es a)) (snd (acc_run es b))"
proof (induction es arbitrary: a b)
  case (Cons e es)
  from Cons.prems acc_sim_step [of a b e] Cons.IH [of "snd (acc_step e a)" "snd (acc_step e b)"]
  show ?case by (simp add: case_prod_unfold)
qed simp

text \<open>
  C3.  The log makes the acceptor crash-safe: after any history of requests, an acceptor
  restarted from the log file alone comes up without an error and answers every later sequence of requests
  exactly as the acceptor that never crashed would have.
\<close>

theorem acceptor_crash_transparent:
  assumes "\<forall>e \<in> set es. event_ok e" "\<forall>e \<in> set es'. event_pos e"
    and "a = snd (acc_run es (acceptor_init cfg me []))" "instance_h a \<noteq> 0 \<or> \<not> first"
  shows "\<exists>b. acceptor_new (acc_cfg a) first (acc_me a) val (log_file a) = Inr b
     \<and> fst (acc_run es' b) = fst (acc_run es' a)"
proof -
  have "acc_durable a" using durable_run [OF durable_init assms(1)] assms(3) by simp
  from restart_sim [OF this assms(4)] obtain b where
    b: "acceptor_new (acc_cfg a) first (acc_me a) val (log_file a) = Inr b" "acc_sim b a" by blast
  then show ?thesis using acc_sim_run [OF b(2) assms(2)] by simp
qed

theorem acceptor_crash_transparent_witness:
  "let a = snd (acc_run [Prepare \<lparr>pa_instance = 1, pa_n = Prop 1 ''p'', pa_v = []\<rparr>,
                         Accept \<lparr>aa_instance = 1, aa_n = Prop 1 ''p'', aa_v = ''v 1''\<rparr>] (acceptor_init True ''q'' []))
   in \<exists>b. acceptor_new (acc_cfg a) False (acc_me a) [] (log_file a) = Inr b
     \<and> fst (acc_run [Prepare \<lparr>pa_instance = 1, pa_n = Prop 2 ''r'', pa_v = []\<rparr>] b)
       = [PrepareRes POK \<lparr>oldinstance = 0, accept = 1, res_n_a = Prop 1 ''p'', res_v_a = ''v 1''\<rparr>]"
proof -
  let ?es = "[Prepare \<lparr>pa_instance = 1, pa_n = Prop 1 ''p'', pa_v = []\<rparr>, Accept \<lparr>aa_instance = 1, aa_n = Prop 1 ''p'', aa_v = ''v 1''\<rparr>]"
  let ?a = "snd (acc_run ?es (acceptor_init True ''q'' []))"
  let ?es' = "[Prepare \<lparr>pa_instance = 1, pa_n = Prop 2 ''r'', pa_v = []\<rparr>]"
  have "fst (acc_run ?es' ?a) = [PrepareRes POK \<lparr>oldinstance = 0, accept = 1, res_n_a = Prop 1 ''p'', res_v_a = ''v 1''\<rparr>]"
    by (simp add: preparereq_def acceptreq_def acceptor_init_def less_prop_t_def less_eq_prop_t_def res0_def)
  moreover have "\<forall>e \<in> set ?es. event_ok e" by (simp add: name_ok_def isspace_def)
  ultimately show ?thesis
    using acceptor_crash_transparent [of ?es ?es' _ True "''q''" False "[]", OF _ _ refl] by (simp add: Let_def)
qed

definition paxos_sim :: "acceptor \<Rightarrow> acceptor \<Rightarrow> bool" where
  "paxos_sim a b \<longleftrightarrow> prop_sim (n_h a) (n_h b) \<and> prop_sim (n_a a) (n_a b) \<and> v_a a = v_a b \<and> instance_h a = instance_h b
     \<and> mget [] (acc_values a) = mget [] (acc_values b)"

lemma paxos_sim_if: "acc_sim a b \<Longrightarrow> paxos_sim a b"
  by (simp add: acc_sim_def paxos_sim_def fun_eq_iff)

lemma paxos_sim_trans: "paxos_sim a b \<Longrightarrow> paxos_sim b c \<Longrightarrow> paxos_sim a c"
  unfolding paxos_sim_def by (elim conjE, intro conjI) (blast intro: prop_sim_trans | simp)+

lemma paxos_sim_fold: "paxos_sim a b \<Longrightarrow> paxos_sim (fold replay rs a) (fold replay rs b)"
proof (induction rs arbitrary: a b)
  case (Cons r rs)
  have "paxos_sim (replay r a) (replay r b)"
    using Cons.prems by (cases r) (simp_all add: paxos_sim_def stdmap_simps fun_eq_iff)
  then show ?case using Cons.IH by simp
qed simp

text \<open>
  C31.  A joining node that restores the dump of a member's log reaches the member's Paxos state: the same decided
  instance, the same promise and accepted proposal, the same value for every instance, and a log that is a
  byte-for-byte copy.
\<close>

theorem restore_of_dump:
  assumes "\<forall>e \<in> set es. event_ok e" and "b = snd (acc_run es (acceptor_init cfg me []))"
  shows "\<exists>c. acc_restore (acc_dump b) (acceptor_init cfg' me' f) = Inr c \<and> log_file c = log_file b
     \<and> instance_h c = instance_h b \<and> v_a c = v_a b \<and> prop_sim (n_h c) (n_h b) \<and> prop_sim (n_a c) (n_a b)
     \<and> mget [] (acc_values c) = mget [] (acc_values b)"
proof -
  have "acc_durable b" using durable_run [OF durable_init assms(1)] assms(2) by simp
  then obtain rs where rs: "log_file b = log_text rs" "\<forall>r \<in> set rs. rec_ok r"
      "acc_sim (fold replay rs (acceptor_init (acc_cfg b) (acc_me b) (log_file b))) b"
    by (auto simp: acc_durable_def)
  let ?i = "acceptor_init cfg' me' (log_file b)"
  have "acc_restore (acc_dump b) (acceptor_init cfg' me' f) = Inr (fold replay rs ?i)"
    using logread_from_text [OF rs(2), of ?i] log_dump_text [OF rs(2)] rs(1)
    by (simp add: acc_restore_def logread_def log_restore_def acc_dump_def acceptor_init_def)
  moreover have "paxos_sim ?i (acceptor_init (acc_cfg b) (acc_me b) (log_file b))"
    by (simp add: paxos_sim_def acceptor_init_def)
  then have "paxos_sim (fold replay rs ?i) b"
    by (rule paxos_sim_trans [OF paxos_sim_fold paxos_sim_if [OF rs(3)]])
  ultimately show ?thesis by (simp add: paxos_sim_def fold_replay_keeps acceptor_init_def)
qed

theorem restore_of_dump_witness:
  "\<exists>c. acc_restore (acc_dump (snd (acc_run [Decide \<lparr>da_instance = 1, da_v = ''1 a''\<rparr>] (acceptor_init True ''q'' []))))
      (acceptor_init True ''r'' []) = Inr c \<and> instance_h c = 1 \<and> mget [] (acc_values c) 1 = ''1 a''"
proof -
  have "mget [] [(1 :: u32, ''1 a'')] 1 = ''1 a''" by (simp add: mget_def mfind_def)
  then show ?thesis
    using restore_of_dump [of "[Decide \<lparr>da_instance = 1, da_v = ''1 a''\<rparr>]" _ True "''q''" True "''r''" "[]", OF _ refl]
    by (auto simp: decidereq_def commit_wo_def acceptor_init_def)
qed

end
