(* ===== verification/Proposer.thy ===== *)
theory Proposer
  imports Acceptor
begin

text \<open>
  The proposer of \<open>paxos.cc\<close>.  The RPC layer it calls through (\<open>handle\<close> and \<open>rpcc::call\<close>, and its own acceptor) is the
  record \<open>net\<close> of functions over a state \<open>'s\<close>; theory \<open>PaxosCluster\<close> fills it with the model's acceptors.  The bodies of the loops of
  \<open>prepare\<close> and \<open>accept\<close> are functions of their own, since the asynchronous system of theory \<open>PaxosSystem\<close> runs them
  one reply at a time.
\<close>

fun isamember :: "string \<Rightarrow> string list \<Rightarrow> bool" where
  "isamember m [] = False"
| "isamember m (x # xs) = (if x = m then True else isamember m xs)"

fun print_members :: "string list \<Rightarrow> string" where
  "print_members [] = []"
| "print_members [x] = x"
| "print_members (x # xs) = x @ '','' @ print_members xs"

text \<open>\<open>majority(l1, l2)\<close>: more than half of the positions of \<open>l1\<close> hold members of \<open>l2\<close>.\<close>

definition majority :: "string list \<Rightarrow> string list \<Rightarrow> bool" where
  "majority l1 l2 \<longleftrightarrow> length (filter (\<lambda>x. isamember x l2) l1) \<ge> length l1 div 2 + 1"

record proposer =
  p_me :: string
  break1 :: bool
  break2 :: bool
  stable :: bool
  c_nodes :: "string list"
  c_v :: string
  my_n :: prop_t

text \<open>The constructor leaves \<open>my_n.n\<close> uninitialised: its content is the argument \<open>n\<close>.\<close>

definition proposer_new :: "string \<Rightarrow> u32 \<Rightarrow> proposer" where
  "proposer_new me n = \<lparr>p_me = me, break1 = False, break2 = False, stable = True, c_nodes = [], c_v = [], my_n = Prop n me\<rparr>"

definition setn :: "prop_t \<Rightarrow> proposer \<Rightarrow> proposer" where
  "setn nh p = p\<lparr>my_n := Prop (if pn nh + 1 > pn (my_n p) + 1 then pn nh + 1 else pn (my_n p) + 1) (pm (my_n p))\<rparr>"

definition isrunning :: "proposer \<Rightarrow> bool" where
  "isrunning p = (\<not> stable p)"

definition breakpoint :: "int \<Rightarrow> proposer \<Rightarrow> proposer" where
  "breakpoint b p = (if b = 3 then p\<lparr>break1 := True\<rparr> else if b = 4 then p\<lparr>break2 := True\<rparr> else p)"

subsection \<open>Loop bodies\<close>

record prep_st =
  pr_accepts :: "string list"
  pr_v :: string
  pr_h :: prop_t

datatype prep_out = Old string | Rejected | Cont prep_st

text \<open>What \<open>prepare\<close> does with the reply of \<open>node\<close>.\<close>

definition prepare_one :: "string \<Rightarrow> prepareres \<Rightarrow> prep_st \<Rightarrow> prep_out" where
  "prepare_one node res st =
     (if oldinstance res = 1 then Old (res_v_a res)
      else if accept res = 0 then Rejected
      else if accept res = 1 then
        (let st = st\<lparr>pr_accepts := pr_accepts st @ [node]\<rparr> in
         if res_v_a res \<noteq> [] \<and> prop_gt (res_n_a res) (pr_h st)
         then Cont (st\<lparr>pr_h := res_n_a res, pr_v := res_v_a res\<rparr>) else Cont st)
      else Cont st)"

definition prep_init :: prep_st where
  "prep_init = \<lparr>pr_accepts = [], pr_v = [], pr_h = Prop 0 []\<rparr>"

text \<open>\<open>if (v.size() == 0) v = c_v;\<close>\<close>

definition choose_v :: "string \<Rightarrow> prep_st \<Rightarrow> string" where
  "choose_v cv st = (if pr_v st = [] then cv else pr_v st)"

subsection \<open>The proposer over an RPC layer\<close>

record 's net =
  net_up :: "string \<Rightarrow> 's \<Rightarrow> bool"
  net_prepare :: "string \<Rightarrow> string \<Rightarrow> preparearg \<Rightarrow> 's \<Rightarrow> prepareres option \<times> 's"
  net_accept :: "string \<Rightarrow> string \<Rightarrow> acceptarg \<Rightarrow> 's \<Rightarrow> bool \<times> 's"
  net_decide :: "string \<Rightarrow> string \<Rightarrow> decidearg \<Rightarrow> 's \<Rightarrow> 's"
  net_commit :: "u32 \<Rightarrow> string \<Rightarrow> 's \<Rightarrow> 's"
  net_n_h :: "'s \<Rightarrow> prop_t"

text \<open>The result: \<open>false\<close> with the state, or the values after the last node.\<close>

fun prepare :: "'s net \<Rightarrow> proposer \<Rightarrow> u32 \<Rightarrow> string list \<Rightarrow> prep_st \<Rightarrow> 's \<Rightarrow> prep_st option \<times> 's" where
  "prepare N p i [] st s = (Some st, s)"
| "prepare N p i (q # qs) st s =
     (if \<not> net_up N q s then prepare N p i qs st s
      else (case net_prepare N (p_me p) q \<lparr>pa_instance = i, pa_n = my_n p, pa_v = pr_v st\<rparr> s of
              (None, s) \<Rightarrow> prepare N p i qs st s
            | (Some res, s) \<Rightarrow> (case prepare_one q res st of
                 Old v \<Rightarrow> (None, net_commit N i v s)
               | Rejected \<Rightarrow> (None, s)
               | Cont st \<Rightarrow> prepare N p i qs st s)))"

fun accept_phase :: "'s net \<Rightarrow> proposer \<Rightarrow> u32 \<Rightarrow> string \<Rightarrow> string list \<Rightarrow> string list \<Rightarrow> 's \<Rightarrow> string list \<times> 's" where
  "accept_phase N p i v [] acks s = (acks, s)"
| "accept_phase N p i v (q # qs) acks s =
     (if \<not> net_up N q s then accept_phase N p i v qs acks s
      else (case net_accept N (p_me p) q \<lparr>aa_instance = i, aa_n = my_n p, aa_v = v\<rparr> s of
              (ok, s) \<Rightarrow> accept_phase N p i v qs (if ok then acks @ [q] else acks) s))"

fun decide :: "'s net \<Rightarrow> proposer \<Rightarrow> u32 \<Rightarrow> string \<Rightarrow> string list \<Rightarrow> 's \<Rightarrow> 's" where
  "decide N p i v [] s = s"
| "decide N p i v (q # qs) s =
     (if \<not> net_up N q s then decide N p i v qs s
      else decide N p i v qs (net_decide N (p_me p) q \<lparr>da_instance = i, da_v = v\<rparr> s))"

text \<open>\<open>Died\<close>: the process exits at a breakpoint.\<close>

datatype run_result = Returned bool | Died

definition proposer_run :: "'s net \<Rightarrow> u32 \<Rightarrow> string list \<Rightarrow> string \<Rightarrow> proposer \<Rightarrow> 's \<Rightarrow> run_result \<times> proposer \<times> 's" where
  "proposer_run N i nodes newv p s =
     (if \<not> stable p then (Returned False, p, s)
      else let p = setn (net_n_h N s) (p\<lparr>c_nodes := nodes, c_v := newv\<rparr>) in
        case prepare N p i nodes prep_init s of
          (None, s) \<Rightarrow> (Returned False, p\<lparr>stable := True\<rparr>, s)
        | (Some st, s) \<Rightarrow>
            if \<not> majority (c_nodes p) (pr_accepts st) then (Returned False, p\<lparr>stable := True\<rparr>, s)
            else let v = choose_v (c_v p) st in
              if break1 p then (Died, p, s)
              else (case accept_phase N p i v (pr_accepts st) [] s of
                (acks, s) \<Rightarrow>
                  if \<not> majority (c_nodes p) acks then (Returned False, p\<lparr>stable := True\<rparr>, s)
                  else if break2 p then (Died, p, s)
                  else (Returned True, p\<lparr>stable := True\<rparr>, decide N p i v acks s)))"

subsection \<open>Quorums and proposal numbers\<close>

lemma isamember_iff [simp]: "isamember m xs \<longleftrightarrow> m \<in> set xs"
  by (induction xs) auto

lemma filter_both:
  assumes "length xs < length (filter P xs) + length (filter Q xs)"
  shows "\<exists>x \<in> set xs. P x \<and> Q x"
  using assms by (induction xs) (auto split: if_splits)

lemma majority_intersect:
  assumes "majority l a" "majority l b"
  obtains x where "x \<in> set l" "x \<in> set a" "x \<in> set b"
proof -
  have "length l < length (filter (\<lambda>x. x \<in> set a) l) + length (filter (\<lambda>x. x \<in> set b) l)"
    using assms by (simp add: majority_def)
  from filter_both [OF this] that show thesis by blast
qed

lemma majority_self: "l \<noteq> [] \<Longrightarrow> set l \<subseteq> set a \<Longrightarrow> majority l a"
  unfolding majority_def by (cases l) (auto simp: subset_iff)

lemma majority_nonempty: "majority l a \<Longrightarrow> \<exists>x. x \<in> set a"
  using majority_intersect [of l a a] by blast

lemma setn_simps [simp]: "pm (my_n (setn nh p)) = pm (my_n p)" "stable (setn nh p) = stable p" "c_v (setn nh p) = c_v p"
  "c_nodes (setn nh p) = c_nodes p" "break1 (setn nh p) = break1 p" "break2 (setn nh p) = break2 p" "p_me (setn nh p) = p_me p"
  by (simp_all add: setn_def)

text \<open>Until the 32-bit counter is used up, \<open>setn\<close> picks a number above the last one and above the local promise.\<close>

lemma setn_greater:
  assumes "pn nh \<noteq> - 1" "pn (my_n p) \<noteq> - 1"
  shows "my_n p < my_n (setn nh p)" "pn nh < pn (my_n (setn nh p))" "pn (my_n (setn nh p)) \<noteq> 0"
proof -
  have "unat (pn nh + 1) = unat (pn nh) + 1" "unat (pn (my_n p) + 1) = unat (pn (my_n p)) + 1"
    using assms u32_no_wrap by auto
  then have "pn (my_n p) < pn (my_n (setn nh p))" "pn nh < pn (my_n (setn nh p))"
    by (auto simp: setn_def word_less_nat_alt)
  then show "my_n p < my_n (setn nh p)" "pn nh < pn (my_n (setn nh p))" "pn (my_n (setn nh p)) \<noteq> 0"
    by (auto simp: less_prop_t_def)
qed

subsection \<open>Runs over related RPC layers\<close>

text \<open>A run cannot tell an RPC layer from an abstraction of it.\<close>

locale net_abs =
  fixes N :: "'s net" and M :: "'t net" and f :: "'s \<Rightarrow> 't"
  assumes up_abs: "net_up M q (f s) = net_up N q s"
    and prepare_abs: "net_prepare M src q a (f s) = map_prod id f (net_prepare N src q a s)"
    and accept_abs: "net_accept M src q b (f s) = map_prod id f (net_accept N src q b s)"
    and decide_abs: "net_decide M src q d (f s) = f (net_decide N src q d s)"
    and commit_abs: "net_commit M i v (f s) = f (net_commit N i v s)"
    and n_h_abs: "net_n_h M (f s) = net_n_h N s"
begin

lemma prepare_phase_abs: "prepare M p i qs st (f s) = map_prod id f (prepare N p i qs st s)"
  by (induction qs arbitrary: st s)
    (auto simp: up_abs prepare_abs commit_abs split: prod.splits option.splits prep_out.splits)

lemma accept_phase_abs: "accept_phase M p i v qs ks (f s) = map_prod id f (accept_phase N p i v qs ks s)"
  by (induction qs arbitrary: ks s) (auto simp: up_abs accept_abs split: prod.splits)

lemma decide_phase_abs: "decide M p i v qs (f s) = f (decide N p i v qs s)"
  by (induction qs arbitrary: s) (auto simp: up_abs decide_abs)

lemma run_abs: "proposer_run M i nodes v p (f s) = map_prod id (map_prod id f) (proposer_run N i nodes v p s)"
  unfolding proposer_run_def
  by (simp add: Let_def n_h_abs prepare_phase_abs accept_phase_abs decide_phase_abs split: prod.splits option.splits)

end

text \<open>What every operation of the layer preserves, a run preserves.\<close>

locale net_inv =
  fixes N :: "'s net" and P :: "'s \<Rightarrow> bool"
  assumes prepare_inv: "P s \<Longrightarrow> P (snd (net_prepare N src q a s))"
    and accept_inv: "P s \<Longrightarrow> P (snd (net_accept N src q b s))"
    and decide_inv: "P s \<Longrightarrow> P (net_decide N src q d s)"
    and commit_inv: "P s \<Longrightarrow> P (net_commit N i v s)"
begin

lemma prepare_phase_inv: "P s \<Longrightarrow> P (snd (prepare N p i qs st s))"
proof (induction qs arbitrary: st s)
  case (Cons q qs)
  then show ?case
    using prepare_inv [OF Cons.prems, of "p_me p" q "\<lparr>pa_instance = i, pa_n = my_n p, pa_v = pr_v st\<rparr>"] commit_inv
    by (auto split: prod.splits option.splits prep_out.splits)
qed simp

lemma accept_phase_inv: "P s \<Longrightarrow> P (snd (accept_phase N p i v qs ks s))"
proof (induction qs arbitrary: ks s)
  case (Cons q qs)
  then show ?case
    using accept_inv [OF Cons.prems, of "p_me p" q "\<lparr>aa_instance = i, aa_n = my_n p, aa_v = v\<rparr>"] by (auto split: prod.splits)
qed simp

lemma decide_phase_inv: "P s \<Longrightarrow> P (decide N p i v qs s)"
  by (induction qs arbitrary: s) (auto simp: decide_inv)

lemma run_inv:
  assumes "P s" "proposer_run N i nodes v p s = (r, p', s')"
  shows "P s'"
proof -
  define p1 where "p1 = setn (net_n_h N s) (p\<lparr>c_nodes := nodes, c_v := v\<rparr>)"
  obtain o1 s1 where 1: "prepare N p1 i nodes prep_init s = (o1, s1)" by (cases "prepare N p1 i nodes prep_init s")
  have i1: "P s1" using prepare_phase_inv [OF assms(1), of p1 i nodes prep_init] 1 by simp
  have i2: "P s2" if "accept_phase N p1 i w qs ks s1 = (acks, s2)" for w qs ks acks s2
    using accept_phase_inv [OF i1, of p1 i w qs ks] that by simp
  show ?thesis
    using assms 1 i1 i2 decide_phase_inv
    by (auto simp: proposer_run_def p1_def [symmetric] Let_def split: if_splits option.splits prod.splits)
qed

end

end
