(* ===== verification/PaxosSystem.thy ===== *)
theory PaxosSystem
  imports Proposer
begin

text \<open>
  A whole Paxos group: every node has an acceptor and a proposer, messages are delivered late, repeatedly,
  in any order or never, and RPC replies may be lost.  Each action runs the handler or the loop
  body of \<open>paxos.cc\<close> it names.  \<open>members i\<close> is the membership the group runs instance \<open>i\<close> with.

  The flag \<open>sync\<close> adds one discipline the code itself does not enforce: an acceptor handles a prepare, accept or decide for
  an undecided instance only when it is the instance after its last decided one.  Under it
  all nodes agree on every instance; without it they need not (end of this theory).
\<close>

datatype phase = Idle
  | Preparing u32 "string list" prep_st
  | Accepting u32 string "string list" "string list"
  | Deciding u32 string "string list"

record psys =
  accs :: "string \<Rightarrow> acceptor"
  props :: "string \<Rightarrow> proposer"
  phases :: "string \<Rightarrow> phase"
  preps :: "(string \<times> preparearg) set"
  promises :: "(string \<times> u32 \<times> prop_t \<times> prepareres) set"
  acpts :: "(string \<times> acceptarg) set"
  acks :: "(string \<times> acceptarg) set"
  decs :: "(string \<times> decidearg) set"

datatype action = Start string u32 string
  | SendPrep string | RecvPrep string preparearg prepareres | GotPrep string prepareres | SkipPrep string | EndPrep string
  | SendAcc string | RecvAcc string acceptarg | GotAck string | SkipAcc string | EndAcc string
  | SendDec string | SkipDec string | EndDec string | RecvDec string decidearg

definition next_inst :: "u32 \<Rightarrow> acceptor \<Rightarrow> bool" where
  "next_inst i a \<longleftrightarrow> unat i = unat (instance_h a) + 1"

text \<open>\<open>None\<close>: the action is not enabled.\<close>

fun pdo :: "(u32 \<Rightarrow> string list) \<Rightarrow> bool \<Rightarrow> action \<Rightarrow> psys \<Rightarrow> psys option" where
  "pdo M sync (Start p i newv) s =
     (if phases s p = Idle \<and> stable (props s p) \<and> newv \<noteq> [] \<and> unat i \<le> unat (instance_h (accs s p)) + 1
         \<and> pn (n_h (accs s p)) \<noteq> - 1 \<and> pn (my_n (props s p)) \<noteq> - 1
      then Some (s\<lparr>props := (props s)(p := setn (n_h (accs s p)) ((props s p)\<lparr>c_nodes := M i, c_v := newv\<rparr>)),
                   phases := (phases s)(p := Preparing i (M i) prep_init)\<rparr>)
      else None)"
| "pdo M sync (SendPrep p) s =
     (case phases s p of
        Preparing i (q # qs) st \<Rightarrow>
          Some (s\<lparr>preps := insert (q, \<lparr>pa_instance = i, pa_n = my_n (props s p), pa_v = pr_v st\<rparr>) (preps s)\<rparr>)
      | _ \<Rightarrow> None)"
| "pdo M sync (RecvPrep q arg r0) s =
     (if (q, arg) \<in> preps s \<and> (sync \<longrightarrow> pa_instance arg \<le> instance_h (accs s q) \<or> next_inst (pa_instance arg) (accs s q))
      then (case preparereq [] arg r0 (accs s q) of
              (_, res, a) \<Rightarrow> Some (s\<lparr>accs := (accs s)(q := a),
                 promises := insert (q, pa_instance arg, pa_n arg, res) (promises s)\<rparr>))
      else None)"
| "pdo M sync (GotPrep p res) s =
     (case phases s p of
        Preparing i (q # qs) st \<Rightarrow>
          (if (q, i, my_n (props s p), res) \<in> promises s
           then Some (case prepare_one q res st of
               Old v \<Rightarrow> s\<lparr>accs := (accs s)(p := fst (acc_commit i v (accs s p))), phases := (phases s)(p := Idle)\<rparr>
             | Rejected \<Rightarrow> s\<lparr>phases := (phases s)(p := Idle)\<rparr>
             | Cont st \<Rightarrow> s\<lparr>phases := (phases s)(p := Preparing i qs st)\<rparr>)
           else None)
      | _ \<Rightarrow> None)"
| "pdo M sync (SkipPrep p) s =
     (case phases s p of
        Preparing i (q # qs) st \<Rightarrow> Some (s\<lparr>phases := (phases s)(p := Preparing i qs st)\<rparr>)
      | _ \<Rightarrow> None)"
| "pdo M sync (EndPrep p) s =
     (case phases s p of
        Preparing i [] st \<Rightarrow>
          Some (s\<lparr>phases := (phases s)(p :=
            if majority (c_nodes (props s p)) (pr_accepts st)
            then Accepting i (choose_v (c_v (props s p)) st) (pr_accepts st) [] else Idle)\<rparr>)
      | _ \<Rightarrow> None)"
| "pdo M sync (SendAcc p) s =
     (case phases s p of
        Accepting i v (q # qs) ks \<Rightarrow>
          Some (s\<lparr>acpts := insert (q, \<lparr>aa_instance = i, aa_n = my_n (props s p), aa_v = v\<rparr>) (acpts s)\<rparr>)
      | _ \<Rightarrow> None)"
| "pdo M sync (RecvAcc q arg) s =
     (if (q, arg) \<in> acpts s \<and> (sync \<longrightarrow> next_inst (aa_instance arg) (accs s q))
      then (case acceptreq [] arg (accs s q) of
              (st, a) \<Rightarrow> Some (s\<lparr>accs := (accs s)(q := a),
                 acks := (if st = POK then insert (q, arg) (acks s) else acks s)\<rparr>))
      else None)"
| "pdo M sync (GotAck p) s =
     (case phases s p of
        Accepting i v (q # qs) ks \<Rightarrow>
          (if (q, \<lparr>aa_instance = i, aa_n = my_n (props s p), aa_v = v\<rparr>) \<in> acks s
           then Some (s\<lparr>phases := (phases s)(p := Accepting i v qs (ks @ [q]))\<rparr>) else None)
      | _ \<Rightarrow> None)"
| "pdo M sync (SkipAcc p) s =
     (case phases s p of
        Accepting i v (q # qs) ks \<Rightarrow> Some (s\<lparr>phases := (phases s)(p := Accepting i v qs ks)\<rparr>)
      | _ \<Rightarrow> None)"
| "pdo M sync (EndAcc p) s =
     (case phases s p of
        Accepting i v [] ks \<Rightarrow>
          Some (s\<lparr>phases := (phases s)(p := if majority (c_nodes (props s p)) ks then Deciding i v ks else Idle)\<rparr>)
      | _ \<Rightarrow> None)"
| "pdo M sync (SendDec p) s =
     (case phases s p of
        Deciding i v (q # qs) \<Rightarrow>
          Some (s\<lparr>decs := insert (q, \<lparr>da_instance = i, da_v = v\<rparr>) (decs s)\<rparr>)
      | _ \<Rightarrow> None)"
| "pdo M sync (SkipDec p) s =
     (case phases s p of
        Deciding i v (q # qs) \<Rightarrow> Some (s\<lparr>phases := (phases s)(p := Deciding i v qs)\<rparr>)
      | _ \<Rightarrow> None)"
| "pdo M sync (EndDec p) s =
     (case phases s p of
        Deciding i v [] \<Rightarrow> Some (s\<lparr>phases := (phases s)(p := Idle)\<rparr>)
      | _ \<Rightarrow> None)"
| "pdo M sync (RecvDec q arg) s =
     (if (q, arg) \<in> decs s \<and> (sync \<longrightarrow> da_instance arg \<le> instance_h (accs s q) \<or> next_inst (da_instance arg) (accs s q))
      then Some (s\<lparr>accs := (accs s)(q := fst (snd (decidereq [] arg (accs s q))))\<rparr>)
      else None)"

text \<open>Every node starts with instance 1 decided as \<open>v1\<close>; the proposers' numbers start anywhere.\<close>

definition psys_init :: "string \<Rightarrow> (string \<Rightarrow> u32) \<Rightarrow> psys" where
  "psys_init v1 n0 = \<lparr>
     accs = (\<lambda>q. (acceptor_init True q [])\<lparr>acc_values := [(1, v1)], log_file := loginstance 1 v1 [], instance_h := 1\<rparr>),
     props = (\<lambda>p. proposer_new p (n0 p)), phases = (\<lambda>p. Idle),
     preps = {}, promises = {}, acpts = {}, acks = {}, decs = {}\<rparr>"

inductive preach :: "(u32 \<Rightarrow> string list) \<Rightarrow> bool \<Rightarrow> string \<Rightarrow> (string \<Rightarrow> u32) \<Rightarrow> psys \<Rightarrow> bool"
  for M sync v1 n0 where
  init: "preach M sync v1 n0 (psys_init v1 n0)"
| step: "preach M sync v1 n0 s \<Longrightarrow> pdo M sync act s = Some s' \<Longrightarrow> preach M sync v1 n0 s'"

subsection \<open>Promises, votes, choices\<close>

definition promised :: "psys \<Rightarrow> string \<Rightarrow> u32 \<Rightarrow> prop_t \<Rightarrow> prepareres \<Rightarrow> bool" where
  "promised s q i n res \<longleftrightarrow> (q, i, n, res) \<in> promises s \<and> oldinstance res \<noteq> 1 \<and> accept res = 1"

definition asked :: "psys \<Rightarrow> string \<Rightarrow> u32 \<Rightarrow> prop_t \<Rightarrow> string \<Rightarrow> bool" where
  "asked s q i n v \<longleftrightarrow> (q, \<lparr>aa_instance = i, aa_n = n, aa_v = v\<rparr>) \<in> acpts s"

definition voted :: "psys \<Rightarrow> string \<Rightarrow> u32 \<Rightarrow> prop_t \<Rightarrow> string \<Rightarrow> bool" where
  "voted s q i n v \<longleftrightarrow> (q, \<lparr>aa_instance = i, aa_n = n, aa_v = v\<rparr>) \<in> acks s"

definition chosen :: "(u32 \<Rightarrow> string list) \<Rightarrow> psys \<Rightarrow> u32 \<Rightarrow> prop_t \<Rightarrow> string \<Rightarrow> bool" where
  "chosen M s i n v \<longleftrightarrow> (\<exists>Q. majority (M i) Q \<and> (\<forall>q \<in> set Q. voted s q i n v))"

text \<open>What a proposer knows when it proposes \<open>v\<close> with number \<open>n\<close>.\<close>

definition evidence :: "(u32 \<Rightarrow> string list) \<Rightarrow> psys \<Rightarrow> u32 \<Rightarrow> prop_t \<Rightarrow> string \<Rightarrow> bool" where
  "evidence M s i n v \<longleftrightarrow> (\<exists>Q h. majority (M i) Q
     \<and> (\<forall>q \<in> set Q. \<exists>res. promised s q i n res \<and> (res_v_a res = [] \<or> res_n_a res \<le> h))
     \<and> (h = Prop 0 [] \<or> (\<exists>q. voted s q i h v \<and> h < n)))"

text \<open>One acceptor against the promises \<open>P\<close> and votes \<open>V\<close> it has given.\<close>

definition acc_inv :: "(u32 \<Rightarrow> prop_t \<Rightarrow> bool) \<Rightarrow> (u32 \<Rightarrow> prop_t \<Rightarrow> string \<Rightarrow> bool) \<Rightarrow> acceptor \<Rightarrow> bool" where
  "acc_inv P V a \<longleftrightarrow> 1 \<le> instance_h a
     \<and> (\<forall>i n. P i n \<longrightarrow> 1 < i \<and> unat i \<le> unat (instance_h a) + 1 \<and> (next_inst i a \<longrightarrow> n \<le> n_h a))
     \<and> (\<forall>i n v. V i n v \<longrightarrow> unat i \<le> unat (instance_h a) + 1 \<and> (next_inst i a \<longrightarrow> n \<le> n_a a \<and> pn (n_a a) \<noteq> 0))
     \<and> (pn (n_a a) \<noteq> 0 \<longrightarrow> n_a a \<le> n_h a \<and> (\<exists>i. next_inst i a \<and> V i (n_a a) (v_a a)))"

definition inv_acc :: "psys \<Rightarrow> bool" where
  "inv_acc s \<longleftrightarrow> (\<forall>q. acc_inv (\<lambda>i n. \<exists>res. promised s q i n res) (voted s q) (accs s q))"

text \<open>A promise for \<open>n\<close> reports the highest vote below \<open>n\<close>, and no vote below \<open>n\<close> is missed.\<close>

definition rep_inv :: "(prop_t \<Rightarrow> string \<Rightarrow> bool) \<Rightarrow> prop_t \<Rightarrow> prepareres \<Rightarrow> bool" where
  "rep_inv V n res \<longleftrightarrow> (\<forall>n' v'. V n' v' \<and> n' < n \<longrightarrow> res_v_a res \<noteq> [] \<and> n' \<le> res_n_a res)
     \<and> (res_v_a res \<noteq> [] \<longrightarrow> V (res_n_a res) (res_v_a res) \<and> res_n_a res < n)"

definition inv_promise :: "psys \<Rightarrow> bool" where
  "inv_promise s \<longleftrightarrow> (\<forall>q i n res. promised s q i n res \<longrightarrow> rep_inv (voted s q i) n res)"

definition msg_ok :: "psys \<Rightarrow> string \<Rightarrow> u32 \<Rightarrow> prop_t \<Rightarrow> string \<Rightarrow> bool" where
  "msg_ok s q i n v \<longleftrightarrow> v \<noteq> [] \<and> pn n \<noteq> 0 \<and> (\<exists>res. promised s q i n res)"

definition inv_msgs :: "psys \<Rightarrow> bool" where
  "inv_msgs s \<longleftrightarrow> acks s \<subseteq> acpts s \<and> finite (acpts s) \<and> (\<forall>q i n v. asked s q i n v \<longrightarrow> msg_ok s q i n v)"

fun busy_with :: "phase \<Rightarrow> u32 \<Rightarrow> string \<Rightarrow> bool" where
  "busy_with Idle i v = True"
| "busy_with (Preparing _ _ _) i v = False"
| "busy_with (Accepting i' v' _ _) i v = (i' = i \<and> v' = v)"
| "busy_with (Deciding i' v' _) i v = (i' = i \<and> v' = v)"

definition num_ok :: "psys \<Rightarrow> u32 \<Rightarrow> prop_t \<Rightarrow> string \<Rightarrow> bool" where
  "num_ok s i n v \<longleftrightarrow> n < my_n (props s (pm n)) \<or> n = my_n (props s (pm n)) \<and> busy_with (phases s (pm n)) i v"

text \<open>A proposal number stands for one run of one proposer: one instance and one value.\<close>

definition inv_num :: "psys \<Rightarrow> bool" where
  "inv_num s \<longleftrightarrow> (\<forall>p. pm (my_n (props s p)) = p)
     \<and> (\<forall>q i n v. asked s q i n v \<longrightarrow> num_ok s i n v)
     \<and> (\<forall>q i v q' i' v' n. asked s q i n v \<longrightarrow> asked s q' i' n v' \<longrightarrow> i = i' \<and> v = v')"

definition prep_ok :: "psys \<Rightarrow> u32 \<Rightarrow> prop_t \<Rightarrow> prep_st \<Rightarrow> bool" where
  "prep_ok s i n st \<longleftrightarrow>
     (\<forall>q \<in> set (pr_accepts st). \<exists>res. promised s q i n res \<and> (res_v_a res = [] \<or> res_n_a res \<le> pr_h st))
     \<and> (pr_h st = Prop 0 [] \<and> pr_v st = []
        \<or> pr_v st \<noteq> [] \<and> (\<exists>q res. promised s q i n res \<and> res_v_a res = pr_v st \<and> res_n_a res = pr_h st))"

fun phase_ok :: "(u32 \<Rightarrow> string list) \<Rightarrow> psys \<Rightarrow> u32 \<Rightarrow> proposer \<Rightarrow> phase \<Rightarrow> bool" where
  "phase_ok M s h p Idle = True"
| "phase_ok M s h p (Preparing i qs st) =
     (c_nodes p = M i \<and> c_v p \<noteq> [] \<and> pn (my_n p) \<noteq> 0 \<and> unat i \<le> unat h + 1 \<and> prep_ok s i (my_n p) st)"
| "phase_ok M s h p (Accepting i v qs ks) =
     (c_nodes p = M i \<and> v \<noteq> [] \<and> pn (my_n p) \<noteq> 0 \<and> evidence M s i (my_n p) v
      \<and> (\<forall>q \<in> set qs. msg_ok s q i (my_n p) v) \<and> (\<forall>q \<in> set ks. voted s q i (my_n p) v))"
| "phase_ok M s h p (Deciding i v qs) = (\<exists>n. chosen M s i n v)"

definition inv_phase :: "(u32 \<Rightarrow> string list) \<Rightarrow> psys \<Rightarrow> bool" where
  "inv_phase M s \<longleftrightarrow> (\<forall>p. phase_ok M s (instance_h (accs s p)) (props s p) (phases s p))"

definition inv_ev :: "(u32 \<Rightarrow> string list) \<Rightarrow> psys \<Rightarrow> bool" where
  "inv_ev M s \<longleftrightarrow> (\<forall>q i n v. asked s q i n v \<longrightarrow> evidence M s i n v)"

definition decided :: "(u32 \<Rightarrow> string list) \<Rightarrow> string \<Rightarrow> psys \<Rightarrow> u32 \<Rightarrow> string \<Rightarrow> bool" where
  "decided M v1 s i v \<longleftrightarrow> (if i = 1 then v = v1 else \<exists>n. chosen M s i n v)"

definition values_ok :: "(u32 \<Rightarrow> string list) \<Rightarrow> string \<Rightarrow> psys \<Rightarrow> acceptor \<Rightarrow> bool" where
  "values_ok M v1 s a \<longleftrightarrow> (\<forall>i. 1 \<le> i \<and> i \<le> instance_h a \<longrightarrow> (\<exists>v. mfind (acc_values a) i = Some v \<and> decided M v1 s i v))"

definition inv_dec :: "(u32 \<Rightarrow> string list) \<Rightarrow> string \<Rightarrow> psys \<Rightarrow> bool" where
  "inv_dec M v1 s \<longleftrightarrow> (\<forall>q d. (q, d) \<in> decs s \<longrightarrow> (\<exists>n. chosen M s (da_instance d) n (da_v d)))
     \<and> (\<forall>q. values_ok M v1 s (accs s q))
     \<and> (\<forall>q i n res. (q, i, n, res) \<in> promises s \<and> oldinstance res = 1 \<and> 1 \<le> i \<longrightarrow> decided M v1 s i (res_v_a res))"

subsection \<open>The initial state and monotonicity\<close>

lemma inv_init:
  "inv_acc (psys_init v1 n0)" "inv_promise (psys_init v1 n0)" "inv_msgs (psys_init v1 n0)" "inv_num (psys_init v1 n0)"
  "inv_phase M (psys_init v1 n0)" "inv_ev M (psys_init v1 n0)" "inv_dec M v1 (psys_init v1 n0)"
proof -
  have "i = 1" if "1 \<le> i" "i \<le> 1" for i :: u32 using that by simp
  then show "inv_dec M v1 (psys_init v1 n0)"
    by (auto simp: inv_dec_def values_ok_def psys_init_def decided_def mfind_def)
qed (simp_all add: inv_acc_def acc_inv_def inv_promise_def inv_msgs_def inv_num_def inv_phase_def inv_ev_def
    psys_init_def promised_def asked_def voted_def proposer_new_def acceptor_init_def)

lemma commit_wo_instance: "instance_h a \<le> instance_h (fst (commit_wo i v a))"
  by (auto simp: commit_wo_def)

lemma preparereq_cases:
  assumes "preparereq src p r0 a = (st, res, a')"
  obtains (old) "pa_instance p \<le> instance_h a" "oldinstance res = 1" "res_v_a res = mget [] (acc_values a) (pa_instance p)"
      "a' = a\<lparr>acc_values := mindex [] (pa_instance p) (acc_values a)\<rparr>"
  | (ok) "instance_h a < pa_instance p" "n_h a < pa_n p" "oldinstance res = 0" "accept res = 1"
      "res_v_a res = (if pn (n_a a) = 0 then [] else v_a a)" "pn (n_a a) \<noteq> 0 \<Longrightarrow> res_n_a res = n_a a"
      "a' = a\<lparr>n_h := pa_n p, log_file := loghigh (pa_n p) (log_file a)\<rparr>"
  | (rejected) "instance_h a < pa_instance p" "oldinstance res = 0" "accept res = 0" "a' = a"
  using assms by (auto simp: preparereq_def Let_def not_le split: if_splits)

lemma pdo_mono:
  assumes "pdo M sync act s = Some s'"
  shows "promises s \<subseteq> promises s' \<and> acks s \<subseteq> acks s' \<and> (\<forall>q. instance_h (accs s q) \<le> instance_h (accs s' q))"
proof (cases act)
  case (RecvPrep q arg r0)
  obtain st res a where r: "preparereq [] arg r0 (accs s q) = (st, res, a)" by (cases "preparereq [] arg r0 (accs s q)")
  then have "instance_h a = instance_h (accs s q)" by (cases rule: preparereq_cases) auto
  then show ?thesis using assms r by (auto simp: RecvPrep split: if_splits)
qed (use assms in \<open>auto split: if_splits phase.splits list.splits prod.splits prep_out.splits
    simp: acceptreq_def Let_def decidereq_def acc_commit_def commit_wo_instance\<close>)

lemma promised_mono: "promised s q i n res \<Longrightarrow> promises s \<subseteq> promises s' \<Longrightarrow> promised s' q i n res"
  by (auto simp: promised_def)

lemma voted_mono: "voted s q i n v \<Longrightarrow> acks s \<subseteq> acks s' \<Longrightarrow> voted s' q i n v"
  by (auto simp: voted_def)

lemma chosen_mono: "chosen M s i n v \<Longrightarrow> acks s \<subseteq> acks s' \<Longrightarrow> chosen M s' i n v"
  using voted_mono by (fastforce simp: chosen_def)

lemma decided_mono: "decided M v1 s i v \<Longrightarrow> acks s \<subseteq> acks s' \<Longrightarrow> decided M v1 s' i v"
  using chosen_mono [of M s i _ v s'] by (auto simp: decided_def split: if_splits)

lemma evidence_mono:
  "evidence M s i n v \<Longrightarrow> promises s \<subseteq> promises s' \<Longrightarrow> acks s \<subseteq> acks s' \<Longrightarrow> evidence M s' i n v"
proof -
  assume m: "promises s \<subseteq> promises s'" "acks s \<subseteq> acks s'" and "evidence M s i n v"
  then obtain Q h where "majority (M i) Q"
    "\<forall>q \<in> set Q. \<exists>res. promised s q i n res \<and> (res_v_a res = [] \<or> res_n_a res \<le> h)"
    "h = Prop 0 [] \<or> (\<exists>q. voted s q i h v \<and> h < n)"
    by (auto simp: evidence_def)
  with promised_mono [OF _ m(1)] voted_mono [OF _ m(2)] show ?thesis
    unfolding evidence_def by (intro exI [of _ Q] exI [of _ h]) blast
qed

lemma prep_ok_mono: "prep_ok s i n st \<Longrightarrow> promises s \<subseteq> promises s' \<Longrightarrow> prep_ok s' i n st"
  unfolding prep_ok_def by (meson promised_mono)

subsection \<open>Acceptors keep their promises\<close>

lemma next_inst_unique: "next_inst i a \<Longrightarrow> next_inst j a \<Longrightarrow> i = j"
  by (simp add: next_inst_def word_unat_eq_iff)

lemma not_next_after:
  "instance_h a < j \<Longrightarrow> unat i \<le> unat (instance_h a) + 1 \<Longrightarrow> \<not> next_inst i (a'\<lparr>instance_h := j\<rparr>)"
  by (simp add: next_inst_def word_less_nat_alt)

lemma next_inst_simps [simp]:
  "next_inst i (a\<lparr>n_h := n\<rparr>) = next_inst i a" "next_inst i (a\<lparr>n_a := n\<rparr>) = next_inst i a"
  "next_inst i (a\<lparr>v_a := v\<rparr>) = next_inst i a" "next_inst i (a\<lparr>log_file := f\<rparr>) = next_inst i a"
  "next_inst i (a\<lparr>acc_values := m\<rparr>) = next_inst i a"
  by (simp_all add: next_inst_def)

lemma acc_inv_irrelevant [simp]:
  "acc_inv P V (a\<lparr>acc_values := m\<rparr>) = acc_inv P V a" "acc_inv P V (a\<lparr>log_file := f\<rparr>) = acc_inv P V a"
  by (simp_all add: acc_inv_def)

lemma acc_inv_prepare:
  assumes "acc_inv P V a" "next_inst i a" "n_h a < n" "instance_h a < i"
  shows "acc_inv (\<lambda>i' n'. P i' n' \<or> i' = i \<and> n' = n) V (a\<lparr>n_h := n\<rparr>)"
proof -
  have "1 < i" using assms(1,4) by (auto simp: acc_inv_def)
  moreover have "n' \<le> n" if "P i' n'" "next_inst i' a" for i' n'
    using assms(1,3) that unfolding acc_inv_def by (meson less_imp_le order_trans)
  moreover have "n_a a \<le> n" if "pn (n_a a) \<noteq> 0"
    using assms(1,3) that unfolding acc_inv_def by (meson less_imp_le order_trans)
  moreover have "unat i \<le> unat (instance_h a) + 1" using assms(2) by (simp add: next_inst_def)
  ultimately show ?thesis using assms(1) unfolding acc_inv_def by auto
qed

lemma acc_inv_accept:
  assumes "acc_inv P V a" "next_inst i a" "n = n_h a" "pn n \<noteq> 0"
  shows "acc_inv P (\<lambda>i' n' v'. i' = i \<and> n' = n \<and> v' = v \<or> V i' n' v') (a\<lparr>n_a := n, v_a := v\<rparr>)"
proof -
  have "n' \<le> n" if "V i' n' v'" "next_inst i' a" for i' n' v'
    using assms(1,3) that unfolding acc_inv_def by (meson order_trans)
  moreover have "unat i \<le> unat (instance_h a) + 1" using assms(2) by (simp add: next_inst_def)
  ultimately show ?thesis using assms unfolding acc_inv_def by auto
qed

lemma acc_inv_commit:
  assumes "acc_inv P V a"
  shows "acc_inv P V (fst (commit_wo j v a))"
proof (cases "instance_h a < j")
  case True
  then have j: "unat (instance_h a) < unat j" "1 \<le> j" by (auto simp: word_less_nat_alt word_le_nat_alt)
  have P: "1 < i" "unat i \<le> unat j" if "P i n" for i n
  proof -
    have "1 < i \<and> unat i \<le> unat (instance_h a) + 1" using assms that unfolding acc_inv_def by blast
    then show "1 < i" "unat i \<le> unat j" using j by auto
  qed
  have V: "unat i \<le> unat j" if "V i n v" for i n v
  proof -
    have "unat i \<le> unat (instance_h a) + 1" using assms that unfolding acc_inv_def by blast
    then show ?thesis using j by simp
  qed
  show ?thesis using True P V j(2) unfolding acc_inv_def commit_wo_def
    by (fastforce simp: next_inst_def)
qed (use assms in \<open>simp add: commit_wo_def\<close>)

lemma promised_ins:
  "promised (s\<lparr>promises := insert (q, i, n, r) P\<rparr>) q' i' n' r' \<longleftrightarrow>
     promised (s\<lparr>promises := P\<rparr>) q' i' n' r' \<or> q' = q \<and> i' = i \<and> n' = n \<and> r' = r \<and> oldinstance r \<noteq> 1 \<and> accept r = 1"
  by (auto simp: promised_def)

lemma voted_ins:
  "voted (s\<lparr>acks := insert (q, arg) K\<rparr>) q' = (\<lambda>i n v.
     q' = q \<and> i = aa_instance arg \<and> n = aa_n arg \<and> v = aa_v arg \<or> voted (s\<lparr>acks := K\<rparr>) q' i n v)"
  by (cases arg) (auto simp: voted_def fun_eq_iff)

lemma asked_ins:
  "asked (s\<lparr>acpts := insert (q, arg) K\<rparr>) q' i n v \<longleftrightarrow>
     q' = q \<and> i = aa_instance arg \<and> n = aa_n arg \<and> v = aa_v arg \<or> asked (s\<lparr>acpts := K\<rparr>) q' i n v"
  by (cases arg) (auto simp: asked_def)

lemma asked_iff: "(q, arg) \<in> acpts s \<longleftrightarrow> asked s q (aa_instance arg) (aa_n arg) (aa_v arg)"
  by (cases arg) (simp add: asked_def)

lemma ghost_same [simp]: "promised (s\<lparr>promises := promises t\<rparr>) = promised t" "voted (s\<lparr>acks := acks t\<rparr>) = voted t"
  "asked (s\<lparr>acpts := acpts t\<rparr>) = asked t"
  by (simp_all add: promised_def voted_def asked_def fun_eq_iff)

lemma ghost_frame [simp]:
  "promised (s\<lparr>accs := f\<rparr>) = promised s" "voted (s\<lparr>accs := f\<rparr>) = voted s" "asked (s\<lparr>accs := f\<rparr>) = asked s"
  "promised (s\<lparr>props := g\<rparr>) = promised s" "voted (s\<lparr>props := g\<rparr>) = voted s" "asked (s\<lparr>props := g\<rparr>) = asked s"
  "promised (s\<lparr>phases := h\<rparr>) = promised s" "voted (s\<lparr>phases := h\<rparr>) = voted s" "asked (s\<lparr>phases := h\<rparr>) = asked s"
  "promised (s\<lparr>preps := P\<rparr>) = promised s" "voted (s\<lparr>preps := P\<rparr>) = voted s" "asked (s\<lparr>preps := P\<rparr>) = asked s"
  "promised (s\<lparr>acpts := A\<rparr>) = promised s" "voted (s\<lparr>acpts := A\<rparr>) = voted s"
  "promised (s\<lparr>acks := K\<rparr>) = promised s" "asked (s\<lparr>acks := K\<rparr>) = asked s"
  "promised (s\<lparr>decs := D\<rparr>) = promised s" "voted (s\<lparr>decs := D\<rparr>) = voted s" "asked (s\<lparr>decs := D\<rparr>) = asked s"
  "voted (s\<lparr>promises := R\<rparr>) = voted s" "asked (s\<lparr>promises := R\<rparr>) = asked s"
  by (simp_all add: promised_def voted_def asked_def fun_eq_iff)

lemma inv_acc_prepare:
  assumes "inv_acc s" "preparereq [] arg r0 (accs s q) = (st, res, a)"
    "pa_instance arg \<le> instance_h (accs s q) \<or> next_inst (pa_instance arg) (accs s q)"
  shows "inv_acc (s\<lparr>accs := (accs s)(q := a), promises := insert (q, pa_instance arg, pa_n arg, res) (promises s)\<rparr>)"
  using assms(2)
proof (cases rule: preparereq_cases)
  case ok
  then have n: "next_inst (pa_instance arg) (accs s q)" using assms(3) by auto
  show ?thesis
    using assms(1) ok acc_inv_prepare [OF _ n ok(2,1), of "\<lambda>i n. \<exists>res. promised s q i n res" "voted s q"]
    by (auto simp: inv_acc_def promised_ins ex_disj_distrib)
qed (use assms(1) in \<open>auto simp: inv_acc_def promised_ins ex_disj_distrib\<close>)

lemma inv_acc_commit: "inv_acc s \<Longrightarrow> inv_acc (s\<lparr>accs := (accs s)(q := fst (commit_wo i v (accs s q)))\<rparr>)"
  by (simp add: inv_acc_def acc_inv_commit)

text \<open>An accept is only asked of a node that promised its number, so it carries exactly the promised number.\<close>

lemma acceptreq_exact:
  assumes "inv_acc s" "inv_msgs s" "(q, arg) \<in> acpts s" "next_inst (aa_instance arg) (accs s q)"
    "acceptreq [] arg (accs s q) = (st, a)"
  shows "st = POK \<and> aa_n arg = n_h (accs s q)
      \<and> a = (accs s q)\<lparr>n_a := aa_n arg, v_a := aa_v arg, log_file := logprop (aa_n arg) (aa_v arg) (log_file (accs s q))\<rparr>
    \<or> st = PERR \<and> a = accs s q"
proof -
  have "asked s q (aa_instance arg) (aa_n arg) (aa_v arg)" using assms(3) by (simp add: asked_iff)
  then obtain res where "promised s q (aa_instance arg) (aa_n arg) res"
    using assms(2) unfolding inv_msgs_def msg_ok_def by blast
  then have "aa_n arg \<le> n_h (accs s q)" using assms(1,4) unfolding inv_acc_def acc_inv_def by blast
  then show ?thesis using assms(5) by (auto simp: acceptreq_def Let_def split: if_splits)
qed

lemma inv_acc_accept:
  assumes "inv_acc s" "inv_msgs s" "(q, arg) \<in> acpts s" "next_inst (aa_instance arg) (accs s q)"
    "acceptreq [] arg (accs s q) = (POK, a)"
  shows "inv_acc (s\<lparr>accs := (accs s)(q := a), acks := insert (q, arg) (acks s)\<rparr>)"
proof -
  have a: "aa_n arg = n_h (accs s q)" "a = (accs s q)\<lparr>n_a := aa_n arg, v_a := aa_v arg,
      log_file := logprop (aa_n arg) (aa_v arg) (log_file (accs s q))\<rparr>"
    using acceptreq_exact [OF assms] by auto
  have "asked s q (aa_instance arg) (aa_n arg) (aa_v arg)" using assms(3) by (simp add: asked_iff)
  then have "pn (aa_n arg) \<noteq> 0" using assms(2) unfolding inv_msgs_def msg_ok_def by blast
  from acc_inv_accept [OF _ assms(4) a(1) this, of "\<lambda>i n. \<exists>res. promised s q i n res" "voted s q" "aa_v arg"] assms(1)
  show ?thesis by (simp add: inv_acc_def a(2) voted_ins)
qed

lemma inv_acc_step:
  assumes "inv_acc s" "inv_msgs s" "pdo M True act s = Some s'"
  shows "inv_acc s'"
proof (cases act)
  case (RecvPrep q arg r0)
  then show ?thesis using assms inv_acc_prepare [of s arg r0 q]
    by (auto split: if_splits prod.splits)
next
  case (RecvAcc q arg)
  obtain st a where r: "acceptreq [] arg (accs s q) = (st, a)" by (cases "acceptreq [] arg (accs s q)")
  have e: "(q, arg) \<in> acpts s" "next_inst (aa_instance arg) (accs s q)" using assms(3) RecvAcc by (auto split: if_splits)
  show ?thesis
  proof (cases st)
    case POK
    then show ?thesis using assms(3) RecvAcc r e inv_acc_accept [OF assms(1,2) e] by auto
  next
    case PERR
    then have "a = accs s q" using acceptreq_exact [OF assms(1,2) e r] by simp
    then show ?thesis using assms(1,3) RecvAcc r e PERR by (auto simp: inv_acc_def)
  qed
next
  case (RecvDec q arg)
  then show ?thesis using assms(1,3) inv_acc_commit [OF assms(1), of q "da_instance arg" "da_v arg"]
    by (auto simp: decidereq_def split: if_splits)
next
  case (GotPrep p res)
  then show ?thesis using assms(1,3)
    by (auto simp: acc_commit_def inv_acc_def acc_inv_commit split: if_splits phase.splits list.splits prep_out.splits)
qed (use assms in \<open>auto simp: inv_acc_def split: if_splits phase.splits list.splits\<close>)

subsection \<open>Promises report the votes they exclude\<close>

lemmas psys_splits = if_splits phase.splits list.splits prod.splits prep_out.splits

lemma inv_promise_prepare:
  assumes inv: "inv_acc s" "inv_promise s" "inv_msgs s" and r: "preparereq [] arg r0 (accs s q) = (st, res, a)"
    and e: "pa_instance arg \<le> instance_h (accs s q) \<or> next_inst (pa_instance arg) (accs s q)"
  shows "inv_promise (s\<lparr>accs := (accs s)(q := a), promises := insert (q, pa_instance arg, pa_n arg, res) (promises s)\<rparr>)"
  using r
proof (cases rule: preparereq_cases)
  case ok
  let ?i = "pa_instance arg" and ?n = "pa_n arg"
  have ni: "next_inst ?i (accs s q)" using ok(1) e by auto
  have A: "acc_inv (\<lambda>i n. \<exists>res. promised s q i n res) (voted s q) (accs s q)" using inv(1) by (simp add: inv_acc_def)
  have na: "voted s q ?i (n_a (accs s q)) (v_a (accs s q))" "n_a (accs s q) < ?n" "v_a (accs s q) \<noteq> []" if nz: "pn (n_a (accs s q)) \<noteq> 0"
  proof -
    obtain j where j: "next_inst j (accs s q)" "voted s q j (n_a (accs s q)) (v_a (accs s q))" "n_a (accs s q) \<le> n_h (accs s q)"
      using A nz unfolding acc_inv_def by blast
    then show v: "voted s q ?i (n_a (accs s q)) (v_a (accs s q))" using next_inst_unique [OF ni] by simp
    show "n_a (accs s q) < ?n" using j(3) ok(2) by simp
    have "asked s q ?i (n_a (accs s q)) (v_a (accs s q))" using v inv(3) by (auto simp: inv_msgs_def asked_def voted_def)
    then show "v_a (accs s q) \<noteq> []" using inv(3) unfolding inv_msgs_def msg_ok_def by blast
  qed
  have "res_v_a res \<noteq> [] \<and> n' \<le> res_n_a res" if "voted s q ?i n' v'" for n' v'
  proof -
    have "n' \<le> n_a (accs s q)" "pn (n_a (accs s q)) \<noteq> 0" using A that ni unfolding acc_inv_def by blast+
    then show ?thesis using ok(5,6) na(3) by simp
  qed
  moreover have "voted s q ?i (res_n_a res) (res_v_a res) \<and> res_n_a res < ?n" if "res_v_a res \<noteq> []"
    using that ok(5,6) na by (auto split: if_splits)
  ultimately have "rep_inv (voted s q ?i) ?n res" unfolding rep_inv_def by blast
  then show ?thesis using inv(2) by (auto simp: inv_promise_def promised_ins)
qed (use inv(2) in \<open>auto simp: inv_promise_def promised_ins\<close>)

lemma inv_promise_accept:
  assumes inv: "inv_acc s" "inv_promise s" "inv_msgs s" and e: "(q, arg) \<in> acpts s" "next_inst (aa_instance arg) (accs s q)"
    "acceptreq [] arg (accs s q) = (POK, a)"
  shows "inv_promise (s\<lparr>accs := (accs s)(q := a), acks := insert (q, arg) (acks s)\<rparr>)"
proof -
  have "aa_n arg = n_h (accs s q)" using acceptreq_exact [OF inv(1,3) e] by simp
  then have "\<not> aa_n arg < n" if "promised s q (aa_instance arg) n res" for n res
    using inv(1) e(2) that unfolding inv_acc_def acc_inv_def by (metis leD)
  then have "rep_inv (\<lambda>n v. q' = q \<and> i = aa_instance arg \<and> n = aa_n arg \<and> v = aa_v arg \<or> voted s q' i n v) n res"
    if "promised s q' i n res" for q' i n res
    using inv(2) that unfolding inv_promise_def rep_inv_def by metis
  then show ?thesis by (simp add: inv_promise_def voted_ins)
qed

lemma inv_promise_step:
  assumes "inv_acc s" "inv_promise s" "inv_msgs s" "pdo M True act s = Some s'"
  shows "inv_promise s'"
proof (cases act)
  case (RecvPrep q arg r0)
  then show ?thesis using assms(4) inv_promise_prepare [OF assms(1-3), of arg r0 q]
    by (auto split: if_splits prod.splits)
next
  case (RecvAcc q arg)
  obtain st a where r: "acceptreq [] arg (accs s q) = (st, a)" by (cases "acceptreq [] arg (accs s q)")
  have e: "(q, arg) \<in> acpts s" "next_inst (aa_instance arg) (accs s q)" using assms(4) RecvAcc by (auto split: if_splits)
  show ?thesis
  proof (cases st)
    case POK
    then show ?thesis using assms(4) RecvAcc r e inv_promise_accept [OF assms(1-3) e] by auto
  next
    case PERR
    then show ?thesis using assms(2,4) RecvAcc r e by (auto simp: inv_promise_def)
  qed
qed (use assms in \<open>auto simp: inv_promise_def split: psys_splits\<close>)

subsection \<open>What one action adds\<close>

lemma pdo_asked:
  assumes "pdo M sync act s = Some s'" "asked s' q i n v"
  obtains "asked s q i n v"
  | p qs ks where "act = SendAcc p" "phases s p = Accepting i v (q # qs) ks" "n = my_n (props s p)"
  using assms by (cases act) (auto simp: asked_ins split: psys_splits)

lemma pdo_acks: "pdo M sync act s = Some s' \<Longrightarrow> acks s \<subseteq> acpts s \<Longrightarrow> acks s' \<subseteq> acpts s'"
  by (cases act) (auto split: psys_splits)

lemma pdo_finite: "pdo M sync act s = Some s' \<Longrightarrow> finite (acpts s) \<Longrightarrow> finite (acpts s')"
  by (cases act) (auto split: psys_splits)

lemma msg_ok_mono: "msg_ok s q i n v \<Longrightarrow> promises s \<subseteq> promises s' \<Longrightarrow> msg_ok s' q i n v"
  unfolding msg_ok_def using promised_mono by blast

lemma phase_ok_mono:
  assumes "phase_ok M s h p ph" "promises s \<subseteq> promises s'" "acks s \<subseteq> acks s'" "h \<le> h'"
  shows "phase_ok M s' h' p ph"
proof (cases ph)
  case (Preparing i qs st)
  then show ?thesis using assms(1,4) prep_ok_mono [OF _ assms(2)] by (auto simp: word_le_nat_alt)
next
  case (Accepting i v qs ks)
  then show ?thesis
    using assms(1) evidence_mono [OF _ assms(2,3)] voted_mono [OF _ assms(3)] msg_ok_mono [OF _ assms(2)] by auto
next
  case (Deciding i v qs)
  then show ?thesis using assms(1) chosen_mono [OF _ assms(3)] by (simp, blast)
qed simp

lemma inv_msgs_step:
  assumes "inv_phase M s" "inv_msgs s" "pdo M sync act s = Some s'"
  shows "inv_msgs s'"
proof -
  have m: "promises s \<subseteq> promises s'" using pdo_mono [OF assms(3)] by simp
  have "msg_ok s' q i n v" if a: "asked s' q i n v" for q i n v
  proof (rule pdo_asked [OF assms(3) a])
    assume "asked s q i n v"
    then show ?thesis using assms(2) msg_ok_mono [OF _ m] by (auto simp: inv_msgs_def)
  next
    fix p qs ks assume "phases s p = Accepting i v (q # qs) ks" "n = my_n (props s p)"
    then have "msg_ok s q i n v" using assms(1) by (metis inv_phase_def phase_ok.simps(3) list.set_intros(1))
    then show ?thesis by (rule msg_ok_mono [OF _ m])
  qed
  then show ?thesis using assms(2) pdo_acks [OF assms(3)] pdo_finite [OF assms(3)] by (simp add: inv_msgs_def)
qed

lemma inv_ev_step:
  assumes "inv_phase M s" "inv_ev M s" "pdo M sync act s = Some s'"
  shows "inv_ev M s'"
proof -
  have m: "promises s \<subseteq> promises s'" "acks s \<subseteq> acks s'" using pdo_mono [OF assms(3)] by simp_all
  have "evidence M s' i n v" if a: "asked s' q i n v" for q i n v
  proof (rule pdo_asked [OF assms(3) a])
    assume "asked s q i n v"
    then show ?thesis using assms(2) evidence_mono [OF _ m] by (auto simp: inv_ev_def)
  next
    fix p qs ks assume "phases s p = Accepting i v (q # qs) ks" "n = my_n (props s p)"
    then have "evidence M s i n v" using assms(1) by (metis inv_phase_def phase_ok.simps(3))
    then show ?thesis by (rule evidence_mono [OF _ m])
  qed
  then show ?thesis by (simp add: inv_ev_def)
qed

lemma pdo_num:
  assumes "pdo M sync act s = Some s'"
  shows "pm (my_n (props s' p)) = pm (my_n (props s p))"
    "my_n (props s p) < my_n (props s' p)
     \<or> my_n (props s' p) = my_n (props s p) \<and> (\<forall>i v. busy_with (phases s p) i v \<longrightarrow> busy_with (phases s' p) i v)"
proof -
  have "pm (my_n (props s' p)) = pm (my_n (props s p)) \<and> (my_n (props s p) < my_n (props s' p)
     \<or> my_n (props s' p) = my_n (props s p) \<and> (\<forall>i v. busy_with (phases s p) i v \<longrightarrow> busy_with (phases s' p) i v))"
  proof (cases act)
    case (Start p' i newv)
    let ?p = "(props s p')\<lparr>c_nodes := M i, c_v := newv\<rparr>"
    have "my_n (props s p') < my_n (setn (n_h (accs s p')) ?p)"
      using setn_greater(1) [of "n_h (accs s p')" ?p] assms Start by (auto split: if_splits)
    then show ?thesis using assms Start by (auto split: if_splits)
  qed (use assms in \<open>auto split: psys_splits\<close>)
  then show "pm (my_n (props s' p)) = pm (my_n (props s p))"
    "my_n (props s p) < my_n (props s' p)
     \<or> my_n (props s' p) = my_n (props s p) \<and> (\<forall>i v. busy_with (phases s p) i v \<longrightarrow> busy_with (phases s' p) i v)"
    by blast+
qed

lemma num_ok_step: "pdo M sync act s = Some s' \<Longrightarrow> num_ok s i n v \<Longrightarrow> num_ok s' i n v"
  using pdo_num(2) [of M sync act s s' "pm n"] unfolding num_ok_def by (metis order.strict_trans)

lemma inv_num_step:
  assumes "inv_num s" "pdo M sync act s = Some s'"
  shows "inv_num s'"
proof -
  have pm: "pm (my_n (props s p)) = p" for p using assms(1) by (simp add: inv_num_def)
  have ok: "num_ok s i n v" if "asked s q i n v" for q i n v using assms(1) that unfolding inv_num_def by blast
  have new: "num_ok s i n v" if "phases s p = Accepting i v (q # qs) ks" "n = my_n (props s p)" for i n v p q qs ks
    using that by (simp add: num_ok_def pm)
  have same: "i = i' \<and> v = v'" if "asked s q' i' n v'" "phases s p = Accepting i v (q # qs) ks" "n = my_n (props s p)"
    for i n v q p qs ks q' i' v'
    using ok [OF that(1)] that(2,3) by (simp add: num_ok_def pm)
  have "num_ok s' i n v" if "asked s' q i n v" for q i n v
    by (rule pdo_asked [OF assms(2) that]) (blast intro: num_ok_step [OF assms(2)] ok new)+
  moreover have "i = i' \<and> v = v'" if a: "asked s' q i n v" "asked s' q' i' n v'" for q i v q' i' v' n
  proof (rule pdo_asked [OF assms(2) a(1)]; rule pdo_asked [OF assms(2) a(2)])
    assume "asked s q i n v" "asked s q' i' n v'"
    then show ?thesis using assms(1) unfolding inv_num_def by blast
  qed (use same in \<open>(fastforce | metis)+\<close>)
  moreover have "pm (my_n (props s' p)) = p" for p using pdo_num(1) [OF assms(2)] pm by simp
  ultimately show ?thesis unfolding inv_num_def by blast
qed

subsection \<open>Proposers know enough\<close>

lemma prepare_one_ok:
  assumes "prep_ok s i n st" "(q, i, n, res) \<in> promises s" "prepare_one q res st = Cont st'"
  shows "prep_ok s i n st'"
proof (cases "accept res = 1")
  case True
  then have pr: "promised s q i n res" using assms(2,3) by (auto simp: promised_def prepare_one_def split: if_splits)
  show ?thesis
  proof (cases "res_v_a res \<noteq> [] \<and> pr_h st < res_n_a res")
    case adopt: True
    then have st': "pr_accepts st' = pr_accepts st @ [q]" "pr_h st' = res_n_a res" "pr_v st' = res_v_a res"
      using True assms(3) pr by (auto simp: prepare_one_def promised_def)
    have "\<exists>r. promised s q' i n r \<and> (res_v_a r = [] \<or> res_n_a r \<le> res_n_a res)" if "q' \<in> set (pr_accepts st)" for q'
      using assms(1) that adopt unfolding prep_ok_def by (meson less_imp_le order_trans)
    then show ?thesis using pr adopt unfolding prep_ok_def st' by auto
  next
    case False
    then have st': "pr_accepts st' = pr_accepts st @ [q]" "pr_h st' = pr_h st" "pr_v st' = pr_v st"
      using True assms(3) pr by (auto simp: prepare_one_def promised_def)
    have "res_v_a res = [] \<or> res_n_a res \<le> pr_h st" using False by auto
    then show ?thesis using assms(1) pr unfolding prep_ok_def st' by auto
  qed
next
  case False
  then show ?thesis using assms(1,3) by (auto simp: prepare_one_def split: if_splits)
qed

lemma prep_evidence:
  assumes "prep_ok s i n st" "inv_promise s" "majority (M i) (pr_accepts st)"
  shows "evidence M s i n (choose_v cv st)"
proof -
  have "pr_h st = Prop 0 [] \<or> (\<exists>q. voted s q i (pr_h st) (choose_v cv st) \<and> pr_h st < n)"
  proof (cases "pr_v st = []")
    case False
    then obtain q res where r: "promised s q i n res" "res_v_a res = pr_v st" "res_n_a res = pr_h st"
      using assms(1) by (auto simp: prep_ok_def)
    then have "rep_inv (voted s q i) n res" using assms(2) by (simp add: inv_promise_def)
    then show ?thesis using False r unfolding rep_inv_def choose_v_def by auto
  qed (use assms(1) in \<open>auto simp: prep_ok_def\<close>)
  then show ?thesis using assms(1,3) unfolding evidence_def prep_ok_def by blast
qed

lemma prep_accepting:
  assumes "phase_ok M s h p (Preparing i [] st)" "inv_promise s" "majority (c_nodes p) (pr_accepts st)"
  shows "phase_ok M s h p (Accepting i (choose_v (c_v p) st) (pr_accepts st) [])"
proof -
  have "msg_ok s q i (my_n p) (choose_v (c_v p) st)" if "q \<in> set (pr_accepts st)" for q
    using assms(1) that by (auto simp: msg_ok_def choose_v_def prep_ok_def)
  then show ?thesis using assms prep_evidence [of s i "my_n p" st M "c_v p"] by (simp add: choose_v_def)
qed

lemma inv_phase_step:
  assumes "inv_phase M s" "inv_promise s" "pdo M sync act s = Some s'"
  shows "inv_phase M s'"
proof -
  have mono: "promises s \<subseteq> promises s'" "acks s \<subseteq> acks s'" "instance_h (accs s p) \<le> instance_h (accs s' p)" for p
    using pdo_mono [OF assms(3)] by auto
  have ok: "phase_ok M s (instance_h (accs s p)) (props s p) (phases s p)" for p
    using assms(1) by (simp add: inv_phase_def)
  have "phase_ok M s (instance_h (accs s p)) (props s' p) (phases s' p)" for p
  proof (cases act)
    case (Start p' i newv)
    let ?p = "(props s p')\<lparr>c_nodes := M i, c_v := newv\<rparr>"
    have "pn (my_n (setn (n_h (accs s p')) ?p)) \<noteq> 0"
      using setn_greater(3) [of "n_h (accs s p')" ?p] assms(3) Start by (auto split: if_splits)
    then show ?thesis using assms(3) Start ok by (auto simp: prep_ok_def prep_init_def split: if_splits)
  next
    case (GotPrep p' res)
    show ?thesis
      using assms(3) GotPrep ok [of p] prepare_one_ok by (auto split: psys_splits)
  next
    case (EndPrep p')
    then obtain i st where ph: "phases s p' = Preparing i [] st" using assms(3) by (auto split: psys_splits)
    show ?thesis
      using assms(3) EndPrep ph ok [of p] prep_accepting [OF _ assms(2), of M _ "props s p'" i st] by auto
  next
    case (EndAcc p')
    then obtain i v ks where ph: "phases s p' = Accepting i v [] ks" using assms(3) by (auto split: psys_splits)
    have "chosen M s i (my_n (props s p')) v" if "majority (c_nodes (props s p')) ks"
      using that ok [of p'] ph unfolding chosen_def by auto
    then have "\<exists>n. chosen M s i n v" if "majority (c_nodes (props s p')) ks" using that by blast
    then show ?thesis using assms(3) EndAcc ph ok [of p] by auto
  next
    case (GotAck p')
    then show ?thesis using assms(3) ok [of p] by (auto simp: voted_def split: psys_splits)
  qed (use assms(3) ok [of p] in \<open>auto split: psys_splits\<close>)
  then show ?thesis unfolding inv_phase_def using phase_ok_mono mono by blast
qed

subsection \<open>Decisions\<close>

lemma values_ok_mono: "values_ok M v1 s a \<Longrightarrow> acks s \<subseteq> acks s' \<Longrightarrow> values_ok M v1 s' a"
  unfolding values_ok_def using decided_mono by blast

lemma values_ok_commit:
  assumes "values_ok M v1 s a" "unat i \<le> unat (instance_h a) + 1" "instance_h a < i \<Longrightarrow> decided M v1 s i v"
  shows "values_ok M v1 s (fst (commit_wo i v a))"
proof (cases "instance_h a < i")
  case True
  have "\<exists>v'. mfind (mput i v (acc_values a)) j = Some v' \<and> decided M v1 s j v'" if "1 \<le> j" "j \<le> i" for j
  proof (cases "j = i")
    case False
    then have "j \<le> instance_h a" using that assms(2) by (simp add: word_le_nat_alt word_unat_eq_iff)
    then show ?thesis using assms(1) that False unfolding values_ok_def by simp
  qed (use assms(3) True in simp)
  then show ?thesis using True by (simp add: values_ok_def commit_wo_def)
qed (use assms(1) in \<open>simp add: commit_wo_def\<close>)

lemma values_ok_mindex: "values_ok M v1 s a \<Longrightarrow> k \<le> instance_h a \<Longrightarrow> values_ok M v1 s (a\<lparr>acc_values := mindex [] k (acc_values a)\<rparr>)"
  by (auto simp: values_ok_def mfind_mindex mget_def split: option.splits)

lemma inv_dec_old:
  assumes "inv_dec M v1 s" "1 \<le> i" "i \<le> instance_h (accs s q)"
  shows "decided M v1 s i (mget [] (acc_values (accs s q)) i)"
  using assms unfolding inv_dec_def values_ok_def mget_def by (metis option.simps(5))

lemma pdo_decs:
  assumes "inv_dec M v1 s" "inv_phase M s" "pdo M sync act s = Some s'" "(q, d) \<in> decs s'"
  shows "\<exists>n. chosen M s (da_instance d) n (da_v d)"
proof -
  have D: "\<exists>n. chosen M s (da_instance d) n (da_v d)" if "(q, d) \<in> decs s" for q d
    using assms(1) that unfolding inv_dec_def by blast
  show ?thesis
  proof (cases act)
    case (SendDec p)
    then obtain i v q' qs where ph: "phases s p = Deciding i v (q' # qs)" using assms(3) by (auto split: psys_splits)
    then have "\<exists>n. chosen M s i n v" using assms(2) by (metis inv_phase_def phase_ok.simps(4))
    then show ?thesis using assms(3,4) SendDec ph D by (auto; blast)
  qed (use assms(3,4) D in \<open>auto split: psys_splits\<close>)
qed

lemma pdo_old_reply:
  assumes "inv_dec M v1 s" "pdo M sync act s = Some s'"
    "(q, i, n, res) \<in> promises s'" "oldinstance res = 1" "1 \<le> i"
  shows "decided M v1 s i (res_v_a res)"
proof -
  have P: "decided M v1 s i (res_v_a res)" if "(q, i, n, res) \<in> promises s" "oldinstance res = 1" "1 \<le> i" for q i n res
    using assms(1) that unfolding inv_dec_def by blast
  show ?thesis
  proof (cases act)
    case (RecvPrep q' arg r0)
    obtain st res' a where r: "preparereq [] arg r0 (accs s q') = (st, res', a)" by (cases "preparereq [] arg r0 (accs s q')")
    have "decided M v1 s (pa_instance arg) (res_v_a res')" if "oldinstance res' = 1" "1 \<le> pa_instance arg"
      using r that inv_dec_old [OF assms(1), of "pa_instance arg" q'] by (cases rule: preparereq_cases) auto
    then show ?thesis using assms(2-) RecvPrep r P by (auto split: if_splits)
  qed (use assms(2-) P in \<open>auto split: psys_splits\<close>)
qed

lemma pdo_values:
  assumes "inv_dec M v1 s" "inv_phase M s" "inv_acc s" "pdo M True act s = Some s'"
  shows "values_ok M v1 s (accs s' q)"
proof -
  have V: "values_ok M v1 s (accs s q)" for q using assms(1) by (simp add: inv_dec_def)
  have pos: "1 \<le> instance_h (accs s q)" for q using assms(3) unfolding inv_acc_def acc_inv_def by blast
  show ?thesis
  proof (cases act)
    case (RecvPrep q' arg r0)
    obtain st res a where r: "preparereq [] arg r0 (accs s q') = (st, res, a)" by (cases "preparereq [] arg r0 (accs s q')")
    have "values_ok M v1 s a"
      using r values_ok_mindex [OF V [of q']] V [of q']
      by (cases rule: preparereq_cases) (auto simp: values_ok_def)
    then show ?thesis using assms(4) RecvPrep r V by (auto split: if_splits)
  next
    case (RecvAcc q' arg)
    then show ?thesis using assms(4) V by (auto simp: acceptreq_def values_ok_def Let_def split: psys_splits)
  next
    case (RecvDec q' d)
    have "values_ok M v1 s (fst (commit_wo (da_instance d) (da_v d) (accs s q')))" if gt: "instance_h (accs s q') < da_instance d"
    proof (rule values_ok_commit [OF V])
      have d: "(q', d) \<in> decs s" "next_inst (da_instance d) (accs s q')" using assms(4) RecvDec gt by (auto split: if_splits)
      then show "unat (da_instance d) \<le> unat (instance_h (accs s q')) + 1" by (simp add: next_inst_def)
      have "da_instance d \<noteq> 1" using pos [of q'] gt by auto
      then show "decided M v1 s (da_instance d) (da_v d)" using assms(1) d(1) by (simp add: decided_def inv_dec_def)
    qed
    then show ?thesis using assms(4) RecvDec V by (auto simp: decidereq_def not_le split: if_splits)
  next
    case (GotPrep p res)
    have "values_ok M v1 s (fst (commit_wo i (res_v_a res) (accs s p)))"
      if "phases s p = Preparing i (q' # qs) st" "(q', i, n, res) \<in> promises s" "oldinstance res = 1" for i q' qs st n
    proof (rule values_ok_commit [OF V])
      show "unat i \<le> unat (instance_h (accs s p)) + 1" using assms(2) that(1) by (metis inv_phase_def phase_ok.simps(2))
      show "decided M v1 s i (res_v_a res)" if "instance_h (accs s p) < i"
        using assms(1) \<open>(q', i, n, res) \<in> promises s\<close> \<open>oldinstance res = 1\<close> pos [of p] that
        unfolding inv_dec_def by (meson less_imp_le order_trans)
    qed
    then show ?thesis using assms(4) GotPrep V
      by (auto simp: acc_commit_def prepare_one_def Let_def split: psys_splits)
  qed (use assms(4) V in \<open>auto split: psys_splits\<close>)
qed

lemma inv_dec_step:
  assumes "inv_dec M v1 s" "inv_phase M s" "inv_acc s" "pdo M True act s = Some s'"
  shows "inv_dec M v1 s'"
proof -
  have m: "acks s \<subseteq> acks s'" using pdo_mono [OF assms(4)] by simp
  show ?thesis
    unfolding inv_dec_def
    using pdo_decs [OF assms(1,2,4)] pdo_values [OF assms] pdo_old_reply [OF assms(1,4)]
      chosen_mono [OF _ m] values_ok_mono [OF _ m] decided_mono [OF _ m] by meson
qed

subsection \<open>Agreement\<close>

lemma preach_inv:
  "preach M True v1 n0 s \<Longrightarrow> inv_acc s \<and> inv_promise s \<and> inv_msgs s \<and> inv_num s \<and> inv_phase M s \<and> inv_ev M s \<and> inv_dec M v1 s"
proof (induction rule: preach.induct)
  case (step s act s')
  then show ?case
    using inv_acc_step inv_promise_step inv_msgs_step inv_num_step inv_phase_step inv_ev_step inv_dec_step by meson
qed (simp add: inv_init)

lemma chosen_asked:
  assumes "inv_msgs s" "chosen M s i n v"
  obtains q where "asked s q i n v"
proof -
  obtain Q where "majority (M i) Q" "\<forall>q \<in> set Q. voted s q i n v" using assms(2) by (auto simp: chosen_def)
  then obtain q where "voted s q i n v" using majority_nonempty by blast
  then have "asked s q i n v" using assms(1) by (auto simp: inv_msgs_def voted_def asked_def)
  then show thesis by (rule that)
qed

text \<open>A later proposal carries every value chosen before it.\<close>

lemma proposal_carries_choice:
  assumes inv: "inv_promise s" "inv_msgs s" "inv_num s" "inv_ev M s"
    and c: "chosen M s i n v" and "asked s q i m w" "n \<le> m"
  shows "w = v"
  using assms(6,7)
proof (induction "card {k \<in> aa_n ` snd ` acpts s. k < m}" arbitrary: m q w rule: less_induct)
  case less
  obtain q0 where q0: "asked s q0 i n v" using chosen_asked [OF inv(2) c] .
  have uniq: "i1 = i2 \<and> v1 = v2" if "asked s q1 i1 k v1" "asked s q2 i2 k v2" for q1 q2 i1 i2 k v1 v2
    using inv(3) that unfolding inv_num_def by blast
  show ?case
  proof (cases "n = m")
    case True
    then show ?thesis using uniq [OF less.prems(1)] q0 by blast
  next
    case False
    then have nm: "n < m" using less.prems(2) by simp
    obtain Q h where Q: "majority (M i) Q"
      and pr: "\<forall>q \<in> set Q. \<exists>res. promised s q i m res \<and> (res_v_a res = [] \<or> res_n_a res \<le> h)"
      and h: "h = Prop 0 [] \<or> (\<exists>q. voted s q i h w \<and> h < m)"
      using inv(4) less.prems(1) unfolding inv_ev_def evidence_def by blast
    obtain Q' where Q': "majority (M i) Q'" "\<forall>q \<in> set Q'. voted s q i n v" using c by (auto simp: chosen_def)
    obtain x where x: "x \<in> set Q" "x \<in> set Q'" using majority_intersect [OF Q Q'(1)] by blast
    then obtain res where res: "promised s x i m res" "res_v_a res = [] \<or> res_n_a res \<le> h" using pr by blast
    then have "rep_inv (voted s x i) m res" using inv(1) by (simp add: inv_promise_def)
    then have nh: "n \<le> h" using Q'(2) x(2) nm res(2) unfolding rep_inv_def by (meson order_trans)
    have "pn n \<noteq> 0" using q0 inv(2) unfolding inv_msgs_def msg_ok_def by blast
    then have "h \<noteq> Prop 0 []" using nh by (auto simp: less_eq_prop_t_def)
    then obtain y where y: "voted s y i h w" "h < m" using h by blast
    then have ay: "asked s y i h w" using inv(2) by (auto simp: inv_msgs_def voted_def asked_def)
    have "{k \<in> aa_n ` snd ` acpts s. k < h} \<subset> {k \<in> aa_n ` snd ` acpts s. k < m}"
      using y(2) ay by (force simp: asked_def)
    moreover have "finite {k \<in> aa_n ` snd ` acpts s. k < m}" using inv(2) by (simp add: inv_msgs_def)
    ultimately have "card {k \<in> aa_n ` snd ` acpts s. k < h} < card {k \<in> aa_n ` snd ` acpts s. k < m}"
      by (rule psubset_card_mono [rotated])
    then show ?thesis using less.hyps ay nh by blast
  qed
qed

lemma chosen_unique:
  assumes "preach M True v1 n0 s" "chosen M s i n v" "chosen M s i n' v'"
  shows "v = v'"
proof -
  note inv = preach_inv [OF assms(1)]
  then have inv': "inv_promise s" "inv_msgs s" "inv_num s" "inv_ev M s" by auto
  obtain q q' where a: "asked s q i n v" "asked s q' i n' v'"
    using chosen_asked [OF inv'(2)] assms(2,3) by metis
  show ?thesis
    using proposal_carries_choice [OF inv' assms(2) a(2)] proposal_carries_choice [OF inv' assms(3) a(1)]
    by (cases "n \<le> n'") auto
qed

lemma committed_unique:
  assumes "preach M True v1 n0 s" "1 \<le> i" "i \<le> instance_h (accs s p)" "i \<le> instance_h (accs s q)"
  shows "mget [] (acc_values (accs s p)) i = mget [] (acc_values (accs s q)) i"
proof -
  have inv: "inv_dec M v1 s" using preach_inv [OF assms(1)] by simp
  show ?thesis
    using inv_dec_old [OF inv assms(2,3)] inv_dec_old [OF inv assms(2,4)] chosen_unique [OF assms(1)]
    by (auto simp: decided_def split: if_splits)
qed

fun prun :: "(u32 \<Rightarrow> string list) \<Rightarrow> bool \<Rightarrow> action list \<Rightarrow> psys \<Rightarrow> psys option" where
  "prun M sync [] s = Some s"
| "prun M sync (act # acts) s = (case pdo M sync act s of None \<Rightarrow> None | Some s \<Rightarrow> prun M sync acts s)"

lemma prun_reach: "prun M sync acts s = Some s' \<Longrightarrow> preach M sync v1 n0 s \<Longrightarrow> preach M sync v1 n0 s'"
  by (induction acts arbitrary: s) (auto intro: preach.step split: option.splits)


definition one_round :: "string \<Rightarrow> string \<Rightarrow> prop_t \<Rightarrow> string \<Rightarrow> action list" where
  "one_round p q n v =
    [Start p 2 v, SendPrep p, RecvPrep p \<lparr>pa_instance = 2, pa_n = n, pa_v = []\<rparr> res0, GotPrep p (res0\<lparr>accept := 1\<rparr>),
     SendPrep p, RecvPrep q \<lparr>pa_instance = 2, pa_n = n, pa_v = []\<rparr> res0, GotPrep p (res0\<lparr>accept := 1\<rparr>), EndPrep p,
     SendAcc p, RecvAcc p \<lparr>aa_instance = 2, aa_n = n, aa_v = v\<rparr>, GotAck p,
     SendAcc p, RecvAcc q \<lparr>aa_instance = 2, aa_n = n, aa_v = v\<rparr>, GotAck p, EndAcc p,
     SendDec p, RecvDec p \<lparr>da_instance = 2, da_v = v\<rparr>, SkipDec p,
     SendDec p, RecvDec q \<lparr>da_instance = 2, da_v = v\<rparr>, SkipDec p, EndDec p]"

lemmas prun_eval = psys_init_def acceptor_init_def proposer_new_def next_inst_def preparereq_def acceptreq_def
  decidereq_def commit_wo_def acc_commit_def prepare_one_def setn_def prep_init_def res0_def choose_v_def majority_def
  mput.simps mget_def mfind_def less_prop_t_def less_eq_prop_t_def Let_def word_less_nat_alt word_le_nat_alt


subsection \<open>The discipline is needed\<close>

text \<open>
  Node \<open>a\<close> prepares number 1 everywhere.  Node \<open>b\<close> then prepares number 2 at \<open>a\<close> and \<open>b\<close>, has \<open>2 b\<close> accepted there and decides it.
  The commit resets \<open>n_h\<close> to 0, and \<open>acceptreq\<close> never looks at the instance it is asked about, so \<open>a\<close>'s delayed accept
  of \<open>2 a\<close> with number 1 now succeeds at \<open>a\<close> and \<open>c\<close>, and \<open>c\<close> commits \<open>2 a\<close>.
\<close>

definition stale_accept :: "action list" where
  "stale_accept = (let prep = (\<lambda>n. \<lparr>pa_instance = 2, pa_n = n, pa_v = []\<rparr>); ok = res0\<lparr>accept := 1\<rparr>;
      n1 = Prop 1 ''a''; n2 = Prop 2 ''b''; acc = (\<lambda>n v. \<lparr>aa_instance = 2, aa_n = n, aa_v = v\<rparr>);
      dec = (\<lambda>v. \<lparr>da_instance = 2, da_v = v\<rparr>) in
    [Start ''a'' 2 ''2 a'', SendPrep ''a'', RecvPrep ''a'' (prep n1) res0, GotPrep ''a'' ok,
     SendPrep ''a'', RecvPrep ''b'' (prep n1) res0, GotPrep ''a'' ok,
     SendPrep ''a'', RecvPrep ''c'' (prep n1) res0, GotPrep ''a'' ok, EndPrep ''a'',
     Start ''b'' 2 ''2 b'', SendPrep ''b'', RecvPrep ''a'' (prep n2) res0, GotPrep ''b'' ok,
     SendPrep ''b'', RecvPrep ''b'' (prep n2) res0, GotPrep ''b'' ok, SkipPrep ''b'', EndPrep ''b'',
     SendAcc ''b'', RecvAcc ''a'' (acc n2 ''2 b''), GotAck ''b'',
     SendAcc ''b'', RecvAcc ''b'' (acc n2 ''2 b''), GotAck ''b'', EndAcc ''b'',
     SendDec ''b'', RecvDec ''a'' (dec ''2 b''), SkipDec ''b'',
     SendDec ''b'', RecvDec ''b'' (dec ''2 b''), SkipDec ''b'', EndDec ''b'',
     SendAcc ''a'', RecvAcc ''a'' (acc n1 ''2 a''), GotAck ''a'', SkipAcc ''a'',
     SendAcc ''a'', RecvAcc ''c'' (acc n1 ''2 a''), GotAck ''a'', EndAcc ''a'',
     SkipDec ''a'', SendDec ''a'', RecvDec ''c'' (dec ''2 a'')])"

text \<open>
  C32.  The code as it stands does not guarantee agreement: there is an execution, with no crash and no lost message
  that matters, after which nodes \<open>a\<close> and \<open>c\<close> have committed different values for the same instance.
\<close>

theorem stale_accept_breaks_agreement:
  "\<exists>s. preach (\<lambda>_. [''a'', ''b'', ''c'']) False ''1 a'' (\<lambda>_. 0) s
     \<and> instance_h (accs s ''a'') = 2 \<and> instance_h (accs s ''c'') = 2
     \<and> mget [] (acc_values (accs s ''a'')) 2 = ''2 b'' \<and> mget [] (acc_values (accs s ''c'')) 2 = ''2 a''"
proof -
  obtain s where s: "prun (\<lambda>_. [''a'', ''b'', ''c'']) False stale_accept (psys_init ''1 a'' (\<lambda>_. 0)) = Some s"
     "instance_h (accs s ''a'') = 2" "instance_h (accs s ''c'') = 2"
     "mget [] (acc_values (accs s ''a'')) 2 = ''2 b''" "mget [] (acc_values (accs s ''c'')) 2 = ''2 a''"
    unfolding stale_accept_def by (simp add: prun_eval)
  then show ?thesis by (blast intro: prun_reach preach.init)
qed

end
