(* ===== verification/StdString.thy ===== *)
theory StdString
  imports Prelude
begin

text \<open>
  The operations of \<open>std::string\<close> that the file service uses, on the 32-bit platform of the code: positions and counts are
  \<open>size_t\<close>.  An operation that throws returns \<open>None\<close>; nothing in the repository catches an exception.
\<close>

definition max_str :: nat where "max_str = 0x3ffffffc"

definition str_substr :: "u32 \<Rightarrow> u32 \<Rightarrow> string \<Rightarrow> string option" where
  "str_substr pos n s = (if length s < unat pos then None else Some (take (unat n) (drop (unat pos) s)))"

text \<open>\<open>s.resize(n, '\0')\<close>\<close>

definition str_resize :: "u32 \<Rightarrow> string \<Rightarrow> string option" where
  "str_resize n s = (if max_str < unat n then None else Some (take (unat n) s @ replicate (unat n - length s) (CHR 0x00)))"

text \<open>\<open>s.replace(pos, n1, t, 0, n2)\<close>\<close>

definition str_replace :: "u32 \<Rightarrow> u32 \<Rightarrow> string \<Rightarrow> u32 \<Rightarrow> string \<Rightarrow> string option" where
  "str_replace pos n1 t n2 s =
     (if length s < unat pos then None
      else let r = take (unat pos) s @ take (unat n2) t @ drop (unat pos + unat n1) s
           in if max_str < length r then None else Some r)"

text \<open>
  Writing a block into a file's content, as a specification: the content is padded with zero bytes up to the block.
\<close>

definition pad :: "nat \<Rightarrow> string \<Rightarrow> string" where
  "pad n s = s @ replicate (n - length s) (CHR 0x00)"

definition splice :: "nat \<Rightarrow> string \<Rightarrow> string \<Rightarrow> string" where
  "splice off b s = take off (pad off s) @ b @ drop (off + length b) s"

lemma length_pad [simp]: "length (pad n s) = max n (length s)"
  by (simp add: pad_def)

lemma length_splice: "length (splice off b s) = max (length s) (off + length b)"
  by (auto simp: splice_def)

lemma splice_block: "take (length b) (drop off (splice off b s)) = b"
  by (simp add: splice_def)

lemma splice_outside:
  "i < length s \<Longrightarrow> i < off \<or> off + length b \<le> i \<Longrightarrow> splice off b s ! i = s ! i"
  by (auto simp: splice_def nth_append pad_def)

lemma splice_all: "length s \<le> length b \<Longrightarrow> splice 0 b s = b"
  by (simp add: splice_def)

text \<open>Resizing when needed and replacing is splicing.\<close>

lemma resize_replace:
  assumes "off = unat pos" "length b = unat n" "off + unat n \<le> max_str" "length s \<le> max_str"
    and "t = (if length s < off + unat n then str_resize (word_of_nat (off + unat n)) s else Some s)"
  shows "\<exists>t'. t = Some t' \<and> str_replace pos n b n t' = Some (splice off b s)"
proof -
  have u: "unat (word_of_nat (off + unat n) :: u32) = off + unat n"
    using assms(3) by (subst unat_of_nat) (simp add: max_str_def)
  have l: "length (splice off b s) \<le> max_str" using assms(2-4) by (simp add: length_splice)
  show ?thesis
  proof (cases "length s < off + unat n")
    case True
    then have "t = Some (s @ replicate (off + unat n - length s) (CHR 0x00))" (is "_ = Some ?t")
      using assms(3,5) u by (simp add: str_resize_def)
    moreover have "take off ?t = take off (pad off s)" by (simp add: pad_def)
    ultimately show ?thesis
      using True assms(1,2) l by (simp add: str_replace_def splice_def Let_def)
  next
    case False
    then have "take off s = take off (pad off s)" by (simp add: pad_def)
    then show ?thesis using False assms(1,2,5) l by (simp add: str_replace_def splice_def Let_def)
  qed
qed

end
