(* ===== verification/ExtentServer.thy ===== *)
theory ExtentServer
  imports Protocols StdString
begin

unbundle bit_operations_syntax

text \<open>
  The extent server, \<open>extent_server.cc\<close>: files with contents and attributes, and directories as maps from names to ids.
  An operation takes what it reads from its surroundings as arguments: the readings \<open>now\<close> of the clock, the words
  read from \<open>/dev/urandom\<close>, and \<open>junk\<close> for a result variable that it leaves unset.  \<open>None\<close> stands for an exception, and in
  the creating operations for a loop that has not seen a usable random word yet.
\<close>

datatype xstatus = XOK | XRPCERR | XNOENT | XIOERR | XFBIG

record extent_server =
  fileid_open_m :: "(u64, int) stdmap"
  fileid_content_m :: "(u64, string) stdmap"
  fileid_name_m :: "(u64, string) stdmap"
  fileid_dir_m :: "(u64, u64) stdmap"
  fileid_attr_m :: "(u64, attr) stdmap"
  dirid_fmap_m :: "(u64, (string, u64) stdmap) stdmap"
  fileid_mode_m :: "(u64, u32) stdmap"

definition attr0 :: attr where
  "attr0 = \<lparr>atime = 0, mtime = 0, ctime = 0, size_of = 0\<rparr>"

definition attr_at :: "u32 \<Rightarrow> u32 \<Rightarrow> attr" where
  "attr_at now sz = \<lparr>atime = now, mtime = now, ctime = now, size_of = sz\<rparr>"

definition es_new :: "u32 \<Rightarrow> extent_server" where
  "es_new now = \<lparr>fileid_open_m = [], fileid_content_m = [], fileid_name_m = [(1, ''/'')], fileid_dir_m = [],
     fileid_attr_m = [(1, attr_at now 0)], dirid_fmap_m = [(1, [])], fileid_mode_m = []\<rparr>"

definition es_put :: "u32 \<Rightarrow> u64 \<Rightarrow> string \<Rightarrow> extent_server \<Rightarrow> extent_server" where
  "es_put now fid buf s =
     s\<lparr>fileid_content_m := mput fid buf (fileid_content_m s),
       fileid_attr_m := mput fid (attr_at now (word_of_nat (length buf))) (fileid_attr_m s)\<rparr>"

definition es_readdir :: "u64 \<Rightarrow> extent_server \<Rightarrow> xstatus \<times> (string, u64) stdmap \<times> extent_server" where
  "es_readdir dirid s =
     (if \<not> mcount (fileid_name_m s) dirid then (XNOENT, [], s)
      else let s = s\<lparr>dirid_fmap_m := mindex [] dirid (dirid_fmap_m s)\<rparr>
           in (XOK, fold (\<lambda>(n, i). mput n i) (mget [] (dirid_fmap_m s) dirid) [], s))"

definition es_get :: "u32 \<Rightarrow> u64 \<Rightarrow> u64 \<Rightarrow> u32 \<Rightarrow> extent_server \<Rightarrow> (xstatus \<times> string \<times> extent_server) option" where
  "es_get now fid off sz s =
     (if \<not> mcount (fileid_content_m s) fid then Some (XNOENT, [], s)
      else map_option (\<lambda>buf. (XOK, buf, s\<lparr>fileid_attr_m := mput fid ((mget attr0 (fileid_attr_m s) fid)\<lparr>atime := now\<rparr>) (fileid_attr_m s)\<rparr>))
             (str_substr (ucast off) sz (mget [] (fileid_content_m s) fid)))"

definition es_getattr :: "attr \<Rightarrow> u64 \<Rightarrow> extent_server \<Rightarrow> xstatus \<times> attr" where
  "es_getattr junk fid s =
     (if \<not> mcount (fileid_attr_m s) fid then (XIOERR, junk) else (XOK, mget attr0 (fileid_attr_m s) fid))"

definition es_isfile :: "u64 \<Rightarrow> bool" where
  "es_isfile fid \<longleftrightarrow> fid AND 0x80000000 \<noteq> 0"

definition es_isdir :: "u64 \<Rightarrow> bool" where
  "es_isdir fid \<longleftrightarrow> \<not> es_isfile fid"

text \<open>The end of \<open>remove\<close>, from the first \<open>erase\<close>: the clock is read three times.\<close>

definition es_erase :: "(nat \<Rightarrow> u32) \<Rightarrow> u64 \<Rightarrow> u64 \<Rightarrow> extent_server \<Rightarrow> extent_server" where
  "es_erase now pid fid s =
     (let s = (if \<not> es_isdir fid then s\<lparr>fileid_content_m := merase fid (fileid_content_m s)\<rparr> else s);
          s = s\<lparr>fileid_attr_m := merase fid (fileid_attr_m s)\<rparr>;
          d = mget 0 (fileid_dir_m s) fid;
          s = s\<lparr>dirid_fmap_m := mput d (merase (mget [] (fileid_name_m s) fid) (mget [] (dirid_fmap_m s) d)) (dirid_fmap_m s)\<rparr>;
          s = s\<lparr>fileid_name_m := merase fid (fileid_name_m s), fileid_dir_m := merase fid (fileid_dir_m s),
                fileid_open_m := merase fid (fileid_open_m s)\<rparr>;
          s = (if mcount (fileid_mode_m s) fid then s\<lparr>fileid_mode_m := merase fid (fileid_mode_m s)\<rparr> else s)
      in s\<lparr>fileid_attr_m := mput pid ((mget attr0 (fileid_attr_m s) pid)\<lparr>ctime := now 0, atime := now 1, mtime := now 2\<rparr>) (fileid_attr_m s)\<rparr>)"

definition es_remove :: "(nat \<Rightarrow> u32) \<Rightarrow> u64 \<Rightarrow> string \<Rightarrow> extent_server \<Rightarrow> xstatus \<times> extent_server" where
  "es_remove now pid name s =
     (if \<not> mcount (dirid_fmap_m s) pid then (XNOENT, s)
      else if \<not> mcount (mget [] (dirid_fmap_m s) pid) name then (XNOENT, s)
      else let fid = mget 0 (mget [] (dirid_fmap_m s) pid) name;
               s = (if es_isdir fid then s\<lparr>dirid_fmap_m := mindex [] fid (dirid_fmap_m s)\<rparr> else s)
           in if es_isdir fid \<and> mget [] (dirid_fmap_m s) fid \<noteq> [] then (XIOERR, s)
              else (XOK, es_erase now pid fid s))"

text \<open>\<open>while (num < 2) read(fd, &num, 8)\<close>\<close>

fun random_num :: "u64 list \<Rightarrow> u64 option" where
  "random_num [] = None"
| "random_num (r # rs) = (if r < 2 then random_num rs else Some r)"

definition file_id :: "u64 \<Rightarrow> u64" where
  "file_id num = (num AND 0xFFFFFFFF) OR 0x80000000"

definition dir_id :: "u64 \<Rightarrow> u64" where
  "dir_id num = num AND 0x7FFFFFF"

definition es_createFile :: "u64 list \<Rightarrow> u32 \<Rightarrow> u64 \<Rightarrow> u64 \<Rightarrow> string \<Rightarrow> u32 \<Rightarrow> extent_server \<Rightarrow> (xstatus \<times> u64 \<times> extent_server) option" where
  "es_createFile rnd now junk parent name mode s =
     (case random_num rnd of
        None \<Rightarrow> None
      | Some num \<Rightarrow>
          let fid = file_id num; s = es_put now fid [] s in
          if \<not> mcount (fileid_name_m s) parent then Some (XNOENT, junk, s)
          else let s = s\<lparr>dirid_fmap_m := mput parent (mput name fid (mget [] (dirid_fmap_m s) parent)) (dirid_fmap_m s),
                         fileid_dir_m := mput fid parent (fileid_dir_m s),
                         fileid_name_m := mput fid name (fileid_name_m s),
                         fileid_open_m := mput fid 0 (fileid_open_m s),
                         fileid_mode_m := mput fid mode (fileid_mode_m s)\<rparr>;
                   a = mget attr0 (fileid_attr_m s) fid
               in Some (XOK, fid, s\<lparr>fileid_attr_m := mput parent ((mget attr0 (fileid_attr_m s) parent)
                    \<lparr>ctime := ctime a, atime := atime a, mtime := mtime a\<rparr>) (fileid_attr_m s)\<rparr>))"

definition es_open :: "u32 \<Rightarrow> u64 \<Rightarrow> extent_server \<Rightarrow> xstatus \<times> extent_server" where
  "es_open now fid s =
     (let s = s\<lparr>fileid_open_m := mput fid (mget 0 (fileid_open_m s) fid + 1) (fileid_open_m s)\<rparr>
      in (XOK, s\<lparr>fileid_attr_m := mput fid ((mget attr0 (fileid_attr_m s) fid)\<lparr>atime := now\<rparr>) (fileid_attr_m s)\<rparr>))"

definition es_createDir :: "u64 list \<Rightarrow> u32 \<Rightarrow> u64 \<Rightarrow> string \<Rightarrow> extent_server \<Rightarrow> (xstatus \<times> extent_server) option" where
  "es_createDir rnd now parent name s =
     (case random_num rnd of
        None \<Rightarrow> None
      | Some num \<Rightarrow>
          let fid = dir_id num in
          if \<not> mcount (dirid_fmap_m s) parent then Some (XNOENT, s)
          else Some (XOK, s\<lparr>fileid_attr_m := mput fid (attr_at now 0) (fileid_attr_m s),
                            dirid_fmap_m := mput parent (mput name fid (mget [] (dirid_fmap_m s) parent)) (dirid_fmap_m s),
                            fileid_dir_m := mput fid parent (fileid_dir_m s),
                            fileid_name_m := mput fid name (fileid_name_m s)\<rparr>))"

definition es_setMode :: "u32 \<Rightarrow> u64 \<Rightarrow> u32 \<Rightarrow> extent_server \<Rightarrow> xstatus \<times> extent_server" where
  "es_setMode now fid mode s =
     (XOK, s\<lparr>fileid_mode_m := mput fid mode (fileid_mode_m s),
             fileid_attr_m := mput fid ((mget attr0 (fileid_attr_m s) fid)\<lparr>ctime := now\<rparr>) (fileid_attr_m s)\<rparr>)"

definition es_getMode :: "u32 \<Rightarrow> u64 \<Rightarrow> extent_server \<Rightarrow> xstatus \<times> u32" where
  "es_getMode junk fid s = (if \<not> mcount (fileid_mode_m s) fid then (XNOENT, junk) else (XOK, mget 0 (fileid_mode_m s) fid))"

definition es_setAttr :: "u32 \<Rightarrow> u64 \<Rightarrow> attr \<Rightarrow> extent_server \<Rightarrow> (xstatus \<times> extent_server) option" where
  "es_setAttr now fid a s =
     (if \<not> mcount (fileid_attr_m s) fid then Some (XNOENT, s)
      else let s = s\<lparr>fileid_content_m := mindex [] fid (fileid_content_m s)\<rparr>; content = mget [] (fileid_content_m s) fid
           in if word_of_nat (length content) \<noteq> size_of a
              then map_option (\<lambda>content. (XOK, es_put now fid content s)) (str_resize (size_of a) content)
              else Some (XOK, s\<lparr>fileid_attr_m := mput fid ((mget attr0 (fileid_attr_m s) fid)
                     \<lparr>atime := atime a, mtime := mtime a, ctime := ctime a\<rparr>) (fileid_attr_m s)\<rparr>))"

definition es_write :: "u32 \<Rightarrow> u64 \<Rightarrow> u64 \<Rightarrow> u32 \<Rightarrow> string \<Rightarrow> extent_server \<Rightarrow> (xstatus \<times> extent_server) option" where
  "es_write now fid off sz buf s =
     (if \<not> mcount (fileid_content_m s) fid then Some (XNOENT, s)
      else let content = mget [] (fileid_content_m s) fid in
           do { content \<leftarrow> (if off + ucast sz > word_of_nat (length content) then str_resize (ucast (off + ucast sz)) content else Some content);
                content \<leftarrow> str_replace (ucast off) sz buf sz content;
                Some (XOK, es_put now fid content s) })"

subsection \<open>The registered requests\<close>

datatype es_req = Put u32 u64 string | Readdir u64 | Get u32 u64 u64 u32 | GetAttr u64 | Remove "nat \<Rightarrow> u32" u64 string
  | CreateFile "u64 list" u32 u64 string u32 | Open u32 u64 | CreateDir "u64 list" u32 u64 string | SetMode u32 u64 u32 | GetMode u64
  | SetAttr u32 u64 attr | Write u32 u64 u64 u32 string

fun es_step :: "es_req \<Rightarrow> extent_server \<Rightarrow> extent_server option" where
  "es_step (Put now i b) s = Some (es_put now i b s)"
| "es_step (Readdir d) s = Some (snd (snd (es_readdir d s)))"
| "es_step (Get now i off n) s = map_option (\<lambda>(r, b, s). s) (es_get now i off n s)"
| "es_step (GetAttr i) s = Some s"
| "es_step (Remove now d n) s = Some (snd (es_remove now d n s))"
| "es_step (CreateFile rnd now d n m) s = map_option (\<lambda>(r, i, s). s) (es_createFile rnd now 0 d n m s)"
| "es_step (Open now i) s = Some (snd (es_open now i s))"
| "es_step (CreateDir rnd now d n) s = map_option snd (es_createDir rnd now d n s)"
| "es_step (SetMode now i m) s = Some (snd (es_setMode now i m s))"
| "es_step (GetMode i) s = Some s"
| "es_step (SetAttr now i a) s = map_option snd (es_setAttr now i a s)"
| "es_step (Write now i off n b) s = map_option snd (es_write now i off n b s)"

text \<open>
  The random number does not hit an id in use, which the code does not check, and a string is no longer than
  \<open>std::string\<close> allows.
\<close>

fun es_fresh :: "es_req \<Rightarrow> extent_server \<Rightarrow> bool" where
  "es_fresh (Put now i b) s \<longleftrightarrow> length b \<le> max_str"
| "es_fresh (CreateFile rnd now d n m) s \<longleftrightarrow> (\<forall>r. random_num rnd = Some r \<longrightarrow> \<not> mcount (fileid_name_m s) (file_id r))"
| "es_fresh (CreateDir rnd now d n) s \<longleftrightarrow> (\<forall>r. random_num rnd = Some r \<longrightarrow> \<not> mcount (fileid_name_m s) (dir_id r))"
| "es_fresh _ s \<longleftrightarrow> True"

inductive es_reach :: "extent_server \<Rightarrow> bool" where
  start: "es_reach (es_new now)"
| step: "es_reach s \<Longrightarrow> es_fresh r s \<Longrightarrow> es_step r s = Some s' \<Longrightarrow> es_reach s'"

subsection \<open>Well-formed file stores\<close>

text \<open>
  Every directory entry is backed by the entry's own records, which name it and its directory; the size of a file is the length of its
  content, or 0 while it has none.
\<close>

definition entries_ok :: "extent_server \<Rightarrow> bool" where
  "entries_ok s \<longleftrightarrow> (\<forall>d n i. mfind (mget [] (dirid_fmap_m s) d) n = Some i \<longrightarrow>
     mfind (fileid_dir_m s) i = Some d \<and> mfind (fileid_name_m s) i = Some n \<and> mcount (fileid_attr_m s) i
     \<and> (es_isfile i \<longrightarrow> mcount (fileid_content_m s) i))"

definition sizes_ok :: "extent_server \<Rightarrow> bool" where
  "sizes_ok s \<longleftrightarrow> (\<forall>i. es_isfile i \<longrightarrow>
     (\<forall>a. mfind (fileid_attr_m s) i = Some a \<longrightarrow> size_of a = word_of_nat (length (mget [] (fileid_content_m s) i)))
     \<and> (mcount (fileid_content_m s) i \<longrightarrow> mcount (fileid_attr_m s) i))"

definition contents_ok :: "extent_server \<Rightarrow> bool" where
  "contents_ok s \<longleftrightarrow> (\<forall>i. length (mget [] (fileid_content_m s) i) \<le> max_str) \<and> (\<forall>d. sm_ok (mget [] (dirid_fmap_m s) d))"

definition es_inv :: "extent_server \<Rightarrow> bool" where
  "es_inv s \<longleftrightarrow> entries_ok s \<and> sizes_ok s \<and> contents_ok s"

lemma file_id_isfile: "es_isfile (file_id r)"
proof -
  have "bit ((file_id r) AND 0x80000000) 31"
    by (simp add: file_id_def bit_simps)
  then show ?thesis by (metis bit_0_eq bot_apply bot_bool_def es_isfile_def)
qed

lemma dir_id_isdir: "es_isdir (dir_id r)"
proof -
  have "(dir_id r) AND 0x80000000 = r AND (0x7FFFFFF AND 0x80000000)" by (simp add: dir_id_def and.assoc)
  then show ?thesis by (simp add: es_isdir_def es_isfile_def)
qed

lemmas es_inv_defs = es_inv_def entries_ok_def sizes_ok_def contents_ok_def

lemma inv_attr:
  assumes "es_inv s" "size_of a = size_of (mget attr0 (fileid_attr_m s) i)"
  shows "es_inv (s\<lparr>fileid_attr_m := mput i a (fileid_attr_m s)\<rparr>)"
  using assms by (auto simp: es_inv_defs stdmap_simps mget_def attr0_def mcount_def split: option.splits)

lemma inv_put: "es_inv s \<Longrightarrow> length b \<le> max_str \<Longrightarrow> es_inv (es_put now i b s)"
  by (auto simp: es_inv_defs es_put_def attr_at_def stdmap_simps)

lemma inv_index_dir: "es_inv s \<Longrightarrow> es_inv (s\<lparr>dirid_fmap_m := mindex [] d (dirid_fmap_m s)\<rparr>)"
  by (simp add: es_inv_defs)

lemma inv_index_content:
  "es_inv s \<Longrightarrow> mcount (fileid_attr_m s) i \<Longrightarrow> es_inv (s\<lparr>fileid_content_m := mindex [] i (fileid_content_m s)\<rparr>)"
  by (auto simp: es_inv_defs mcount_mindex)

lemma inv_other:
  "es_inv (s\<lparr>fileid_open_m := x\<rparr>) = es_inv s" "es_inv (s\<lparr>fileid_mode_m := y\<rparr>) = es_inv s"
  by (simp_all add: es_inv_defs)

text \<open>Linking a new id into a directory.\<close>

lemma inv_link:
  assumes "es_inv s" "\<not> mcount (fileid_name_m s) i" "mcount (fileid_attr_m s) i" "es_isfile i \<Longrightarrow> mcount (fileid_content_m s) i"
  shows "es_inv (s\<lparr>dirid_fmap_m := mput d (mput n i (mget [] (dirid_fmap_m s) d)) (dirid_fmap_m s),
     fileid_dir_m := mput i d (fileid_dir_m s), fileid_name_m := mput i n (fileid_name_m s)\<rparr>)"
proof -
  have new: "mfind (mget [] (dirid_fmap_m s) d') n' \<noteq> Some i" for d' n'
    using assms(1,2) by (auto simp: es_inv_def entries_ok_def mcount_def)
  let ?s = "s\<lparr>dirid_fmap_m := mput d (mput n i (mget [] (dirid_fmap_m s) d)) (dirid_fmap_m s),
     fileid_dir_m := mput i d (fileid_dir_m s), fileid_name_m := mput i n (fileid_name_m s)\<rparr>"
  have e: "mfind (mget [] (dirid_fmap_m ?s) d') n' = (if d' = d \<and> n' = n then Some i else mfind (mget [] (dirid_fmap_m s) d') n')" for d' n'
    by (simp add: mget_mput)
  have "entries_ok ?s"
    unfolding entries_ok_def e using assms(1,3,4) new by (auto simp: es_inv_def entries_ok_def)
  moreover have "sizes_ok ?s" using assms(1) by (simp add: es_inv_def sizes_ok_def)
  moreover have "contents_ok ?s" using assms(1) by (simp add: es_inv_def contents_ok_def mget_mput mput_sorted)
  ultimately show ?thesis by (simp add: es_inv_def)
qed

lemma inv_erase:
  assumes "es_inv s" "mfind (mget [] (dirid_fmap_m s) d) n = Some i"
  shows "es_inv (s\<lparr>fileid_content_m := (if es_isfile i then merase i (fileid_content_m s) else fileid_content_m s),
     fileid_attr_m := merase i (fileid_attr_m s), dirid_fmap_m := mput d (merase n (mget [] (dirid_fmap_m s) d)) (dirid_fmap_m s),
     fileid_name_m := merase i (fileid_name_m s), fileid_dir_m := merase i (fileid_dir_m s)\<rparr>)"
proof -
  have at: "mfind (fileid_dir_m s) i = Some d" "mfind (fileid_name_m s) i = Some n"
    using assms by (auto simp: es_inv_def entries_ok_def)
  have only: "d' = d \<and> n' = n" if "mfind (mget [] (dirid_fmap_m s) d') n' = Some i" for d' n'
    using that assms(1) at by (auto simp: es_inv_def entries_ok_def)
  let ?s = "s\<lparr>fileid_content_m := (if es_isfile i then merase i (fileid_content_m s) else fileid_content_m s),
     fileid_attr_m := merase i (fileid_attr_m s), dirid_fmap_m := mput d (merase n (mget [] (dirid_fmap_m s) d)) (dirid_fmap_m s),
     fileid_name_m := merase i (fileid_name_m s), fileid_dir_m := merase i (fileid_dir_m s)\<rparr>"
  have e: "mfind (mget [] (dirid_fmap_m ?s) d') n' = (if d' = d \<and> n' = n then None else mfind (mget [] (dirid_fmap_m s) d') n')" for d' n'
    by (simp add: mget_mput)
  have g: "mget [] (merase i c) j = (if j = i then [] else mget [] c j)" for c :: "(u64, string) stdmap" and j
    by (simp add: mget_def)
  have "entries_ok ?s"
    unfolding entries_ok_def e using assms(1) only by (auto simp: es_inv_def entries_ok_def mcount_merase)
  moreover have "sizes_ok ?s" using assms(1) by (auto simp: es_inv_def sizes_ok_def mcount_merase g)
  moreover have "contents_ok ?s" using assms(1) by (simp add: es_inv_def contents_ok_def mget_mput g sm_ok_merase)
  ultimately show ?thesis by (simp add: es_inv_def)
qed

lemma inv_cong:
  assumes "es_inv s" "dirid_fmap_m t = dirid_fmap_m s" "fileid_dir_m t = fileid_dir_m s" "fileid_name_m t = fileid_name_m s"
    "fileid_attr_m t = fileid_attr_m s" "fileid_content_m t = fileid_content_m s"
  shows "es_inv t"
  using assms by (simp add: es_inv_defs)

lemma remove_inv:
  assumes "es_inv s"
  shows "es_inv (snd (es_remove now d n s))"
proof (cases "mfind (mget [] (dirid_fmap_m s) d) n")
  case None
  then show ?thesis using assms by (simp add: es_remove_def mcount_def)
next
  case (Some i)
  define s1 where "s1 = (if es_isdir i then s\<lparr>dirid_fmap_m := mindex [] i (dirid_fmap_m s)\<rparr> else s)"
  have i1: "es_inv s1" using assms by (simp add: s1_def inv_index_dir)
  have f1: "mfind (mget [] (dirid_fmap_m s1) d) n = Some i" using Some by (simp add: s1_def)
  have at: "mfind (fileid_dir_m s1) i = Some d" "mfind (fileid_name_m s1) i = Some n"
    using i1 f1 by (auto simp: es_inv_def entries_ok_def)
  let ?t = "s1\<lparr>fileid_content_m := (if es_isfile i then merase i (fileid_content_m s1) else fileid_content_m s1),
     fileid_attr_m := merase i (fileid_attr_m s1), dirid_fmap_m := mput d (merase n (mget [] (dirid_fmap_m s1) d)) (dirid_fmap_m s1),
     fileid_name_m := merase i (fileid_name_m s1), fileid_dir_m := merase i (fileid_dir_m s1)\<rparr>"
  let ?a = "(mget attr0 (fileid_attr_m ?t) d)\<lparr>ctime := now 0, atime := now 1, mtime := now 2\<rparr>"
  have "es_inv (?t\<lparr>fileid_attr_m := mput d ?a (fileid_attr_m ?t)\<rparr>)"
    by (rule inv_attr [OF inv_erase [OF i1 f1]]) simp
  then have "es_inv (es_erase now d i s1)"
    by (rule inv_cong) (simp_all add: es_erase_def Let_def es_isdir_def at mget_def)
  then show ?thesis
    using assms i1 Some by (auto simp: es_remove_def Let_def mget_def [of 0] s1_def)
qed

lemma createFile_inv:
  assumes "es_inv s" "es_createFile rnd now junk d n m s = Some (r, i, s')" "es_fresh (CreateFile rnd now d n m) s"
  shows "es_inv s'"
proof -
  obtain num where num: "random_num rnd = Some num" using assms(2) by (auto simp: es_createFile_def split: option.splits)
  define i s1 where "i = file_id num" and "s1 = es_put now i [] s"
  have i1: "es_inv s1" using assms(1) by (simp add: s1_def inv_put)
  have c: "\<not> mcount (fileid_name_m s1) i" "mcount (fileid_attr_m s1) i" "mcount (fileid_content_m s1) i"
    using assms(3) num by (auto simp: s1_def i_def es_put_def mcount_mput)
  show ?thesis
  proof (cases "mcount (fileid_name_m s1) d")
    case False
    then show ?thesis
      using assms(2) num i1 by (simp add: es_createFile_def i_def [symmetric] s1_def [symmetric])
  next
    case True
    let ?t = "s1\<lparr>dirid_fmap_m := mput d (mput n i (mget [] (dirid_fmap_m s1) d)) (dirid_fmap_m s1),
       fileid_dir_m := mput i d (fileid_dir_m s1), fileid_name_m := mput i n (fileid_name_m s1)\<rparr>"
    let ?a = "(mget attr0 (fileid_attr_m ?t) d)\<lparr>ctime := now, atime := now, mtime := now\<rparr>"
    have a: "mget attr0 (fileid_attr_m s1) i = attr_at now 0" by (simp add: s1_def es_put_def mget_mput)
    have "es_inv (?t\<lparr>fileid_attr_m := mput d ?a (fileid_attr_m ?t)\<rparr>)"
      by (rule inv_attr [OF inv_link [OF i1 c(1,2)]]) (use c in simp_all)
    then show ?thesis
      by (rule inv_cong) (use assms(2) num True a in \<open>auto simp: es_createFile_def i_def [symmetric] s1_def [symmetric] Let_def attr_at_def\<close>)
  qed
qed

lemma createDir_inv:
  assumes "es_inv s" "es_createDir rnd now d n s = Some (r, s')" "es_fresh (CreateDir rnd now d n) s"
  shows "es_inv s'"
proof -
  obtain num where num: "random_num rnd = Some num" using assms(2) by (auto simp: es_createDir_def split: option.splits)
  define i where "i = dir_id num"
  have nf: "\<not> es_isfile i" using dir_id_isdir [of num] by (simp add: i_def es_isdir_def)
  let ?s = "s\<lparr>fileid_attr_m := mput i (attr_at now 0) (fileid_attr_m s)\<rparr>"
  have i1: "es_inv ?s" using assms(1) nf by (auto simp: es_inv_defs stdmap_simps)
  have "es_inv (?s\<lparr>dirid_fmap_m := mput d (mput n i (mget [] (dirid_fmap_m ?s) d)) (dirid_fmap_m ?s),
       fileid_dir_m := mput i d (fileid_dir_m ?s), fileid_name_m := mput i n (fileid_name_m ?s)\<rparr>)"
    by (rule inv_link [OF i1]) (use assms(3) num nf in \<open>auto simp: i_def mcount_mput\<close>)
  then show ?thesis
    using assms(1,2) num by (auto simp: es_createDir_def i_def Let_def split: if_splits)
qed

lemma replace_length: "str_replace p n1 t n2 c = Some r \<Longrightarrow> length r \<le> max_str"
  by (auto simp: str_replace_def Let_def split: if_splits)

lemma resize_length: "str_resize n c = Some r \<Longrightarrow> length r \<le> max_str"
  by (auto simp: str_resize_def split: if_splits)

lemma setAttr_inv:
  assumes "es_inv s" "es_setAttr now i a s = Some (r, s')"
  shows "es_inv s'"
proof (cases "mcount (fileid_attr_m s) i")
  case True
  define s1 where "s1 = s\<lparr>fileid_content_m := mindex [] i (fileid_content_m s)\<rparr>"
  have i1: "es_inv s1" using assms(1) True by (simp add: s1_def inv_index_content)
  then show ?thesis
    using assms(2) True
    by (auto simp: es_setAttr_def Let_def s1_def [symmetric] intro!: inv_put inv_attr dest: resize_length split: if_splits)
qed (use assms in \<open>simp add: es_setAttr_def\<close>)

lemma step_inv:
  assumes "es_inv s" "es_fresh r s" "es_step r s = Some s'"
  shows "es_inv s'"
proof (cases r)
  case (Readdir d)
  then show ?thesis using assms by (auto simp: es_readdir_def Let_def inv_index_dir)
next
  case (Get now i off n)
  then show ?thesis using assms by (auto simp: es_get_def intro: inv_attr split: if_splits)
next
  case (Open now i)
  have "es_inv (s\<lparr>fileid_open_m := mput i (mget 0 (fileid_open_m s) i + 1) (fileid_open_m s)\<rparr>)" using assms(1) by (simp add: inv_other)
  from inv_attr [OF this, of "(mget attr0 (fileid_attr_m s) i)\<lparr>atime := now\<rparr>" i] show ?thesis
    using assms(3) Open by (auto simp: es_open_def Let_def)
next
  case (SetMode now i m)
  have "es_inv (s\<lparr>fileid_mode_m := mput i m (fileid_mode_m s)\<rparr>)" using assms(1) by (simp add: inv_other)
  from inv_attr [OF this, of "(mget attr0 (fileid_attr_m s) i)\<lparr>ctime := now\<rparr>" i] show ?thesis
    using assms(3) SetMode by (auto simp: es_setMode_def)
next
  case (Write now i off n b)
  then show ?thesis
    using assms by (auto simp: es_write_def Let_def intro!: inv_put dest: replace_length split: if_splits bind_splits)
qed (use assms in \<open>auto simp: inv_put remove_inv intro: createFile_inv createDir_inv setAttr_inv\<close>)

lemma reach_inv: "es_reach s \<Longrightarrow> es_inv s"
proof (induction rule: es_reach.induct)
  case (start now)
  have "mget [] (dirid_fmap_m (es_new now)) d = []" for d by (simp add: es_new_def mget_def mfind_def)
  then show ?case by (auto simp: es_inv_defs sm_ok_def) (auto simp: es_new_def mfind_def mget_def mcount_def es_isfile_def attr_at_def split: if_splits)
qed (auto intro: step_inv)

subsection \<open>What clients see\<close>

lemma readdir_entries:
  assumes "es_inv s" "es_readdir d s = (XOK, ents, s1)"
  shows "mfind ents n = mfind (mget [] (dirid_fmap_m s) d) n" "sm_ok ents" "es_inv s1"
    "fileid_content_m s1 = fileid_content_m s" "fileid_attr_m s1 = fileid_attr_m s"
proof -
  have ok: "sm_ok (mget [] (dirid_fmap_m s) d)" using assms(1) by (simp add: es_inv_def contents_ok_def)
  have e: "ents = mget [] (dirid_fmap_m s) d" "s1 = s\<lparr>dirid_fmap_m := mindex [] d (dirid_fmap_m s)\<rparr>"
    using assms(2) fold_mput_self [OF ok] by (auto simp: es_readdir_def Let_def split: if_splits)
  show "mfind ents n = mfind (mget [] (dirid_fmap_m s) d) n" "sm_ok ents" using e ok by simp_all
  show "es_inv s1" "fileid_content_m s1 = fileid_content_m s" "fileid_attr_m s1 = fileid_attr_m s"
    using e assms(1) by (simp_all add: inv_index_dir)
qed

lemma get_whole:
  assumes "mfind (fileid_content_m s) i = Some c" "length c \<le> max_str" "sz = word_of_nat (length c)"
  shows "\<exists>s'. es_get now i 0 sz s = Some (XOK, c, s') \<and> fileid_content_m s' = fileid_content_m s"
proof -
  have "unat (word_of_nat (length c) :: u32) = length c" using assms(2) by (subst unat_of_nat) (simp add: max_str_def)
  then show ?thesis using assms by (simp add: es_get_def mcount_def mget_def str_substr_def)
qed

text \<open>
  C21. Directories and files agree.  After any sequence of requests in which the random ids of new files and directories do not hit ids
  in use, whatever \<open>readdir\<close> lists for a directory exists: \<open>getattr\<close> succeeds for every entry, and if the entry is a file, reading as
  many bytes as its size says succeeds and gives exactly that many bytes, the file's whole content.
\<close>

theorem listed_files_readable:
  assumes "es_reach s" "es_readdir d s = (XOK, ents, s1)" "(n, i) \<in> set ents"
  shows "\<exists>a. es_getattr junk i s1 = (XOK, a) \<and>
    (es_isfile i \<longrightarrow> (\<exists>buf s2. es_get now i 0 (size_of a) s1 = Some (XOK, buf, s2) \<and> length buf = unat (size_of a)
       \<and> mfind (fileid_content_m s1) i = Some buf))"
proof -
  have inv: "es_inv s" using assms(1) by (rule reach_inv)
  note r = readdir_entries [OF inv assms(2)]
  have f: "mfind (mget [] (dirid_fmap_m s) d) n = Some i"
    using assms(3) r(1,2) stdmap.lookup_items [OF r(2)] by metis
  then have e: "mcount (fileid_attr_m s) i" "es_isfile i \<Longrightarrow> mcount (fileid_content_m s) i"
    using inv by (auto simp: es_inv_def entries_ok_def)
  obtain a where a: "mfind (fileid_attr_m s) i = Some a" using e(1) by (auto simp: mcount_def)
  have g: "es_getattr junk i s1 = (XOK, a)" using a r(5) by (simp add: es_getattr_def mcount_def mget_def)
  have "\<exists>buf s2. es_get now i 0 (size_of a) s1 = Some (XOK, buf, s2) \<and> length buf = unat (size_of a) \<and> mfind (fileid_content_m s1) i = Some buf"
    if isf: "es_isfile i"
  proof -
    obtain c where c: "mfind (fileid_content_m s) i = Some c" using e(2) [OF isf] by (auto simp: mcount_def)
    then have m: "mget [] (fileid_content_m s) i = c" by (simp add: mget_def)
    have sz: "size_of a = word_of_nat (length c)" "length c \<le> max_str"
      using inv isf a m by (auto simp: es_inv_def sizes_ok_def contents_ok_def)
    have "unat (size_of a) = length c" unfolding sz(1) using sz(2) by (subst unat_of_nat) (simp add: max_str_def)
    then show ?thesis
      using get_whole [of s1 i c "size_of a" now] c sz r(4) by auto
  qed
  then show ?thesis using g by blast
qed

theorem listed_files_readable_witness:
  "\<exists>s1. es_step (CreateFile [5] 7 1 ''f'' 0) (es_new 3) = Some s1 \<and>
     (\<exists>a buf s2. es_getattr attr0 0x80000005 (snd (snd (es_readdir 1 s1))) = (XOK, a)
        \<and> es_get 9 0x80000005 0 (size_of a) (snd (snd (es_readdir 1 s1))) = Some (XOK, buf, s2) \<and> length buf = unat (size_of a))"
proof -
  let ?r = "CreateFile [5] 7 1 ''f'' 0"
  obtain s1 where s1: "es_step ?r (es_new 3) = Some s1" "es_readdir 1 s1 = (XOK, [(''f'', 0x80000005)], s1)"
    by (auto simp: es_createFile_def es_new_def es_put_def file_id_def mcount_def mfind_def mget_def attr0_def attr_at_def es_readdir_def mindex_def)
  have "es_reach s1"
    using start step [of "es_new 3" ?r s1] s1(1) by (auto simp: es_new_def file_id_def mcount_def mfind_def)
  then have "\<exists>a. es_getattr attr0 0x80000005 s1 = (XOK, a) \<and> (es_isfile 0x80000005 \<longrightarrow>
      (\<exists>buf s2. es_get 9 0x80000005 0 (size_of a) s1 = Some (XOK, buf, s2) \<and> length buf = unat (size_of a)
       \<and> mfind (fileid_content_m s1) 0x80000005 = Some buf))"
    by (rule listed_files_readable [OF _ s1(2)]) simp
  then show ?thesis using s1 by (auto simp: es_isfile_def)
qed

subsection \<open>Reading and writing\<close>

lemma unat_ucast_small: "unat (x :: u64) \<le> max_str \<Longrightarrow> unat (ucast x :: u32) = unat x"
  by (simp add: unsigned_ucast_eq take_bit_eq_mod max_str_def)

lemma unat_add_small:
  assumes "unat (off :: u64) + unat (n :: u32) \<le> max_str"
  shows "unat (off + ucast n) = unat off + unat n"
proof -
  have "unat (ucast n :: u64) = unat n" using u32_bound [of n] by (simp add: unsigned_ucast_eq take_bit_eq_mod)
  then show ?thesis using assms by (simp add: unat_word_ariths max_str_def)
qed

text \<open>
  What a request has to satisfy so that no operation of \<open>std::string\<close> throws: a read begins inside the file, a new size and the end of a
  written block are no longer than a string may be, and the source of random numbers does not run dry.
\<close>

fun es_bounded :: "es_req \<Rightarrow> extent_server \<Rightarrow> bool" where
  "es_bounded (Get now i off n) s \<longleftrightarrow> unat off \<le> length (mget [] (fileid_content_m s) i)"
| "es_bounded (CreateFile rnd now d n m) s \<longleftrightarrow> random_num rnd \<noteq> None"
| "es_bounded (CreateDir rnd now d n) s \<longleftrightarrow> random_num rnd \<noteq> None"
| "es_bounded (SetAttr now i a) s \<longleftrightarrow> unat (size_of a) \<le> max_str"
| "es_bounded (Write now i off n b) s \<longleftrightarrow> unat off + unat n \<le> max_str \<and> length b = unat n"
| "es_bounded _ s \<longleftrightarrow> True"

lemma write_progress:
  assumes "es_inv s" "unat off + unat n \<le> max_str" "length b = unat n"
  shows "es_write now i off n b s \<noteq> None"
proof (cases "mcount (fileid_content_m s) i")
  case True
  let ?c = "mget [] (fileid_content_m s) i"
  have c: "length ?c \<le> max_str" using assms(1) by (simp add: es_inv_def contents_ok_def)
  have u: "unat off = unat (ucast off :: u32)" using assms(2) by (simp add: unat_ucast_small)
  have e: "unat (off + ucast n) = unat off + unat n" using assms(2) by (rule unat_add_small)
  then have w: "(ucast (off + ucast n) :: u32) = word_of_nat (unat off + unat n)"
    by (metis of_nat_unat)
  have l: "(word_of_nat (length ?c) :: u64) < off + ucast n \<longleftrightarrow> length ?c < unat off + unat n"
    unfolding word_less_nat_alt e using c by (subst unat_of_nat) (simp add: max_str_def)
  show ?thesis
    using True resize_replace [OF u assms(3,2) c refl] by (auto simp: es_write_def Let_def w l split: if_splits)
qed (simp add: es_write_def)

lemma step_progress:
  assumes "es_inv s" "es_bounded r s"
  shows "es_step r s \<noteq> None"
proof (cases r)
  case (Get now i off n)
  have "length (mget [] (fileid_content_m s) i) \<le> max_str" using assms(1) by (simp add: es_inv_def contents_ok_def)
  then show ?thesis using assms Get unat_ucast_small [of off] by (auto simp: es_get_def str_substr_def)
next
  case (Write now i off n b)
  then show ?thesis using assms write_progress by auto
next
  case (SetAttr now i a)
  then show ?thesis using assms by (auto simp: es_setAttr_def Let_def str_resize_def)
qed (use assms in \<open>auto simp: es_createFile_def es_createDir_def Let_def\<close>)



lemma write_lemma:
  assumes "mfind (fileid_content_m s) i = Some c" "length c \<le> max_str" "length b = unat n" "unat off + unat n \<le> max_str"
  shows "es_write now i off n b s = Some (XOK, es_put now i (splice (unat off) b c) s)"
proof -
  have off: "unat (ucast off :: u32) = unat off" using assms(4) by (simp add: unat_ucast_small)
  have len: "unat (word_of_nat (length c) :: u64) = length c" using assms(2) by (subst unat_of_nat) (simp add: max_str_def)
  have gt: "off + ucast n > word_of_nat (length c) \<longleftrightarrow> length c < unat off + unat n"
    using unat_add_small [OF assms(4)] len by (simp add: word_less_nat_alt)
  have rs: "(ucast (off + ucast n) :: u32) = word_of_nat (unat off + unat n)"
    using unat_add_small [OF assms(4)] assms(4)
    by (simp only: word_unat_eq_iff, subst unat_of_nat) (simp add: unat_ucast_small max_str_def)
  show ?thesis
    using resize_replace [of "unat off" "ucast off" b n c "if length c < unat off + unat n then str_resize (word_of_nat (unat off + unat n)) c else Some c"]
      assms off gt rs
    by (auto simp: es_write_def mcount_def mget_def)
qed

text \<open>
  A write is read back.  Writing a block below the largest string size to an existing file succeeds; reading the same range
  afterwards gives the block; the file's size is the larger of the old size and the end of the block; every old byte
  outside the block and every other file is as before.
\<close>

lemma write_then_get:
  assumes "mfind (fileid_content_m s) i = Some c" "length c \<le> max_str" "length b = unat n" "unat off + unat n \<le> max_str"
  shows "\<exists>s' s'' c'. es_write now i off n b s = Some (XOK, s') \<and> es_get now' i off n s' = Some (XOK, b, s'')
    \<and> mfind (fileid_content_m s') = (mfind (fileid_content_m s))(i \<mapsto> c')
    \<and> (\<forall>k < length c. k < unat off \<or> unat off + unat n \<le> k \<longrightarrow> c' ! k = c ! k)
    \<and> (\<exists>a. es_getattr junk i s' = (XOK, a) \<and> unat (size_of a) = max (length c) (unat off + unat n))"
proof -
  define c' s' where "c' = splice (unat off) b c" and "s' = es_put now i c' s"
  have w: "es_write now i off n b s = Some (XOK, s')" unfolding s'_def c'_def using assms by (rule write_lemma)
  have len: "length c' = max (length c) (unat off + unat n)" using assms(3) by (simp add: c'_def length_splice)
  have f: "mfind (fileid_content_m s') = (mfind (fileid_content_m s))(i \<mapsto> c')" by (simp add: s'_def es_put_def)
  have off: "unat (ucast off :: u32) = unat off" using assms(4) by (simp add: unat_ucast_small)
  have "take (unat n) (drop (unat off) c') = b" using splice_block [of b "unat off" c] assms(3) by (simp add: c'_def)
  then have "\<exists>s''. es_get now' i off n s' = Some (XOK, b, s'')"
    using f off len by (simp add: es_get_def mcount_def mget_def str_substr_def)
  moreover have "unat (word_of_nat (length c') :: u32) = length c'"
    using len assms(2,4) by (subst unat_of_nat) (simp add: max_str_def)
  then have "\<exists>a. es_getattr junk i s' = (XOK, a) \<and> unat (size_of a) = max (length c) (unat off + unat n)"
    using len by (simp add: s'_def es_getattr_def es_put_def attr_at_def mcount_def mget_def)
  moreover have "\<forall>k < length c. k < unat off \<or> unat off + unat n \<le> k \<longrightarrow> c' ! k = c ! k"
    using splice_outside [of _ c "unat off" b] assms(3) by (simp add: c'_def)
  ultimately show ?thesis using w f by blast
qed

text \<open>
  A write at 4 GiB destroys the file.  The offset is 64 bits wide, but \<open>resize\<close> and \<open>replace\<close> take 32 bits: a write at offset \<open>2^32\<close>
  reports success and leaves exactly the written block as the file's whole content, whatever the file contained.
\<close>

lemma write_at_4gib_destroys:
  assumes "mfind (fileid_content_m s) i = Some c" "length c \<le> max_str" "length b = unat n" "unat n \<le> max_str"
  shows "es_write now i 0x100000000 n b s = Some (XOK, es_put now i b s)"
proof -
  have n: "unat (ucast n :: u64) = unat n" using u32_bound [of n] by (simp add: unsigned_ucast_eq take_bit_eq_mod)
  have len: "unat (word_of_nat (length c) :: u64) = length c" using assms(2) by (subst unat_of_nat) (simp add: max_str_def)
  have sum: "unat (0x100000000 + ucast n :: u64) = 0x100000000 + unat n"
    using n assms(4) by (simp add: unat_word_ariths max_str_def)
  have gt: "0x100000000 + ucast n > (word_of_nat (length c) :: u64)"
    using sum len assms(2) by (simp add: word_less_nat_alt max_str_def)
  have rs: "(ucast (0x100000000 + ucast n :: u64) :: u32) = n"
    using sum assms(4) by (simp add: word_unat_eq_iff unsigned_ucast_eq take_bit_eq_mod max_str_def)
  show ?thesis
    using assms gt rs by (simp add: es_write_def mcount_def mget_def str_resize_def str_replace_def)
qed

end
