(* ===== verification/ExtentClient.thy ===== *)
theory ExtentClient
  imports ExtentServer
begin

text \<open>
  The caching extent client, \<open>extent_client.cc\<close>.  An operation works on the client and on the server its calls reach.  \<open>None\<close> stands for a
  failed assertion or an exception, at the client or at the server.
\<close>

datatype c_status = CACHED | MODIFIED | REMOVED

record extent_client =
  cache_content :: "(u64, string) stdmap"
  cache_attr :: "(u64, attr) stdmap"
  cache_mode :: "(u64, u32) stdmap"
  cache_status :: "(u64, c_status) stdmap"

text \<open>
  What an operation finds around it: the clock readings it and the server make, the random words the server reads, and the contents of
  variables that are left unset.
\<close>

record xenv =
  xe_now :: "nat \<Rightarrow> u32"
  xe_rnd :: "u64 list"
  xe_attr :: attr
  xe_mode :: u32
  xe_id :: u64

definition ec_new :: extent_client where
  "ec_new = \<lparr>cache_content = [], cache_attr = [], cache_mode = [], cache_status = []\<rparr>"

definition cached :: "extent_client \<Rightarrow> u64 \<Rightarrow> bool" where
  "cached c fid = mcount (cache_status c) fid"

definition ec_getAttr :: "xenv \<Rightarrow> u64 \<Rightarrow> extent_client \<Rightarrow> extent_server \<Rightarrow> xstatus \<times> attr \<times> extent_client" where
  "ec_getAttr E fid c s =
     (if \<not> cached c fid then let (r, a) = es_getattr (xe_attr E) fid s in (r, a, c)
      else let c = c\<lparr>cache_attr := mindex attr0 fid (cache_attr c)\<rparr> in (XOK, mget attr0 (cache_attr c) fid, c))"

text \<open>\<open>mode\<close>: what the caller's variable contains before the call.\<close>

definition ec_getMode :: "xenv \<Rightarrow> u64 \<Rightarrow> u32 \<Rightarrow> extent_client \<Rightarrow> extent_server \<Rightarrow> xstatus \<times> u32 \<times> extent_client" where
  "ec_getMode E fid mode c s =
     (if \<not> cached c fid then let (r, m) = es_getMode (xe_mode E) fid s in (r, m, c)
      else (XOK, mode, c\<lparr>cache_mode := mput fid mode (cache_mode c)\<rparr>))"

definition cache_file :: "u64 \<Rightarrow> string \<Rightarrow> attr \<Rightarrow> u32 \<Rightarrow> extent_client \<Rightarrow> extent_client" where
  "cache_file fid buf a mode c =
     \<lparr>cache_content = mput fid buf (cache_content c), cache_attr = mput fid a (cache_attr c),
      cache_mode = mput fid mode (cache_mode c), cache_status = mput fid CACHED (cache_status c)\<rparr>"

text \<open>The first branch of \<open>read\<close>: fetch the file.\<close>

definition ec_fetch :: "xenv \<Rightarrow> u64 \<Rightarrow> extent_client \<Rightarrow> extent_server \<Rightarrow> (extent_client \<times> extent_server) option" where
  "ec_fetch E fid c s =
     (case ec_getAttr E fid c s of (r, a, c) \<Rightarrow>
      if r \<noteq> XOK then None
      else do { (r, buf, s) \<leftarrow> es_get (xe_now E 0) fid 0 (size_of a) s;
                if r \<noteq> XOK then None
                else (case ec_getAttr E fid c s of (r, a, c) \<Rightarrow>
                  if r \<noteq> XOK then None
                  else (case ec_getMode E fid (xe_mode E) c s of (r, mode, c) \<Rightarrow>
                    if r \<noteq> XOK then None else Some (cache_file fid buf a mode c, s))) })"

text \<open>\<open>off_t\<close> is a signed 64-bit number; \<open>substr\<close> and \<open>replace\<close> convert it to \<open>size_t\<close>.\<close>

definition ec_read :: "xenv \<Rightarrow> u64 \<Rightarrow> int \<Rightarrow> u32 \<Rightarrow> extent_client \<times> extent_server \<Rightarrow> (xstatus \<times> string \<times> extent_client \<times> extent_server) option" where
  "ec_read E fid off sz = (\<lambda>(c, s).
     if cached c fid \<and> mfind (cache_status c) fid = Some REMOVED then Some (XNOENT, [], c, s)
     else do { (c, s) \<leftarrow> (if \<not> cached c fid then ec_fetch E fid c s
                 else Some (c\<lparr>cache_attr := mput fid ((mget attr0 (cache_attr c) fid)\<lparr>atime := xe_now E 0\<rparr>) (cache_attr c)\<rparr>, s));
               buf \<leftarrow> str_substr (word_of_int off) sz (mget [] (cache_content c) fid);
               Some (XOK, buf, c\<lparr>cache_content := mindex [] fid (cache_content c)\<rparr>, s) })"

definition ec_remove :: "xenv \<Rightarrow> u64 \<Rightarrow> string \<Rightarrow> extent_client \<times> extent_server \<Rightarrow> xstatus \<times> extent_client \<times> extent_server" where
  "ec_remove E fid name = (\<lambda>(c, s).
     let c = (if cached c fid then c\<lparr>cache_status := mput fid REMOVED (cache_status c)\<rparr> else c);
         (r, s) = es_remove (xe_now E) fid name s
     in (r, c, s))"

definition ec_readdir :: "u64 \<Rightarrow> extent_client \<times> extent_server \<Rightarrow> xstatus \<times> (string, u64) stdmap \<times> extent_client \<times> extent_server" where
  "ec_readdir di = (\<lambda>(c, s). let (r, entries, s) = es_readdir di s in (r, entries, c, s))"

definition ec_createFile :: "xenv \<Rightarrow> u64 \<Rightarrow> string \<Rightarrow> u32 \<Rightarrow> extent_client \<times> extent_server \<Rightarrow> (xstatus \<times> extent_client \<times> extent_server) option" where
  "ec_createFile E parent name mode = (\<lambda>(c, s).
     do { (r, fid, s) \<leftarrow> es_createFile (xe_rnd E) (xe_now E 0) (xe_id E) parent name mode s;
          if r \<noteq> XOK then None
          else (case ec_getAttr E fid c s of (r, a, c) \<Rightarrow>
            if r \<noteq> XOK then None else Some (r, cache_file fid [] a mode c, s)) })"

definition ec_open :: "xenv \<Rightarrow> u64 \<Rightarrow> extent_client \<times> extent_server \<Rightarrow> xstatus \<times> extent_client \<times> extent_server" where
  "ec_open E fid = (\<lambda>(c, s). let (r, s) = es_open (xe_now E 0) fid s in (r, c, s))"

definition ec_createDir :: "xenv \<Rightarrow> u64 \<Rightarrow> string \<Rightarrow> extent_client \<times> extent_server \<Rightarrow> (xstatus \<times> extent_client \<times> extent_server) option" where
  "ec_createDir E parent name = (\<lambda>(c, s).
     map_option (\<lambda>(r, s). (r, c, s)) (es_createDir (xe_rnd E) (xe_now E 0) parent name s))"

definition ec_setMode :: "xenv \<Rightarrow> u64 \<Rightarrow> u32 \<Rightarrow> extent_client \<times> extent_server \<Rightarrow> xstatus \<times> extent_client \<times> extent_server" where
  "ec_setMode E fid mode = (\<lambda>(c, s).
     if \<not> cached c fid then let (r, s) = es_setMode (xe_now E 0) fid mode s in (r, c, s)
     else (XOK, c\<lparr>cache_mode := mput fid mode (cache_mode c),
                  cache_attr := mput fid ((mget attr0 (cache_attr c) fid)\<lparr>ctime := xe_now E 0\<rparr>) (cache_attr c),
                  cache_status := mput fid MODIFIED (cache_status c)\<rparr>, s))"

definition ec_setAttr :: "xenv \<Rightarrow> u64 \<Rightarrow> attr \<Rightarrow> extent_client \<times> extent_server \<Rightarrow> (xstatus \<times> extent_client \<times> extent_server) option" where
  "ec_setAttr E fid a = (\<lambda>(c, s).
     if \<not> cached c fid then map_option (\<lambda>(r, s). (r, c, s)) (es_setAttr (xe_now E 0) fid a s)
     else Some (XOK, c\<lparr>cache_attr := mput fid a (cache_attr c), cache_status := mput fid MODIFIED (cache_status c)\<rparr>, s))"

text \<open>The three calls of \<open>flush\<close> for a modified file.\<close>

definition ec_writeback :: "xenv \<Rightarrow> u64 \<Rightarrow> extent_client \<Rightarrow> extent_server \<Rightarrow> extent_server option" where
  "ec_writeback E fid c s =
     do { (r, s) \<leftarrow> es_write (xe_now E 0) fid 0 (size_of (mget attr0 (cache_attr c) fid)) (mget [] (cache_content c) fid) s;
          if r \<noteq> XOK then None
          else do { (r, s) \<leftarrow> es_setAttr (xe_now E 1) fid (mget attr0 (cache_attr c) fid) s;
                    if r \<noteq> XOK then None
                    else let (r, s) = es_setMode (xe_now E 2) fid (mget 0 (cache_mode c) fid) s
                         in if r \<noteq> XOK then None else Some s } }"

definition ec_flush :: "xenv \<Rightarrow> u64 \<Rightarrow> extent_client \<times> extent_server \<Rightarrow> (extent_client \<times> extent_server) option" where
  "ec_flush E fid = (\<lambda>(c, s).
     if \<not> cached c fid then Some (c, s)
     else do { s \<leftarrow> (if mfind (cache_status c) fid = Some MODIFIED then ec_writeback E fid c s else Some s);
               Some (\<lparr>cache_content = merase fid (cache_content c), cache_attr = merase fid (cache_attr c),
                      cache_mode = merase fid (cache_mode c), cache_status = merase fid (cache_status c)\<rparr>, s) })"

definition ec_write :: "xenv \<Rightarrow> u64 \<Rightarrow> int \<Rightarrow> u32 \<Rightarrow> string \<Rightarrow> extent_client \<times> extent_server \<Rightarrow> (xstatus \<times> extent_client \<times> extent_server) option" where
  "ec_write E fid off sz buf = (\<lambda>(c, s).
     let str_buf = take (unat sz) buf in
     if \<not> cached c fid then map_option (\<lambda>(r, s). (r, c, s)) (es_write (xe_now E 0) fid (word_of_int off) sz str_buf s)
     else if mfind (cache_status c) fid = Some REMOVED then Some (XNOENT, c, s)
     else let content = mget [] (cache_content c) fid in
       do { content \<leftarrow> (if off + uint sz > int (length content) then str_resize (word_of_int (off + uint sz)) content else Some content);
            content \<leftarrow> str_replace (word_of_int off) sz str_buf sz content;
            Some (XOK, c\<lparr>cache_content := mput fid content (cache_content c),
                         cache_attr := mput fid (attr_at (xe_now E 0) (word_of_nat (length content))) (cache_attr c),
                         cache_status := mput fid MODIFIED (cache_status c)\<rparr>, s) })"

end
