(* ===== verification/Simulation.thy ===== *)
theory Simulation
  imports Main "HOL-Library.Monad_Syntax"
begin

text \<open>
  Runs of a system whose steps may be refused and give an output, and forward simulation: a detailed system that can follow every
  step an abstract one permits produces the outputs of the abstract run.
\<close>

fun run_steps :: "('a \<Rightarrow> 's \<Rightarrow> ('o \<times> 's) option) \<Rightarrow> 'a list \<Rightarrow> 's \<Rightarrow> ('o list \<times> 's) option" where
  "run_steps step [] s = Some ([], s)"
| "run_steps step (a # as) s = do { (x, s) \<leftarrow> step a s; (xs, s) \<leftarrow> run_steps step as s; Some (x # xs, s) }"

text \<open>The general form relates states; in the special form the abstract state is a function of the detailed one.\<close>

locale rel_simulation =
  fixes step :: "'a \<Rightarrow> 's \<Rightarrow> ('o \<times> 's) option"
    and astep :: "'b \<Rightarrow> 't \<Rightarrow> ('o \<times> 't) option"
    and act :: "'a \<Rightarrow> 'b"
    and rel :: "'s \<Rightarrow> 't \<Rightarrow> bool"
  assumes follows: "rel s t \<Longrightarrow> astep (act a) t = Some (x, t') \<Longrightarrow> \<exists>s'. step a s = Some (x, s') \<and> rel s' t'"
begin

lemma run_follows:
  "rel s t \<Longrightarrow> run_steps astep (map act as) t = Some (xs, t') \<Longrightarrow> \<exists>s'. run_steps step as s = Some (xs, s') \<and> rel s' t'"
proof (induction as arbitrary: s t xs)
  case (Cons a as)
  obtain x t1 ys where 1: "astep (act a) t = Some (x, t1)" "run_steps astep (map act as) t1 = Some (ys, t')" "xs = x # ys"
    using Cons.prems(2) by (auto split: bind_splits)
  obtain s1 where s1: "step a s = Some (x, s1)" "rel s1 t1" using follows [OF Cons.prems(1) 1(1)] by blast
  then obtain s' where "run_steps step as s1 = Some (ys, s')" "rel s' t'" using Cons.IH [of s1 t1 ys] 1(2) by auto
  then show ?case using s1(1) 1(3) by auto
qed simp

end

locale simulation =
  fixes step :: "'a \<Rightarrow> 's \<Rightarrow> ('o \<times> 's) option"
    and astep :: "'b \<Rightarrow> 't \<Rightarrow> ('o \<times> 't) option"
    and act :: "'a \<Rightarrow> 'b"
    and good :: "'s \<Rightarrow> bool"
    and abs_of :: "'s \<Rightarrow> 't"
  assumes simulates: "good s \<Longrightarrow> astep (act a) (abs_of s) = Some (x, t) \<Longrightarrow> \<exists>s'. step a s = Some (x, s') \<and> good s' \<and> abs_of s' = t"

sublocale simulation \<subseteq> rel_simulation step astep act "\<lambda>s t. good s \<and> abs_of s = t"
  by unfold_locales (use simulates in blast)

context simulation
begin

lemma run_simulates:
  "good s \<Longrightarrow> run_steps astep (map act as) (abs_of s) = Some (xs, t) \<Longrightarrow>
     \<exists>s'. run_steps step as s = Some (xs, s') \<and> good s' \<and> abs_of s' = t"
  using run_follows by blast

end

end
