(* ===== verification/FileSharing.thy ===== *)
theory FileSharing
  imports ExtentClient Simulation
begin

text \<open>
  Several extent clients share the files of one extent server, each caching a file only while its lock client owns the file's lock: a
  client reads and writes under the lock, and the lock client calls \<open>dorelease\<close>, which flushes the file, before it gives the
  lock back.
\<close>

subsection \<open>One client\<close>

text \<open>A file at the server, ready to be fetched; a sound cache entry for it.\<close>

definition srv_ok :: "extent_server \<Rightarrow> u64 \<Rightarrow> bool" where
  "srv_ok s i \<longleftrightarrow> (\<exists>b a. mfind (fileid_content_m s) i = Some b \<and> length b \<le> max_str \<and> mfind (fileid_attr_m s) i = Some a
     \<and> size_of a = word_of_nat (length b) \<and> mcount (fileid_mode_m s) i)"

definition srv_on :: "u64 set \<Rightarrow> extent_server \<Rightarrow> bool" where
  "srv_on A s \<longleftrightarrow> (\<forall>i \<in> A. mcount (fileid_content_m s) i \<longrightarrow> srv_ok s i)"

abbreviation srv_inv :: "extent_server \<Rightarrow> bool" where
  "srv_inv \<equiv> srv_on UNIV"

definition entry_ok :: "extent_server \<Rightarrow> extent_client \<Rightarrow> u64 \<Rightarrow> bool" where
  "entry_ok s c i \<longleftrightarrow> (\<exists>st b a sb. mfind (cache_status c) i = Some st \<and> st \<noteq> REMOVED \<and> mfind (cache_content c) i = Some b
     \<and> mfind (cache_attr c) i = Some a \<and> size_of a = word_of_nat (length b) \<and> length b \<le> max_str
     \<and> mfind (fileid_content_m s) i = Some sb \<and> length sb \<le> length b \<and> (st = CACHED \<longrightarrow> b = sb))"

text \<open>The content the owner of the file's lock sees.\<close>

definition file_view :: "extent_client \<Rightarrow> extent_server \<Rightarrow> u64 \<Rightarrow> string option" where
  "file_view c s i = (if cached c i then mfind (cache_content c) i else mfind (fileid_content_m s) i)"

lemma unat_len: "length b \<le> max_str \<Longrightarrow> unat (word_of_nat (length b) :: u32) = length b"
  by (subst unat_of_nat) (simp add: max_str_def)

lemma fetch_lemma:
  assumes "\<not> cached c i" "srv_on A s" "mfind (fileid_content_m s) i = Some b" "i \<in> A"
  shows "\<exists>a m s'. ec_fetch E i c s = Some (cache_file i b a m c, s') \<and> size_of a = word_of_nat (length b)
    \<and> fileid_content_m s' = fileid_content_m s \<and> srv_on A s'"
proof -
  obtain a where a: "length b \<le> max_str" "mfind (fileid_attr_m s) i = Some a" "size_of a = word_of_nat (length b)" "mcount (fileid_mode_m s) i"
    using assms(2-4) by (force simp: srv_on_def srv_ok_def mcount_def)
  let ?s = "s\<lparr>fileid_attr_m := mput i (a\<lparr>atime := xe_now E 0\<rparr>) (fileid_attr_m s)\<rparr>"
  have g: "es_get (xe_now E 0) i 0 (size_of a) s = Some (XOK, b, ?s)"
    using a assms(3) unat_len [OF a(1)] by (simp add: es_get_def mcount_def mget_def str_substr_def)
  have inv: "srv_on A ?s" using assms(2) a by (auto simp: srv_on_def srv_ok_def mcount_def)
  have "ec_fetch E i c s = Some (cache_file i b (a\<lparr>atime := xe_now E 0\<rparr>) (mget 0 (fileid_mode_m s) i) c, ?s)"
    using assms(1) a(2,4) g by (simp add: ec_fetch_def ec_getAttr_def ec_getMode_def es_getattr_def es_getMode_def mcount_def mget_def)
  then show ?thesis using a(3) inv by auto
qed

lemma entry_cache_file:
  assumes "mfind (fileid_content_m s) i = Some b" "length b \<le> max_str" "size_of a = word_of_nat (length b)"
  shows "entry_ok s (cache_file i b a m c) i" "cached (cache_file i b a m c) i" "mfind (cache_content (cache_file i b a m c)) i = Some b"
  using assms by (auto simp: entry_ok_def cache_file_def cached_def mcount_def)

lemma off_small: "0 \<le> off \<Longrightarrow> off \<le> int max_str \<Longrightarrow> unat (word_of_int off :: u32) = nat off"
  by (simp add: unsigned_of_int take_bit_eq_mod max_str_def)

text \<open>Reading gives the bytes of the view and does not change it; afterwards the file is cached.\<close>

lemma read_lemma:
  assumes "srv_on A s" "cached c i \<Longrightarrow> entry_ok s c i" "file_view c s i = Some b" "0 \<le> off" "nat off \<le> length b" "i \<in> A"
  shows "\<exists>c' s'. ec_read E i off n (c, s) = Some (XOK, take (unat n) (drop (nat off) b), c', s') \<and> fileid_content_m s' = fileid_content_m s
    \<and> srv_on A s' \<and> entry_ok s' c' i \<and> mfind (cache_content c') i = Some b
    \<and> (\<forall>j. j \<noteq> i \<longrightarrow> mfind (cache_content c') j = mfind (cache_content c) j \<and> mfind (cache_status c') j = mfind (cache_status c) j
        \<and> mfind (cache_attr c') j = mfind (cache_attr c) j)"
proof -
  have len: "length b \<le> max_str"
    using assms(1-3,6) by (force simp: file_view_def entry_ok_def srv_on_def srv_ok_def mcount_def cached_def split: if_splits)
  have off: "unat (word_of_int off :: u32) = nat off" using assms(4,5) len by (intro off_small) auto
  show ?thesis
  proof (cases "cached c i")
    case True
    then show ?thesis
      using assms(2,3,5) off assms(1)
      by (auto simp: ec_read_def entry_ok_def file_view_def str_substr_def mget_def mindex_def mcount_def)
  next
    case False
    then have b: "mfind (fileid_content_m s) i = Some b" using assms(3) by (simp add: file_view_def)
    obtain a m s' where f: "ec_fetch E i c s = Some (cache_file i b a m c, s')" "size_of a = word_of_nat (length b)"
        "fileid_content_m s' = fileid_content_m s" "srv_on A s'"
      using fetch_lemma [OF False assms(1) b assms(6)] by blast
    note e = entry_cache_file [of s' i b a m c]
    have "ec_read E i off n (c, s) = Some (XOK, take (unat n) (drop (nat off) b), cache_file i b a m c, s')"
      using False f(1) e(3) b f(2,3) len off assms(5) by (simp add: ec_read_def str_substr_def mget_def mindex_def mcount_def)
    then show ?thesis using f e b len by (auto simp: cache_file_def)
  qed
qed

text \<open>Two clients agree on a file's entry; nothing about another file depends on more.\<close>

definition same_entry :: "extent_client \<Rightarrow> extent_client \<Rightarrow> u64 \<Rightarrow> bool" where
  "same_entry c c' j \<longleftrightarrow> mfind (cache_content c') j = mfind (cache_content c) j \<and> mfind (cache_status c') j = mfind (cache_status c) j
     \<and> mfind (cache_attr c') j = mfind (cache_attr c) j"

lemma same_entryD:
  assumes "same_entry c c' j" "mfind (fileid_content_m s') j = mfind (fileid_content_m s) j"
  shows "cached c' j = cached c j" "entry_ok s' c' j = entry_ok s c j" "file_view c' s' j = file_view c s j"
  using assms by (simp_all add: same_entry_def cached_def mcount_def entry_ok_def file_view_def)

lemma srv_put:
  assumes "srv_on A s" "mfind (fileid_content_m s) i \<noteq> None" "length b \<le> max_str"
  shows "srv_on A (es_put now i b s)"
  using assms by (auto simp: srv_on_def srv_ok_def es_put_def attr_at_def mcount_def)

lemma srv_attr:
  assumes "srv_on A s" "mfind (fileid_attr_m s) i = Some a" "size_of a' = size_of a"
  shows "srv_on A (s\<lparr>fileid_attr_m := mput i a' (fileid_attr_m s)\<rparr>)"
  using assms by (auto simp: srv_on_def srv_ok_def)

lemma srv_mode: "srv_on A s \<Longrightarrow> srv_on A (s\<lparr>fileid_mode_m := mput i m (fileid_mode_m s)\<rparr>)"
  by (auto simp: srv_on_def srv_ok_def mcount_mput)

lemma ec_write_lemma:
  assumes "srv_on A s" "cached c i \<Longrightarrow> entry_ok s c i" "file_view c s i = Some b" "0 \<le> off" "nat off + unat n \<le> max_str" "length buf = unat n" "i \<in> A"
  shows "\<exists>c' s'. ec_write E i off n buf (c, s) = Some (XOK, c', s') \<and> srv_on A s' \<and> cached c' i = cached c i \<and> (cached c' i \<longrightarrow> entry_ok s' c' i)
    \<and> file_view c' s' i = Some (splice (nat off) buf b) \<and> (\<forall>j. j \<noteq> i \<longrightarrow> same_entry c c' j \<and> mfind (fileid_content_m s') j = mfind (fileid_content_m s) j)"
proof -
  have len: "length b \<le> max_str"
    using assms(1-3,7) by (force simp: file_view_def entry_ok_def srv_on_def srv_ok_def mcount_def cached_def split: if_splits)
  define b' where "b' = splice (nat off) buf b"
  have len': "length b' \<le> max_str" "length b \<le> length b'" using len assms(5,6) by (simp_all add: b'_def length_splice)
  show ?thesis
  proof (cases "cached c i")
    case False
    then have b: "mfind (fileid_content_m s) i = Some b" using assms(3) by (simp add: file_view_def)
    have off: "unat (word_of_int off :: u64) = nat off"
      using assms(4,5) by (simp add: unsigned_of_int take_bit_eq_mod max_str_def)
    have "es_write (xe_now E 0) i (word_of_int off) n buf s = Some (XOK, es_put (xe_now E 0) i b' s)"
      using write_lemma [OF b len assms(6), of "word_of_int off" "xe_now E 0"] assms(5) off by (simp add: b'_def)
    then show ?thesis
      using False assms(6) srv_put [OF assms(1), of i b'] b len'
      by (auto simp: ec_write_def file_view_def b'_def [symmetric] same_entry_def es_put_def)
  next
    case True
    obtain st a sb where e: "mfind (cache_status c) i = Some st" "st \<noteq> REMOVED" "mfind (cache_content c) i = Some b" "mfind (cache_attr c) i = Some a"
        "mfind (fileid_content_m s) i = Some sb" "length sb \<le> length b"
      using assms(2,3) True by (auto simp: entry_ok_def file_view_def)
    have off: "unat (word_of_int off :: u32) = nat off" using assms(4,5) by (intro off_small) auto
    have sum: "off + uint n = int (nat off + unat n)" using assms(4) by simp
    have gt: "off + uint n > int (length b) \<longleftrightarrow> length b < nat off + unat n" unfolding sum by (rule of_nat_less_iff)
    have w: "word_of_int (off + uint n) = (word_of_nat (nat off + unat n) :: u32)" unfolding sum by (rule of_int_of_nat_eq)
    let ?c = "c\<lparr>cache_content := mput i b' (cache_content c), cache_attr := mput i (attr_at (xe_now E 0) (word_of_nat (length b'))) (cache_attr c),
      cache_status := mput i MODIFIED (cache_status c)\<rparr>"
    obtain t where t: "(if length b < nat off + unat n then str_resize (word_of_nat (nat off + unat n)) b else Some b) = Some t"
        "str_replace (word_of_int off) n buf n t = Some b'"
      using resize_replace [OF off [symmetric] assms(6,5) len refl] unfolding b'_def by blast
    have "ec_write E i off n buf (c, s) = Some (XOK, ?c, s)"
      using True e(1-3) t assms(6) unfolding ec_write_def w [symmetric] gt [symmetric] by (simp add: mget_def)
    moreover have "entry_ok s ?c i" using e(5,6) len' by (auto simp: entry_ok_def attr_at_def)
    moreover have "same_entry c ?c j" if "j \<noteq> i" for j using that by (simp add: same_entry_def)
    moreover have "cached ?c i" "file_view ?c s i = Some b'" by (simp_all add: cached_def mcount_def file_view_def)
    ultimately show ?thesis unfolding b'_def [symmetric] using assms(1) True by blast
  qed
qed

text \<open>Flushing moves the view to the server and drops the entry.\<close>

lemma writeback_lemma:
  assumes "srv_on A s" "entry_ok s c i" "mfind (cache_content c) i = Some b"
  shows "\<exists>s'. ec_writeback E i c s = Some s' \<and> srv_on A s' \<and> mfind (fileid_content_m s') = (mfind (fileid_content_m s))(i \<mapsto> b)"
proof -
  obtain a sb where e: "mfind (cache_attr c) i = Some a" "size_of a = word_of_nat (length b)" "length b \<le> max_str"
      "mfind (fileid_content_m s) i = Some sb" "length sb \<le> length b"
    using assms(2,3) by (auto simp: entry_ok_def)
  have n: "unat (size_of a) = length b" using e(2,3) unat_len by simp
  define s1 where "s1 = es_put (xe_now E 0) i b s"
  have 1: "es_write (xe_now E 0) i 0 (size_of a) b s = Some (XOK, s1)"
    using write_lemma [OF e(4), of b "size_of a" 0 "xe_now E 0"] e n splice_all [of sb b] by (simp add: s1_def)
  have i1: "srv_on A s1" using assms(1) e by (auto simp: s1_def intro: srv_put)
  have c1: "mfind (fileid_content_m s1) = (mfind (fileid_content_m s))(i \<mapsto> b)" by (simp add: s1_def es_put_def)
  have g1: "mcount (fileid_attr_m s1) i" "mget [] (fileid_content_m s1) i = b" "mindex [] i (fileid_content_m s1) = fileid_content_m s1"
    by (simp_all add: s1_def es_put_def mcount_def mget_def mindex_def)
  obtain a1 where a1: "mfind (fileid_attr_m s1) i = Some a1" by (simp add: s1_def es_put_def)
  define a2 where "a2 = a1\<lparr>atime := atime a, mtime := mtime a, ctime := ctime a\<rparr>"
  define s2 where "s2 = s1\<lparr>fileid_attr_m := mput i a2 (fileid_attr_m s1)\<rparr>"
  have 2: "es_setAttr (xe_now E 1) i a s1 = Some (XOK, s2)" "fileid_content_m s2 = fileid_content_m s1"
    using g1 e(2) a1 by (simp_all add: es_setAttr_def s2_def a2_def mget_def)
  have i2: "srv_on A s2" unfolding s2_def using i1 a1 by (rule srv_attr) (simp add: a2_def)
  let ?s3 = "s2\<lparr>fileid_mode_m := mput i (mget 0 (cache_mode c) i) (fileid_mode_m s2)\<rparr>"
  have "srv_on A (?s3\<lparr>fileid_attr_m := mput i (a2\<lparr>ctime := xe_now E 2\<rparr>) (fileid_attr_m ?s3)\<rparr>)"
    by (rule srv_attr [OF srv_mode [OF i2]]) (simp_all add: s2_def)
  moreover have "mget attr0 (fileid_attr_m s2) i = a2" by (simp add: s2_def mget_def)
  ultimately show ?thesis
    using 1 2 c1 assms(3) e(1) by (simp add: ec_writeback_def es_setMode_def mget_def)
qed

lemma flush_lemma:
  assumes "srv_on A s" "cached c i \<Longrightarrow> entry_ok s c i"
  shows "\<exists>c' s'. ec_flush E i (c, s) = Some (c', s') \<and> srv_on A s' \<and> \<not> cached c' i \<and> file_view c' s' i = file_view c s i
    \<and> (\<forall>j. j \<noteq> i \<longrightarrow> same_entry c c' j \<and> mfind (fileid_content_m s') j = mfind (fileid_content_m s) j)"
proof (cases "cached c i")
  case True
  obtain st b sb where e: "mfind (cache_status c) i = Some st" "st \<noteq> REMOVED" "mfind (cache_content c) i = Some b"
      "mfind (fileid_content_m s) i = Some sb" "st = CACHED \<longrightarrow> b = sb"
    using assms(2) True by (auto simp: entry_ok_def)
  show ?thesis
  proof (cases st)
    case MODIFIED
    obtain s' where "ec_writeback E i c s = Some s'" "srv_on A s'" "mfind (fileid_content_m s') = (mfind (fileid_content_m s))(i \<mapsto> b)"
      using writeback_lemma [OF assms(1) assms(2) [OF True] e(3)] by blast
    then show ?thesis using True e MODIFIED by (auto simp: ec_flush_def cached_def mcount_def file_view_def same_entry_def)
  qed (use True e assms(1) in \<open>auto simp: ec_flush_def cached_def mcount_def file_view_def same_entry_def\<close>)
qed (use assms(1) in \<open>auto simp: ec_flush_def same_entry_def\<close>)

subsection \<open>Clients under locks\<close>

record fs_sys =
  fs_es :: extent_server
  fs_ec :: "int \<Rightarrow> extent_client"
  fs_owner :: "u64 \<Rightarrow> int option"

datatype fs_act = FAcquire int u64 | FRelease int u64 | FRead int u64 int u32 | FWrite int u64 int string

definition with_ec :: "int \<Rightarrow> extent_client \<times> extent_server \<Rightarrow> fs_sys \<Rightarrow> fs_sys" where
  "with_ec k = (\<lambda>(c, s) y. y\<lparr>fs_es := s, fs_ec := (fs_ec y)(k := c)\<rparr>)"

text \<open>The lock service grants a lock nobody owns; the owner reads and writes; giving the lock back flushes the file first.\<close>

fun fs_step :: "xenv \<times> fs_act \<Rightarrow> fs_sys \<Rightarrow> (string option \<times> fs_sys) option" where
  "fs_step (E, FAcquire k i) y = (if fs_owner y i \<noteq> None then None else Some (None, y\<lparr>fs_owner := (fs_owner y)(i := Some k)\<rparr>))"
| "fs_step (E, FRelease k i) y =
     (if fs_owner y i \<noteq> Some k then None
      else map_option (\<lambda>cs. (None, (with_ec k cs y)\<lparr>fs_owner := (fs_owner y)(i := None)\<rparr>)) (ec_flush E i (fs_ec y k, fs_es y)))"
| "fs_step (E, FRead k i off n) y =
     (if fs_owner y i \<noteq> Some k then None
      else case ec_read E i off n (fs_ec y k, fs_es y) of
             Some (XOK, buf, cs) \<Rightarrow> Some (Some buf, with_ec k cs y) | _ \<Rightarrow> None)"
| "fs_step (E, FWrite k i off buf) y =
     (if fs_owner y i \<noteq> Some k then None
      else case ec_write E i off (word_of_nat (length buf)) buf (fs_ec y k, fs_es y) of
             Some (XOK, cs) \<Rightarrow> Some (None, with_ec k cs y) | _ \<Rightarrow> None)"

text \<open>The specification: one copy of every file, and the lock rule.  Reads start within the file, writes end below the largest size.\<close>

type_synonym file_store = "(u64 \<Rightarrow> int option) \<times> (u64 \<Rightarrow> string option)"

fun store_step :: "fs_act \<Rightarrow> file_store \<Rightarrow> (string option \<times> file_store) option" where
  "store_step (FAcquire k i) (ow, st) = (if ow i \<noteq> None then None else Some (None, ow(i := Some k), st))"
| "store_step (FRelease k i) (ow, st) = (if ow i \<noteq> Some k then None else Some (None, ow(i := None), st))"
| "store_step (FRead k i off n) (ow, st) =
     (case st i of
        Some b \<Rightarrow> if ow i = Some k \<and> 0 \<le> off \<and> nat off \<le> length b then Some (Some (take (unat n) (drop (nat off) b)), ow, st) else None
      | None \<Rightarrow> None)"
| "store_step (FWrite k i off buf) (ow, st) =
     (case st i of
        Some b \<Rightarrow> if ow i = Some k \<and> 0 \<le> off \<and> nat off + length buf \<le> max_str then Some (None, ow, st(i \<mapsto> splice (nat off) buf b)) else None
      | None \<Rightarrow> None)"

definition fs_content :: "fs_sys \<Rightarrow> u64 \<Rightarrow> string option" where
  "fs_content y i = (case fs_owner y i of Some k \<Rightarrow> file_view (fs_ec y k) (fs_es y) i | None \<Rightarrow> mfind (fileid_content_m (fs_es y)) i)"

definition fs_abs :: "fs_sys \<Rightarrow> file_store" where
  "fs_abs y = (fs_owner y, fs_content y)"

definition fs_inv :: "fs_sys \<Rightarrow> bool" where
  "fs_inv y \<longleftrightarrow> srv_inv (fs_es y) \<and> (\<forall>k i. cached (fs_ec y k) i \<longrightarrow> fs_owner y i = Some k \<and> entry_ok (fs_es y) (fs_ec y k) i)"

text \<open>An operation of the owner \<open>k\<close> of \<open>i\<close> that leaves the other files alone: what happens to \<open>i\<close> is all that happens.\<close>

lemma local_change:
  assumes "fs_inv y" "fs_owner y i = Some k" "srv_inv s'" "cached c' i \<longrightarrow> entry_ok s' c' i"
    and "\<forall>j. j \<noteq> i \<longrightarrow> same_entry (fs_ec y k) c' j \<and> mfind (fileid_content_m s') j = mfind (fileid_content_m (fs_es y)) j"
  shows "fs_inv (with_ec k (c', s') y)" "fs_content (with_ec k (c', s') y) = (fs_content y)(i := file_view c' s' i)"
proof -
  let ?y = "with_ec k (c', s') y"
  have oth: "\<not> cached (fs_ec y k') i" if "k' \<noteq> k" for k' using assms(1,2) that by (auto simp: fs_inv_def)
  have e: "cached (fs_ec ?y k') j = cached (fs_ec y k') j" "entry_ok (fs_es ?y) (fs_ec ?y k') j = entry_ok (fs_es y) (fs_ec y k') j"
      "file_view (fs_ec ?y k') (fs_es ?y) j = file_view (fs_ec y k') (fs_es y) j" if "j \<noteq> i" for k' j
    using same_entryD [of "fs_ec y k'" "fs_ec ?y k'" j s' "fs_es y"] assms(5) that by (auto simp: with_ec_def same_entry_def)
  have "fs_owner ?y j = Some k' \<and> entry_ok (fs_es ?y) (fs_ec ?y k') j" if "cached (fs_ec ?y k') j" for k' j
  proof (cases "j = i")
    case True
    then have "k' = k" using that oth by (auto simp: with_ec_def split: if_splits)
    then show ?thesis using True that assms(2,4) by (simp add: with_ec_def)
  next
    case False
    then show ?thesis using that e [OF False] assms(1) by (simp add: fs_inv_def with_ec_def)
  qed
  then show "fs_inv ?y" using assms(3) by (auto simp: fs_inv_def with_ec_def)
  have "fs_content ?y j = ((fs_content y)(i := file_view c' s' i)) j" for j
    using e(3) [of j] assms(2,5) by (cases "j = i") (auto simp: fs_content_def with_ec_def split: option.splits)
  then show "fs_content ?y = (fs_content y)(i := file_view c' s' i)" by blast
qed

lemma fs_srv: "fs_inv y \<Longrightarrow> srv_inv (fs_es y)"
  by (simp add: fs_inv_def)

lemma owner_entry: "fs_inv y \<Longrightarrow> cached (fs_ec y k) i \<Longrightarrow> entry_ok (fs_es y) (fs_ec y k) i"
  by (simp add: fs_inv_def)

lemma sim_acquire:
  assumes "fs_inv y" "fs_owner y i = None"
  shows "fs_inv (y\<lparr>fs_owner := (fs_owner y)(i := Some k)\<rparr>)" "fs_content (y\<lparr>fs_owner := (fs_owner y)(i := Some k)\<rparr>) = fs_content y"
proof -
  have "\<not> cached (fs_ec y k) i" using assms by (auto simp: fs_inv_def)
  then show "fs_content (y\<lparr>fs_owner := (fs_owner y)(i := Some k)\<rparr>) = fs_content y"
    using assms(2) by (intro ext) (auto simp: fs_content_def file_view_def split: option.splits)
  show "fs_inv (y\<lparr>fs_owner := (fs_owner y)(i := Some k)\<rparr>)" using assms by (auto simp: fs_inv_def)
qed

lemma sim_release:
  assumes "fs_inv y" "fs_owner y i = Some k"
  shows "\<exists>c' s'. ec_flush E i (fs_ec y k, fs_es y) = Some (c', s') \<and> fs_inv ((with_ec k (c', s') y)\<lparr>fs_owner := (fs_owner y)(i := None)\<rparr>)
    \<and> fs_content ((with_ec k (c', s') y)\<lparr>fs_owner := (fs_owner y)(i := None)\<rparr>) = fs_content y"
proof -
  obtain c' s' where f: "ec_flush E i (fs_ec y k, fs_es y) = Some (c', s')" "srv_inv s'" "\<not> cached c' i"
      "file_view c' s' i = file_view (fs_ec y k) (fs_es y) i"
      "\<forall>j. j \<noteq> i \<longrightarrow> same_entry (fs_ec y k) c' j \<and> mfind (fileid_content_m s') j = mfind (fileid_content_m (fs_es y)) j"
    using flush_lemma [OF fs_srv [OF assms(1)] owner_entry [OF assms(1)], of k i E] by blast
  define z where "z = with_ec k (c', s') y"
  have l: "fs_inv z" "fs_content z = (fs_content y)(i := file_view c' s' i)"
    unfolding z_def using f(3) by (intro local_change [OF assms f(2) _ f(5)]; simp)+
  have z: "fs_owner z = fs_owner y" "fs_ec z = (fs_ec y)(k := c')" "fs_es z = s'" by (simp_all add: z_def with_ec_def)
  have n: "\<not> cached (fs_ec z k') i" for k'
    using f(3) assms by (auto simp: z fs_inv_def)
  have "fs_inv (z\<lparr>fs_owner := (fs_owner y)(i := None)\<rparr>)" using l(1) n by (auto simp: fs_inv_def z(1))
  moreover have "fs_content (z\<lparr>fs_owner := (fs_owner y)(i := None)\<rparr>) j = fs_content y j" for j
  proof (cases "j = i")
    case True
    then show ?thesis using f(3,4) assms(2) by (simp add: fs_content_def z file_view_def)
  next
    case False
    then show ?thesis using fun_cong [OF l(2), of j] by (cases "fs_owner y j") (simp_all add: fs_content_def z)
  qed
  ultimately show ?thesis using f(1) unfolding z_def by blast
qed

lemma sim_read:
  assumes "fs_inv y" "fs_owner y i = Some k" "fs_content y i = Some b" "0 \<le> off" "nat off \<le> length b"
  shows "\<exists>cs. ec_read E i off n (fs_ec y k, fs_es y) = Some (XOK, take (unat n) (drop (nat off) b), cs)
    \<and> fs_inv (with_ec k cs y) \<and> fs_content (with_ec k cs y) = fs_content y"
proof -
  have v: "file_view (fs_ec y k) (fs_es y) i = Some b" using assms(2,3) by (simp add: fs_content_def)
  obtain c' s' where r: "ec_read E i off n (fs_ec y k, fs_es y) = Some (XOK, take (unat n) (drop (nat off) b), c', s')"
      "fileid_content_m s' = fileid_content_m (fs_es y)" "srv_inv s'" "entry_ok s' c' i" "mfind (cache_content c') i = Some b"
      "\<forall>j. j \<noteq> i \<longrightarrow> same_entry (fs_ec y k) c' j"
    using read_lemma [OF fs_srv [OF assms(1)] owner_entry [OF assms(1)] v assms(4,5), of E n] unfolding same_entry_def by blast
  have "cached c' i" using r(4) by (auto simp: entry_ok_def cached_def mcount_def)
  then have w: "file_view c' s' i = Some b" using r(5) by (simp add: file_view_def)
  have "fs_inv (with_ec k (c', s') y)" "fs_content (with_ec k (c', s') y) = (fs_content y)(i := file_view c' s' i)"
    using r(2,4,6) by (intro local_change [OF assms(1,2) r(3)]; simp)+
  moreover have "(fs_content y)(i := Some b) = fs_content y" using assms(3) by (rule fun_upd_idem)
  ultimately show ?thesis using r(1) w by auto
qed

lemma sim_write:
  assumes "fs_inv y" "fs_owner y i = Some k" "fs_content y i = Some b" "0 \<le> off" "nat off + length buf \<le> max_str"
  shows "\<exists>cs. ec_write E i off (word_of_nat (length buf)) buf (fs_ec y k, fs_es y) = Some (XOK, cs)
    \<and> fs_inv (with_ec k cs y) \<and> fs_content (with_ec k cs y) = (fs_content y)(i \<mapsto> splice (nat off) buf b)"
proof -
  have v: "file_view (fs_ec y k) (fs_es y) i = Some b" using assms(2,3) by (simp add: fs_content_def)
  have n: "unat (word_of_nat (length buf) :: u32) = length buf" using assms(5) by (intro unat_len) simp
  obtain c' s' where w: "ec_write E i off (word_of_nat (length buf)) buf (fs_ec y k, fs_es y) = Some (XOK, c', s')" "srv_inv s'"
      "cached c' i \<longrightarrow> entry_ok s' c' i" "file_view c' s' i = Some (splice (nat off) buf b)"
      "\<forall>j. j \<noteq> i \<longrightarrow> same_entry (fs_ec y k) c' j \<and> mfind (fileid_content_m s') j = mfind (fileid_content_m (fs_es y)) j"
    using ec_write_lemma [OF fs_srv [OF assms(1)] owner_entry [OF assms(1)] v assms(4) _ n [symmetric], of E] assms(5) n by auto
  then show ?thesis using local_change [OF assms(1,2) w(2,3,5)] by auto
qed

lemma fs_owner_with [simp]: "fs_owner (with_ec k cs y) = fs_owner y"
  by (cases cs) (simp add: with_ec_def)

lemma fs_simulates:
  assumes "fs_inv y" "store_step a (fs_abs y) = Some (x, t)"
  shows "\<exists>y'. fs_step (E, a) y = Some (x, y') \<and> fs_inv y' \<and> fs_abs y' = t"
proof (cases a)
  case (FAcquire k i)
  then show ?thesis using assms sim_acquire [OF assms(1), of i k] by (auto simp: fs_abs_def split: if_splits)
next
  case (FRelease k i)
  then show ?thesis using assms(2) sim_release [OF assms(1), of i k E] by (auto simp: fs_abs_def split: if_splits)
next
  case (FRead k i off n)
  then show ?thesis using assms(2) sim_read [OF assms(1), of i k _ off E n] by (auto simp: fs_abs_def split: if_splits option.splits)
next
  case (FWrite k i off buf)
  then show ?thesis using assms(2) sim_write [OF assms(1), of i k _ off buf E] by (auto simp: fs_abs_def split: if_splits option.splits)
qed

interpretation shared_files: simulation fs_step store_step snd fs_inv fs_abs
  by unfold_locales (use fs_simulates in \<open>metis prod.collapse\<close>)

text \<open>
  Caching is invisible under locks.  Let any number of clients read and write files of one extent server, each only while it owns the
  file's lock and flushing its cached copy before giving the lock back.  Whatever a store with a single copy of every file
  answers to a sequence of such operations, the caching clients answer too: every read gives the bytes last written by any
  client, no assertion fails on the way, and the files end up with the same contents.
\<close>

lemma cached_files_coherent:
  assumes "fs_inv y" "run_steps store_step (map snd as) (fs_abs y) = Some (outs, t)"
  shows "\<exists>y'. run_steps fs_step as y = Some (outs, y') \<and> fs_abs y' = t"
  using shared_files.run_simulates [OF assms] by blast

definition demo_env :: xenv where
  "demo_env = \<lparr>xe_now = (\<lambda>_. 9), xe_rnd = [5], xe_attr = attr0, xe_mode = 0, xe_id = 0\<rparr>"

subsection \<open>A file that is cached without its lock\<close>



end
