(* ===== verification/YfsClient.thy ===== *)
theory YfsClient
  imports FileSharing PaxosLog
begin

text \<open>
  The file system client, \<open>yfs_client.cc\<close>: every operation takes the locks it needs, works on the extent client and gives the locks back.
  One thread runs the operations.  Of the lock client it relies on what \<open>LockClientCache\<close> shows: \<open>acquire\<close> returns \<open>OK\<close> once the
  thread holds the lock, at once if it holds it already, and \<open>release\<close> gives the lock up if the thread holds it and does nothing
  otherwise.  \<open>y_held\<close> are the locks the thread holds.
\<close>

record yfs_client =
  y_ec :: extent_client
  y_es :: extent_server
  y_held :: "u64 list"

record fileinfo =
  fi_size :: u64
  fi_atime :: u32
  fi_mtime :: u32
  fi_ctime :: u32

record dirinfo =
  di_atime :: u32
  di_mtime :: u32
  di_ctime :: u32

abbreviation y_cs :: "yfs_client \<Rightarrow> extent_client \<times> extent_server" where
  "y_cs y \<equiv> (y_ec y, y_es y)"

definition y_with :: "extent_client \<times> extent_server \<Rightarrow> yfs_client \<Rightarrow> yfs_client" where
  "y_with cs y = y\<lparr>y_ec := fst cs, y_es := snd cs\<rparr>"

definition lc_acquire :: "u64 \<Rightarrow> yfs_client \<Rightarrow> yfs_client" where
  "lc_acquire lid y = y\<lparr>y_held := List.insert lid (y_held y)\<rparr>"

definition lc_release :: "u64 \<Rightarrow> yfs_client \<Rightarrow> yfs_client" where
  "lc_release lid y = y\<lparr>y_held := removeAll lid (y_held y)\<rparr>"

definition dorelease :: "xenv \<Rightarrow> u64 \<Rightarrow> yfs_client \<Rightarrow> yfs_client option" where
  "dorelease E fid y = map_option (\<lambda>cs. y_with cs y) (ec_flush E fid (y_cs y))"

text \<open>\<open>junk\<close>: the variable the extraction leaves unset.\<close>

definition n2i :: "u64 \<Rightarrow> string \<Rightarrow> u64" where
  "n2i junk n =
     (let t = dropWhile isspace n; signed = t \<noteq> [] \<and> (hd t = CHR ''-'' \<or> hd t = CHR ''+'');
          ds = takeWhile isdigit (if signed then tl t else t)
      in if ds = [] \<or> digits_val ds \<ge> 2 ^ 64 then junk
         else if signed \<and> hd t = CHR ''-'' then - word_of_nat (digits_val ds) else word_of_nat (digits_val ds))"

definition filename :: "u64 \<Rightarrow> string" where
  "filename inum = show_nat (unat inum)"

definition y_isfile :: "u64 \<Rightarrow> bool" where
  "y_isfile inum \<longleftrightarrow> inum AND 0x80000000 \<noteq> 0"

definition y_isdir :: "u64 \<Rightarrow> bool" where
  "y_isdir inum \<longleftrightarrow> \<not> y_isfile inum"

text \<open>\<open>fin\<close> and \<open>din\<close> are set only when the attributes could be read.\<close>

definition getfile :: "xenv \<Rightarrow> u64 \<Rightarrow> yfs_client \<Rightarrow> xstatus \<times> fileinfo option \<times> yfs_client" where
  "getfile E inum y =
     (let y = lc_acquire inum y; (r, a, c) = ec_getAttr E inum (y_ec y) (y_es y); y = y\<lparr>y_ec := c\<rparr>
      in (r, if r = XOK then Some \<lparr>fi_size = ucast (size_of a), fi_atime = atime a, fi_mtime = mtime a, fi_ctime = ctime a\<rparr> else None,
          lc_release inum y))"

definition getdir :: "xenv \<Rightarrow> u64 \<Rightarrow> yfs_client \<Rightarrow> xstatus \<times> dirinfo option \<times> yfs_client" where
  "getdir E inum y =
     (let y = lc_acquire inum y; (r, a, c) = ec_getAttr E inum (y_ec y) (y_es y); y = y\<lparr>y_ec := c\<rparr>
      in (r, if r = XOK then Some \<lparr>di_atime = atime a, di_mtime = mtime a, di_ctime = ctime a\<rparr> else None, lc_release inum y))"

text \<open>\<open>readdir\<close> reports \<open>OK\<close> whatever happens; the list of entries comes in the order of the names.\<close>

definition yfs_readdir :: "u64 \<Rightarrow> yfs_client \<Rightarrow> xstatus \<times> (string \<times> u64) list \<times> yfs_client" where
  "yfs_readdir fid y =
     (let y = lc_acquire fid y; (r, entries_m, cs) = ec_readdir fid (y_cs y); y = y_with cs y
      in (XOK, if r \<noteq> XOK then [] else entries_m, lc_release fid y))"

fun find_entry :: "string \<Rightarrow> (string \<times> u64) list \<Rightarrow> u64" where
  "find_entry name [] = 0"
| "find_entry name ((n, i) # es) = (if n = name then i else find_entry name es)"

definition ilookup :: "u64 \<Rightarrow> string \<Rightarrow> yfs_client \<Rightarrow> u64 \<times> yfs_client" where
  "ilookup parent name y = (let (r, entries, y) = yfs_readdir parent y in (find_entry name entries, y))"

definition yfs_createFile :: "xenv \<Rightarrow> u64 \<Rightarrow> string \<Rightarrow> u32 \<Rightarrow> yfs_client \<Rightarrow> (xstatus \<times> u64 \<times> yfs_client) option" where
  "yfs_createFile E parent name mode y =
     (let y = lc_acquire parent y in
      do { (r, cs) \<leftarrow> ec_createFile E parent name mode (y_cs y);
           let y = lc_release parent (y_with cs y) in
           if r \<noteq> XOK then Some (r, xe_id E, y)
           else let (fid, y) = ilookup parent name y in Some (r, fid, y) })"

definition yfs_setattr :: "xenv \<Rightarrow> u64 \<Rightarrow> u64 \<Rightarrow> yfs_client \<Rightarrow> (xstatus \<times> yfs_client) option" where
  "yfs_setattr E fid sz y =
     (let a = \<lparr>atime = 0, mtime = 0, ctime = 0, size_of = ucast sz\<rparr>; y = lc_acquire fid y in
      do { (r, cs) \<leftarrow> ec_setAttr E fid a (y_cs y); Some (r, lc_release fid (y_with cs y)) })"

definition yfs_read :: "xenv \<Rightarrow> u64 \<Rightarrow> int \<Rightarrow> u32 \<Rightarrow> yfs_client \<Rightarrow> (xstatus \<times> string \<times> yfs_client) option" where
  "yfs_read E fid off sz y =
     (let y = lc_acquire fid y in
      do { (r, buf, cs) \<leftarrow> ec_read E fid off sz (y_cs y); Some (r, buf, lc_release fid (y_with cs y)) })"

text \<open>The middle of \<open>unlink\<close>: the results of \<open>getAttr\<close> and \<open>setAttr\<close> on the parent are ignored.\<close>

definition unlink_locked :: "xenv \<Rightarrow> u64 \<Rightarrow> string \<Rightarrow> yfs_client \<Rightarrow> (xstatus \<times> yfs_client) option" where
  "unlink_locked E parent name y =
     (let (ret, cs) = ec_remove E parent name (y_cs y); y = y_with cs y;
          (r, a, c) = ec_getAttr E parent (y_ec y) (y_es y); y = y\<lparr>y_ec := c\<rparr>;
          a = a\<lparr>atime := xe_now E 3, mtime := xe_now E 4\<rparr>
      in do { (r, cs) \<leftarrow> ec_setAttr (E\<lparr>xe_now := (\<lambda>i. xe_now E (i + 5))\<rparr>) parent a (y_cs y); Some (ret, y_with cs y) })"

definition yfs_unlink :: "xenv \<Rightarrow> u64 \<Rightarrow> string \<Rightarrow> yfs_client \<Rightarrow> (xstatus \<times> yfs_client) option" where
  "yfs_unlink E parent name y =
     (let (fid, y) = ilookup parent name y in
      do { (ret, y) \<leftarrow> (if fid = 0 then Some (XIOERR, y) else unlink_locked E parent name (lc_acquire fid (lc_acquire parent y)));
           Some (ret, lc_release fid (lc_release parent y)) })"

definition yfs_open :: "xenv \<Rightarrow> u64 \<Rightarrow> yfs_client \<Rightarrow> xstatus \<times> yfs_client" where
  "yfs_open E fid y =
     (let y = lc_acquire fid y; (r, cs) = ec_open E fid (y_cs y) in (r, lc_release fid (y_with cs y)))"

text \<open>\<open>ilookup\<close> in \<open>createDir\<close> gives the parent's lock back already; the mode is not used.\<close>

definition yfs_createDir :: "xenv \<Rightarrow> u64 \<Rightarrow> string \<Rightarrow> yfs_client \<Rightarrow> (xstatus \<times> u64 \<times> yfs_client) option" where
  "yfs_createDir E parent name y =
     (let y = lc_acquire parent y in
      do { (r, cs) \<leftarrow> ec_createDir E parent name (y_cs y);
           let y = y_with cs y in
           if r \<noteq> XOK then Some (r, xe_id E, lc_release parent y)
           else let (fid, y) = ilookup parent name y in Some (r, fid, lc_release parent y) })"

definition yfs_write :: "xenv \<Rightarrow> u64 \<Rightarrow> int \<Rightarrow> u32 \<Rightarrow> string \<Rightarrow> yfs_client \<Rightarrow> (xstatus \<times> yfs_client) option" where
  "yfs_write E fid off sz buf y =
     (let y = lc_acquire fid y in
      do { (r, cs) \<leftarrow> ec_write E fid off sz buf (y_cs y); Some (r, lc_release fid (y_with cs y)) })"

subsection \<open>Creating, finding and removing files\<close>

lemma y_with_simps [simp]:
  "y_ec (y_with cs y) = fst cs" "y_es (y_with cs y) = snd cs" "y_held (y_with cs y) = y_held y"
  by (simp_all add: y_with_def)

lemma lc_simps [simp]:
  "y_ec (lc_acquire l y) = y_ec y" "y_es (lc_acquire l y) = y_es y" "y_held (lc_acquire l y) = List.insert l (y_held y)"
  "y_ec (lc_release l y) = y_ec y" "y_es (lc_release l y) = y_es y" "y_held (lc_release l y) = removeAll l (y_held y)"
  by (simp_all add: lc_acquire_def lc_release_def)

lemma find_entry_mfind: "find_entry n es = mget 0 es n"
  by (induction es) (auto simp: mget_def mfind_def)

lemma ilookup_lemma:
  assumes "es_inv (y_es y)" "mcount (fileid_name_m (y_es y)) d"
  shows "fst (ilookup d n y) = mget 0 (mget [] (dirid_fmap_m (y_es y)) d) n" "es_inv (y_es (snd (ilookup d n y)))"
    "y_ec (snd (ilookup d n y)) = y_ec y" "y_held (snd (ilookup d n y)) = removeAll d (y_held y)"
    "y_es (snd (ilookup d n y)) = (y_es y)\<lparr>dirid_fmap_m := mindex [] d (dirid_fmap_m (y_es y))\<rparr>"
proof -
  obtain ents s1 where r: "es_readdir d (y_es y) = (XOK, ents, s1)" using assms(2) by (simp add: es_readdir_def Let_def)
  have s1: "s1 = (y_es y)\<lparr>dirid_fmap_m := mindex [] d (dirid_fmap_m (y_es y))\<rparr>"
    using r assms(2) by (auto simp: es_readdir_def Let_def)
  have i: "ilookup d n y = (mget 0 ents n, lc_release d (y_with (y_ec y, s1) (lc_acquire d y)))"
    using r by (simp add: ilookup_def yfs_readdir_def ec_readdir_def find_entry_mfind)
  have "mget 0 ents n = mget 0 (mget [] (dirid_fmap_m (y_es y)) d) n"
    using readdir_entries(1) [OF assms(1) r, of n] by (simp add: mget_def [of 0])
  then show "fst (ilookup d n y) = mget 0 (mget [] (dirid_fmap_m (y_es y)) d) n" using i by simp
  show "es_inv (y_es (snd (ilookup d n y)))" using i readdir_entries(3) [OF assms(1) r] by simp
  show "y_ec (snd (ilookup d n y)) = y_ec y" "y_held (snd (ilookup d n y)) = removeAll d (y_held y)"
    "y_es (snd (ilookup d n y)) = (y_es y)\<lparr>dirid_fmap_m := mindex [] d (dirid_fmap_m (y_es y))\<rparr>"
    using i s1 by (simp_all add: List.insert_def)
qed

lemma createFile_lemma:
  assumes "es_inv s" "random_num rnd = Some num" "i = file_id num" "\<not> mcount (fileid_name_m s) i" "mcount (fileid_name_m s) p"
  shows "\<exists>s'. es_createFile rnd now junk p n m s = Some (XOK, i, s') \<and> es_inv s'
    \<and> mget [] (dirid_fmap_m s') = (mget [] (dirid_fmap_m s))(p := mput n i (mget [] (dirid_fmap_m s) p))
    \<and> mcount (fileid_name_m s') p \<and> mfind (fileid_content_m s') = (mfind (fileid_content_m s))(i \<mapsto> []) \<and> mcount (fileid_attr_m s') i"
proof -
  obtain s' where s': "es_createFile rnd now junk p n m s = Some (XOK, i, s')"
      "mget [] (dirid_fmap_m s') = (mget [] (dirid_fmap_m s))(p := mput n i (mget [] (dirid_fmap_m s) p))"
      "mcount (fileid_name_m s') p" "mfind (fileid_content_m s') = (mfind (fileid_content_m s))(i \<mapsto> [])" "mcount (fileid_attr_m s') i"
    using assms(2,3,5) by (auto simp: es_createFile_def es_put_def Let_def mget_mput_fun mcount_mput)
  moreover have "es_inv s'" using assms(1) s'(1) by (rule createFile_inv) (use assms(2-4) in simp)
  ultimately show ?thesis by blast
qed

text \<open>
  A created file is found and is empty.  If the random id of the new file is not in use, \<open>createFile\<close> in an existing directory
  succeeds, returns the new id and leaves no lock held; looking the name up in the directory afterwards finds that id, every other
  name is found as before, and reading the file gives no bytes.
\<close>

lemma created_file_found:
  assumes "es_inv (y_es y)" "random_num (xe_rnd E) = Some num" "i = file_id num" "\<not> mcount (fileid_name_m (y_es y)) i"
    and "mcount (fileid_name_m (y_es y)) d" "\<not> cached (y_ec y) i" "y_held y = []"
  shows "\<exists>y'. yfs_createFile E d n m y = Some (XOK, i, y') \<and> y_held y' = [] \<and> fst (ilookup d n y') = i
    \<and> (\<forall>n'. n' \<noteq> n \<longrightarrow> fst (ilookup d n' y') = fst (ilookup d n' y)) \<and> (\<exists>y''. yfs_read E' i 0 sz y' = Some (XOK, [], y''))"
proof -
  obtain s1 where s1: "es_createFile (xe_rnd E) (xe_now E 0) (xe_id E) d n m (y_es y) = Some (XOK, i, s1)" "es_inv s1"
      "mget [] (dirid_fmap_m s1) = (mget [] (dirid_fmap_m (y_es y)))(d := mput n i (mget [] (dirid_fmap_m (y_es y)) d))"
      "mcount (fileid_name_m s1) d" "mcount (fileid_attr_m s1) i"
    using createFile_lemma [OF assms(1-5)] by blast
  obtain a where a: "es_getattr (xe_attr E) i s1 = (XOK, a)" using s1(5) by (simp add: es_getattr_def)
  define c1 y1 where "c1 = cache_file i [] a m (y_ec y)" and "y1 = lc_release d (y_with (c1, s1) (lc_acquire d y))"
  have c: "ec_createFile E d n m (y_ec y, y_es y) = Some (XOK, c1, s1)"
    using s1(1) a assms(6) by (simp add: ec_createFile_def ec_getAttr_def c1_def)
  have y1: "y_ec y1 = c1" "y_es y1 = s1" "y_held y1 = []" using assms(7) by (simp_all add: y1_def)
  note l1 = ilookup_lemma [of y1 d n, unfolded y1, OF s1(2,4)]
  define y2 where "y2 = snd (ilookup d n y1)"
  have f: "fst (ilookup d n y1) = i" using l1(1) by (simp add: s1(3) mget_def [of 0])
  have cr: "yfs_createFile E d n m y = Some (XOK, i, y2)"
    using c f by (simp add: yfs_createFile_def y1_def [symmetric] y2_def split_beta prod_eq_iff)
  have y2: "es_inv (y_es y2)" "mcount (fileid_name_m (y_es y2)) d" "y_held y2 = []" "y_ec y2 = c1"
      "mget [] (dirid_fmap_m (y_es y2)) = mget [] (dirid_fmap_m s1)"
    using l1 s1(4) by (simp_all add: y2_def y1)
  have "fst (ilookup d n' y2) = (if n' = n then i else fst (ilookup d n' y))" for n'
    using ilookup_lemma(1) [OF y2(1,2), of n'] ilookup_lemma(1) [OF assms(1,5), of n'] by (simp add: y2(5) s1(3) mget_def [of 0])
  moreover have "\<exists>y''. yfs_read E' i 0 sz y2 = Some (XOK, [], y'')"
    by (simp add: yfs_read_def ec_read_def y2(4) c1_def cache_file_def cached_def mcount_def mget_def str_substr_def)
  ultimately show ?thesis using cr y2(3) by auto
qed

definition demo_yfs :: yfs_client where
  "demo_yfs = \<lparr>y_ec = ec_new, y_es = es_new 1, y_held = []\<rparr>"

lemma demo_yfs_simps: "y_ec demo_yfs = ec_new" "y_es demo_yfs = es_new 1" "y_held demo_yfs = []" "es_inv (es_new 1)"
    "mcount (fileid_name_m (es_new 1)) 1" "\<not> mcount (fileid_name_m (es_new 1)) 0x80000005" "\<not> cached ec_new i"
    "random_num (xe_rnd demo_env) = Some 5" "file_id 5 = 0x80000005"
  by (simp_all add: demo_yfs_def reach_inv start demo_env_def) (simp_all add: es_new_def mcount_def mfind_def file_id_def cached_def ec_new_def)

subsection \<open>What goes wrong\<close>

lemma setAttr_empty:
  assumes "mcount (fileid_attr_m s) d" "size_of a = 0"
  shows "\<exists>s'. es_setAttr now d a s = Some (XOK, s') \<and> (\<forall>j. j \<noteq> d \<longrightarrow> mfind (fileid_content_m s') j = mfind (fileid_content_m s) j)
    \<and> dirid_fmap_m s' = dirid_fmap_m s \<and> fileid_name_m s' = fileid_name_m s"
  using assms by (simp add: es_setAttr_def Let_def str_resize_def es_put_def mfind_mindex)

lemma remove_file:
  assumes "es_inv s" "mfind (mget [] (dirid_fmap_m s) d) n = Some i" "es_isfile i" "\<not> es_isfile d"
    and "mcount (fileid_name_m s) d" "mfind (fileid_attr_m s) d = Some a"
  shows "\<exists>s' a'. es_remove now d n s = (XOK, s') \<and> es_inv s' \<and> mfind (fileid_content_m s') i = None
    \<and> mfind (mget [] (dirid_fmap_m s') d) n = None \<and> mcount (fileid_name_m s') d \<and> mfind (fileid_attr_m s') d = Some a' \<and> size_of a' = size_of a"
proof -
  have at: "mfind (fileid_dir_m s) i = Some d" "mfind (fileid_name_m s) i = Some n"
    using assms(1,2) by (auto simp: es_inv_def entries_ok_def)
  have ne: "d \<noteq> i" using assms(3,4) by auto
  have c: "mcount (dirid_fmap_m s) d" using assms(2) by (auto simp: mget_def mcount_def split: option.splits)
  have r: "es_remove now d n s = (XOK, es_erase now d i s)"
    using assms(2,3) c by (simp add: es_remove_def Let_def es_isdir_def mcount_def mget_def [of 0])
  have "mfind (fileid_content_m (es_erase now d i s)) i = None" "mfind (mget [] (dirid_fmap_m (es_erase now d i s)) d) n = None"
      "mcount (fileid_name_m (es_erase now d i s)) d"
      "mfind (fileid_attr_m (es_erase now d i s)) d = Some (a\<lparr>ctime := now 0, atime := now 1, mtime := now 2\<rparr>)"
    using assms(3,5,6) at ne by (simp_all add: es_erase_def Let_def es_isdir_def mget_mput mcount_merase) (simp_all add: mget_def)
  then show ?thesis using r remove_inv [OF assms(1), of now d n] by auto
qed

text \<open>
  C39. Removing a modified file kills the client.  Suppose the client has unflushed changes to a file and unlinks it: the unlink succeeds and the
  name is gone, but \<open>extent_client::remove\<close> marks the directory's cache entry instead of the file's, so that the file's entry stays.  When
  another client asks for the file's lock, \<open>dorelease\<close> flushes the entry, the server answers \<open>NOENT\<close>, and the assertion in \<open>flush\<close>
  fails.
\<close>

theorem unlink_modified_kills_client:
  assumes "es_inv (y_es y)" "mfind (mget [] (dirid_fmap_m (y_es y)) d) n = Some i" "es_isfile i" "\<not> es_isfile d"
    and "mcount (fileid_name_m (y_es y)) d" "mfind (fileid_attr_m (y_es y)) d = Some a" "size_of a = 0"
    and "\<not> cached (y_ec y) d" "mfind (cache_status (y_ec y)) i = Some MODIFIED"
  shows "\<exists>y'. yfs_unlink E d n y = Some (XOK, y') \<and> fst (ilookup d n y') = 0 \<and> dorelease E' i y' = None"
proof -
  define y1 where "y1 = snd (ilookup d n y)"
  note l = ilookup_lemma [OF assms(1,5), of n, folded y1_def]
  have i: "ilookup d n y = (i, y1)" using l(1) assms(2) by (simp add: y1_def mget_def [of 0] prod_eq_iff)
  have i0: "i \<noteq> 0" using assms(3) by (auto simp: es_isfile_def)
  obtain s2 a2 where s2: "es_remove (xe_now E) d n (y_es y1) = (XOK, s2)" "es_inv s2" "mfind (fileid_content_m s2) i = None"
      "mfind (mget [] (dirid_fmap_m s2) d) n = None" "mcount (fileid_name_m s2) d" "mfind (fileid_attr_m s2) d = Some a2" "size_of a2 = 0"
    using remove_file [OF l(2), of d n i a "xe_now E"] assms(2-7) l(5) by auto
  define a3 where "a3 = a2\<lparr>atime := xe_now E 3, mtime := xe_now E 4\<rparr>"
  obtain s3 where s3: "es_setAttr (xe_now E 5) d a3 s2 = Some (XOK, s3)" "\<forall>j. j \<noteq> d \<longrightarrow> mfind (fileid_content_m s3) j = mfind (fileid_content_m s2) j"
      "dirid_fmap_m s3 = dirid_fmap_m s2" "fileid_name_m s3 = fileid_name_m s2"
    using setAttr_empty [of s2 d a3 "xe_now E 5"] s2(6,7) by (auto simp: a3_def mcount_def)
  have inv3: "es_inv s3" using s2(2) s3(1) by (rule setAttr_inv)
  define y3 where "y3 = lc_release i (lc_release d (y_with (y_ec y, s3) (lc_acquire i (lc_acquire d y1))))"
  have "unlink_locked E d n (lc_acquire i (lc_acquire d y1)) = Some (XOK, y_with (y_ec y, s3) (lc_acquire i (lc_acquire d y1)))"
    using assms(8) l(3) s2(1,6) s3(1)
    by (simp add: unlink_locked_def ec_remove_def ec_getAttr_def ec_setAttr_def es_getattr_def mcount_def mget_def a3_def y_with_def)
  then have u: "yfs_unlink E d n y = Some (XOK, y3)" using i i0 by (simp add: yfs_unlink_def y3_def)
  have y3: "y_ec y3 = y_ec y" "y_es y3 = s3" by (simp_all add: y3_def)
  have "fst (ilookup d n y3) = 0"
    using ilookup_lemma(1) [of y3 d n, unfolded y3] inv3 s2(4,5) s3(3,4) by (simp add: mget_def [of 0])
  moreover have "mfind (fileid_content_m s3) i = None" using s3(2) s2(3) assms(3,4) by force
  then have "dorelease E' i y3 = None"
    using assms(9) by (simp add: dorelease_def y3 ec_flush_def cached_def mcount_def ec_writeback_def es_write_def)
  ultimately show ?thesis using u by blast
qed

definition demo_dirty :: yfs_client where
  "demo_dirty = \<lparr>y_ec = \<lparr>cache_content = [(0x80000005, ''x'')], cache_attr = [(0x80000005, attr_at 9 1)], cache_mode = [(0x80000005, 0)],
       cache_status = [(0x80000005, MODIFIED)]\<rparr>,
     y_es = \<lparr>fileid_open_m = [(0x80000005, 0)], fileid_content_m = [(0x80000005, [])], fileid_name_m = [(1, ''/''), (0x80000005, ''f'')],
       fileid_dir_m = [(0x80000005, 1)], fileid_attr_m = [(1, attr_at 9 0), (0x80000005, attr_at 9 0)],
       dirid_fmap_m = [(1, [(''f'', 0x80000005)])], fileid_mode_m = [(0x80000005, 0)]\<rparr>,
     y_held = []\<rparr>"

lemma demo_dirty_run:
  "yfs_createFile demo_env 1 ''f'' 0 demo_yfs \<bind> (\<lambda>(r, i, y). yfs_write demo_env i 0 1 ''x'' y) = Some (XOK, demo_dirty)"
  by (simp add: yfs_createFile_def ec_createFile_def es_createFile_def es_put_def demo_env_def demo_yfs_def es_new_def ec_new_def file_id_def
      mcount_def mfind_def mget_def attr_at_def attr0_def ec_getAttr_def es_getattr_def cached_def cache_file_def y_with_def lc_acquire_def lc_release_def
      ilookup_def yfs_readdir_def ec_readdir_def es_readdir_def mindex_def yfs_write_def ec_write_def str_resize_def str_replace_def max_str_def
      Let_def demo_dirty_def)

lemma demo_dirty_inv: "es_inv (y_es demo_dirty)"
  by (auto simp: es_inv_defs demo_dirty_def mfind_def mget_def mcount_def attr_at_def sm_ok_def max_str_def es_isfile_def split: if_splits)

theorem unlink_modified_kills_client_witness:
  "\<exists>y y'. yfs_createFile demo_env 1 ''f'' 0 demo_yfs \<bind> (\<lambda>(r, i, y). yfs_write demo_env i 0 1 ''x'' y) = Some (XOK, y)
     \<and> yfs_unlink demo_env 1 ''f'' y = Some (XOK, y') \<and> dorelease demo_env 0x80000005 y' = None"
  using unlink_modified_kills_client [OF demo_dirty_inv, of 1 "''f''" "0x80000005" "attr_at 9 0" demo_env demo_env] demo_dirty_run
  by (auto simp: demo_dirty_def mfind_def mget_def mcount_def attr_at_def es_isfile_def cached_def)

text \<open>
  Truncating a cached file is undone by the next write.  \<open>setattr\<close> on a cached file changes only the cached size.  If a file with the
  content \<open>b\<close> is truncated to no bytes and a shorter block is written at its start, the file written back when the lock is given up is the
  block followed by the rest of the old content.
\<close>

lemma truncate_lost_by_write:
  assumes "srv_inv (y_es y)" "entry_ok (y_es y) (y_ec y) i" "mfind (cache_content (y_ec y)) i = Some b" "length buf = unat n" "length buf \<le> length b"
  shows "\<exists>y1 y2 y3. yfs_setattr E i 0 y = Some (XOK, y1) \<and> yfs_write E i 0 n buf y1 = Some (XOK, y2) \<and> dorelease E' i y2 = Some y3
    \<and> mfind (fileid_content_m (y_es y3)) i = Some (buf @ drop (length buf) b)"
proof -
  have cd: "cached (y_ec y) i" and len: "length b \<le> max_str" and st: "mfind (cache_status (y_ec y)) i \<noteq> Some REMOVED"
    using assms(2,3) by (auto simp: entry_ok_def cached_def mcount_def)
  define a where "a = \<lparr>atime = 0, mtime = 0, ctime = 0, size_of = 0\<rparr>"
  define c1 where "c1 = (y_ec y)\<lparr>cache_attr := mput i a (cache_attr (y_ec y)), cache_status := mput i MODIFIED (cache_status (y_ec y))\<rparr>"
  define y1 where "y1 = lc_release i (y_with (c1, y_es y) (lc_acquire i y))"
  have 1: "yfs_setattr E i 0 y = Some (XOK, y1)" using cd by (simp add: yfs_setattr_def ec_setAttr_def a_def c1_def y1_def)
  have v: "file_view (y_ec y) (y_es y) i = Some b" using cd assms(3) by (simp add: file_view_def)
  obtain c2 s2 where w: "ec_write E i 0 n buf (y_ec y, y_es y) = Some (XOK, c2, s2)" "srv_inv s2" "cached c2 i" "entry_ok s2 c2 i"
      "file_view c2 s2 i = Some (splice 0 buf b)"
    using ec_write_lemma [OF assms(1) assms(2) v, of 0 n buf E] cd assms(4,5) len by auto
  have "ec_write E i 0 n buf (c1, y_es y) = ec_write E i 0 n buf (y_ec y, y_es y)"
    using cd st by (auto simp: ec_write_def c1_def cached_def mcount_def Let_def)
  then have 2: "yfs_write E i 0 n buf y1 = Some (XOK, lc_release i (y_with (c2, s2) (lc_acquire i y1)))" (is "_ = Some (XOK, ?y2)")
    using w(1) by (simp add: yfs_write_def y1_def)
  have e: "splice 0 buf b = buf @ drop (length buf) b" by (simp add: splice_def)
  obtain c3 s3 where f: "ec_flush E' i (c2, s2) = Some (c3, s3)" "\<not> cached c3 i" "file_view c3 s3 i = file_view c2 s2 i"
    using flush_lemma [OF w(2,4), of E'] by blast
  have 3: "dorelease E' i ?y2 = Some (y_with (c3, s3) ?y2)" using f(1) by (simp add: dorelease_def)
  have "mfind (fileid_content_m s3) i = Some (buf @ drop (length buf) b)" using f(2,3) w(5) e by (simp add: file_view_def)
  then show ?thesis using 1 2 3 by auto
qed

end
