(* ===== verification/Fuse.thy ===== *)
theory Fuse
  imports YfsClient
begin

text \<open>
  The request handlers of \<open>fuse.cc\<close> on top of the file system client.  The FUSE library is outside the repository: a handler's calls of its
  \<open>fuse_reply_\<dots>\<close> functions are the list of replies it returns, and the bytes \<open>fuse_add_dirent\<close> writes for a directory entry are the
  parameter \<open>dent\<close> of \<open>readdir\<close>.  \<open>fuse_ino_t\<close> is 32 bits wide.  The session loop runs one handler at a time; \<open>E i\<close> is what the
  \<open>i\<close>-th operation of a handler finds around it.
\<close>

record fstat =
  st_ino :: u64
  st_mode :: u32
  st_nlink :: u32
  st_atime :: u32
  st_mtime :: u32
  st_ctime :: u32
  st_size :: u64

datatype fuse_reply = ReplyErr int | ReplyAttr fstat | ReplyBuf string | ReplyWrite u32 | ReplyCreate u32 fstat | ReplyEntry u32 fstat
  | ReplyOpen u32 | ReplyStatfs nat nat

definition ENOENT :: int where "ENOENT = 2"
definition EIO :: int where "EIO = 5"
definition ENOTDIR :: int where "ENOTDIR = 20"
definition ENOSYS :: int where "ENOSYS = 38"

definition S_IFREG :: u32 where "S_IFREG = 0x8000"
definition S_IFDIR :: u32 where "S_IFDIR = 0x4000"

definition stat0 :: "u64 \<Rightarrow> fstat" where
  "stat0 inum = \<lparr>st_ino = inum, st_mode = 0, st_nlink = 0, st_atime = 0, st_mtime = 0, st_ctime = 0, st_size = 0\<rparr>"

definition fuse_getattr :: "xenv \<Rightarrow> u64 \<Rightarrow> yfs_client \<Rightarrow> xstatus \<times> fstat \<times> yfs_client" where
  "fuse_getattr E inum y =
     (let st = stat0 inum in
      if y_isfile inum
      then case getfile E inum y of
             (r, Some info, y) \<Rightarrow> (r, st\<lparr>st_mode := S_IFREG OR 0x1B6, st_nlink := 1, st_atime := fi_atime info, st_mtime := fi_mtime info,
                                       st_ctime := fi_ctime info, st_size := fi_size info\<rparr>, y)
           | (r, None, y) \<Rightarrow> (r, st, y)
      else case getdir E inum y of
             (r, Some info, y) \<Rightarrow> (r, st\<lparr>st_mode := S_IFDIR OR 0x1FF, st_nlink := 2, st_atime := di_atime info, st_mtime := di_mtime info,
                                       st_ctime := di_ctime info\<rparr>, y)
           | (r, None, y) \<Rightarrow> (r, st, y))"

definition fuseserver_getattr :: "(nat \<Rightarrow> xenv) \<Rightarrow> u32 \<Rightarrow> yfs_client \<Rightarrow> fuse_reply list \<times> yfs_client" where
  "fuseserver_getattr E ino y =
     (let (r, st, y) = fuse_getattr (E 0) (ucast ino) y in ([if r \<noteq> XOK then ReplyErr ENOENT else ReplyAttr st], y))"

text \<open>\<open>set_size\<close>: the flag \<open>FUSE_SET_ATTR_SIZE\<close> of \<open>to_set\<close>, with \<open>st_size\<close>.\<close>

definition fuseserver_setattr :: "(nat \<Rightarrow> xenv) \<Rightarrow> u32 \<Rightarrow> u64 option \<Rightarrow> yfs_client \<Rightarrow> (fuse_reply list \<times> yfs_client) option" where
  "fuseserver_setattr E ino set_size y =
     do { (r, y) \<leftarrow> (case set_size of None \<Rightarrow> Some (XOK, y) | Some sz \<Rightarrow> yfs_setattr (E 0) (ucast ino) sz y);
          if r \<noteq> XOK then Some ([ReplyErr ENOSYS], y)
          else let (r, st, y) = fuse_getattr (E 1) (ucast ino) y
               in Some ([if r = XOK then ReplyAttr st else ReplyErr ENOSYS], y) }"

text \<open>After the error reply the handler goes on to the second reply.\<close>

definition fuseserver_read :: "(nat \<Rightarrow> xenv) \<Rightarrow> u32 \<Rightarrow> u32 \<Rightarrow> int \<Rightarrow> yfs_client \<Rightarrow> (fuse_reply list \<times> yfs_client) option" where
  "fuseserver_read E ino sz off y =
     do { (r, buf, y) \<leftarrow> yfs_read (E 0) (ucast ino) off sz y;
          Some ((if r \<noteq> XOK then [ReplyErr EIO] else []) @ [ReplyBuf buf], y) }"

definition fuseserver_write :: "(nat \<Rightarrow> xenv) \<Rightarrow> u32 \<Rightarrow> string \<Rightarrow> u32 \<Rightarrow> int \<Rightarrow> yfs_client \<Rightarrow> (fuse_reply list \<times> yfs_client) option" where
  "fuseserver_write E ino buf sz off y =
     do { (r, y) \<leftarrow> yfs_write (E 0) (ucast ino) off sz buf y; Some ([if r = XOK then ReplyWrite sz else ReplyErr ENOSYS], y) }"

definition fuseserver_createhelper :: "(nat \<Rightarrow> xenv) \<Rightarrow> u32 \<Rightarrow> string \<Rightarrow> u32 \<Rightarrow> yfs_client \<Rightarrow> (xstatus \<times> u32 \<times> fstat \<times> yfs_client) option" where
  "fuseserver_createhelper E parent name mode y =
     do { (r, fid, y) \<leftarrow> yfs_createFile (E 0) (ucast parent) name mode y;
          if r \<noteq> XOK then Some (XIOERR, 0, stat0 0, y)
          else let (r, st, y) = fuse_getattr (E 1) fid y in Some (r, ucast fid, st, y) }"

definition fuseserver_create :: "(nat \<Rightarrow> xenv) \<Rightarrow> u32 \<Rightarrow> string \<Rightarrow> u32 \<Rightarrow> yfs_client \<Rightarrow> (fuse_reply list \<times> yfs_client) option" where
  "fuseserver_create E parent name mode y =
     do { (r, ino, st, y) \<leftarrow> fuseserver_createhelper E parent name mode y;
          Some ([if r = XOK then ReplyCreate ino st else ReplyErr EIO], y) }"

definition fuseserver_mknod :: "(nat \<Rightarrow> xenv) \<Rightarrow> u32 \<Rightarrow> string \<Rightarrow> u32 \<Rightarrow> yfs_client \<Rightarrow> (fuse_reply list \<times> yfs_client) option" where
  "fuseserver_mknod E parent name mode y =
     do { (r, ino, st, y) \<leftarrow> fuseserver_createhelper E parent name mode y;
          Some ([if r = XOK then ReplyEntry ino st else ReplyErr ENOENT], y) }"

definition fuseserver_lookup :: "(nat \<Rightarrow> xenv) \<Rightarrow> u32 \<Rightarrow> string \<Rightarrow> yfs_client \<Rightarrow> fuse_reply list \<times> yfs_client" where
  "fuseserver_lookup E parent name y =
     (let (fid, y) = ilookup (ucast parent) name y; ino = (ucast fid :: u32) in
      if ino \<noteq> 0 then let (r, st, y) = fuse_getattr (E 0) (ucast ino) y in ([ReplyEntry ino st], y)
      else ([ReplyErr ENOENT], y))"

definition dirbuf_add :: "(string \<Rightarrow> u64 \<Rightarrow> string) \<Rightarrow> string \<times> u64 \<Rightarrow> string \<Rightarrow> string" where
  "dirbuf_add dent = (\<lambda>(name, ino) b. b @ dent name ino)"

definition reply_buf_limited :: "string \<Rightarrow> int \<Rightarrow> u32 \<Rightarrow> fuse_reply" where
  "reply_buf_limited buf off maxsize =
     (if off < int (length buf) then ReplyBuf (take (nat (min (int (length buf) - off) (uint maxsize))) (drop (nat off) buf)) else ReplyBuf [])"

definition fuseserver_readdir :: "(string \<Rightarrow> u64 \<Rightarrow> string) \<Rightarrow> u32 \<Rightarrow> u32 \<Rightarrow> int \<Rightarrow> yfs_client \<Rightarrow> fuse_reply list \<times> yfs_client" where
  "fuseserver_readdir dent ino sz off y =
     (if \<not> y_isdir (ucast ino) then ([ReplyErr ENOTDIR], y)
      else let (r, entries, y) = yfs_readdir (ucast ino) y
           in ([reply_buf_limited (fold (dirbuf_add dent) entries []) off sz], y))"

definition fuseserver_open :: "(nat \<Rightarrow> xenv) \<Rightarrow> u32 \<Rightarrow> yfs_client \<Rightarrow> fuse_reply list \<times> yfs_client" where
  "fuseserver_open E ino y = (let (r, y) = yfs_open (E 0) (ucast ino) y in ([if r = XOK then ReplyOpen ino else ReplyErr ENOENT], y))"

definition fuseserver_mkdir :: "(nat \<Rightarrow> xenv) \<Rightarrow> u32 \<Rightarrow> string \<Rightarrow> yfs_client \<Rightarrow> (fuse_reply list \<times> yfs_client) option" where
  "fuseserver_mkdir E parent name y =
     do { (r, fid, y) \<leftarrow> yfs_createDir (E 0) (ucast parent) name y;
          if r = XOK
          then let (r, st, y) = fuse_getattr (E 1) fid y in Some ([if r = XOK then ReplyEntry (ucast fid) st else ReplyErr ENOSYS], y)
          else Some ([ReplyErr ENOSYS], y) }"

text \<open>The status \<open>NOENT\<close> of \<open>yfs_client\<close> is sent as an error number; both are 2.\<close>

definition fuseserver_unlink :: "(nat \<Rightarrow> xenv) \<Rightarrow> u32 \<Rightarrow> string \<Rightarrow> yfs_client \<Rightarrow> (fuse_reply list \<times> yfs_client) option" where
  "fuseserver_unlink E parent name y =
     do { (r, y) \<leftarrow> yfs_unlink (E 0) (ucast parent) name y;
          Some ([ReplyErr (if r = XOK then 0 else if r = XNOENT then 2 else EIO)], y) }"

definition fuseserver_statfs :: "yfs_client \<Rightarrow> fuse_reply list \<times> yfs_client" where
  "fuseserver_statfs y = ([ReplyStatfs 255 512], y)"

subsection \<open>The operations table\<close>

datatype fuse_req = FGetattr u32 | FSetattr u32 "u64 option" | FReadReq u32 u32 int | FWriteReq u32 string u32 int | FCreate u32 string u32
  | FMknod u32 string u32 | FLookup u32 string | FReaddir u32 u32 int | FOpen u32 | FMkdir u32 string | FUnlink u32 string | FStatfs

fun fuse_handle :: "(string \<Rightarrow> u64 \<Rightarrow> string) \<Rightarrow> (nat \<Rightarrow> xenv) \<Rightarrow> fuse_req \<Rightarrow> yfs_client \<Rightarrow> (fuse_reply list \<times> yfs_client) option" where
  "fuse_handle dent E (FGetattr i) y = Some (fuseserver_getattr E i y)"
| "fuse_handle dent E (FSetattr i sz) y = fuseserver_setattr E i sz y"
| "fuse_handle dent E (FReadReq i n off) y = fuseserver_read E i n off y"
| "fuse_handle dent E (FWriteReq i b n off) y = fuseserver_write E i b n off y"
| "fuse_handle dent E (FCreate d n m) y = fuseserver_create E d n m y"
| "fuse_handle dent E (FMknod d n m) y = fuseserver_mknod E d n m y"
| "fuse_handle dent E (FLookup d n) y = Some (fuseserver_lookup E d n y)"
| "fuse_handle dent E (FReaddir d n off) y = Some (fuseserver_readdir dent d n off y)"
| "fuse_handle dent E (FOpen i) y = Some (fuseserver_open E i y)"
| "fuse_handle dent E (FMkdir d n) y = fuseserver_mkdir E d n y"
| "fuse_handle dent E (FUnlink d n) y = fuseserver_unlink E d n y"
| "fuse_handle dent E FStatfs y = Some (fuseserver_statfs y)"

subsection \<open>Replies and locks\<close>

lemma getattr_held: "y_held y = [] \<Longrightarrow> fuse_getattr E i y = (r, st, y') \<Longrightarrow> y_held y' = []"
  by (auto simp: fuse_getattr_def getfile_def getdir_def Let_def split: prod.splits if_splits option.splits)

lemma readdir_held: "yfs_readdir d y = (r, es, y') \<Longrightarrow> y_held y' = removeAll d (List.insert d (y_held y))"
  by (auto simp: yfs_readdir_def Let_def split: prod.splits)

lemma ilookup_held: "ilookup d n y = (i, y') \<Longrightarrow> y_held y' = removeAll d (List.insert d (y_held y))"
  by (auto simp: ilookup_def dest: readdir_held split: prod.splits)

lemma unlink_locked_held: "unlink_locked E d n y = Some (r, y') \<Longrightarrow> y_held y' = y_held y"
  by (auto simp: unlink_locked_def Let_def split: prod.splits bind_splits)

lemma create_held:
  assumes "y_held y = []"
  shows "yfs_createFile E d n m y = Some (r, i, y') \<Longrightarrow> y_held y' = []" "yfs_createDir E d n y = Some (r, i, y') \<Longrightarrow> y_held y' = []"
  using assms
  by (auto simp: yfs_createFile_def yfs_createDir_def Let_def dest!: ilookup_held split: prod.splits bind_splits if_splits)

lemma unlink_held: "y_held y = [] \<Longrightarrow> yfs_unlink E d n y = Some (r, y') \<Longrightarrow> y_held y' = []"
  by (auto simp: yfs_unlink_def Let_def List.insert_def dest!: ilookup_held unlink_locked_held split: prod.splits bind_splits if_splits)

lemma rw_held:
  assumes "y_held y = []"
  shows "yfs_read E i off n y = Some (r, b, y') \<Longrightarrow> y_held y' = []" "yfs_write E i off n buf y = Some (r, y') \<Longrightarrow> y_held y' = []"
    "yfs_setattr E i sz y = Some (r, y') \<Longrightarrow> y_held y' = []" "yfs_open E i y = (r, y') \<Longrightarrow> y_held y' = []"
  using assms by (auto simp: yfs_read_def yfs_write_def yfs_setattr_def yfs_open_def Let_def split: prod.splits bind_splits)

lemmas held_intros = getattr_held readdir_held ilookup_held create_held unlink_held rw_held

lemma createhelper_held: "y_held y = [] \<Longrightarrow> fuseserver_createhelper E d n m y = Some (r, i, st, y') \<Longrightarrow> y_held y' = []"
  by (auto simp: fuseserver_createhelper_def split: bind_splits if_splits prod.splits dest: create_held(1) intro: getattr_held)



text \<open>
  What is written through the file system is read back.  For a file the client sees, cached or not, a write request within the size limit is
  answered with the number of bytes, and a read request for the same range afterwards with exactly the bytes written.
\<close>

lemma fuse_write_then_read:
  assumes "srv_inv (y_es y)" "cached (y_ec y) (ucast ino) \<longrightarrow> entry_ok (y_es y) (y_ec y) (ucast ino)"
    and "file_view (y_ec y) (y_es y) (ucast ino) = Some b" "0 \<le> off" "nat off + unat n \<le> max_str" "length buf = unat n"
  shows "\<exists>y1 y2. fuse_handle dent E (FWriteReq ino buf n off) y = Some ([ReplyWrite n], y1)
    \<and> fuse_handle dent E' (FReadReq ino n off) y1 = Some ([ReplyBuf buf], y2)"
proof -
  let ?i = "ucast ino :: u64" and ?b = "splice (nat off) buf b"
  obtain c1 s1 where w: "ec_write (E 0) ?i off n buf (y_ec y, y_es y) = Some (XOK, c1, s1)" "srv_inv s1" "cached c1 ?i \<longrightarrow> entry_ok s1 c1 ?i"
      "file_view c1 s1 ?i = Some ?b"
    using ec_write_lemma [OF assms(1) _ assms(3-6), of "E 0"] assms(2) by blast
  define y1 where "y1 = lc_release ?i (y_with (c1, s1) (lc_acquire ?i y))"
  have 1: "fuse_handle dent E (FWriteReq ino buf n off) y = Some ([ReplyWrite n], y1)"
    using w(1) by (simp add: fuseserver_write_def yfs_write_def y1_def)
  have "nat off \<le> length ?b" by (simp add: length_splice)
  then obtain c2 s2 where r: "ec_read (E' 0) ?i off n (c1, s1) = Some (XOK, take (unat n) (drop (nat off) ?b), c2, s2)"
    using read_lemma [OF w(2) _ w(4) assms(4), of "E' 0" n] w(3) by blast
  have "take (unat n) (drop (nat off) ?b) = buf" using splice_block [of buf "nat off" b] assms(6) by simp
  then show ?thesis using 1 r by (simp add: fuseserver_read_def yfs_read_def y1_def)
qed

end
