(* ===== verification/FuseDirectory.thy ===== *)
theory FuseDirectory
  imports Fuse
begin

text \<open>
  A mounted directory as its user sees it: the FUSE handlers of one client, with everything below them down to the extent server, behave as a
  table of names with a table of file contents.  Sizes are set only by writing: truncation of a cached file is lost, as
  \<open>truncate_lost_by_write\<close> shows.
\<close>

subsection \<open>The specification\<close>

text \<open>The ids used so far, the entries of the directory and the contents of its files.\<close>

type_synonym dirspec = "u64 set \<times> (string, u64) stdmap \<times> (u64 \<Rightarrow> string option)"

text \<open>Replies without the times in them.\<close>

definition notime :: "fstat \<Rightarrow> fstat" where
  "notime st = st\<lparr>st_atime := 0, st_mtime := 0, st_ctime := 0\<rparr>"

fun timeless :: "fuse_reply \<Rightarrow> fuse_reply" where
  "timeless (ReplyAttr st) = ReplyAttr (notime st)"
| "timeless (ReplyCreate i st) = ReplyCreate i (notime st)"
| "timeless (ReplyEntry i st) = ReplyEntry i (notime st)"
| "timeless r = r"

definition file_stat :: "u64 \<Rightarrow> string \<Rightarrow> fstat" where
  "file_stat i b = (stat0 i)\<lparr>st_mode := S_IFREG OR 0x1B6, st_nlink := 1, st_size := word_of_nat (length b)\<rparr>"

text \<open>A new file: the name is free, the id that is drawn has not been used.\<close>

definition new_file :: "xenv \<Rightarrow> string \<Rightarrow> dirspec \<Rightarrow> (u64 \<times> dirspec) option" where
  "new_file E n = (\<lambda>(U, dir, ct).
     case random_num (xe_rnd E) of
       None \<Rightarrow> None
     | Some r \<Rightarrow> let i = file_id r in
         if mfind dir n \<noteq> None \<or> i \<in> U then None else Some (i, insert i U, mput n i dir, ct(i \<mapsto> [])))"

fun dir_step :: "(string \<Rightarrow> u64 \<Rightarrow> string) \<Rightarrow> u32 \<Rightarrow> (nat \<Rightarrow> xenv) \<times> fuse_req \<Rightarrow> dirspec \<Rightarrow> (fuse_reply list \<times> dirspec) option" where
  "dir_step dent d (E, FLookup p n) (U, dir, ct) =
     (if p \<noteq> d then None
      else case mfind dir n of
             None \<Rightarrow> Some ([ReplyErr ENOENT], U, dir, ct)
           | Some i \<Rightarrow> map_option (\<lambda>b. ([ReplyEntry (ucast i) (file_stat i b)], U, dir, ct)) (ct i))"
| "dir_step dent d (E, FGetattr i) (U, dir, ct) =
     map_option (\<lambda>b. ([ReplyAttr (file_stat (ucast i) b)], U, dir, ct)) (ct (ucast i))"
| "dir_step dent d (E, FSetattr i sz) (U, dir, ct) =
     (if sz \<noteq> None then None else map_option (\<lambda>b. ([ReplyAttr (file_stat (ucast i) b)], U, dir, ct)) (ct (ucast i)))"
| "dir_step dent d (E, FOpen i) (U, dir, ct) = map_option (\<lambda>b. ([ReplyOpen i], U, dir, ct)) (ct (ucast i))"
| "dir_step dent d (E, FReadReq i n off) (U, dir, ct) =
     do { b \<leftarrow> ct (ucast i);
          if 0 \<le> off \<and> nat off \<le> length b then Some ([ReplyBuf (take (unat n) (drop (nat off) b))], U, dir, ct) else None }"
| "dir_step dent d (E, FWriteReq i buf n off) (U, dir, ct) =
     do { b \<leftarrow> ct (ucast i);
          if 0 \<le> off \<and> nat off + unat n \<le> max_str \<and> length buf = unat n
          then Some ([ReplyWrite n], U, dir, ct(ucast i \<mapsto> splice (nat off) buf b)) else None }"
| "dir_step dent d (E, FCreate p n m) t =
     (if p \<noteq> d then None else map_option (\<lambda>(i, t). ([ReplyCreate (ucast i) (file_stat i [])], t)) (new_file (E 0) n t))"
| "dir_step dent d (E, FMknod p n m) t =
     (if p \<noteq> d then None else map_option (\<lambda>(i, t). ([ReplyEntry (ucast i) (file_stat i [])], t)) (new_file (E 0) n t))"
| "dir_step dent d (E, FUnlink p n) (U, dir, ct) =
     (if p \<noteq> d then None
      else case mfind dir n of
             None \<Rightarrow> Some ([ReplyErr EIO], U, dir, ct)
           | Some i \<Rightarrow> Some ([ReplyErr 0], U, merase n dir, ct(i := None)))"
| "dir_step dent d (E, FReaddir p n off) (U, dir, ct) =
     (if p \<noteq> d then None else Some ([reply_buf_limited (fold (dirbuf_add dent) dir []) off n], U, dir, ct))"
| "dir_step dent d (E, FMkdir p n) t = None"
| "dir_step dent d (E, FStatfs) t = Some ([ReplyStatfs 255 512], t)"

definition fuse_step :: "(string \<Rightarrow> u64 \<Rightarrow> string) \<Rightarrow> (nat \<Rightarrow> xenv) \<times> fuse_req \<Rightarrow> yfs_client \<Rightarrow> (fuse_reply list \<times> yfs_client) option" where
  "fuse_step dent = (\<lambda>(E, rq) y. map_option (\<lambda>(rs, y). (map timeless rs, y)) (fuse_handle dent E rq y))"

subsection \<open>The relation\<close>

definition dir_ok :: "u64 \<Rightarrow> yfs_client \<Rightarrow> bool" where
  "dir_ok d y \<longleftrightarrow> y_held y = [] \<and> es_inv (y_es y) \<and> srv_on {i. es_isfile i} (y_es y) \<and> \<not> es_isfile d \<and> mcount (fileid_name_m (y_es y)) d
     \<and> \<not> cached (y_ec y) d \<and> (\<exists>a. mfind (fileid_attr_m (y_es y)) d = Some a \<and> size_of a = 0)"

definition file_ok :: "yfs_client \<Rightarrow> u64 \<Rightarrow> string \<Rightarrow> bool" where
  "file_ok y i b \<longleftrightarrow> es_isfile i \<and> ucast (ucast i :: u32) = i \<and> (cached (y_ec y) i \<longrightarrow> entry_ok (y_es y) (y_ec y) i)
     \<and> file_view (y_ec y) (y_es y) i = Some b"

definition dir_rel :: "u64 \<Rightarrow> yfs_client \<Rightarrow> dirspec \<Rightarrow> bool" where
  "dir_rel d y = (\<lambda>(U, dir, ct). dir_ok d y \<and> dir = mget [] (dirid_fmap_m (y_es y)) d
     \<and> (\<forall>i. mcount (fileid_name_m (y_es y)) i \<or> cached (y_ec y) i \<longrightarrow> i \<in> U)
     \<and> (\<forall>i. (\<exists>n. mfind dir n = Some i) \<longleftrightarrow> ct i \<noteq> None)
     \<and> (\<forall>i b. ct i = Some b \<longrightarrow> file_ok y i b))"

lemma dir_relD:
  assumes "dir_rel d y (U, dir, ct)"
  shows "dir_ok d y" "dir = mget [] (dirid_fmap_m (y_es y)) d" "mcount (fileid_name_m (y_es y)) i \<or> cached (y_ec y) i \<Longrightarrow> i \<in> U"
    "(\<exists>n. mfind dir n = Some i) \<longleftrightarrow> ct i \<noteq> None" "ct i = Some b \<Longrightarrow> file_ok y i b"
  using assms unfolding dir_rel_def prod.case by blast+

subsection \<open>Looking things up\<close>

lemma held_twice: "y_held y = [] \<Longrightarrow> lc_release l (lc_acquire l y) = y"
  by (simp add: lc_acquire_def lc_release_def)

lemma ilookup_same:
  assumes "dir_ok d y"
  shows "ilookup d n y = (mget 0 (mget [] (dirid_fmap_m (y_es y)) d) n, y\<lparr>y_es := (y_es y)\<lparr>dirid_fmap_m := mindex [] d (dirid_fmap_m (y_es y))\<rparr>\<rparr>)"
proof -
  have o: "es_inv (y_es y)" "mcount (fileid_name_m (y_es y)) d" "y_held y = []" using assms by (simp_all add: dir_ok_def)
  note l = ilookup_lemma [OF o(1,2), of n]
  have "snd (ilookup d n y) = y\<lparr>y_es := (y_es y)\<lparr>dirid_fmap_m := mindex [] d (dirid_fmap_m (y_es y))\<rparr>\<rparr>"
    using l(3-5) o(3) by (intro yfs_client.equality) simp_all
  then show ?thesis using l(1) by (metis prod.collapse)
qed

text \<open>A file's records depend on its content, attributes and mode only.\<close>

lemma es_other [simp]:
  "entry_ok (s\<lparr>dirid_fmap_m := x\<rparr>) c i = entry_ok s c i" "file_view c (s\<lparr>dirid_fmap_m := x\<rparr>) i = file_view c s i"
  "srv_on A (s\<lparr>dirid_fmap_m := x\<rparr>) = srv_on A s"
  by (simp_all add: entry_ok_def file_view_def srv_on_def srv_ok_def)

lemma rel_index:
  assumes "dir_rel d y t"
  shows "dir_rel d (y\<lparr>y_es := (y_es y)\<lparr>dirid_fmap_m := mindex [] d (dirid_fmap_m (y_es y))\<rparr>\<rparr>) t"
  using assms by (cases t) (simp add: dir_rel_def dir_ok_def file_ok_def inv_index_dir)

lemma getattr_file:
  assumes "file_ok y i b" "srv_on {i. es_isfile i} (y_es y)" "y_held y = []"
  shows "\<exists>st. fuse_getattr E i y = (XOK, st, y) \<and> notime st = file_stat i b"
proof -
  have f: "es_isfile i" "y_isfile i" using assms(1) by (simp_all add: file_ok_def y_isfile_def es_isfile_def)
  obtain a where a: "ec_getAttr E i (y_ec y) (y_es y) = (XOK, a, y_ec y)" "size_of a = word_of_nat (length b)" "length b \<le> max_str"
  proof (cases "cached (y_ec y) i")
    case True
    then obtain a where "mfind (cache_attr (y_ec y)) i = Some a" "size_of a = word_of_nat (length b)" "length b \<le> max_str"
      using assms(1) by (auto simp: file_ok_def entry_ok_def file_view_def)
    then show ?thesis using that True by (simp add: ec_getAttr_def mindex_def mcount_def mget_def)
  next
    case False
    then have "mfind (fileid_content_m (y_es y)) i = Some b" using assms(1) by (simp add: file_ok_def file_view_def)
    then obtain a where "mfind (fileid_attr_m (y_es y)) i = Some a" "size_of a = word_of_nat (length b)" "length b \<le> max_str"
      using assms(2) f(1) by (force simp: srv_on_def srv_ok_def mcount_def)
    then show ?thesis using that False by (simp add: ec_getAttr_def es_getattr_def mcount_def mget_def)
  qed
  have "(ucast (size_of a) :: u64) = word_of_nat (length b)"
    using a(2,3) by (metis of_nat_unat unat_len)
  then show ?thesis
    using a(1) f(2) held_twice [OF assms(3), of i]
    by (simp add: fuse_getattr_def getfile_def file_stat_def stat0_def notime_def lc_acquire_def)
qed

subsection \<open>Changing one file\<close>

lemma rel_linked:
  assumes "dir_rel d y (U, dir, ct)" "ct i = Some b"
  shows "i \<in> U" "i \<noteq> d" "file_ok y i b"
proof -
  show f: "file_ok y i b" using assms by (simp add: dir_rel_def)
  show "i \<noteq> d" using f assms(1) by (auto simp: dir_rel_def dir_ok_def file_ok_def)
  obtain n where "mfind (mget [] (dirid_fmap_m (y_es y)) d) n = Some i" using assms by (fastforce simp: dir_rel_def)
  then have "mcount (fileid_name_m (y_es y)) i" using assms(1) by (force simp: dir_rel_def dir_ok_def es_inv_def entries_ok_def mcount_def)
  then show "i \<in> U" using assms(1) by (simp add: dir_rel_def)
qed

definition framed :: "u64 \<Rightarrow> extent_server \<Rightarrow> extent_server \<Rightarrow> bool" where
  "framed i s s' \<longleftrightarrow> es_inv s' \<and> fileid_name_m s' = fileid_name_m s \<and> dirid_fmap_m s' = dirid_fmap_m s
     \<and> (\<forall>j. j \<noteq> i \<longrightarrow> mfind (fileid_attr_m s') j = mfind (fileid_attr_m s) j)"

lemma framed_refl: "es_inv s \<Longrightarrow> framed i s s"
  by (simp add: framed_def)

lemma framed_put: "es_inv s \<Longrightarrow> length b \<le> max_str \<Longrightarrow> framed i s (es_put now i b s)"
  by (simp add: framed_def inv_put) (simp add: es_put_def)

lemma framed_attr: "es_inv s \<Longrightarrow> size_of a = size_of (mget attr0 (fileid_attr_m s) i) \<Longrightarrow> framed i s (s\<lparr>fileid_attr_m := mput i a (fileid_attr_m s)\<rparr>)"
  by (simp add: framed_def inv_attr)

lemma framed_read: "es_inv s \<Longrightarrow> ec_read E i off n (c, s) = Some (r, b, c', s') \<Longrightarrow> framed i s s'"
  by (auto simp: ec_read_def ec_fetch_def ec_getAttr_def es_get_def intro: framed_refl framed_attr split: if_splits bind_splits prod.splits)

lemma framed_write: "es_inv s \<Longrightarrow> ec_write E i off n buf (c, s) = Some (r, c', s') \<Longrightarrow> framed i s s'"
  by (auto simp: ec_write_def es_write_def Let_def intro: framed_refl framed_put dest: replace_length split: if_splits bind_splits)

lemma rel_file:
  assumes rel: "dir_rel d y (U, dir, ct)" and ct: "ct i = Some b" and fr: "framed i (y_es y) s'" and srv: "srv_on {i. es_isfile i} s'"
    and i: "cached c' i \<longrightarrow> entry_ok s' c' i" "file_view c' s' i = Some b'"
    and j: "\<forall>j. j \<noteq> i \<longrightarrow> same_entry (y_ec y) c' j \<and> mfind (fileid_content_m s') j = mfind (fileid_content_m (y_es y)) j"
  shows "dir_rel d (y\<lparr>y_ec := c', y_es := s'\<rparr>) (U, dir, ct(i \<mapsto> b'))"
proof -
  note l = rel_linked [OF rel ct]
  have e: "cached c' j = cached (y_ec y) j" "entry_ok s' c' j = entry_ok (y_es y) (y_ec y) j" "file_view c' s' j = file_view (y_ec y) (y_es y) j"
    if "j \<noteq> i" for j
    using same_entryD [of "y_ec y" c' j s' "y_es y"] j that by simp_all
  have "dir_ok d (y\<lparr>y_ec := c', y_es := s'\<rparr>)"
    using rel fr srv e(1) [of d] l(2) by (auto simp: dir_rel_def dir_ok_def framed_def)
  moreover have "file_ok (y\<lparr>y_ec := c', y_es := s'\<rparr>) j x" if "(ct(i \<mapsto> b')) j = Some x" for j x
    using that rel l(3) i e [of j] by (cases "j = i") (auto simp: file_ok_def dir_rel_def)
  moreover have "j \<in> U" if "mcount (fileid_name_m s') j \<or> cached c' j" for j
    using that rel l(1) fr e(1) [of j] by (cases "j = i") (auto simp: dir_rel_def framed_def)
  moreover have "(\<exists>n. mfind dir n = Some j) \<longleftrightarrow> (ct(i \<mapsto> b')) j \<noteq> None" for j
    using rel ct by (auto simp: dir_rel_def)
  moreover have "dir = mget [] (dirid_fmap_m s') d" using rel fr by (simp add: dir_rel_def framed_def)
  ultimately show ?thesis by (simp add: dir_rel_def)
qed

lemma sim_fuse_read:
  assumes rel: "dir_rel d y (U, dir, ct)" and ct: "ct (ucast ino) = Some b" and off: "0 \<le> off" "nat off \<le> length b"
  shows "\<exists>y'. fuse_handle dent E (FReadReq ino n off) y = Some ([ReplyBuf (take (unat n) (drop (nat off) b))], y') \<and> dir_rel d y' (U, dir, ct)"
proof -
  let ?i = "ucast ino :: u64"
  have f: "file_ok y ?i b" and o: "dir_ok d y" using rel ct by (simp_all add: dir_rel_def)
  obtain c' s' where r: "ec_read (E 0) ?i off n (y_ec y, y_es y) = Some (XOK, take (unat n) (drop (nat off) b), c', s')"
      "fileid_content_m s' = fileid_content_m (y_es y)" "srv_on {i. es_isfile i} s'" "entry_ok s' c' ?i" "mfind (cache_content c') ?i = Some b"
      "\<forall>j. j \<noteq> ?i \<longrightarrow> same_entry (y_ec y) c' j"
    using read_lemma [of "{i. es_isfile i}" "y_es y" "y_ec y" ?i b off "E 0" n] f o off unfolding same_entry_def dir_ok_def file_ok_def by blast
  have "cached c' ?i" using r(4) by (auto simp: entry_ok_def cached_def mcount_def)
  then have v: "file_view c' s' ?i = Some b" using r(5) by (simp add: file_view_def)
  have "framed ?i (y_es y) s'" using framed_read [OF _ r(1)] o by (simp add: dir_ok_def)
  then have "dir_rel d (y\<lparr>y_ec := c', y_es := s'\<rparr>) (U, dir, ct(?i \<mapsto> b))"
    using r by (intro rel_file [OF rel ct _ _ _ v]) simp_all
  moreover have "ct(?i \<mapsto> b) = ct" using ct by (rule fun_upd_idem)
  moreover have "lc_release ?i (y_with (c', s') (lc_acquire ?i y)) = y\<lparr>y_ec := c', y_es := s'\<rparr>"
    using o by (intro yfs_client.equality) (simp_all add: dir_ok_def)
  ultimately show ?thesis using r(1) by (simp add: fuseserver_read_def yfs_read_def)
qed

lemma sim_fuse_write:
  assumes rel: "dir_rel d y (U, dir, ct)" and ct: "ct (ucast ino) = Some b"
    and off: "0 \<le> off" "nat off + unat n \<le> max_str" "length buf = unat n"
  shows "\<exists>y'. fuse_handle dent E (FWriteReq ino buf n off) y = Some ([ReplyWrite n], y')
    \<and> dir_rel d y' (U, dir, ct(ucast ino \<mapsto> splice (nat off) buf b))"
proof -
  let ?i = "ucast ino :: u64"
  have f: "file_ok y ?i b" and o: "dir_ok d y" using rel ct by (simp_all add: dir_rel_def)
  obtain c' s' where w: "ec_write (E 0) ?i off n buf (y_ec y, y_es y) = Some (XOK, c', s')" "srv_on {i. es_isfile i} s'"
      "cached c' ?i \<longrightarrow> entry_ok s' c' ?i" "file_view c' s' ?i = Some (splice (nat off) buf b)"
      "\<forall>j. j \<noteq> ?i \<longrightarrow> same_entry (y_ec y) c' j \<and> mfind (fileid_content_m s') j = mfind (fileid_content_m (y_es y)) j"
    using ec_write_lemma [of "{i. es_isfile i}" "y_es y" "y_ec y" ?i b off n buf "E 0"] f o off unfolding dir_ok_def file_ok_def by blast
  have "framed ?i (y_es y) s'" using framed_write [OF _ w(1)] o by (simp add: dir_ok_def)
  then have "dir_rel d (y\<lparr>y_ec := c', y_es := s'\<rparr>) (U, dir, ct(?i \<mapsto> splice (nat off) buf b))"
    by (intro rel_file [OF rel ct _ w(2-5)])
  moreover have "lc_release ?i (y_with (c', s') (lc_acquire ?i y)) = y\<lparr>y_ec := c', y_es := s'\<rparr>"
    using o by (intro yfs_client.equality) (simp_all add: dir_ok_def)
  ultimately show ?thesis using w(1) by (simp add: fuseserver_write_def yfs_write_def)
qed

lemma sim_fuse_open:
  assumes rel: "dir_rel d y (U, dir, ct)" and ct: "ct (ucast ino) = Some b"
  shows "\<exists>y'. fuse_handle dent E (FOpen ino) y = Some ([ReplyOpen ino], y') \<and> dir_rel d y' (U, dir, ct)"
proof -
  let ?i = "ucast ino :: u64"
  have f: "file_ok y ?i b" and o: "dir_ok d y" using rel ct by (simp_all add: dir_rel_def)
  define s' where "s' = snd (es_open (xe_now (E 0) 0) ?i (y_es y))"
  obtain n where "mfind (mget [] (dirid_fmap_m (y_es y)) d) n = Some ?i" using rel ct by (fastforce simp: dir_rel_def)
  then obtain a where a: "mfind (fileid_attr_m (y_es y)) ?i = Some a"
    using o by (force simp: dir_ok_def es_inv_def entries_ok_def mcount_def)
  have fr: "framed ?i (y_es y) s'"
    using o step_inv [of "y_es y" "Open (xe_now (E 0) 0) ?i" s'] by (simp add: dir_ok_def s'_def framed_def) (simp add: es_open_def Let_def)
  have c: "fileid_content_m s' = fileid_content_m (y_es y)" by (simp add: s'_def es_open_def Let_def)
  have "srv_on {i. es_isfile i} s'"
    using o a unfolding dir_ok_def by (auto simp: s'_def es_open_def Let_def srv_on_def srv_ok_def mget_def)
  moreover have "entry_ok s' (y_ec y) ?i = entry_ok (y_es y) (y_ec y) ?i" "file_view (y_ec y) s' ?i = file_view (y_ec y) (y_es y) ?i"
    using c by (simp_all add: entry_ok_def file_view_def)
  ultimately have "dir_rel d (y\<lparr>y_ec := y_ec y, y_es := s'\<rparr>) (U, dir, ct(?i \<mapsto> b))"
    using f c by (intro rel_file [OF rel ct fr]) (simp_all add: file_ok_def same_entry_def)
  moreover have "ct(?i \<mapsto> b) = ct" using ct by (rule fun_upd_idem)
  moreover have "lc_release ?i (y_with (y_ec y, s') (lc_acquire ?i y)) = y\<lparr>y_ec := y_ec y, y_es := s'\<rparr>"
    using o by (intro yfs_client.equality) (simp_all add: dir_ok_def)
  moreover have "es_open (xe_now (E 0) 0) ?i (y_es y) = (XOK, s')" by (simp add: s'_def es_open_def Let_def)
  ultimately show ?thesis by (simp add: fuseserver_open_def yfs_open_def ec_open_def)
qed

subsection \<open>Creating and removing files\<close>

lemma file_id_ino: "ucast (ucast (file_id r) :: u32) = file_id r"
proof -
  have m: "(0xFFFFFFFF :: u64) = mask 32" by (simp add: mask_eq_exp_minus_1)
  have "take_bit 32 (file_id r) = take_bit 32 (r AND mask 32) OR take_bit 32 0x80000000" by (simp add: file_id_def m take_bit_or)
  then have "take_bit 32 (file_id r) = file_id r"
    by (simp add: file_id_def m flip: take_bit_eq_mask)
  then show ?thesis by (simp add: unsigned_ucast_eq)
qed

lemma createFile_more:
  assumes "es_createFile rnd now junk d n m s = Some (XOK, i, s')" "i \<noteq> d" "srv_on {i. es_isfile i} s" "\<not> es_isfile d"
    and "mfind (fileid_attr_m s) d = Some a" "mfind (fileid_content_m s') = (mfind (fileid_content_m s))(i \<mapsto> [])"
  shows "mcount (fileid_name_m s') j \<longleftrightarrow> mcount (fileid_name_m s) j \<or> j = i" "srv_on {i. es_isfile i} s'"
    "\<exists>a'. mfind (fileid_attr_m s') d = Some a' \<and> size_of a' = size_of a" "\<exists>a'. mfind (fileid_attr_m s') i = Some a' \<and> size_of a' = 0"
proof -
  have e: "fileid_name_m s' = mput i n (fileid_name_m s)" "fileid_mode_m s' = mput i m (fileid_mode_m s)"
      "mfind (fileid_attr_m s') = (mfind (fileid_attr_m s))(i \<mapsto> attr_at now 0,
         d \<mapsto> (mget attr0 (mput i (attr_at now 0) (fileid_attr_m s)) d)\<lparr>ctime := now, atime := now, mtime := now\<rparr>)"
    using assms(1) by (auto simp: es_createFile_def es_put_def Let_def mget_mput attr_at_def split: option.splits if_splits)
  show "mcount (fileid_name_m s') j \<longleftrightarrow> mcount (fileid_name_m s) j \<or> j = i" using e(1) by (auto simp: mcount_mput)
  show "\<exists>a'. mfind (fileid_attr_m s') d = Some a' \<and> size_of a' = size_of a" "\<exists>a'. mfind (fileid_attr_m s') i = Some a' \<and> size_of a' = 0"
    using e(3) assms(2,5) by (simp_all add: mget_mput) (simp_all add: mget_def attr_at_def)
  have "srv_ok s' i" using e(2,3) assms(2,6) by (simp add: srv_ok_def attr_at_def mcount_mput)
  moreover have "srv_ok s' j" if "es_isfile j" "mcount (fileid_content_m s) j" "j \<noteq> i" for j
  proof -
    have "j \<noteq> d" "srv_ok s j" using that assms(3,4) by (auto simp: srv_on_def)
    then show ?thesis using e(2,3) assms(6) that(3) by (auto simp: srv_ok_def mcount_mput)
  qed
  ultimately show "srv_on {i. es_isfile i} s'" using assms(6) by (auto simp: srv_on_def mcount_def)
qed

lemma sim_new_file:
  assumes rel: "dir_rel d y t" and new: "new_file E n t = Some (i, t')"
  shows "\<exists>y'. yfs_createFile E d n m y = Some (XOK, i, y') \<and> dir_rel d y' t' \<and> file_ok y' i []"
proof -
  obtain U dir ct where t: "t = (U, dir, ct)" by (cases t)
  obtain r where r: "random_num (xe_rnd E) = Some r" "i = file_id r" "mfind dir n = None" "i \<notin> U" "t' = (insert i U, mput n i dir, ct(i \<mapsto> []))"
    using new by (auto simp: new_file_def t Let_def split: option.splits if_splits)
  have o: "dir_ok d y" and dir: "dir = mget [] (dirid_fmap_m (y_es y)) d" using rel by (simp_all add: dir_rel_def t)
  have d: "es_inv (y_es y)" "mcount (fileid_name_m (y_es y)) d" "\<not> es_isfile d" "srv_on {i. es_isfile i} (y_es y)" "y_held y = []"
    using o by (simp_all add: dir_ok_def)
  obtain a0 where a0: "mfind (fileid_attr_m (y_es y)) d = Some a0" "size_of a0 = 0" using o by (auto simp: dir_ok_def)
  have fresh: "\<not> mcount (fileid_name_m (y_es y)) i" "\<not> cached (y_ec y) i" using rel r(4) by (auto simp: dir_rel_def t)
  have isf: "es_isfile i" by (simp add: r(2) file_id_isfile)
  then have id: "i \<noteq> d" using d(3) by auto
  obtain s1 where s1: "es_createFile (xe_rnd E) (xe_now E 0) (xe_id E) d n m (y_es y) = Some (XOK, i, s1)" "es_inv s1"
      "mget [] (dirid_fmap_m s1) = (mget [] (dirid_fmap_m (y_es y)))(d := mput n i (mget [] (dirid_fmap_m (y_es y)) d))"
      "mcount (fileid_name_m s1) d" "mfind (fileid_content_m s1) = (mfind (fileid_content_m (y_es y)))(i \<mapsto> [])"
    using createFile_lemma [OF d(1) r(1,2) fresh(1) d(2)] by blast
  note more = createFile_more [OF s1(1) id d(4,3) a0(1) s1(5)]
  obtain a where a: "mfind (fileid_attr_m s1) i = Some a" "size_of a = 0" using more(4) by blast
  define c1 y1 where "c1 = cache_file i [] a m (y_ec y)" and "y1 = y\<lparr>y_ec := c1, y_es := s1\<rparr>"
  have c: "ec_createFile E d n m (y_ec y, y_es y) = Some (XOK, c1, s1)"
    using s1(1) a(1) fresh(2) by (simp add: ec_createFile_def ec_getAttr_def es_getattr_def mcount_def mget_def c1_def)
  have y1: "lc_release d (y_with (c1, s1) (lc_acquire d y)) = y1"
    using d(5) by (intro yfs_client.equality) (simp_all add: y1_def)
  have same: "same_entry (y_ec y) c1 j" if "j \<noteq> i" for j using that by (simp add: same_entry_def c1_def cache_file_def)
  have e: "cached c1 j = cached (y_ec y) j" "entry_ok s1 c1 j = entry_ok (y_es y) (y_ec y) j" "file_view c1 s1 j = file_view (y_ec y) (y_es y) j"
    if "j \<noteq> i" for j
    using same_entryD [OF same [OF that], of s1 "y_es y"] s1(5) that by simp_all
  have new_ok: "file_ok y1 i []"
    using isf file_id_ino [of r] entry_cache_file [of s1 i "[]" a m "y_ec y"] s1(5) a(2)
    by (simp add: file_ok_def y1_def c1_def r(2) file_view_def max_str_def)
  have ok1: "dir_ok d y1"
    using s1(2,4) more(2,3) a0(2) d(3,5) e(1) [of d] id o by (auto simp: dir_ok_def y1_def)
  moreover have "file_ok y1 j x" if "(ct(i \<mapsto> [])) j = Some x" for j x
    using that new_ok e [of j] rel by (cases "j = i") (auto simp: file_ok_def y1_def dir_rel_def t)
  moreover have "j \<in> insert i U" if "mcount (fileid_name_m s1) j \<or> cached c1 j" for j
    using that more(1) [of j] e(1) [of j] rel by (cases "j = i") (auto simp: dir_rel_def t)
  moreover have "(\<exists>n'. mfind (mput n i dir) n' = Some j) \<longleftrightarrow> (ct(i \<mapsto> [])) j \<noteq> None" for j
    using rel r(3) by (auto simp: dir_rel_def t) (metis option.distinct(1))+
  ultimately have rel1: "dir_rel d y1 t'" by (simp add: dir_rel_def r(5) y1_def s1(3) dir)
  define y2 where "y2 = y1\<lparr>y_es := (y_es y1)\<lparr>dirid_fmap_m := mindex [] d (dirid_fmap_m (y_es y1))\<rparr>\<rparr>"
  have "ilookup d n y1 = (i, y2)" using ilookup_same [OF ok1, of n] s1(3) by (simp add: y2_def y1_def mget_def [of 0])
  then have "yfs_createFile E d n m y = Some (XOK, i, y2)" using c y1 by (simp add: yfs_createFile_def)
  moreover have "file_ok y2 i []" using new_ok by (simp add: file_ok_def y2_def)
  ultimately show ?thesis using rel_index [OF rel1] by (auto simp: y2_def)
qed

lemma remove_more:
  fixes now :: "nat \<Rightarrow> u32"
  assumes "es_inv s" "mfind (mget [] (dirid_fmap_m s) d) n = Some i" "es_isfile i" "\<not> es_isfile d" "mfind (fileid_attr_m s) d = Some a"
    and "srv_on {i. es_isfile i} s"
  defines "s' \<equiv> es_erase now d i s"
  shows "es_remove now d n s = (XOK, s')" "mget [] (dirid_fmap_m s') d = merase n (mget [] (dirid_fmap_m s) d)"
    "mfind (fileid_content_m s') = (mfind (fileid_content_m s))(i := None)" "mcount (fileid_name_m s') j \<longleftrightarrow> mcount (fileid_name_m s) j \<and> j \<noteq> i"
    "srv_on {i. es_isfile i} s'" "\<exists>a'. mfind (fileid_attr_m s') d = Some a' \<and> size_of a' = size_of a"
proof -
  have at: "mfind (fileid_dir_m s) i = Some d" "mfind (fileid_name_m s) i = Some n"
    using assms(1,2) by (auto simp: es_inv_def entries_ok_def)
  have ne: "d \<noteq> i" using assms(3,4) by auto
  have "mcount (dirid_fmap_m s) d" using assms(2) by (auto simp: mget_def mcount_def split: option.splits)
  then show "es_remove now d n s = (XOK, s')"
    using assms(2,3) by (simp add: s'_def es_remove_def Let_def es_isdir_def mcount_def mget_def [of 0])
  show "mget [] (dirid_fmap_m s') d = merase n (mget [] (dirid_fmap_m s) d)"
    using at assms(3) by (simp add: s'_def es_erase_def Let_def es_isdir_def mget_mput) (simp add: mget_def)
  show c: "mfind (fileid_content_m s') = (mfind (fileid_content_m s))(i := None)"
    using assms(3) by (simp add: s'_def es_erase_def Let_def es_isdir_def fun_eq_iff)
  show "mcount (fileid_name_m s') j \<longleftrightarrow> mcount (fileid_name_m s) j \<and> j \<noteq> i"
    using assms(3) by (auto simp: s'_def es_erase_def Let_def es_isdir_def mcount_merase)
  have a: "mfind (fileid_attr_m s') j = (if j = d then Some (a\<lparr>ctime := now 0, atime := now 1, mtime := now 2\<rparr>) else if j = i then None else mfind (fileid_attr_m s) j)" for j
    using assms(3,5) ne by (simp add: s'_def es_erase_def Let_def es_isdir_def mget_def)
  then show "\<exists>a'. mfind (fileid_attr_m s') d = Some a' \<and> size_of a' = size_of a" by simp
  have m: "mcount (fileid_mode_m s') j \<longleftrightarrow> mcount (fileid_mode_m s) j" if "j \<noteq> i" for j
    using assms(3) that by (simp add: s'_def es_erase_def Let_def es_isdir_def mcount_merase)
  have "srv_ok s' j" if "es_isfile j" "j \<noteq> i" "mcount (fileid_content_m s) j" for j
  proof -
    have "srv_ok s j" "j \<noteq> d" using that assms(4,6) by (auto simp: srv_on_def)
    then show ?thesis using c a m [OF that(2)] that(2) by (simp add: srv_ok_def)
  qed
  then show "srv_on {i. es_isfile i} s'" using c by (auto simp: srv_on_def mcount_def)
qed

lemma setAttr_more:
  assumes "es_inv s" "srv_on {i. es_isfile i} s" "mfind (fileid_attr_m s) d = Some a0" "size_of a0 = 0" "size_of a = 0" "\<not> es_isfile d"
  shows "\<exists>s'. es_setAttr now d a s = Some (XOK, s') \<and> es_inv s' \<and> srv_on {i. es_isfile i} s' \<and> dirid_fmap_m s' = dirid_fmap_m s
    \<and> fileid_name_m s' = fileid_name_m s \<and> (\<forall>j. es_isfile j \<longrightarrow> mfind (fileid_content_m s') j = mfind (fileid_content_m s) j)
    \<and> (\<exists>a'. mfind (fileid_attr_m s') d = Some a' \<and> size_of a' = 0)"
proof -
  obtain s' where s': "es_setAttr now d a s = Some (XOK, s')" "dirid_fmap_m s' = dirid_fmap_m s" "fileid_name_m s' = fileid_name_m s"
      "fileid_mode_m s' = fileid_mode_m s" "\<exists>a'. mfind (fileid_attr_m s') d = Some a' \<and> size_of a' = 0"
      "\<forall>j. j \<noteq> d \<longrightarrow> mfind (fileid_content_m s') j = mfind (fileid_content_m s) j \<and> mfind (fileid_attr_m s') j = mfind (fileid_attr_m s) j"
  proof (cases "word_of_nat (length (mget [] (fileid_content_m s) d)) = (0 :: u32)")
    case True
    then show ?thesis using assms(3-5) that by (simp add: es_setAttr_def mcount_def mfind_mindex) (simp add: mget_def)
  next
    case False
    then show ?thesis using assms(3-5) that by (simp add: es_setAttr_def mcount_def mfind_mindex str_resize_def es_put_def attr_at_def)
  qed
  have "srv_ok s' j" if "es_isfile j" "mcount (fileid_content_m s') j" for j
  proof -
    have "j \<noteq> d" using that(1) assms(6) by auto
    then have "mcount (fileid_content_m s) j" "srv_ok s' j = srv_ok s j" using s'(4,6) that by (simp_all add: srv_ok_def mcount_def)
    then show ?thesis using assms(2) that(1) by (simp add: srv_on_def)
  qed
  then have "srv_on {i. es_isfile i} s'" by (simp add: srv_on_def)
  then show ?thesis using s' setAttr_inv [OF assms(1) s'(1)] assms(6) by (intro exI [of _ s']) auto
qed

lemma file_ok_cong:
  "y_ec y' = y_ec y \<Longrightarrow> mfind (fileid_content_m (y_es y')) i = mfind (fileid_content_m (y_es y)) i \<Longrightarrow> file_ok y' i b = file_ok y i b"
  using same_entryD [of "y_ec y" "y_ec y" i "y_es y'" "y_es y"] by (simp add: file_ok_def same_entry_def)

text \<open>The two calls to the server that \<open>unlink\<close> makes.\<close>

lemma unlink_server:
  assumes "dir_ok d y" "mfind (mget [] (dirid_fmap_m (y_es y)) d) n = Some i" "es_isfile i"
  shows "\<exists>s. unlink_locked E d n (lc_acquire i (lc_acquire d y)) = Some (XOK, (lc_acquire i (lc_acquire d y))\<lparr>y_es := s\<rparr>)
    \<and> dir_ok d (y\<lparr>y_es := s\<rparr>) \<and> mget [] (dirid_fmap_m s) d = merase n (mget [] (dirid_fmap_m (y_es y)) d)
    \<and> (\<forall>j. es_isfile j \<longrightarrow> mfind (fileid_content_m s) j = (if j = i then None else mfind (fileid_content_m (y_es y)) j))
    \<and> (\<forall>j. mcount (fileid_name_m s) j \<longrightarrow> mcount (fileid_name_m (y_es y)) j)"
proof -
  have d: "es_inv (y_es y)" "srv_on {i. es_isfile i} (y_es y)" "\<not> es_isfile d" "\<not> cached (y_ec y) d"
    using assms(1) by (simp_all add: dir_ok_def)
  obtain a where a: "mfind (fileid_attr_m (y_es y)) d = Some a" "size_of a = 0" using assms(1) by (auto simp: dir_ok_def)
  have ne: "i \<noteq> d" using assms(3) d(3) by auto
  define s2 where "s2 = es_erase (xe_now E) d i (y_es y)"
  note rm = remove_more [OF d(1) assms(2,3) d(3) a(1) d(2), of "xe_now E", folded s2_def]
  obtain a2 where a2: "mfind (fileid_attr_m s2) d = Some a2" "size_of a2 = 0" using rm(6) a(2) by auto
  define a3 where "a3 = a2\<lparr>atime := xe_now E 3, mtime := xe_now E 4\<rparr>"
  have inv2: "es_inv s2" using remove_inv [OF d(1), of "xe_now E" d n] rm(1) by simp
  obtain s3 where s3: "es_setAttr (xe_now E 5) d a3 s2 = Some (XOK, s3)" "es_inv s3" "srv_on {i. es_isfile i} s3" "dirid_fmap_m s3 = dirid_fmap_m s2"
      "fileid_name_m s3 = fileid_name_m s2" "\<forall>j. es_isfile j \<longrightarrow> mfind (fileid_content_m s3) j = mfind (fileid_content_m s2) j"
      "\<exists>a'. mfind (fileid_attr_m s3) d = Some a' \<and> size_of a' = 0"
    using setAttr_more [OF inv2 rm(5) a2, of a3 "xe_now E 5"] a2(2) d(3) by (auto simp: a3_def)
  have "unlink_locked E d n (lc_acquire i (lc_acquire d y)) = Some (XOK, (lc_acquire i (lc_acquire d y))\<lparr>y_es := s3\<rparr>)"
    using d(4) rm(1) a2(1) s3(1)
    by (simp add: unlink_locked_def ec_remove_def ec_getAttr_def ec_setAttr_def es_getattr_def mcount_def mget_def a3_def y_with_def)
  moreover have "dir_ok d (y\<lparr>y_es := s3\<rparr>)" using assms(1) s3(2,3,5,7) rm(4) [of d] ne by (simp add: dir_ok_def)
  ultimately show ?thesis using s3(4-6) rm(2-4) by (intro exI [of _ s3]) simp
qed

lemma sim_unlink:
  assumes rel: "dir_rel d y (U, dir, ct)" and n: "mfind dir n = Some i"
  shows "\<exists>y'. yfs_unlink E d n y = Some (XOK, y') \<and> dir_rel d y' (U, merase n dir, ct(i := None))"
proof -
  define y1 where "y1 = y\<lparr>y_es := (y_es y)\<lparr>dirid_fmap_m := mindex [] d (dirid_fmap_m (y_es y))\<rparr>\<rparr>"
  have rel1: "dir_rel d y1 (U, dir, ct)" using rel_index [OF rel] by (simp add: y1_def)
  note o = dir_relD(1) [OF rel1] and dir = dir_relD(2) [OF rel1]
  obtain b where b: "ct i = Some b" "file_ok y1 i b" using dir_relD(4,5) [OF rel1, of i] n by auto
  then have f: "es_isfile i" by (simp add: file_ok_def)
  then have f0: "i \<noteq> 0" by (auto simp: es_isfile_def)
  have lk: "ilookup d n y = (i, y1)" using ilookup_same [OF dir_relD(1) [OF rel], of n] n dir_relD(2) [OF rel] by (simp add: y1_def mget_def [of 0])
  obtain s where s: "unlink_locked E d n (lc_acquire i (lc_acquire d y1)) = Some (XOK, (lc_acquire i (lc_acquire d y1))\<lparr>y_es := s\<rparr>)"
      "dir_ok d (y1\<lparr>y_es := s\<rparr>)" "mget [] (dirid_fmap_m s) d = merase n (mget [] (dirid_fmap_m (y_es y1)) d)"
      "\<forall>j. es_isfile j \<longrightarrow> mfind (fileid_content_m s) j = (if j = i then None else mfind (fileid_content_m (y_es y1)) j)"
      "\<forall>j. mcount (fileid_name_m s) j \<longrightarrow> mcount (fileid_name_m (y_es y1)) j"
    using unlink_server [OF o n [unfolded dir] f, of E] by blast
  define y3 where "y3 = y1\<lparr>y_es := s\<rparr>"
  have "lc_release i (lc_release d ((lc_acquire i (lc_acquire d y1))\<lparr>y_es := s\<rparr>)) = y3"
    using o by (intro yfs_client.equality) (simp_all add: y3_def dir_ok_def List.insert_def lc_acquire_def lc_release_def)
  then have u: "yfs_unlink E d n y = Some (XOK, y3)" using lk f0 s(1) by (simp add: yfs_unlink_def)
  have nm: "mfind (fileid_name_m (y_es y1)) i = Some n'" if "mfind dir n' = Some i" for n'
  proof -
    have "entries_ok (y_es y1)" using o by (simp add: dir_ok_def es_inv_def)
    then show ?thesis using that by (simp only: dir entries_ok_def)
  qed
  have only: "n' = n" if "mfind dir n' = Some i" for n' using nm [OF that] nm [OF n] by simp
  have "file_ok y3 j x" if "(ct(i := None)) j = Some x" for j x
  proof -
    have j: "j \<noteq> i" "file_ok y1 j x" using that dir_relD(5) [OF rel1] by (auto split: if_splits)
    then have "es_isfile j" by (simp add: file_ok_def)
    then show ?thesis using j file_ok_cong [of y3 y1 j x] s(4) by (simp add: y3_def)
  qed
  moreover have "(\<exists>n'. mfind (merase n dir) n' = Some j) \<longleftrightarrow> (ct(i := None)) j \<noteq> None" for j
  proof -
    have "mfind (merase n dir) n' = Some j \<longleftrightarrow> mfind dir n' = Some j \<and> j \<noteq> i" for n'
      using n only [of n'] by (cases "n' = n") auto
    then show ?thesis using dir_relD(4) [OF rel1, of j] by simp
  qed
  moreover have "j \<in> U" if "mcount (fileid_name_m s) j \<or> cached (y_ec y1) j" for j
    using that dir_relD(3) [OF rel1] s(5) by blast
  ultimately have "dir_rel d y3 (U, merase n dir, ct(i := None))" using s(2,3) dir by (simp add: dir_rel_def y3_def)
  then show ?thesis using u by blast
qed

lemma unlink_absent:
  assumes rel: "dir_rel d y (U, dir, ct)" and n: "mfind dir n = None"
  shows "\<exists>y'. yfs_unlink E d n y = Some (XIOERR, y') \<and> dir_rel d y' (U, dir, ct)"
proof -
  let ?y = "y\<lparr>y_es := (y_es y)\<lparr>dirid_fmap_m := mindex [] d (dirid_fmap_m (y_es y))\<rparr>\<rparr>"
  have "ilookup d n y = (0, ?y)"
    using ilookup_same [OF dir_relD(1) [OF rel], of n] n dir_relD(2) [OF rel] by (simp add: mget_def [of 0])
  moreover have "lc_release 0 (lc_release d ?y) = ?y"
    using dir_relD(1) [OF rel] by (simp add: dir_ok_def lc_release_def)
  ultimately show ?thesis using rel_index [OF rel] by (simp add: yfs_unlink_def)
qed

lemma sim_createhelper:
  assumes rel: "dir_rel d y t" and new: "new_file (E 0) n t = Some (i, t')" and d: "d = ucast dino"
  shows "\<exists>st y'. fuseserver_createhelper E dino n m y = Some (XOK, ucast i, st, y') \<and> notime st = file_stat i [] \<and> dir_rel d y' t'"
proof -
  obtain y1 where y1: "yfs_createFile (E 0) d n m y = Some (XOK, i, y1)" "dir_rel d y1 t'" "file_ok y1 i []"
    using sim_new_file [OF rel new] by blast
  obtain U dir ct where "t' = (U, dir, ct)" by (cases t')
  then have "dir_ok d y1" using y1(2) dir_relD(1) by blast
  then obtain st where "fuse_getattr (E 1) i y1 = (XOK, st, y1)" "notime st = file_stat i []"
    using getattr_file [OF y1(3)] by (auto simp: dir_ok_def)
  then show ?thesis using y1(1,2) d by (simp add: fuseserver_createhelper_def)
qed

lemma sim_getattr:
  assumes rel: "dir_rel d y (U, dir, ct)" and ct: "ct i = Some b"
  shows "\<exists>st. fuse_getattr E i y = (XOK, st, y) \<and> notime st = file_stat i b"
  using getattr_file [OF dir_relD(5) [OF rel ct]] dir_relD(1) [OF rel] by (simp add: dir_ok_def)

lemma sim_lookup:
  assumes rel: "dir_rel (ucast dino) y (U, dir, ct)"
  shows "mfind dir n = None \<Longrightarrow> \<exists>y'. fuseserver_lookup E dino n y = ([ReplyErr ENOENT], y') \<and> dir_rel (ucast dino) y' (U, dir, ct)"
    and "mfind dir n = Some i \<Longrightarrow> ct i = Some b \<Longrightarrow>
      \<exists>st y'. fuseserver_lookup E dino n y = ([ReplyEntry (ucast i) st], y') \<and> notime st = file_stat i b \<and> dir_rel (ucast dino) y' (U, dir, ct)"
proof -
  let ?d = "ucast dino :: u64"
  let ?y = "y\<lparr>y_es := (y_es y)\<lparr>dirid_fmap_m := mindex [] ?d (dirid_fmap_m (y_es y))\<rparr>\<rparr>"
  have rel1: "dir_rel ?d ?y (U, dir, ct)" using rel by (rule rel_index)
  have lk: "ilookup ?d n y = (mget 0 dir n, ?y)" using ilookup_same [OF dir_relD(1) [OF rel], of n] dir_relD(2) [OF rel] by simp
  show "\<exists>y'. fuseserver_lookup E dino n y = ([ReplyErr ENOENT], y') \<and> dir_rel ?d y' (U, dir, ct)" if "mfind dir n = None"
    using that lk rel1 by (simp add: fuseserver_lookup_def mget_def)
  show "\<exists>st y'. fuseserver_lookup E dino n y = ([ReplyEntry (ucast i) st], y') \<and> notime st = file_stat i b \<and> dir_rel ?d y' (U, dir, ct)"
    if "mfind dir n = Some i" "ct i = Some b"
  proof -
    have f: "es_isfile i" "ucast (ucast i :: u32) = i" using dir_relD(5) [OF rel that(2)] by (simp_all add: file_ok_def)
    then have "(ucast i :: u32) \<noteq> 0" by (metis es_isfile_def and_zero_eq unsigned_0 and.commute)
    then show ?thesis using sim_getattr [OF rel1 that(2), of "E 0"] that(1) lk rel1 f(2) by (auto simp: fuseserver_lookup_def mget_def)
  qed
qed

lemma sim_readdir:
  assumes rel: "dir_rel (ucast dino) y (U, dir, ct)"
  shows "\<exists>y'. fuseserver_readdir dent dino n off y = ([reply_buf_limited (fold (dirbuf_add dent) dir []) off n], y') \<and> dir_rel (ucast dino) y' (U, dir, ct)"
proof -
  let ?d = "ucast dino :: u64"
  have o: "dir_ok ?d y" and dir: "dir = mget [] (dirid_fmap_m (y_es y)) ?d" using dir_relD(1,2) [OF rel] by blast+
  have "mcount (fileid_name_m (y_es y)) ?d" "sm_ok dir" using o dir by (simp_all add: dir_ok_def es_inv_def contents_ok_def)
  then have "es_readdir ?d (y_es y) = (XOK, dir, (y_es y)\<lparr>dirid_fmap_m := mindex [] ?d (dirid_fmap_m (y_es y))\<rparr>)"
    using fold_mput_self [of dir] by (simp add: es_readdir_def dir)
  moreover have "y_isdir ?d" using o by (simp add: dir_ok_def y_isdir_def y_isfile_def es_isfile_def)
  moreover have "lc_release ?d (y_with (y_ec y, s) (lc_acquire ?d y)) = y\<lparr>y_es := s\<rparr>" for s
    using o by (intro yfs_client.equality) (simp_all add: dir_ok_def)
  ultimately show ?thesis using rel_index [OF rel] by (simp add: fuseserver_readdir_def yfs_readdir_def ec_readdir_def)
qed

subsection \<open>The directory as a whole\<close>

lemma fuse_follows:
  assumes rel: "dir_rel (ucast d) y t" and sp: "dir_step dent d (E, rq) t = Some (x, t')"
  shows "\<exists>y'. fuse_step dent (E, rq) y = Some (x, y') \<and> dir_rel (ucast d) y' t'"
proof -
  obtain U dir ct where t: "t = (U, dir, ct)" by (cases t)
  note r = rel [unfolded t] and s = sp [unfolded t]
  show ?thesis
  proof (cases rq)
    case (FGetattr i)
    then show ?thesis using s r sim_getattr [OF r, of "ucast i" _ "E 0"] by (auto simp: fuse_step_def fuseserver_getattr_def)
  next
    case (FSetattr i sz)
    then show ?thesis using s r sim_getattr [OF r, of "ucast i" _ "E 1"] by (auto simp: fuse_step_def fuseserver_setattr_def split: if_splits)
  next
    case (FReadReq i n off)
    then show ?thesis using s sim_fuse_read [OF r, of i _ off dent E n] by (auto simp: fuse_step_def split: if_splits bind_splits)
  next
    case (FWriteReq i buf n off)
    then show ?thesis using s sim_fuse_write [OF r, of i _ off n buf dent E] by (auto simp: fuse_step_def split: if_splits bind_splits)
  next
    case (FCreate p n m)
    then show ?thesis using s sim_createhelper [OF r, of E n _ _ d m] by (auto simp: fuse_step_def fuseserver_create_def split: if_splits)
  next
    case (FMknod p n m)
    then show ?thesis using s sim_createhelper [OF r, of E n _ _ d m] by (auto simp: fuse_step_def fuseserver_mknod_def split: if_splits)
  next
    case (FLookup p n)
    then show ?thesis using s sim_lookup(1) [OF r, of n E] sim_lookup(2) [OF r, of n _ _ E]
      by (cases "mfind dir n") (fastforce simp: fuse_step_def split: if_splits)+
  next
    case (FReaddir p n off)
    then show ?thesis using s sim_readdir [OF r, of dent n off] by (auto simp: fuse_step_def reply_buf_limited_def split: if_splits)
  next
    case (FOpen i)
    then show ?thesis using s sim_fuse_open [OF r, of i _ dent E] by (auto simp: fuse_step_def)
  next
    case (FUnlink p n)
    then show ?thesis
      using s unlink_absent [OF r, of n "E 0"] sim_unlink [OF r, of n _ "E 0"]
      by (cases "mfind dir n") (auto simp: fuse_step_def fuseserver_unlink_def split: if_splits)
  qed (use s r in \<open>auto simp: fuse_step_def fuseserver_statfs_def\<close>)
qed

interpretation mounted: rel_simulation "fuse_step dent" "dir_step dent d" id "dir_rel (ucast d)" for dent d
  by unfold_locales (use fuse_follows in \<open>metis id_apply prod.collapse\<close>)

definition yfs_new :: "u32 \<Rightarrow> yfs_client" where
  "yfs_new now = \<lparr>y_ec = ec_new, y_es = es_new now, y_held = []\<rparr>"

lemma root_rel: "dir_rel 1 (yfs_new now) ({1}, [], \<lambda>_. None)"
proof -
  have "es_inv (es_new now)" by (rule reach_inv [OF start])
  then show ?thesis
    by (auto simp: dir_rel_def dir_ok_def yfs_new_def es_new_def srv_on_def ec_new_def cached_def mcount_def mfind_def mget_def es_isfile_def attr_at_def
        split: if_splits)
qed


definition demo_requests :: "((nat \<Rightarrow> xenv) \<times> fuse_req) list" where
  "demo_requests = map (Pair (\<lambda>_. demo_env)) [FLookup 1 ''f'', FCreate 1 ''f'' 0, FWriteReq 0x80000005 ''hello'' 5 0, FReadReq 0x80000005 4 1,
     FReaddir 1 100 0, FUnlink 1 ''f'', FLookup 1 ''f'', FUnlink 1 ''f'']"


end
