(* ===== verification/FileTest.thy ===== *)
theory FileTest
  imports Simulation PaxosLog StdMap StdString "HOL-Library.Multiset"
begin

text \<open>
  The tests of the mounted file system, \<open>test-lab-4-b.c\<close> and \<open>test-lab-4-c.c\<close>: two processes that create, read, append to, list and remove files
  in two directories.  The kernel and the file system below it are a parameter that answers system calls; what the tests rely on is that it
  follows a specification of files by name.
\<close>

subsection \<open>System calls\<close>

text \<open>
  The test program is one process that forks at most one child.  Each has at most one file open, which \<open>PWrite\<close>, \<open>PRead\<close> and \<open>PClose\<close> refer to.
  A file is named by the path of its directory and its name there; the flag of \<open>POpen\<close> is \<open>O_APPEND\<close>.  A listing is a multiset, since the
  order of \<open>readdir\<close> is not specified.
\<close>

datatype proc = Parent | Child

datatype pcall = PMkdir string | PAccess string | PCreat string string | POpen string string bool | PWrite string | PRead nat | PClose
  | PUnlink string string | PList string

datatype presult = POk | PFail | PCount nat | PBytes string | PNames "string multiset"

text \<open>What the code tests the result for before it goes on; \<open>Reads k s\<close> compares \<open>k\<close> characters.\<close>

datatype check = Any | Succeeds | Fails | Counts nat | Reads nat string | ReadsInt nat | Entries nat

definition int_bytes :: "nat \<Rightarrow> string" where
  "int_bytes i = map (\<lambda>k. char_of (i div 256 ^ k)) [0 ..< 4]"

text \<open>\<open>dircheck\<close> skips names that begin with a dot, counts the others, sorts them and compares neighbours.\<close>

definition shown :: "string multiset \<Rightarrow> string list" where
  "shown m = sorted_list_of_multiset (filter_mset (\<lambda>n. \<not> (n \<noteq> [] \<and> hd n = CHR ''.'')) m)"

definition MAX_NAMES :: nat where "MAX_NAMES = 1000"

fun accepts :: "check \<Rightarrow> presult \<Rightarrow> bool" where
  "accepts Any r = True"
| "accepts Succeeds r = (r = POk)"
| "accepts Fails r = (r = PFail)"
| "accepts (Counts n) r = (r = PCount n)"
| "accepts (Reads k s) r = (case r of PBytes b \<Rightarrow> length b = length s \<and> take k b = take k s | _ \<Rightarrow> False)"
| "accepts (ReadsInt i) r = (case r of PBytes b \<Rightarrow> length b = 4 \<and> b = int_bytes i | _ \<Rightarrow> False)"
| "accepts (Entries nf) r = (case r of PNames m \<Rightarrow> length (shown m) = nf \<and> length (shown m) \<le> MAX_NAMES \<and> distinct_adj (shown m) | _ \<Rightarrow> False)"

subsection \<open>The functions of the tests\<close>

text \<open>A function of the tests is the list of its system calls, each with the check that has to hold for the function to go on.\<close>

type_synonym calls = "(pcall \<times> check) list"

text \<open>The length of the path \<open>sprintf\<close> writes, and the array it writes to.\<close>

definition path_len :: "string \<Rightarrow> string \<Rightarrow> nat" where
  "path_len d f = length d + 1 + length f"

definition PATH_SZ :: nat where "PATH_SZ = 512"

fun path_fits :: "pcall \<Rightarrow> bool" where
  "path_fits (PCreat d f) = (path_len d f < PATH_SZ)"
| "path_fits (POpen d f a) = (path_len d f < PATH_SZ)"
| "path_fits (PUnlink d f) = (path_len d f < PATH_SZ)"
| "path_fits (PMkdir d) = (length d < PATH_SZ)"
| "path_fits (PAccess d) = (length d < PATH_SZ)"
| "path_fits _ = True"

definition create1 :: "string \<Rightarrow> string \<Rightarrow> string \<Rightarrow> calls" where
  "create1 d f s = [(PCreat d f, Succeeds), (PWrite s, Counts (length s)), (PClose, Succeeds)]"

text \<open>\<open>bufsz\<close> is the size of \<open>buf\<close>.  The comparison runs over the length of the path, not of the content.\<close>

definition check1 :: "nat \<Rightarrow> string \<Rightarrow> string \<Rightarrow> string \<Rightarrow> calls" where
  "check1 bufsz d f s = [(POpen d f False, Succeeds), (PRead (bufsz - 1), Reads (path_len d f) s), (PClose, Any)]"

definition unlink1 :: "string \<Rightarrow> string \<Rightarrow> calls" where
  "unlink1 d f = [(PUnlink d f, Succeeds)]"

definition checknot :: "string \<Rightarrow> string \<Rightarrow> calls" where
  "checknot d f = [(POpen d f False, Fails)]"

definition append1 :: "string \<Rightarrow> string \<Rightarrow> string \<Rightarrow> calls" where
  "append1 d f s = [(POpen d f True, Succeeds), (PWrite s, Counts (length s)), (PClose, Succeeds)]"

definition numbered :: "string \<Rightarrow> nat \<Rightarrow> string" where
  "numbered prefix i = prefix @ ''-'' @ show_nat i"

definition createn :: "string \<Rightarrow> string \<Rightarrow> nat \<Rightarrow> calls" where
  "createn d prefix nf =
     concat (map (\<lambda>i. [(PCreat d (numbered prefix i), Succeeds), (PWrite (int_bytes i), Counts 4), (PClose, Succeeds)]) [0 ..< nf])"

definition checkn :: "string \<Rightarrow> string \<Rightarrow> nat \<Rightarrow> calls" where
  "checkn d prefix nf = concat (map (\<lambda>i. [(POpen d (numbered prefix i) False, Succeeds), (PRead 4, ReadsInt i), (PClose, Any)]) [0 ..< nf])"

definition unlinkn :: "string \<Rightarrow> string \<Rightarrow> nat \<Rightarrow> calls" where
  "unlinkn d prefix nf = map (\<lambda>i. (PUnlink d (numbered prefix i), Succeeds)) [0 ..< nf]"

definition dircheck :: "string \<Rightarrow> nat \<Rightarrow> calls" where
  "dircheck d nf = [(PList d, Entries nf)]"

subsection \<open>The programs\<close>

text \<open>\<open>Fork C\<close> starts a child that makes the calls \<open>C\<close> and exits; \<open>Reap\<close> waits for it.\<close>

datatype fcmd = Do "pcall \<times> check" | Fork calls | Reap

definition b_small :: "string \<Rightarrow> string \<Rightarrow> calls" where
  "b_small d1 d2 =
     create1 d1 ''f1'' ''aaa'' @ check1 21000 d2 ''f1'' ''aaa'' @ check1 21000 d1 ''f1'' ''aaa'' @
     unlink1 d2 ''f1'' @ create1 d1 ''fx1'' ''fxx'' @ unlink1 d1 ''fx1'' @ checknot d1 ''f1'' @ checknot d2 ''f1'' @
     create1 d1 ''f2'' ''222'' @ unlink1 d2 ''f2'' @ checknot d1 ''f2'' @ checknot d2 ''f2'' @
     create1 d1 ''f3'' ''333'' @ check1 21000 d2 ''f3'' ''333'' @ check1 21000 d1 ''f3'' ''333'' @ unlink1 d1 ''f3'' @
     create1 d2 ''fx2'' ''22'' @ unlink1 d2 ''fx2'' @ checknot d2 ''f3'' @ checknot d1 ''f3''"

definition b_append :: "string \<Rightarrow> string \<Rightarrow> calls" where
  "b_append d1 d2 =
     create1 d2 ''f1'' ''aaa'' @ append1 d1 ''f1'' ''bbb'' @ append1 d2 ''f1'' ''ccc'' @
     check1 21000 d1 ''f1'' ''aaabbbccc'' @ check1 21000 d2 ''f1'' ''aaabbbccc''"

definition b_readdir :: "string \<Rightarrow> string \<Rightarrow> calls" where
  "b_readdir d1 d2 =
     dircheck d1 1 @ dircheck d2 1 @ unlink1 d1 ''f1'' @ dircheck d1 0 @ dircheck d2 0 @
     create1 d2 ''f2'' ''aaa'' @ create1 d1 ''f3'' ''aaa'' @ dircheck d1 2 @ dircheck d2 2 @ unlink1 d2 ''f2'' @ dircheck d2 1 @ dircheck d1 1 @
     unlink1 d2 ''f3'' @ dircheck d1 0 @ dircheck d2 0"

definition b_many :: "string \<Rightarrow> string \<Rightarrow> calls" where
  "b_many d1 d2 =
     createn d1 ''aa'' 10 @ createn d2 ''bb'' 10 @ dircheck d2 20 @ checkn d2 ''bb'' 10 @ checkn d2 ''aa'' 10 @ checkn d1 ''aa'' 10 @
     checkn d1 ''bb'' 10 @ unlinkn d1 ''aa'' 10 @ unlinkn d2 ''bb'' 10"

definition big :: string where "big = replicate 20000 CHR ''x''"

definition b_big :: "string \<Rightarrow> string \<Rightarrow> calls" where
  "b_big d1 d2 = create1 d1 ''bf'' big @ check1 21000 d1 ''bf'' big @ check1 21000 d2 ''bf'' big @ unlink1 d1 ''bf''"

definition b_creates :: "string \<Rightarrow> string \<Rightarrow> fcmd list" where
  "b_creates d1 d2 =
     Fork (createn d2 ''xx'' 20) # map Do (createn d1 ''yy'' 20) @ Reap #
     map Do (dircheck d1 40 @ checkn d1 ''xx'' 20 @ checkn d2 ''yy'' 20 @ unlinkn d1 ''xx'' 20 @ unlinkn d1 ''yy'' 20)"

definition b_same :: "string \<Rightarrow> string \<Rightarrow> fcmd list" where
  "b_same d1 d2 =
     Fork (createn d2 ''zz'' 20) # map Do (createn d1 ''zz'' 20) @ map Do (dircheck d1 20) @ Reap #
     map Do (checkn d1 ''zz'' 20 @ checkn d2 ''zz'' 20 @ unlinkn d1 ''zz'' 20)"

definition b_mixed :: "string \<Rightarrow> string \<Rightarrow> fcmd list" where
  "b_mixed d1 d2 =
     map Do (createn d1 ''x1'' 20 @ createn d2 ''x2'' 20) @
     Fork (unlinkn d2 ''x1'' 20 @ createn d1 ''x3'' 20) # map Do (createn d1 ''x4'' 20) @ Reap #
     map Do (unlinkn d2 ''x2'' 20 @ unlinkn d2 ''x4'' 20 @ unlinkn d2 ''x3'' 20 @ dircheck d1 0)"

definition b_same_server :: "string \<Rightarrow> fcmd list" where
  "b_same_server d1 =
     Fork (createn d1 ''zz'' 20) # map Do (createn d1 ''zz'' 20) @ map Do (dircheck d1 20) @ Reap #
     map Do (checkn d1 ''zz'' 20 @ unlinkn d1 ''zz'' 20)"

definition b_tests :: "string \<Rightarrow> string \<Rightarrow> fcmd list" where
  "b_tests d1 d2 =
     map Do (b_small d1 d2 @ b_append d1 d2 @ b_readdir d1 d2 @ b_many d1 d2 @ b_big d1 d2) @
     b_creates d1 d2 @ b_same d1 d2 @ b_mixed d1 d2 @ b_same_server d1"

text \<open>The arguments and the process id; without two arguments the program prints its usage.\<close>

definition main_b :: "string list \<Rightarrow> nat \<Rightarrow> fcmd list option" where
  "main_b argv pid =
     (case argv of
        [m1, m2] \<Rightarrow>
          let d1 = m1 @ ''/d'' @ show_nat pid; d2 = m2 @ ''/d'' @ show_nat pid
          in Some (map Do [(PMkdir d1, Succeeds), (PAccess d2, Succeeds)] @ b_tests d1 d2)
      | _ \<Rightarrow> None)"

definition c_tests :: "string \<Rightarrow> string \<Rightarrow> fcmd list" where
  "c_tests d1 d2 =
     Fork (createn d2 ''xx'' 100 @ unlinkn d2 ''xx'' 99) # map Do (createn d1 ''yy'' 100 @ unlinkn d1 ''yy'' 99) @ Reap #
     map Do (dircheck d1 1 @ dircheck d2 1)"

definition main_c :: "string list \<Rightarrow> nat \<Rightarrow> fcmd list option" where
  "main_c argv pid =
     (case argv of
        [m1, m2] \<Rightarrow>
          let d1 = m1 @ ''/da'' @ show_nat pid; d2 = m2 @ ''/db'' @ show_nat pid; dd = m2 @ ''/da'' @ show_nat pid
          in Some (map Do [(PMkdir d1, Succeeds), (PMkdir d2, Succeeds), (PAccess dd, Succeeds)] @ c_tests d1 d2)
      | _ \<Rightarrow> None)"

subsection \<open>Running them\<close>

text \<open>
  A run is a schedule of the two processes.  \<open>fork\<close> is taken to succeed.  A call the kernel's contract does not cover is not answered.
  A child whose check fails exits with status one, which the parent finds when it reaps the child.
\<close>

datatype ft_error = Rejected pcall | PathTooLong pcall | NotServed pcall | NoChild | ChildUnhappy

datatype child = Running calls | Exited nat

record 'y ft_state =
  ft_fs :: 'y
  ft_parent :: "fcmd list"
  ft_child :: "child option"

type_synonym 'y kernel = "proc \<times> pcall \<Rightarrow> 'y \<Rightarrow> (presult \<times> 'y) option"

definition do_call :: "'y kernel \<Rightarrow> proc \<Rightarrow> pcall \<Rightarrow> check \<Rightarrow> 'y \<Rightarrow> ft_error + 'y" where
  "do_call K p c e y =
     (if \<not> path_fits c then Inl (PathTooLong c)
      else case K (p, c) y of None \<Rightarrow> Inl (NotServed c) | Some (r, y) \<Rightarrow> if accepts e r then Inr y else Inl (Rejected c))"

definition reap :: "'y ft_state \<Rightarrow> fcmd list \<Rightarrow> ft_error + 'y ft_state" where
  "reap s P =
     (case ft_child s of
        None \<Rightarrow> Inl NoChild
      | Some (Running C) \<Rightarrow> Inr s
      | Some (Exited st) \<Rightarrow> if st \<noteq> 0 then Inl ChildUnhappy else Inr (s\<lparr>ft_parent := P, ft_child := None\<rparr>))"

fun ft_step :: "'y kernel \<Rightarrow> proc \<Rightarrow> 'y ft_state \<Rightarrow> ft_error + 'y ft_state" where
  "ft_step K Parent s =
     (case ft_parent s of
        [] \<Rightarrow> Inr s
      | Do (c, e) # P \<Rightarrow> (case do_call K Parent c e (ft_fs s) of Inl x \<Rightarrow> Inl x | Inr y \<Rightarrow> Inr (s\<lparr>ft_fs := y, ft_parent := P\<rparr>))
      | Fork C # P \<Rightarrow> Inr (s\<lparr>ft_parent := P, ft_child := Some (Running C)\<rparr>)
      | Reap # P \<Rightarrow> reap s P)"
| "ft_step K Child s =
     (case ft_child s of
        Some (Running []) \<Rightarrow> Inr (s\<lparr>ft_child := Some (Exited 0)\<rparr>)
      | Some (Running ((c, e) # C)) \<Rightarrow>
          (case do_call K Child c e (ft_fs s) of
             Inl x \<Rightarrow> Inr (s\<lparr>ft_child := Some (Exited 1)\<rparr>)
           | Inr y \<Rightarrow> Inr (s\<lparr>ft_fs := y, ft_child := Some (Running C)\<rparr>))
      | _ \<Rightarrow> Inr s)"

fun ft_run :: "'y kernel \<Rightarrow> proc list \<Rightarrow> 'y ft_state \<Rightarrow> ft_error + 'y ft_state" where
  "ft_run K [] s = Inr s"
| "ft_run K (p # ps) s = (case ft_step K p s of Inl e \<Rightarrow> Inl e | Inr s \<Rightarrow> ft_run K ps s)"

definition ft_start :: "fcmd list \<Rightarrow> 'y \<Rightarrow> 'y ft_state" where
  "ft_start P y = \<lparr>ft_fs = y, ft_parent = P, ft_child = None\<rparr>"

subsection \<open>Files by name\<close>

text \<open>
  The specification of the file system.  \<open>rv\<close> tells which directory a path leads to, so that two mounts can show one directory.  A directory
  is a table from names to contents; an open file has its directory, name and offset, and the append flag.  Opening a second file and
  removing a file somebody has open are not covered.
\<close>

record pfs =
  pf_dirs :: "string \<Rightarrow> (string, string) stdmap option"
  pf_open :: "proc \<Rightarrow> (string \<times> string \<times> nat \<times> bool) option"

definition pf_file :: "pfs \<Rightarrow> string \<Rightarrow> string \<Rightarrow> string option" where
  "pf_file s D f = (case pf_dirs s D of None \<Rightarrow> None | Some m \<Rightarrow> mfind m f)"

definition pf_put :: "string \<Rightarrow> string \<Rightarrow> string \<Rightarrow> pfs \<Rightarrow> pfs" where
  "pf_put D f b s = s\<lparr>pf_dirs := (pf_dirs s)(D := map_option (mput f b) (pf_dirs s D))\<rparr>"

definition pf_opened :: "pfs \<Rightarrow> string \<Rightarrow> string \<Rightarrow> bool" where
  "pf_opened s D f \<longleftrightarrow> list_ex (\<lambda>p. case pf_open s p of None \<Rightarrow> False | Some (D', f', _) \<Rightarrow> D' = D \<and> f' = f) [Parent, Child]"

fun pstep :: "(string \<Rightarrow> string) \<Rightarrow> proc \<times> pcall \<Rightarrow> pfs \<Rightarrow> (presult \<times> pfs) option" where
  "pstep rv (p, PMkdir d) s =
     Some (if pf_dirs s (rv d) = None then (POk, s\<lparr>pf_dirs := (pf_dirs s)(rv d \<mapsto> [])\<rparr>) else (PFail, s))"
| "pstep rv (p, PAccess d) s = Some (if pf_dirs s (rv d) = None then PFail else POk, s)"
| "pstep rv (p, PCreat d f) s =
     (if pf_open s p \<noteq> None then None
      else if pf_dirs s (rv d) = None then Some (PFail, s)
      else Some (POk, (pf_put (rv d) f [] s)\<lparr>pf_open := (pf_open s)(p \<mapsto> (rv d, f, 0, False))\<rparr>))"
| "pstep rv (p, POpen d f a) s =
     (if pf_open s p \<noteq> None then None
      else if pf_file s (rv d) f = None then Some (PFail, s)
      else Some (POk, s\<lparr>pf_open := (pf_open s)(p \<mapsto> (rv d, f, 0, a))\<rparr>))"
| "pstep rv (p, PWrite b) s =
     (case pf_open s p of
        None \<Rightarrow> None
      | Some (D, f, off, a) \<Rightarrow>
          (case pf_file s D f of
             None \<Rightarrow> None
           | Some c \<Rightarrow> let off = (if a then length c else off)
                       in Some (PCount (length b), (pf_put D f (splice off b c) s)\<lparr>pf_open := (pf_open s)(p \<mapsto> (D, f, off + length b, a))\<rparr>)))"
| "pstep rv (p, PRead n) s =
     (case pf_open s p of
        None \<Rightarrow> None
      | Some (D, f, off, a) \<Rightarrow>
          (case pf_file s D f of
             None \<Rightarrow> None
           | Some c \<Rightarrow> let b = take n (drop off c) in Some (PBytes b, s\<lparr>pf_open := (pf_open s)(p \<mapsto> (D, f, off + length b, a))\<rparr>)))"
| "pstep rv (p, PClose) s = (if pf_open s p = None then None else Some (POk, s\<lparr>pf_open := (pf_open s)(p := None)\<rparr>))"
| "pstep rv (p, PUnlink d f) s =
     (if pf_file s (rv d) f = None then Some (PFail, s)
      else if pf_opened s (rv d) f then None
      else Some (POk, s\<lparr>pf_dirs := (pf_dirs s)(rv d := map_option (merase f) (pf_dirs s (rv d)))\<rparr>))"
| "pstep rv (p, PList d) s =
     Some (case pf_dirs s (rv d) of None \<Rightarrow> PFail | Some m \<Rightarrow> PNames (mset (''.'' # ''..'' # map fst m)), s)"

definition pfs_new :: pfs where
  "pfs_new = \<lparr>pf_dirs = (\<lambda>_. None), pf_open = (\<lambda>_. None)\<rparr>"

end
