(* ===== verification/FileTestRuns.thy ===== *)
theory FileTestRuns
  imports FileTest
begin

text \<open>
  The tests of the mounted file system pass: over every kernel that follows the specification of files by name, in every interleaving of the
  two processes.
\<close>

subsection \<open>Safe states\<close>

abbreviation fstate :: "'y \<Rightarrow> fcmd list \<Rightarrow> child option \<Rightarrow> 'y ft_state" where
  "fstate y P C \<equiv> \<lparr>ft_fs = y, ft_parent = P, ft_child = C\<rparr>"

definition unhappy :: "'y ft_state \<Rightarrow> bool" where
  "unhappy s \<longleftrightarrow> (case ft_child s of Some (Exited n) \<Rightarrow> n \<noteq> 0 | _ \<Rightarrow> False)"

text \<open>No schedule reaches a failed check.\<close>

coinductive safe :: "'y kernel \<Rightarrow> 'y ft_state \<Rightarrow> bool" for K where
  "\<not> unhappy s \<Longrightarrow> \<forall>p. \<exists>s'. ft_step K p s = Inr s' \<and> safe K s' \<Longrightarrow> safe K s"

inductive_cases safe_stepE: "safe K s"

lemma safe_run: "safe K s \<Longrightarrow> \<exists>s'. ft_run K ps s = Inr s' \<and> safe K s'"
proof (induction ps arbitrary: s)
  case (Cons p ps)
  obtain s1 where "ft_step K p s = Inr s1" "safe K s1" using Cons.prems by (blast elim: safe_stepE)
  then show ?case using Cons.IH by auto
qed simp

lemma all_proc: "(\<forall>p. Q p) \<longleftrightarrow> Q Parent \<and> Q Child"
  using proc.exhaust by metis

lemma safeI:
  assumes "\<not> unhappy s" "\<exists>s1. ft_step K Parent s = Inr s1 \<and> (s1 = s \<or> safe K s1)" "\<exists>s2. ft_step K Child s = Inr s2 \<and> (s2 = s \<or> safe K s2)"
  shows "safe K s"
  using assms by (coinduction rule: safe.coinduct) (auto simp: all_proc)

lemma safe_done: "safe K (fstate y [] None)"
  by (rule safeI) (simp_all add: unhappy_def)

lemma safe_call:
  assumes "do_call K Parent c e y = Inr y'" "safe K (fstate y' P None)"
  shows "safe K (fstate y (Do (c, e) # P) None)"
  by (rule safeI) (use assms in \<open>simp_all add: unhappy_def\<close>)

declare ft_step.simps [simp del]

text \<open>Every fair schedule finishes: each round in which both processes run makes progress.\<close>

fun cmd_size :: "fcmd \<Rightarrow> nat" where
  "cmd_size (Fork C) = length C + 3"
| "cmd_size _ = 1"

fun child_size :: "child option \<Rightarrow> nat" where
  "child_size (Some (Running C)) = length C + 2"
| "child_size (Some (Exited n)) = 1"
| "child_size None = 0"

definition ft_size :: "'y ft_state \<Rightarrow> nat" where
  "ft_size s = sum_list (map cmd_size (ft_parent s)) + child_size (ft_child s)"

lemma ft_step_size: "ft_step K p s = Inr s' \<Longrightarrow> s' = s \<or> ft_size s' < ft_size s"
  by (cases p) (auto simp: ft_step.simps ft_size_def reap_def split: list.splits fcmd.splits child.splits option.splits sum.splits if_splits)

lemma ft_run_size: "ft_run K ps s = Inr s' \<Longrightarrow> ft_size s' < ft_size s \<or> s' = s \<and> (\<forall>p \<in> set ps. ft_step K p s = Inr s)"
proof (induction ps arbitrary: s)
  case (Cons p ps)
  obtain s1 where s1: "ft_step K p s = Inr s1" "ft_run K ps s1 = Inr s'" using Cons.prems by (auto split: sum.splits)
  show ?case using Cons.IH [OF s1(2)] ft_step_size [OF s1(1)] s1(1) by auto
qed simp

lemma stuck_finished: "ft_step K Parent s = Inr s \<Longrightarrow> ft_step K Child s = Inr s \<Longrightarrow> \<not> unhappy s \<Longrightarrow> ft_parent s = []"
  by (cases s) (auto simp: ft_step.simps reap_def unhappy_def split: list.splits fcmd.splits child.splits option.splits sum.splits if_splits prod.splits)

lemma stuck_run:
  assumes "ft_step K Parent s = Inr s" "ft_step K Child s = Inr s"
  shows "ft_run K ps s = Inr s"
proof (induction ps)
  case (Cons p ps) then show ?case using assms by (cases p) simp_all
qed simp

lemma ft_run_append: "ft_run K (ps @ qs) s = (case ft_run K ps s of Inl e \<Rightarrow> Inl e | Inr s \<Rightarrow> ft_run K qs s)"
  by (induction ps arbitrary: s) (auto split: sum.splits)

lemma rounds_finish:
  assumes "safe K s" "\<forall>b \<in> set bs. {Parent, Child} \<subseteq> set b" "ft_size s < length bs"
  shows "\<exists>s'. ft_run K (concat bs) s = Inr s' \<and> ft_parent s' = []"
  using assms
proof (induction bs arbitrary: s)
  case (Cons b bs)
  obtain s1 where s1: "ft_run K b s = Inr s1" "safe K s1" using safe_run [OF Cons.prems(1)] by blast
  consider (less) "ft_size s1 < ft_size s" | (stuck) "s1 = s" "ft_step K Parent s = Inr s" "ft_step K Child s = Inr s"
    using ft_run_size [OF s1(1)] Cons.prems(2) by auto
  then show ?case
  proof cases
    case less
    then have "ft_size s1 < length bs" using Cons.prems(3) by simp
    then show ?thesis using Cons.IH [OF s1(2)] Cons.prems(2) s1(1) by (simp add: ft_run_append)
  next
    case stuck
    have "\<not> unhappy s" using Cons.prems(1) by (blast elim: safe_stepE)
    then show ?thesis using stuck_finished [OF stuck(2,3)] stuck_run [OF stuck(2,3)] by blast
  qed
qed simp

text \<open>A kernel that follows the specification is as safe.\<close>

lemma do_call_follows:
  assumes "rel_simulation K S id R" "R y t" "do_call S p c e t = Inr t'"
  shows "\<exists>y'. do_call K p c e y = Inr y' \<and> R y' t'"
proof -
  obtain r where r: "path_fits c" "S (p, c) t = Some (r, t')" "accepts e r" using assms(3) by (auto simp: do_call_def split: if_splits option.splits)
  then obtain y' where "K (p, c) y = Some (r, y')" "R y' t'"
    using rel_simulation.follows [OF assms(1,2), of "(p, c)"] by auto
  then show ?thesis using r by (auto simp: do_call_def)
qed

lemma ft_step_follows:
  assumes K: "rel_simulation K S id R" and R: "R y t" and step: "ft_step S p (fstate t P C) = Inr s1" and happy: "\<not> unhappy s1"
  shows "\<exists>y'. ft_step K p (fstate y P C) = Inr (fstate y' (ft_parent s1) (ft_child s1)) \<and> R y' (ft_fs s1)"
proof (cases p)
  case Parent
  show ?thesis
  proof (cases "\<exists>c e Q. P = Do (c, e) # Q")
    case True
    then obtain c e Q t' where 1: "P = Do (c, e) # Q" "do_call S Parent c e t = Inr t'" "s1 = fstate t' Q C"
      using step Parent by (auto simp: ft_step.simps split: sum.splits)
    show ?thesis using do_call_follows [OF K R 1(2)] 1 Parent by (auto simp: ft_step.simps)
  next
    case False
    then show ?thesis using step R Parent by (auto simp: ft_step.simps reap_def split: list.splits fcmd.splits option.splits child.splits if_splits)
  qed
next
  case Child
  show ?thesis
  proof (cases "\<exists>c e Q. C = Some (Running ((c, e) # Q))")
    case True
    then obtain c e Q t' where 1: "C = Some (Running ((c, e) # Q))" "do_call S Child c e t = Inr t'" "s1 = fstate t' P (Some (Running Q))"
      using step Child happy by (auto simp: ft_step.simps unhappy_def split: sum.splits)
    show ?thesis using do_call_follows [OF K R 1(2)] 1 Child by (auto simp: ft_step.simps)
  next
    case False
    then show ?thesis using step R Child by (auto simp: ft_step.simps split: list.splits option.splits child.splits)
  qed
qed

lemma safe_follows:
  assumes K: "rel_simulation K S id R" and "R y t" "safe S (fstate t P C)"
  shows "safe K (fstate y P C)"
proof -
  define X where "X s \<longleftrightarrow> (\<exists>t. R (ft_fs s) t \<and> safe S (fstate t (ft_parent s) (ft_child s)))" for s :: "'a ft_state"
  have "\<exists>s'. ft_step K p s = Inr s' \<and> X s'" if "X s" for s p
  proof -
    obtain t where t: "R (ft_fs s) t" "safe S (fstate t (ft_parent s) (ft_child s))" using \<open>X s\<close> by (auto simp: X_def)
    then obtain s1 where s1: "ft_step S p (fstate t (ft_parent s) (ft_child s)) = Inr s1" "safe S s1" by (blast elim: safe_stepE)
    then have "\<not> unhappy s1" by (blast elim: safe_stepE)
    moreover have "s1 = fstate (ft_fs s1) (ft_parent s1) (ft_child s1)" "s = fstate (ft_fs s) (ft_parent s) (ft_child s)" by simp_all
    ultimately show ?thesis using ft_step_follows [OF K t(1) s1(1)] s1(2) unfolding X_def by (metis ft_state.select_convs)
  qed
  moreover have "\<not> unhappy s" if "X s" for s
    using that by (auto simp: X_def unhappy_def elim!: safe_stepE)
  moreover have "X (fstate y P C)" using assms by (auto simp: X_def)
  ultimately show ?thesis by (intro safe.coinduct [of X "fstate y P C"]) blast+
qed

subsection \<open>Jobs\<close>

text \<open>
  What the two processes do at the same time is creating and removing files.  A job is one such action as far as it is still to be done:
  a file to be created, one created and not yet written, one written and not yet closed, and one to be removed.
\<close>

datatype fjob = Mk string string string | Wr string string string | Cl string string string | Rm string string

fun job_calls :: "fjob \<Rightarrow> calls" where
  "job_calls (Mk d f b) = create1 d f b"
| "job_calls (Wr d f b) = [(PWrite b, Counts (length b)), (PClose, Succeeds)]"
| "job_calls (Cl d f b) = [(PClose, Succeeds)]"
| "job_calls (Rm d f) = unlink1 d f"

definition jobs_calls :: "fjob list \<Rightarrow> calls" where
  "jobs_calls js = concat (map job_calls js)"

fun next_jobs :: "fjob list \<Rightarrow> fjob list" where
  "next_jobs (Mk d f b # js) = Wr d f b # js"
| "next_jobs (Wr d f b # js) = Cl d f b # js"
| "next_jobs (_ # js) = js"
| "next_jobs [] = []"

fun next_call :: "fjob \<Rightarrow> pcall \<times> check" where
  "next_call (Mk d f b) = (PCreat d f, Succeeds)"
| "next_call (Wr d f b) = (PWrite b, Counts (length b))"
| "next_call (Cl d f b) = (PClose, Succeeds)"
| "next_call (Rm d f) = (PUnlink d f, Succeeds)"

lemma jobs_calls_Nil [simp]: "jobs_calls [] = []"
  by (simp add: jobs_calls_def)

lemma jobs_calls_Cons: "jobs_calls (j # js) = next_call j # jobs_calls (next_jobs (j # js))"
  by (cases j) (simp_all add: jobs_calls_def create1_def unlink1_def)

lemma jobs_calls_append: "jobs_calls (js @ ks) = jobs_calls js @ jobs_calls ks"
  by (simp add: jobs_calls_def)

text \<open>Files are identified by directory and name; the view of a state is the contents of the files.\<close>

type_synonym view = "string \<times> string \<Rightarrow> string option"

definition view :: "pfs \<Rightarrow> view" where
  "view y = (\<lambda>(D, f). pf_file y D f)"

fun job_file :: "(string \<Rightarrow> string) \<Rightarrow> fjob \<Rightarrow> string \<times> string" where
  "job_file rv (Mk d f b) = (rv d, f)"
| "job_file rv (Wr d f b) = (rv d, f)"
| "job_file rv (Cl d f b) = (rv d, f)"
| "job_file rv (Rm d f) = (rv d, f)"

fun removes :: "fjob \<Rightarrow> bool" where
  "removes (Rm d f) = True"
| "removes _ = False"

fun pending :: "fjob \<Rightarrow> bool" where
  "pending (Wr d f b) = True"
| "pending (Cl d f b) = True"
| "pending _ = False"

text \<open>The contents after a job, and after the next call of a job.\<close>

fun job_eff :: "(string \<Rightarrow> string) \<Rightarrow> fjob \<Rightarrow> view \<Rightarrow> view" where
  "job_eff rv (Mk d f b) V = V((rv d, f) \<mapsto> b)"
| "job_eff rv (Wr d f b) V = V((rv d, f) \<mapsto> b)"
| "job_eff rv (Cl d f b) V = V"
| "job_eff rv (Rm d f) V = V((rv d, f) := None)"

fun call_eff :: "(string \<Rightarrow> string) \<Rightarrow> fjob \<Rightarrow> view \<Rightarrow> view" where
  "call_eff rv (Mk d f b) V = V((rv d, f) \<mapsto> [])"
| "call_eff rv j V = job_eff rv j V"

definition jobs_eff :: "(string \<Rightarrow> string) \<Rightarrow> fjob list \<Rightarrow> view \<Rightarrow> view" where
  "jobs_eff rv = fold (job_eff rv)"

text \<open>A file to be removed is there at the time; one to be written has nothing else in it.\<close>

fun job_pre :: "(string \<Rightarrow> string) \<Rightarrow> fjob \<Rightarrow> view \<Rightarrow> bool" where
  "job_pre rv (Rm d f) V = (V (rv d, f) \<noteq> None)"
| "job_pre rv (Wr d f b) V = (V (rv d, f) \<in> {Some [], Some b})"
| "job_pre rv _ V = True"

fun jobs_pre :: "(string \<Rightarrow> string) \<Rightarrow> fjob list \<Rightarrow> view \<Rightarrow> bool" where
  "jobs_pre rv [] V = True"
| "jobs_pre rv (j # js) V = (job_pre rv j V \<and> jobs_pre rv js (job_eff rv j V))"

definition fs_ok :: "string set \<Rightarrow> pfs \<Rightarrow> bool" where
  "fs_ok Ds y \<longleftrightarrow> (\<forall>D. pf_dirs y D \<noteq> None \<longleftrightarrow> D \<in> Ds) \<and> (\<forall>D m. pf_dirs y D = Some m \<longrightarrow> sm_ok m)"

fun opened :: "(string \<Rightarrow> string) \<Rightarrow> fjob list \<Rightarrow> (string \<times> string \<times> nat \<times> bool) option" where
  "opened rv (Wr d f b # js) = Some (rv d, f, 0, False)"
| "opened rv (Cl d f b # js) = Some (rv d, f, length b, False)"
| "opened rv _ = None"

fun job_fits :: "(string \<Rightarrow> string) \<Rightarrow> string set \<Rightarrow> (string \<times> string \<Rightarrow> string) \<Rightarrow> fjob \<Rightarrow> bool" where
  "job_fits rv Ds val (Mk d f b) = (path_len d f < PATH_SZ \<and> rv d \<in> Ds \<and> val (rv d, f) = b)"
| "job_fits rv Ds val (Wr d f b) = (path_len d f < PATH_SZ \<and> rv d \<in> Ds \<and> val (rv d, f) = b)"
| "job_fits rv Ds val (Cl d f b) = (path_len d f < PATH_SZ \<and> rv d \<in> Ds \<and> val (rv d, f) = b)"
| "job_fits rv Ds val (Rm d f) = (path_len d f < PATH_SZ \<and> rv d \<in> Ds)"

text \<open>The calls do what their effect says.\<close>

lemma view_put: "pf_dirs y D \<noteq> None \<Longrightarrow> view (pf_put D f b y) = (view y)((D, f) \<mapsto> b)"
  by (auto simp: view_def pf_put_def pf_file_def fun_eq_iff split: option.splits)

lemma fs_ok_put: "fs_ok Ds y \<Longrightarrow> fs_ok Ds (pf_put D f b y)"
  by (auto simp: fs_ok_def pf_put_def)

lemma view_open [simp]: "view (y\<lparr>pf_open := x\<rparr>) = view y" "fs_ok Ds (y\<lparr>pf_open := x\<rparr>) = fs_ok Ds y"
  by (auto simp: view_def pf_file_def fs_ok_def)

lemma pf_open_put [simp]: "pf_open (pf_put D f b y) = pf_open y"
  by (simp add: pf_put_def)

lemma next_call_does:
  assumes ok: "fs_ok Ds y" and fits: "job_fits rv Ds val j" and pre: "job_pre rv j (view y)"
    and op: "pf_open y p = opened rv (j # js)" "\<not> pending (hd js) \<or> js = []"
    and others: "removes j \<Longrightarrow> \<not> pf_opened y (fst (job_file rv j)) (snd (job_file rv j))"
  shows "\<exists>y'. do_call (pstep rv) p (fst (next_call j)) (snd (next_call j)) y = Inr y' \<and> fs_ok Ds y' \<and> view y' = call_eff rv j (view y)
    \<and> pf_open y' = (pf_open y)(p := opened rv (next_jobs (j # js)))"
proof (cases j)
  case (Mk d f b)
  then have "pf_dirs y (rv d) \<noteq> None" using ok fits by (auto simp: fs_ok_def)
  then show ?thesis using Mk ok fits op by (auto simp: do_call_def view_put fs_ok_put)
next
  case (Wr d f b)
  then have D: "pf_dirs y (rv d) \<noteq> None" using ok fits by (auto simp: fs_ok_def)
  obtain c where c: "pf_file y (rv d) f = Some c" "splice 0 b c = b" using pre Wr by (auto simp: view_def splice_all)
  then show ?thesis using Wr ok fits op D by (auto simp: do_call_def view_put fs_ok_put)
next
  case (Cl d f b)
  have "opened rv js = None" using op(2) by (cases js; cases "hd js") auto
  then show ?thesis using Cl ok fits op by (auto simp: do_call_def)
next
  case (Rm d f)
  have "opened rv js = None" using op(2) by (cases js; cases "hd js") auto
  moreover have "view (y\<lparr>pf_dirs := (pf_dirs y)(rv d := map_option (merase f) (pf_dirs y (rv d)))\<rparr>) = (view y)((rv d, f) := None)"
    by (auto simp: view_def pf_file_def fun_eq_iff split: option.splits)
  moreover have "fs_ok Ds (y\<lparr>pf_dirs := (pf_dirs y)(rv d := map_option (merase f) (pf_dirs y (rv d)))\<rparr>)"
    using ok by (auto simp: fs_ok_def sm_ok_merase)
  ultimately show ?thesis using Rm ok fits op pre others by (auto simp: do_call_def view_def fun_upd_idem)
qed

subsection \<open>Two processes at their jobs\<close>

definition proc_ok :: "(string \<Rightarrow> string) \<Rightarrow> string set \<Rightarrow> (string \<times> string \<Rightarrow> string) \<Rightarrow> proc \<Rightarrow> fjob list \<Rightarrow> pfs \<Rightarrow> bool" where
  "proc_ok rv Ds val p js y \<longleftrightarrow> pf_open y p = opened rv js \<and> (\<forall>j \<in> set (tl js). \<not> pending j) \<and> (\<forall>j \<in> set js. job_fits rv Ds val j) \<and> jobs_pre rv js (view y)"

text \<open>Neither process removes a file the other has to do with.\<close>

definition apart :: "(string \<Rightarrow> string) \<Rightarrow> fjob list \<Rightarrow> fjob list \<Rightarrow> bool" where
  "apart rv js ks \<longleftrightarrow> (\<forall>j \<in> set js. \<forall>k \<in> set ks. job_file rv j = job_file rv k \<longrightarrow> \<not> removes j \<and> \<not> removes k)"

lemma apart_sym: "apart rv js ks \<longleftrightarrow> apart rv ks js"
  by (auto simp: apart_def)

lemma next_jobs_set: "j' \<in> set (next_jobs (j # js)) \<Longrightarrow> j' \<in> set js \<or> job_file rv j' = job_file rv j \<and> \<not> removes j' \<and> \<not> removes j"
  by (cases j) auto

lemma apart_next: "apart rv (j # js) ks \<Longrightarrow> apart rv (next_jobs (j # js)) ks"
  unfolding apart_def using next_jobs_set by (metis list.set_intros)

definition kept_for :: "(string \<Rightarrow> string) \<Rightarrow> (string \<times> string \<Rightarrow> string) \<Rightarrow> fjob list \<Rightarrow> view \<Rightarrow> view \<Rightarrow> bool" where
  "kept_for rv val js V V' \<longleftrightarrow> (\<forall>x. V' x = V x \<or> (\<forall>j \<in> set js. job_file rv j \<noteq> x)
     \<or> (\<forall>j \<in> set js. job_file rv j = x \<longrightarrow> \<not> removes j) \<and> V' x \<in> {Some [], Some (val x)})"

lemma jobs_pre_stable:
  assumes "jobs_pre rv js V" "\<forall>j \<in> set js. job_fits rv Ds val j" "kept_for rv val js V V'"
  shows "jobs_pre rv js V'"
  using assms
proof (induction js arbitrary: V V')
  case (Cons j js)
  have 1: "job_pre rv j V'"
    using Cons.prems(1,2) spec [OF Cons.prems(3) [unfolded kept_for_def], of "job_file rv j"] by (cases j) auto
  have "kept_for rv val js (job_eff rv j V) (job_eff rv j V')"
    unfolding kept_for_def
  proof
    fix x show "job_eff rv j V' x = job_eff rv j V x \<or> (\<forall>j \<in> set js. job_file rv j \<noteq> x)
      \<or> (\<forall>j \<in> set js. job_file rv j = x \<longrightarrow> \<not> removes j) \<and> job_eff rv j V' x \<in> {Some [], Some (val x)}"
      using spec [OF Cons.prems(3) [unfolded kept_for_def], of x] by (cases j) auto
  qed
  then show ?case using 1 Cons.IH [of "job_eff rv j V"] Cons.prems(1,2) by auto
qed simp

lemma jobs_eff_Cons [simp]: "jobs_eff rv (j # js) V = jobs_eff rv js (job_eff rv j V)" "jobs_eff rv [] V = V"
  by (simp_all add: jobs_eff_def)

lemma jobs_eff_append: "jobs_eff rv (js @ ks) V = jobs_eff rv ks (jobs_eff rv js V)"
  by (simp add: jobs_eff_def)

lemma jobs_eff_next: "jobs_eff rv (next_jobs (j # js)) (call_eff rv j V) = jobs_eff rv (j # js) V"
  by (cases j) simp_all

lemma jobs_pre_next: "jobs_pre rv (j # js) V \<Longrightarrow> jobs_pre rv (next_jobs (j # js)) (call_eff rv j V)"
  by (cases j) simp_all

lemma job_eff_commute:
  assumes "job_fits rv Ds val j" "job_fits rv Ds val k" "job_file rv j = job_file rv k \<Longrightarrow> \<not> removes j \<and> \<not> removes k"
  shows "job_eff rv j (job_eff rv k V) = job_eff rv k (job_eff rv j V)"
  using assms by (cases j; cases k) (auto simp: fun_eq_iff)

lemma jobs_eff_commute1:
  assumes "job_fits rv Ds val j" "\<forall>k \<in> set ks. job_fits rv Ds val k" "apart rv [j] ks"
  shows "job_eff rv j (jobs_eff rv ks V) = jobs_eff rv ks (job_eff rv j V)"
  using assms(2,3)
proof (induction ks arbitrary: V)
  case (Cons k ks)
  then have "apart rv [j] ks" "job_file rv j = job_file rv k \<Longrightarrow> \<not> removes j \<and> \<not> removes k" by (auto simp: apart_def)
  then show ?case using Cons job_eff_commute [OF assms(1), of k] by simp
qed simp

lemma jobs_eff_commute:
  assumes "\<forall>j \<in> set js. job_fits rv Ds val j" "\<forall>k \<in> set ks. job_fits rv Ds val k" "apart rv js ks"
  shows "jobs_eff rv js (jobs_eff rv ks V) = jobs_eff rv ks (jobs_eff rv js V)"
  using assms(1,3)
proof (induction js arbitrary: V)
  case (Cons j js)
  then have "apart rv js ks" "apart rv [j] ks" by (auto simp: apart_def)
  then show ?case using Cons jobs_eff_commute1 [OF _ assms(2)] by simp
qed simp

text \<open>One call of a process with jobs left: it succeeds, and the invariants of both processes stay.\<close>

lemma proc_step:
  assumes ok: "fs_ok Ds y" and p: "proc_ok rv Ds val p (j # js) y" and q: "proc_ok rv Ds val q ks y" and "p \<noteq> q" and ap: "apart rv (j # js) ks"
  shows "\<exists>y'. do_call (pstep rv) p (fst (next_call j)) (snd (next_call j)) y = Inr y' \<and> fs_ok Ds y' \<and> view y' = call_eff rv j (view y)
    \<and> proc_ok rv Ds val p (next_jobs (j # js)) y' \<and> proc_ok rv Ds val q ks y'"
proof -
  have pq: "{p, q} = {Parent, Child}" using \<open>p \<noteq> q\<close> by (cases p; cases q) auto
  have p': "pf_open y p = opened rv (j # js)" "\<forall>i \<in> set js. \<not> pending i" "job_fits rv Ds val j" "\<forall>i \<in> set js. job_fits rv Ds val i"
    "job_pre rv j (view y)" "jobs_pre rv (j # js) (view y)" using p by (auto simp: proc_ok_def)
  have q': "pf_open y q = opened rv ks" "\<forall>k \<in> set ks. job_fits rv Ds val k" "jobs_pre rv ks (view y)" using q by (auto simp: proc_ok_def)
  have no: "\<not> pf_opened y (fst (job_file rv j)) (snd (job_file rv j))" if "removes j"
  proof -
    have "pf_open y p = None" using p'(1) that by (cases j) auto
    moreover have "(case pf_open y q of None \<Rightarrow> False | Some (D', f', _) \<Rightarrow> (D', f') = job_file rv j) \<Longrightarrow> False"
      using ap that q'(1) by (cases ks; cases "hd ks") (auto simp: apart_def)
    ultimately show ?thesis using pq unfolding pf_opened_def by (cases p; cases q) (auto split: option.splits prod.splits)
  qed
  have hd: "\<not> pending (hd js) \<or> js = []" using p'(2) by (cases js) auto
  obtain y' where y': "do_call (pstep rv) p (fst (next_call j)) (snd (next_call j)) y = Inr y'" "fs_ok Ds y'" "view y' = call_eff rv j (view y)"
    "pf_open y' = (pf_open y)(p := opened rv (next_jobs (j # js)))"
    using next_call_does [OF ok p'(3,5,1) hd no] by blast
  have "kept_for rv val ks (view y) (view y')"
    using ap p'(3) unfolding y'(3) by (cases j) (auto simp: apart_def kept_for_def)
  then have "jobs_pre rv ks (view y')" using jobs_pre_stable [OF q'(3,2)] by blast
  then have 1: "proc_ok rv Ds val q ks y'" using q y'(4) \<open>p \<noteq> q\<close> by (auto simp: proc_ok_def)
  have "\<forall>i \<in> set (next_jobs (j # js)). job_fits rv Ds val i" using p'(3,4) by (cases j) auto
  moreover have "\<forall>i \<in> set (tl (next_jobs (j # js))). \<not> pending i" using p'(2) by (cases j; cases js) auto
  ultimately have "proc_ok rv Ds val p (next_jobs (j # js)) y'" using jobs_pre_next [OF p'(6)] y'(3,4) by (simp add: proc_ok_def)
  then show ?thesis using y' 1 by blast
qed

text \<open>
  Both processes at work: the contents end as \<open>T\<close> says.  With the flag nothing is removed, and a file that is in \<open>T\<close> and not there yet
  is one the parent makes.
\<close>

fun makes :: "fjob \<Rightarrow> bool" where
  "makes (Mk d f b) = True"
| "makes (Wr d f b) = True"
| "makes _ = False"

definition pair_ok :: "(string \<Rightarrow> string) \<Rightarrow> string set \<Rightarrow> (string \<times> string \<Rightarrow> string) \<Rightarrow> view \<Rightarrow> bool \<Rightarrow> fjob list \<Rightarrow> fjob list \<Rightarrow> pfs \<Rightarrow> bool" where
  "pair_ok rv Ds val T B js ks y \<longleftrightarrow>
     fs_ok Ds y \<and> proc_ok rv Ds val Parent js y \<and> proc_ok rv Ds val Child ks y \<and> apart rv js ks \<and> jobs_eff rv ks (jobs_eff rv js (view y)) = T
     \<and> (B \<longrightarrow> (\<forall>j \<in> set js \<union> set ks. \<not> removes j) \<and> dom T \<subseteq> dom (view y) \<union> {job_file rv j |j. j \<in> set js \<and> makes j})"

lemma next_jobs_makes: "j \<in> set (next_jobs (i # js)) \<Longrightarrow> \<forall>j \<in> set (i # js). \<not> removes j \<Longrightarrow> \<not> removes j"
  by (cases i) auto

lemma dom_next:
  assumes "\<not> removes j"
  shows "dom V \<union> {job_file rv i |i. i \<in> set (j # js) \<and> makes i} \<subseteq> dom (call_eff rv j V) \<union> {job_file rv i |i. i \<in> set (next_jobs (j # js)) \<and> makes i}"
  using assms by (cases j) auto

lemma dom_call_eff: "\<not> removes j \<Longrightarrow> dom V \<subseteq> dom (call_eff rv j V)"
  by (cases j) auto

lemma pair_parent:
  assumes "pair_ok rv Ds val T B (j # js) ks y"
  shows "\<exists>y'. do_call (pstep rv) Parent (fst (next_call j)) (snd (next_call j)) y = Inr y' \<and> pair_ok rv Ds val T B (next_jobs (j # js)) ks y'"
proof -
  have a: "fs_ok Ds y" "proc_ok rv Ds val Parent (j # js) y" "proc_ok rv Ds val Child ks y" "apart rv (j # js) ks"
    "jobs_eff rv ks (jobs_eff rv (j # js) (view y)) = T"
    "B \<Longrightarrow> \<forall>i \<in> set (j # js) \<union> set ks. \<not> removes i" "B \<Longrightarrow> dom T \<subseteq> dom (view y) \<union> {job_file rv i |i. i \<in> set (j # js) \<and> makes i}"
    using assms by (auto simp: pair_ok_def)
  obtain y' where y': "do_call (pstep rv) Parent (fst (next_call j)) (snd (next_call j)) y = Inr y'" "fs_ok Ds y'" "view y' = call_eff rv j (view y)"
    "proc_ok rv Ds val Parent (next_jobs (j # js)) y'" "proc_ok rv Ds val Child ks y'"
    using proc_step [OF a(1-3) _ a(4)] by blast
  have "B \<Longrightarrow> \<forall>i \<in> set (next_jobs (j # js)) \<union> set ks. \<not> removes i" using a(6) next_jobs_makes by (metis Un_iff)
  moreover have "dom T \<subseteq> dom (view y') \<union> {job_file rv i |i. i \<in> set (next_jobs (j # js)) \<and> makes i}" if B
  proof -
    have "\<not> removes j" using a(6) [OF that] by simp
    then show ?thesis unfolding y'(3) by (intro subset_trans [OF a(7) [OF that] dom_next])
  qed
  ultimately have "pair_ok rv Ds val T B (next_jobs (j # js)) ks y'"
    unfolding pair_ok_def using y' a(5) apart_next [OF a(4)] by (simp add: jobs_eff_next del: jobs_eff_Cons)
  then show ?thesis using y'(1) by blast
qed

lemma pair_child:
  assumes "pair_ok rv Ds val T B js (k # ks) y"
  shows "\<exists>y'. do_call (pstep rv) Child (fst (next_call k)) (snd (next_call k)) y = Inr y' \<and> pair_ok rv Ds val T B js (next_jobs (k # ks)) y'"
proof -
  have a: "fs_ok Ds y" "proc_ok rv Ds val Child (k # ks) y" "proc_ok rv Ds val Parent js y" "apart rv (k # ks) js"
    "jobs_eff rv (k # ks) (jobs_eff rv js (view y)) = T"
    "B \<Longrightarrow> \<forall>i \<in> set js \<union> set (k # ks). \<not> removes i" "B \<Longrightarrow> dom T \<subseteq> dom (view y) \<union> {job_file rv i |i. i \<in> set js \<and> makes i}"
    using assms by (auto simp: pair_ok_def apart_sym)
  obtain y' where y': "do_call (pstep rv) Child (fst (next_call k)) (snd (next_call k)) y = Inr y'" "fs_ok Ds y'" "view y' = call_eff rv k (view y)"
    "proc_ok rv Ds val Child (next_jobs (k # ks)) y'" "proc_ok rv Ds val Parent js y'"
    using proc_step [OF a(1-3) _ a(4)] by blast
  have f: "\<forall>j \<in> set js. job_fits rv Ds val j" "\<forall>j \<in> set (k # ks). job_fits rv Ds val j" "\<forall>j \<in> set (next_jobs (k # ks)). job_fits rv Ds val j"
    using a(2,3) y'(4) by (auto simp: proc_ok_def)
  have "jobs_eff rv (next_jobs (k # ks)) (jobs_eff rv js (view y')) = jobs_eff rv js (jobs_eff rv (k # ks) (view y))"
    using jobs_eff_commute [OF f(3,1) apart_next [OF a(4)]] y'(3) by (simp add: jobs_eff_next del: jobs_eff_Cons)
  also have "\<dots> = T" using jobs_eff_commute [OF f(2,1) a(4)] a(5) by simp
  finally have e: "jobs_eff rv (next_jobs (k # ks)) (jobs_eff rv js (view y')) = T" .
  have "B \<Longrightarrow> \<forall>i \<in> set js \<union> set (next_jobs (k # ks)). \<not> removes i" using a(6) next_jobs_makes by (metis Un_iff)
  moreover have "dom T \<subseteq> dom (view y') \<union> {job_file rv i |i. i \<in> set js \<and> makes i}" if B
  proof -
    have "\<not> removes k" using a(6) [OF that] by simp
    then show ?thesis unfolding y'(3) using dom_call_eff [of k "view y" rv] a(7) [OF that] by blast
  qed
  ultimately have "pair_ok rv Ds val T B js (next_jobs (k # ks)) y'"
    unfolding pair_ok_def using y' e apart_next [OF a(4)] by (simp add: apart_sym)
  then show ?thesis using y'(1) by blast
qed

text \<open>The child makes its calls and exits.\<close>

definition child_at :: "fjob list \<Rightarrow> child \<Rightarrow> bool" where
  "child_at ks C \<longleftrightarrow> C = Running (jobs_calls ks) \<or> ks = [] \<and> C = Exited 0"

lemma child_step:
  assumes "pair_ok rv Ds val T B js ks y" "child_at ks C"
  shows "\<exists>y' ks' C'. ft_step (pstep rv) Child (fstate y P (Some C)) = Inr (fstate y' P (Some C')) \<and> pair_ok rv Ds val T B js ks' y' \<and> child_at ks' C'"
proof (cases ks)
  case Nil
  then have "ft_step (pstep rv) Child (fstate y P (Some C)) = Inr (fstate y P (Some (Exited 0)))"
    using assms(2) by (auto simp: child_at_def ft_step.simps)
  then show ?thesis using assms(1) Nil unfolding child_at_def by blast
next
  case (Cons k ks')
  obtain y' where y': "do_call (pstep rv) Child (fst (next_call k)) (snd (next_call k)) y = Inr y'" "pair_ok rv Ds val T B js (next_jobs ks) y'"
    using pair_child assms(1) Cons by blast
  have "ft_step (pstep rv) Child (fstate y P (Some C)) = Inr (fstate y' P (Some (Running (jobs_calls (next_jobs ks)))))"
    using assms(2) y'(1) Cons by (cases "next_call k") (auto simp: child_at_def ft_step.simps jobs_calls_Cons)
  then show ?thesis using y'(2) unfolding child_at_def by blast
qed

text \<open>
  The parent's jobs beside those of the child, where the parent goes on with \<open>Q\<close>: it is enough that \<open>Q\<close> can do its first step or wait for as long as the
  child has anything left to do.
\<close>

lemma pair_safe:
  assumes "pair_ok rv Ds val T B js ks y" "child_at ks C"
    and Q: "\<And>ks y C. pair_ok rv Ds val T B [] ks y \<Longrightarrow> child_at ks C \<Longrightarrow>
      \<exists>s. ft_step (pstep rv) Parent (fstate y Q (Some C)) = Inr s \<and> (s = fstate y Q (Some C) \<or> safe (pstep rv) s)"
  shows "safe (pstep rv) (fstate y (map Do (jobs_calls js) @ Q) (Some C))"
proof -
  define X where "X s \<longleftrightarrow> (\<exists>js ks y C. s = fstate y (map Do (jobs_calls js) @ Q) (Some C) \<and> pair_ok rv Ds val T B js ks y \<and> child_at ks C)" for s
  have "\<not> unhappy s \<and> (\<exists>s'. ft_step (pstep rv) p s = Inr s' \<and> (X s' \<or> safe (pstep rv) s'))" if "X s" for s p
  proof -
    obtain js ks y C where s: "s = fstate y (map Do (jobs_calls js) @ Q) (Some C)" "pair_ok rv Ds val T B js ks y" "child_at ks C"
      using \<open>X s\<close> unfolding X_def by blast
    have u: "\<not> unhappy s" using s(1,3) by (auto simp: unhappy_def child_at_def)
    show ?thesis
    proof (cases p)
      case Child
      obtain y' ks' C' where c: "ft_step (pstep rv) Child s = Inr (fstate y' (map Do (jobs_calls js) @ Q) (Some C'))" "pair_ok rv Ds val T B js ks' y'" "child_at ks' C'"
        using child_step [OF s(2,3)] s(1) by metis
      then have "X (fstate y' (map Do (jobs_calls js) @ Q) (Some C'))" unfolding X_def by blast
      then show ?thesis using u c(1) Child by blast
    next
      case Parent
      show ?thesis
      proof (cases js)
        case Nil
        then have e: "s = fstate y Q (Some C)" using s(1) by simp
        obtain s' where "ft_step (pstep rv) Parent s = Inr s'" "s' = s \<or> safe (pstep rv) s'"
          using Q [OF s(2) [unfolded Nil] s(3)] e by blast
        then show ?thesis using u Parent \<open>X s\<close> by blast
      next
        case (Cons j js')
        then obtain y' where y': "do_call (pstep rv) Parent (fst (next_call j)) (snd (next_call j)) y = Inr y'" "pair_ok rv Ds val T B (next_jobs js) ks y'"
          using pair_parent s(2) by blast
        have "ft_step (pstep rv) Parent s = Inr (fstate y' (map Do (jobs_calls (next_jobs js)) @ Q) (Some C))"
          using y'(1) Cons s(1) by (cases "next_call j") (simp add: ft_step.simps jobs_calls_Cons)
        then show ?thesis using u Parent y'(2) s(3) unfolding X_def by blast
      qed
    qed
  qed
  moreover have "X (fstate y (map Do (jobs_calls js) @ Q) (Some C))" using assms(1,2) unfolding X_def by blast
  ultimately show ?thesis by (intro safe.coinduct [of X]) blast+
qed

subsection \<open>Tests that pass\<close>

text \<open>Between the tests no file is open and there is no child.  A test passes when it leads from any such state safely to another.\<close>

definition at_rest :: "string set \<Rightarrow> view \<Rightarrow> pfs \<Rightarrow> bool" where
  "at_rest Ds V y \<longleftrightarrow> fs_ok Ds y \<and> view y = V \<and> pf_open y Parent = None \<and> pf_open y Child = None"

definition passes :: "(string \<Rightarrow> string) \<Rightarrow> string set \<Rightarrow> view \<Rightarrow> fcmd list \<Rightarrow> view \<Rightarrow> bool" where
  "passes rv Ds V P V' \<longleftrightarrow>
     (\<forall>y Q. at_rest Ds V y \<longrightarrow> (\<forall>y'. at_rest Ds V' y' \<longrightarrow> safe (pstep rv) (fstate y' Q None)) \<longrightarrow> safe (pstep rv) (fstate y (P @ Q) None))"

lemma passes_append: "passes rv Ds V P V' \<Longrightarrow> passes rv Ds V' P' V'' \<Longrightarrow> passes rv Ds V (P @ P') V''"
  unfolding passes_def by (metis append_assoc)

lemma passes_Nil: "passes rv Ds V [] V"
  by (simp add: passes_def)

lemma passes_safe: "passes rv Ds V P V' \<Longrightarrow> at_rest Ds V y \<Longrightarrow> safe (pstep rv) (fstate y P None)"
  unfolding passes_def using safe_done by (metis append.right_neutral)

lemma in_tl: "x \<in> set (tl xs) \<Longrightarrow> x \<in> set xs"
  by (cases xs) auto

lemma opened_plain: "\<forall>j \<in> set js. \<not> pending j \<Longrightarrow> opened rv js = None"
  by (cases js; cases "hd js") auto

lemma quiet_jobs:
  assumes "at_rest Ds V y" "\<forall>j \<in> set js \<union> set ks. job_fits rv Ds val j \<and> \<not> pending j" "jobs_pre rv js V" "jobs_pre rv ks V" "apart rv js ks"
    and "T = jobs_eff rv ks (jobs_eff rv js V)" "B \<longrightarrow> (\<forall>j \<in> set js \<union> set ks. \<not> removes j) \<and> dom T \<subseteq> dom V \<union> job_file rv ` set js"
  shows "pair_ok rv Ds val T B js ks y"
proof -
  have j: "\<forall>j \<in> set js. \<not> pending j" "\<forall>j \<in> set ks. \<not> pending j" using assms(2) by auto
  have p: "proc_ok rv Ds val Parent js y" "proc_ok rv Ds val Child ks y"
    using assms(1-4) opened_plain [OF j(1)] opened_plain [OF j(2)] j by (auto simp: proc_ok_def at_rest_def dest: in_tl)
  have "makes j" if "\<not> removes j" "\<not> pending j" for j using that by (cases j) auto
  then have "B \<Longrightarrow> job_file rv ` set js \<subseteq> {job_file rv j |j. j \<in> set js \<and> makes j}" using assms(7) j(1) by blast
  then have "B \<Longrightarrow> dom T \<subseteq> dom V \<union> {job_file rv j |j. j \<in> set js \<and> makes j}" using assms(7) by blast
  then show ?thesis using assms(1,5,6,7) p by (simp add: pair_ok_def at_rest_def)
qed

lemma pair_quiet: "pair_ok rv Ds val T B [] [] y \<Longrightarrow> at_rest Ds T y"
  by (simp add: pair_ok_def proc_ok_def at_rest_def)

text \<open>Creating and removing files, by one process and by two.\<close>

lemma passes_jobs:
  assumes "\<forall>j \<in> set js. job_fits rv Ds val j \<and> \<not> pending j" "jobs_pre rv js V"
  shows "passes rv Ds V (map Do (jobs_calls js)) (jobs_eff rv js V)"
proof -
  have "safe (pstep rv) (fstate y (map Do (jobs_calls js) @ Q) None)"
    if "pair_ok rv Ds val T B js [] y" "\<forall>y'. at_rest Ds T y' \<longrightarrow> safe (pstep rv) (fstate y' Q None)" for js y Q T B
    using that
  proof (induction "jobs_calls js" arbitrary: js y)
    case Nil
    then have "js = []" by (cases js) (simp_all add: jobs_calls_Cons)
    then show ?case using Nil pair_quiet by simp
  next
    case (Cons c cs)
    then obtain j ks where j: "js = j # ks" by (cases js) auto
    then obtain y' where y': "do_call (pstep rv) Parent (fst (next_call j)) (snd (next_call j)) y = Inr y'" "pair_ok rv Ds val T B (next_jobs js) [] y'"
      using pair_parent Cons.prems(1) by blast
    have "safe (pstep rv) (fstate y' (map Do (jobs_calls (next_jobs js)) @ Q) None)"
      using Cons j y'(2) by (intro Cons.hyps(1)) (simp_all add: jobs_calls_Cons)
    then show ?case using safe_call [OF y'(1)] j by (simp add: jobs_calls_Cons)
  qed
  moreover have "pair_ok rv Ds val (jobs_eff rv js V) False js [] y" if "at_rest Ds V y" for y
    by (rule quiet_jobs [OF that]) (use assms in \<open>simp_all add: apart_def\<close>)
  ultimately show ?thesis unfolding passes_def by blast
qed

lemma reap_waits:
  assumes "\<forall>y'. at_rest Ds T y' \<longrightarrow> safe (pstep rv) (fstate y' Q None)" "pair_ok rv Ds val T B [] ks y" "child_at ks C"
  shows "\<exists>s. ft_step (pstep rv) Parent (fstate y (Reap # Q) (Some C)) = Inr s \<and> (s = fstate y (Reap # Q) (Some C) \<or> safe (pstep rv) s)"
  using assms pair_quiet by (fastforce simp: child_at_def ft_step.simps reap_def)

lemma passes_fork:
  assumes "\<forall>j \<in> set js \<union> set ks. job_fits rv Ds val j \<and> \<not> pending j" "jobs_pre rv js V" "jobs_pre rv ks V" "apart rv js ks"
  shows "passes rv Ds V (Fork (jobs_calls ks) # map Do (jobs_calls js) @ [Reap]) (jobs_eff rv ks (jobs_eff rv js V))"
  unfolding passes_def
proof (intro allI impI)
  fix y Q assume y: "at_rest Ds V y" and Q: "\<forall>y'. at_rest Ds (jobs_eff rv ks (jobs_eff rv js V)) y' \<longrightarrow> safe (pstep rv) (fstate y' Q None)"
  have "pair_ok rv Ds val (jobs_eff rv ks (jobs_eff rv js V)) False js ks y" using assms by (intro quiet_jobs [OF y]) auto
  then have "safe (pstep rv) (fstate y (map Do (jobs_calls js) @ Reap # Q) (Some (Running (jobs_calls ks))))"
    by (rule pair_safe) (use reap_waits [OF Q] in \<open>auto simp: child_at_def\<close>)
  then show "safe (pstep rv) (fstate y ((Fork (jobs_calls ks) # map Do (jobs_calls js) @ [Reap]) @ Q) None)"
    by (intro safeI) (simp_all add: unhappy_def ft_step.simps)
qed

text \<open>Listing a directory: with no other names than those that are to be counted.\<close>

definition listing :: "view \<Rightarrow> string \<Rightarrow> nat \<Rightarrow> bool" where
  "listing V D nf \<longleftrightarrow> card {f. V (D, f) \<noteq> None} = nf \<and> nf \<le> MAX_NAMES \<and> (\<forall>f. V (D, f) \<noteq> None \<longrightarrow> \<not> (f \<noteq> [] \<and> hd f = CHR ''.''))"

lemma distinct_adjI: "distinct xs \<Longrightarrow> distinct_adj xs"
  by (induction xs rule: induct_list012) auto

lemma list_accepted:
  assumes "sm_ok m" "\<forall>f. V (D, f) \<noteq> None \<longleftrightarrow> mfind m f \<noteq> None" "listing V D nf"
  shows "accepts (Entries nf) (PNames (mset (''.'' # ''..'' # map fst m)))"
proof -
  have d: "distinct (map fst m)" using assms(1) by (simp add: sm_ok_def strict_sorted_iff)
  have k: "{f. V (D, f) \<noteq> None} = set (map fst m)" using assms(2) by (auto simp: mfind_def map_of_eq_None_iff)
  have "\<forall>f \<in> set (map fst m). \<not> (f \<noteq> [] \<and> hd f = CHR ''.'')" using assms(3) k by (auto simp: listing_def)
  then have "filter (\<lambda>n. \<not> (n \<noteq> [] \<and> hd n = CHR ''.'')) (''.'' # ''..'' # map fst m) = map fst m" by (simp add: filter_id_conv)
  then have "shown (mset (''.'' # ''..'' # map fst m)) = sort (map fst m)"
    unfolding shown_def mset_filter [symmetric] by (simp only: sorted_list_of_multiset_mset)
  moreover have "length (map fst m) = nf" using assms(3) k distinct_card [OF d] by (simp add: listing_def)
  ultimately show ?thesis using assms(3) d distinct_adjI [of "sort (map fst m)"] by (simp add: listing_def)
qed

lemma do_list:
  assumes "fs_ok Ds y" "rv d \<in> Ds" "listing V (rv d) nf" "dom V = dom (view y)"
  shows "do_call (pstep rv) p (PList d) (Entries nf) y = Inr y"
proof -
  obtain m where m: "pf_dirs y (rv d) = Some m" "sm_ok m" using assms(1,2) unfolding fs_ok_def by blast
  have "\<forall>f. V (rv d, f) \<noteq> None \<longleftrightarrow> mfind m f \<noteq> None"
    using assms(4) m(1) by (auto simp: view_def pf_file_def dom_def set_eq_iff)
  then show ?thesis using list_accepted [OF m(2) _ assms(3)] m(1) by (simp add: do_call_def)
qed

lemma passes_dircheck: "rv d \<in> Ds \<Longrightarrow> listing V (rv d) nf \<Longrightarrow> passes rv Ds V (map Do (dircheck d nf)) V"
  by (auto simp: passes_def at_rest_def dircheck_def intro!: safe_call [OF do_list [of Ds _ rv d V nf]])

text \<open>Two processes that only create, where the parent lists the directory before it waits for the child.\<close>

lemma pair_dom: "pair_ok rv Ds val T True [] ks y \<Longrightarrow> dom (view y) = dom T"
proof -
  assume ok: "pair_ok rv Ds val T True [] ks y"
  have "dom V \<subseteq> dom (jobs_eff rv ks V)" if "\<forall>k \<in> set ks. \<not> removes k" for V
    using that
  proof (induction ks arbitrary: V)
    case (Cons k ks)
    have "dom V \<subseteq> dom (job_eff rv k V)" using Cons.prems by (cases k) auto
    then show ?case using Cons.IH [of "job_eff rv k V"] Cons.prems by auto
  qed simp
  then show ?thesis using ok by (auto simp: pair_ok_def)
qed

lemma passes_fork_list:
  assumes "\<forall>j \<in> set js \<union> set ks. job_fits rv Ds val j \<and> \<not> pending j \<and> \<not> removes j" "jobs_pre rv js V" "jobs_pre rv ks V"
    and T: "T = jobs_eff rv ks (jobs_eff rv js V)" "dom T \<subseteq> dom V \<union> job_file rv ` set js" "rv d \<in> Ds" "listing T (rv d) nf"
  shows "passes rv Ds V (Fork (jobs_calls ks) # map Do (jobs_calls js) @ map Do (dircheck d nf) @ [Reap]) T"
  unfolding passes_def
proof (intro allI impI)
  fix y Q assume y: "at_rest Ds V y" and Q: "\<forall>y'. at_rest Ds T y' \<longrightarrow> safe (pstep rv) (fstate y' Q None)"
  have ap: "apart rv js ks" using assms(1) by (auto simp: apart_def)
  have ok: "pair_ok rv Ds val T True js ks y" using assms ap by (intro quiet_jobs [OF y]) auto
  have wait: "safe (pstep rv) (fstate y (Reap # Q) (Some C))" if "pair_ok rv Ds val T True [] ks y" "child_at ks C" for ks y C
    using pair_safe [OF that reap_waits [OF Q]] by simp
  have "\<exists>s. ft_step (pstep rv) Parent (fstate y (Do (PList d, Entries nf) # Reap # Q) (Some C)) = Inr s
    \<and> (s = fstate y (Do (PList d, Entries nf) # Reap # Q) (Some C) \<or> safe (pstep rv) s)"
    if "pair_ok rv Ds val T True [] ks y" "child_at ks C" for ks y C
    using do_list [where rv = rv and d = d and V = T, OF _ T(3,4), of y] pair_dom [OF that(1)] that(1) wait [OF that] by (simp add: ft_step.simps pair_ok_def)
  then have "safe (pstep rv) (fstate y (map Do (jobs_calls js) @ Do (PList d, Entries nf) # Reap # Q) (Some (Running (jobs_calls ks))))"
    by (intro pair_safe [OF ok]) (auto simp: child_at_def)
  then show "safe (pstep rv) (fstate y ((Fork (jobs_calls ks) # map Do (jobs_calls js) @ map Do (dircheck d nf) @ [Reap]) @ Q) None)"
    by (intro safeI) (simp_all add: unhappy_def ft_step.simps dircheck_def)
qed

text \<open>Reading a file back, and appending to it.\<close>

lemma do_open:
  assumes "at_rest Ds V y" "V (rv d, f) = Some c" "path_len d f < PATH_SZ"
  shows "do_call (pstep rv) Parent (POpen d f a) Succeeds y = Inr (y\<lparr>pf_open := (pf_open y)(Parent \<mapsto> (rv d, f, 0, a))\<rparr>)"
    "pf_file y (rv d) f = Some c"
  using assms by (auto simp: do_call_def at_rest_def view_def)

lemma passes_read:
  assumes "V (rv d, f) = Some c" "path_len d f < PATH_SZ" "accepts e (PBytes (take n c))"
  shows "passes rv Ds V [Do (POpen d f False, Succeeds), Do (PRead n, e), Do (PClose, Any)] V"
  unfolding passes_def
proof (intro allI impI)
  fix y Q assume y: "at_rest Ds V y" and Q: "\<forall>y'. at_rest Ds V y' \<longrightarrow> safe (pstep rv) (fstate y' Q None)"
  let ?y1 = "y\<lparr>pf_open := (pf_open y)(Parent \<mapsto> (rv d, f, 0, False))\<rparr>"
  let ?y2 = "y\<lparr>pf_open := (pf_open y)(Parent \<mapsto> (rv d, f, length (take n c), False))\<rparr>"
  let ?y3 = "y\<lparr>pf_open := (pf_open y)(Parent := None)\<rparr>"
  have 1: "do_call (pstep rv) Parent (POpen d f False) Succeeds y = Inr ?y1" by (rule do_open(1) [where rv = rv, OF y assms(1,2)])
  have 2: "do_call (pstep rv) Parent (PRead n) e ?y1 = Inr ?y2"
    using do_open(2) [where rv = rv, OF y assms(1,2)] assms(3) by (simp add: do_call_def pf_file_def Let_def)
  have 3: "do_call (pstep rv) Parent PClose Any ?y2 = Inr ?y3" by (simp add: do_call_def)
  have "at_rest Ds V ?y3" using y by (simp add: at_rest_def)
  then have "safe (pstep rv) (fstate ?y3 Q None)" using Q by blast
  then show "safe (pstep rv) (fstate y ([Do (POpen d f False, Succeeds), Do (PRead n, e), Do (PClose, Any)] @ Q) None)"
    using safe_call [OF 1 safe_call [OF 2 safe_call [OF 3]]] by simp
qed

lemma passes_append1:
  assumes "V (rv d, f) = Some c" "path_len d f < PATH_SZ"
  shows "passes rv Ds V (map Do (append1 d f s)) (V((rv d, f) \<mapsto> c @ s))"
  unfolding passes_def
proof (intro allI impI)
  fix y Q assume y: "at_rest Ds V y" and Q: "\<forall>y'. at_rest Ds (V((rv d, f) \<mapsto> c @ s)) y' \<longrightarrow> safe (pstep rv) (fstate y' Q None)"
  let ?y1 = "y\<lparr>pf_open := (pf_open y)(Parent \<mapsto> (rv d, f, 0, True))\<rparr>"
  let ?y2 = "(pf_put (rv d) f (c @ s) y)\<lparr>pf_open := (pf_open y)(Parent \<mapsto> (rv d, f, length c + length s, True))\<rparr>"
  let ?y3 = "(pf_put (rv d) f (c @ s) y)\<lparr>pf_open := (pf_open y)(Parent := None)\<rparr>"
  have D: "pf_dirs y (rv d) \<noteq> None" using do_open(2) [where rv = rv, OF y assms(1,2)] by (auto simp: pf_file_def split: option.splits)
  have sp: "splice (length c) s c = c @ s" by (simp add: splice_def pad_def)
  have 1: "do_call (pstep rv) Parent (POpen d f True) Succeeds y = Inr ?y1" by (rule do_open(1) [where rv = rv, OF y assms(1,2)])
  have 2: "do_call (pstep rv) Parent (PWrite s) (Counts (length s)) ?y1 = Inr ?y2"
    using do_open(2) [where rv = rv, OF y assms(1,2)] by (simp add: do_call_def pf_file_def pf_put_def Let_def sp)
  have 3: "do_call (pstep rv) Parent PClose Succeeds ?y2 = Inr ?y3" by (simp add: do_call_def)
  have "at_rest Ds (V((rv d, f) \<mapsto> c @ s)) ?y3" using y D by (simp add: at_rest_def view_put fs_ok_put)
  then have "safe (pstep rv) (fstate ?y3 Q None)" using Q by blast
  then show "safe (pstep rv) (fstate y (map Do (append1 d f s) @ Q) None)"
    using safe_call [OF 1 safe_call [OF 2 safe_call [OF 3]]] by (simp add: append1_def)
qed

lemma passes_checknot:
  assumes "V (rv d, f) = None" "path_len d f < PATH_SZ"
  shows "passes rv Ds V (map Do (checknot d f)) V"
proof -
  have "do_call (pstep rv) Parent (POpen d f False) Fails y = Inr y" if "at_rest Ds V y" for y
    using that assms by (auto simp: do_call_def at_rest_def view_def)
  then show ?thesis by (auto simp: passes_def checknot_def intro!: safe_call)
qed

lemma passes_seq: "passes rv Ds V (map Do P) V' \<Longrightarrow> passes rv Ds V' (map Do P') V'' \<Longrightarrow> passes rv Ds V (map Do (P @ P')) V''"
  using passes_append by simp

lemma passes_eq: "passes rv Ds V P V' \<Longrightarrow> V' = V'' \<Longrightarrow> passes rv Ds V P V''"
  by simp

lemma passes_create1: "path_len d f < PATH_SZ \<Longrightarrow> rv d \<in> Ds \<Longrightarrow> passes rv Ds V (map Do (create1 d f s)) (V((rv d, f) \<mapsto> s))"
  using passes_jobs [of "[Mk d f s]" rv Ds "\<lambda>_. s" V] by (simp add: jobs_calls_def)

lemma passes_unlink1: "V (rv d, f) \<noteq> None \<Longrightarrow> path_len d f < PATH_SZ \<Longrightarrow> rv d \<in> Ds \<Longrightarrow> passes rv Ds V (map Do (unlink1 d f)) (V((rv d, f) := None))"
  using passes_jobs [of "[Rm d f]" rv Ds undefined V] by (simp add: jobs_calls_def)

lemma passes_check1: "V (rv d, f) = Some s \<Longrightarrow> length s < sz \<Longrightarrow> path_len d f < PATH_SZ \<Longrightarrow> passes rv Ds V (map Do (check1 sz d f s)) V"
  using passes_read [of V rv d f s "Reads (path_len d f) s" "sz - 1" Ds] by (simp add: check1_def)

lemmas passes_one = passes_create1 passes_unlink1 passes_check1 passes_checknot passes_append1 passes_dircheck

text \<open>The numbered files of a prefix.\<close>

definition mkn :: "string \<Rightarrow> string \<Rightarrow> nat \<Rightarrow> fjob list" where
  "mkn d prefix nf = map (\<lambda>i. Mk d (numbered prefix i) (int_bytes i)) [0 ..< nf]"

definition rmn :: "string \<Rightarrow> string \<Rightarrow> nat \<Rightarrow> fjob list" where
  "rmn d prefix nf = map (\<lambda>i. Rm d (numbered prefix i)) [0 ..< nf]"

definition nums :: "string \<Rightarrow> string \<Rightarrow> nat \<Rightarrow> (string \<times> string) set" where
  "nums D prefix nf = (\<lambda>i. (D, numbered prefix i)) ` {..< nf}"

definition num_val :: "string \<times> string \<Rightarrow> string" where
  "num_val x = int_bytes (digits_val (drop 3 (snd x)))"

lemma length_int_bytes [simp]: "length (int_bytes i) = 4"
  by (simp add: int_bytes_def)

lemma createn_jobs: "createn d prefix nf = jobs_calls (mkn d prefix nf)"
  by (simp add: createn_def mkn_def jobs_calls_def comp_def create1_def)

lemma unlinkn_jobs: "unlinkn d prefix nf = jobs_calls (rmn d prefix nf)"
  by (simp add: unlinkn_def rmn_def jobs_calls_def comp_def unlink1_def)

lemma numbered_eq: "length p = length q \<Longrightarrow> numbered p i = numbered q j \<longleftrightarrow> p = q \<and> i = j"
  unfolding numbered_def using digits_val_show by (metis append_eq_append_conv same_append_eq)

lemma num_val_numbered: "length p = 2 \<Longrightarrow> num_val (D, numbered p i) = int_bytes i"
  by (simp add: num_val_def numbered_def digits_val_show)

lemma nums_Suc: "nums D p (Suc nf) = insert (D, numbered p nf) (nums D p nf)"
  by (auto simp: nums_def lessThan_Suc)

lemma nums_iff: "length p = length q \<Longrightarrow> (D, numbered p i) \<in> nums E q nf \<longleftrightarrow> D = E \<and> p = q \<and> i < nf"
  by (auto simp: nums_def numbered_eq)

lemma mkn_Suc: "mkn d p (Suc nf) = mkn d p nf @ [Mk d (numbered p nf) (int_bytes nf)]" "rmn d p (Suc nf) = rmn d p nf @ [Rm d (numbered p nf)]"
  by (simp_all add: mkn_def rmn_def)

lemma eff_mkn: "length p = 2 \<Longrightarrow> jobs_eff rv (mkn d p nf) V = (\<lambda>x. if x \<in> nums (rv d) p nf then Some (num_val x) else V x)"
  by (induction nf) (auto simp: mkn_Suc nums_Suc jobs_eff_append num_val_numbered fun_eq_iff, simp_all add: mkn_def nums_def)

lemma eff_rmn: "jobs_eff rv (rmn d p nf) V = (\<lambda>x. if x \<in> nums (rv d) p nf then None else V x)"
  by (induction nf) (auto simp: mkn_Suc nums_Suc jobs_eff_append fun_eq_iff, simp_all add: rmn_def nums_def)

lemma jobs_pre_append: "jobs_pre rv (js @ ks) V \<longleftrightarrow> jobs_pre rv js V \<and> jobs_pre rv ks (jobs_eff rv js V)"
  by (induction js arbitrary: V) auto

lemma pre_mkn: "jobs_pre rv (mkn d p nf) V"
  by (induction nf) (auto simp: mkn_Suc jobs_pre_append, simp add: mkn_def)

lemma pre_rmn: "nums (rv d) p nf \<subseteq> dom V \<Longrightarrow> jobs_pre rv (rmn d p nf) V"
  by (induction nf) (auto simp: mkn_Suc jobs_pre_append eff_rmn nums_Suc nums_iff, simp add: rmn_def)

lemma length_show: "n < 100 \<Longrightarrow> length (show_nat n) \<le> 2"
  by (subst show_nat.simps, subst show_nat.simps) auto

lemma path_numbered: "length p = 2 \<Longrightarrow> nf \<le> 100 \<Longrightarrow> length d < 500 \<Longrightarrow> i < nf \<Longrightarrow> path_len d (numbered p i) < PATH_SZ"
  using length_show [of i] by (simp add: path_len_def numbered_def PATH_SZ_def)

lemma fits_mkn: "length p = 2 \<Longrightarrow> nf \<le> 100 \<Longrightarrow> length d < 500 \<Longrightarrow> rv d \<in> Ds \<Longrightarrow> j \<in> set (mkn d p nf) \<Longrightarrow> job_fits rv Ds num_val j \<and> \<not> pending j \<and> \<not> removes j"
  by (auto simp: mkn_def num_val_numbered path_numbered)

lemma fits_rmn: "length p = 2 \<Longrightarrow> nf \<le> 100 \<Longrightarrow> length d < 500 \<Longrightarrow> rv d \<in> Ds \<Longrightarrow> j \<in> set (rmn d p nf) \<Longrightarrow> job_fits rv Ds num_val j \<and> \<not> pending j"
  by (auto simp: rmn_def path_numbered)

lemma fits_mkns: "length p = 2 \<Longrightarrow> nf \<le> 100 \<Longrightarrow> length d < 500 \<Longrightarrow> rv d \<in> Ds \<Longrightarrow> \<forall>j \<in> set (mkn d p nf). job_fits rv Ds num_val j \<and> \<not> pending j"
  by (simp add: fits_mkn)

lemma fits_rmns: "length p = 2 \<Longrightarrow> nf \<le> 100 \<Longrightarrow> length d < 500 \<Longrightarrow> rv d \<in> Ds \<Longrightarrow> \<forall>j \<in> set (rmn d p nf). job_fits rv Ds num_val j \<and> \<not> pending j"
  by (simp add: fits_rmn)

text \<open>The view after creating and after removing numbered files.\<close>

definition putn :: "string \<Rightarrow> string \<Rightarrow> nat \<Rightarrow> view \<Rightarrow> view" where
  "putn D prefix nf V = (\<lambda>x. if x \<in> nums D prefix nf then Some (num_val x) else V x)"

definition deln :: "string \<Rightarrow> string \<Rightarrow> nat \<Rightarrow> view \<Rightarrow> view" where
  "deln D prefix nf V = (\<lambda>x. if x \<in> nums D prefix nf then None else V x)"

lemma dom_putn: "dom (putn D p nf V) = nums D p nf \<union> dom V" "dom (deln D p nf V) = dom V - nums D p nf"
  by (auto simp: putn_def deln_def dom_def)

lemma passes_createn:
  assumes "length p = 2" "nf \<le> 100" "length d < 500" "rv d \<in> Ds"
  shows "passes rv Ds V (map Do (createn d p nf)) (putn (rv d) p nf V)"
  unfolding createn_jobs putn_def eff_mkn [OF assms(1), symmetric] by (intro passes_jobs [where val = num_val] pre_mkn fits_mkns) (use assms in simp_all)

lemma passes_unlinkn:
  assumes "length p = 2" "nf \<le> 100" "length d < 500" "rv d \<in> Ds" "nums (rv d) p nf \<subseteq> dom V"
  shows "passes rv Ds V (map Do (unlinkn d p nf)) (deln (rv d) p nf V)"
  unfolding unlinkn_jobs deln_def eff_rmn [symmetric] by (intro passes_jobs [where val = num_val] pre_rmn fits_rmns) (use assms in simp_all)

lemma passes_checkn:
  assumes "length p = 2" "nf \<le> 100" "length d < 500" "\<forall>x \<in> nums (rv d) p nf. V x = Some (num_val x)"
  shows "passes rv Ds V (map Do (checkn d p nf)) V"
proof -
  have "passes rv Ds V (map Do (checkn d p k)) V" if "k \<le> nf" for k
    using that
  proof (induction k)
    case 0 then show ?case by (simp add: checkn_def passes_Nil)
  next
    case (Suc k)
    then have "V (rv d, numbered p k) = Some (int_bytes k)" using assms(1,4) num_val_numbered by (auto simp: nums_def)
    then have "passes rv Ds V [Do (POpen d (numbered p k) False, Succeeds), Do (PRead 4, ReadsInt k), Do (PClose, Any)] V"
      using Suc.prems by (intro passes_read [where c = "int_bytes k"] path_numbered [OF assms(1-3)]) simp_all
    then show ?case using passes_append [OF Suc.IH] Suc.prems by (simp add: checkn_def)
  qed
  then show ?thesis by simp
qed

lemmas passes_nums = passes_createn passes_unlinkn passes_checkn

lemma apart_append: "apart rv (js @ js') ks \<longleftrightarrow> apart rv js ks \<and> apart rv js' ks" "apart rv ks (js @ js') \<longleftrightarrow> apart rv ks js \<and> apart rv ks js'"
  by (auto simp: apart_def)

lemma apart_mkn: "apart rv (mkn d p nf) (mkn d' q kf)"
  by (auto simp: apart_def mkn_def)

lemma apart_rmn:
  assumes "length p = length q" "p \<noteq> q"
  shows "apart rv (mkn d p nf) (rmn d' q kf)" "apart rv (rmn d p nf) (mkn d' q kf)" "apart rv (rmn d p nf) (rmn d' q kf)"
  using assms by (auto simp: apart_def mkn_def rmn_def numbered_eq)

lemma passes_createn_fork:
  assumes "length p = 2" "length q = 2" "nf \<le> 100" "length d < 500" "length d' < 500" "rv d \<in> Ds" "rv d' \<in> Ds"
  shows "passes rv Ds V (Fork (createn d' q nf) # map Do (createn d p nf) @ [Reap]) (putn (rv d') q nf (putn (rv d) p nf V))"
proof -
  have "\<forall>j \<in> set (mkn d p nf) \<union> set (mkn d' q nf). job_fits rv Ds num_val j \<and> \<not> pending j"
    unfolding ball_Un by (intro conjI fits_mkns) (use assms in simp_all)
  then show ?thesis unfolding createn_jobs putn_def eff_mkn [OF assms(1), symmetric] eff_mkn [OF assms(2), symmetric]
    by (intro passes_fork pre_mkn apart_mkn)
qed

lemma passes_createn_same:
  assumes "length p = 2" "nf \<le> 100" "length d < 500" "length d' < 500" "rv d \<in> Ds" "rv d' = rv d" "listing (putn (rv d) p nf V) (rv d) nf"
  shows "passes rv Ds V (Fork (createn d' p nf) # map Do (createn d p nf) @ map Do (dircheck d nf) @ [Reap]) (putn (rv d) p nf V)"
proof -
  have T: "putn (rv d) p nf V = jobs_eff rv (mkn d' p nf) (jobs_eff rv (mkn d p nf) V)"
    using assms(1,6) by (auto simp: eff_mkn putn_def)
  have "\<forall>j \<in> set (mkn d p nf) \<union> set (mkn d' p nf). job_fits rv Ds num_val j \<and> \<not> pending j \<and> \<not> removes j"
    using fits_mkn assms(1-6) by (metis Un_iff)
  moreover have "dom (putn (rv d) p nf V) \<subseteq> dom V \<union> job_file rv ` set (mkn d p nf)"
  proof -
    have "nums (rv d) p nf \<subseteq> job_file rv ` set (mkn d p nf)" by (simp add: nums_def mkn_def image_image lessThan_atLeast0)
    then show ?thesis unfolding dom_putn by blast
  qed
  ultimately show ?thesis unfolding createn_jobs using assms(5,7) T by (intro passes_fork_list pre_mkn) auto
qed

lemma passes_mixed_fork:
  assumes "length p = 2" "length q = 2" "length r = 2" "p \<noteq> r" "nf \<le> 100" "kf \<le> 100" "length d < 500" "length d' < 500" "length e < 500"
    and "rv d \<in> Ds" "rv d' \<in> Ds" "rv e \<in> Ds" "nums (rv d') p nf \<subseteq> dom V"
  shows "passes rv Ds V (Fork (unlinkn d' p nf @ createn d q kf) # map Do (createn e r kf) @ [Reap])
    (putn (rv d) q kf (deln (rv d') p nf (putn (rv e) r kf V)))"
proof -
  have "apart rv (mkn e r kf) (rmn d' p nf @ mkn d q kf)" using assms(1-4) by (simp add: apart_append apart_mkn apart_rmn)
  moreover have "\<forall>j \<in> set (mkn e r kf) \<union> set (rmn d' p nf @ mkn d q kf). job_fits rv Ds num_val j \<and> \<not> pending j"
    unfolding set_append ball_Un by (intro conjI fits_mkns fits_rmns) (use assms in simp_all)
  moreover have "jobs_pre rv (rmn d' p nf @ mkn d q kf) V" using assms(13) by (simp add: jobs_pre_append pre_rmn pre_mkn)
  ultimately have "passes rv Ds V (Fork (jobs_calls (rmn d' p nf @ mkn d q kf)) # map Do (jobs_calls (mkn e r kf)) @ [Reap])
    (jobs_eff rv (rmn d' p nf @ mkn d q kf) (jobs_eff rv (mkn e r kf) V))" by (intro passes_fork pre_mkn)
  then show ?thesis using assms(1-3)
    by (simp add: jobs_calls_append createn_jobs unlinkn_jobs jobs_eff_append eff_mkn eff_rmn putn_def [abs_def] deln_def [abs_def])
qed

lemma passes_separate_fork:
  assumes "length p = 2" "length q = 2" "p \<noteq> q" "nf \<le> 100" "kf \<le> nf" "length d < 500" "length d' < 500" "rv d \<in> Ds" "rv d' \<in> Ds"
  shows "passes rv Ds V (Fork (createn d' q nf @ unlinkn d' q kf) # map Do (createn d p nf @ unlinkn d p kf) @ [Reap])
    (deln (rv d') q kf (putn (rv d') q nf (deln (rv d) p kf (putn (rv d) p nf V))))"
proof -
  have "apart rv (mkn d p nf @ rmn d p kf) (mkn d' q nf @ rmn d' q kf)" using assms(1-3) by (simp add: apart_append apart_mkn apart_rmn)
  moreover have "\<forall>j \<in> set (mkn d p nf @ rmn d p kf) \<union> set (mkn d' q nf @ rmn d' q kf). job_fits rv Ds num_val j \<and> \<not> pending j"
    unfolding set_append ball_Un by (intro conjI fits_mkns fits_rmns) (use assms in simp_all)
  moreover have "jobs_pre rv (mkn d p nf @ rmn d p kf) V" if "length p = 2" for d p V
    using that assms(5) by (auto simp: jobs_pre_append pre_mkn eff_mkn nums_def intro!: pre_rmn)
  ultimately have "passes rv Ds V (Fork (jobs_calls (mkn d' q nf @ rmn d' q kf)) # map Do (jobs_calls (mkn d p nf @ rmn d p kf)) @ [Reap])
    (jobs_eff rv (mkn d' q nf @ rmn d' q kf) (jobs_eff rv (mkn d p nf @ rmn d p kf) V))" using assms(1,2) by (intro passes_fork)
  then show ?thesis using assms(1,2)
    by (simp add: jobs_calls_append createn_jobs unlinkn_jobs jobs_eff_append eff_mkn eff_rmn putn_def [abs_def] deln_def [abs_def])
qed

text \<open>What a directory of numbered files lists.\<close>

lemma listing_dom:
  assumes "dom V \<inter> {D} \<times> UNIV = {D} \<times> N" "finite N" "card N = nf" "nf \<le> MAX_NAMES" "\<forall>f \<in> N. f \<noteq> [] \<and> hd f \<noteq> CHR ''.''"
  shows "listing V D nf"
proof -
  have "{f. V (D, f) \<noteq> None} = N" using assms(1) by (auto simp: set_eq_iff dom_def)
  then show ?thesis using assms unfolding listing_def by blast
qed

lemma card_numbered: "card (numbered p ` {..< nf}) = nf"
  by (subst card_image) (auto simp: inj_on_def numbered_eq)

lemma nums_times: "nums D p nf = {D} \<times> numbered p ` {..< nf}"
  by (auto simp: nums_def)

lemma hd_numbered: "p \<noteq> [] \<Longrightarrow> numbered p i \<noteq> [] \<and> hd (numbered p i) = hd p"
  by (cases p) (simp_all add: numbered_def)

lemma listing_nums:
  assumes "dom V = nums D p nf" "p \<noteq> []" "hd p \<noteq> CHR ''.''" "nf \<le> MAX_NAMES"
  shows "listing V D nf"
  using assms hd_numbered by (intro listing_dom [where N = "numbered p ` {..< nf}"]) (auto simp: card_numbered nums_times)

lemma listing_nums2:
  assumes "dom V = nums D p nf \<union> nums D q kf" "p \<noteq> q" "length p = length q" "p \<noteq> []" "hd p \<noteq> CHR ''.''" "hd q \<noteq> CHR ''.''" "nf + kf \<le> MAX_NAMES"
  shows "listing V D (nf + kf)"
proof (rule listing_dom [where N = "numbered p ` {..< nf} \<union> numbered q ` {..< kf}"])
  have "numbered p ` {..< nf} \<inter> numbered q ` {..< kf} = {}" using assms(2,3) by (auto simp: numbered_eq)
  then show "card (numbered p ` {..< nf} \<union> numbered q ` {..< kf}) = nf + kf" by (simp add: card_Un_disjoint card_numbered)
  have "q \<noteq> []" using assms(3,4) by auto
  then show "\<forall>f \<in> numbered p ` {..< nf} \<union> numbered q ` {..< kf}. f \<noteq> [] \<and> hd f \<noteq> CHR ''.''" using assms(4-6) hd_numbered by auto
qed (use assms in \<open>auto simp: nums_times\<close>)

lemma listing_empty: "listing (\<lambda>_. None) D 0"
  by (simp add: listing_def)

subsection \<open>The tests, one by one\<close>

lemma small_path: "length d < 500 \<Longrightarrow> length f < 4 \<Longrightarrow> path_len d f < PATH_SZ"
  by (simp add: path_len_def PATH_SZ_def)

lemma none_upd: "(\<lambda>_. None)(k := None) = (\<lambda>_. None)"
  by auto

lemma listing_one: "f \<noteq> [] \<Longrightarrow> hd f \<noteq> CHR ''.'' \<Longrightarrow> listing ((\<lambda>_. None)((D, f) \<mapsto> b)) D (Suc 0)"
  by (rule listing_dom [where N = "{f}"]) (auto simp: MAX_NAMES_def)

lemma listing_two:
  "f \<noteq> [] \<Longrightarrow> hd f \<noteq> CHR ''.'' \<Longrightarrow> g \<noteq> [] \<Longrightarrow> hd g \<noteq> CHR ''.'' \<Longrightarrow> f \<noteq> g \<Longrightarrow> listing ((\<lambda>_. None)((D, f) \<mapsto> b, (D, g) \<mapsto> c)) D 2"
  by (rule listing_dom [where N = "{f, g}"]) (auto simp: MAX_NAMES_def)

lemmas listing_simps = listing_empty listing_one listing_two none_upd

lemma pass_small:
  assumes "rv d2 = rv d1" "rv d1 \<in> Ds" "length d1 < 500" "length d2 < 500"
  shows "passes rv Ds (\<lambda>_. None) (map Do (b_small d1 d2)) (\<lambda>_. None)"
  unfolding b_small_def
  by (rule passes_eq, ((rule passes_seq, (rule passes_one; (simp add: assms small_path; fail)))+, (rule passes_one; (simp add: assms small_path; fail)))[1])
    (simp add: assms none_upd)

lemma pass_append:
  assumes "rv d2 = rv d1" "rv d1 \<in> Ds" "length d1 < 500" "length d2 < 500"
  shows "passes rv Ds (\<lambda>_. None) (map Do (b_append d1 d2)) ((\<lambda>_. None)((rv d1, ''f1'') \<mapsto> ''aaabbbccc''))"
  unfolding b_append_def
  by (rule passes_eq, ((rule passes_seq, (rule passes_one; (simp add: assms small_path; fail)))+, (rule passes_one; (simp add: assms small_path; fail)))[1])
    (simp add: assms)

lemma pass_readdir:
  assumes "rv d2 = rv d1" "rv d1 \<in> Ds" "length d1 < 500" "length d2 < 500"
  shows "passes rv Ds ((\<lambda>_. None)((rv d1, ''f1'') \<mapsto> ''aaabbbccc'')) (map Do (b_readdir d1 d2)) (\<lambda>_. None)"
  unfolding b_readdir_def
  by (rule passes_eq, ((rule passes_seq, (rule passes_one; (simp add: assms small_path listing_simps fun_upd_twist; fail)))+,
      (rule passes_one; (simp add: assms small_path listing_simps; fail)))[1])
    (simp add: assms none_upd)

lemma pass_big:
  assumes "rv d2 = rv d1" "rv d1 \<in> Ds" "length d1 < 500" "length d2 < 500"
  shows "passes rv Ds (\<lambda>_. None) (map Do (b_big d1 d2)) (\<lambda>_. None)"
proof -
  have "length big < 21000" by (simp add: big_def)
  then show ?thesis unfolding b_big_def
    by - (rule passes_eq, ((rule passes_seq, (rule passes_one; (simp add: assms small_path; fail)))+, (rule passes_one; (simp add: assms small_path; fail)))[1],
      simp add: assms none_upd)
qed

text \<open>The tests with numbered files: what is left of them is decided by the names.\<close>

lemma nums_disj: "length p = length q \<Longrightarrow> p \<noteq> q \<Longrightarrow> nums D p nf \<inter> nums E q kf = {}"
  by (auto simp: nums_def numbered_eq)

lemma nums_other: "x \<in> nums D p nf \<Longrightarrow> length p = length q \<Longrightarrow> p \<noteq> q \<Longrightarrow> x \<notin> nums E q kf"
  using nums_disj by blast

lemma putn_same: "x \<in> nums D p nf \<Longrightarrow> putn D p nf V x = Some (num_val x)"
  by (simp add: putn_def)

lemma putn_other: "x \<in> nums D p nf \<Longrightarrow> length p = length q \<Longrightarrow> p \<noteq> q \<Longrightarrow> putn E q kf V x = V x"
  using nums_other by (auto simp: putn_def)

lemma deln_putn: "deln D p nf (putn D p nf V) = deln D p nf V" "deln D p nf (\<lambda>_. None) = (\<lambda>_. None)"
  by (auto simp: deln_def putn_def)

lemma deln_swap: "length p = length q \<Longrightarrow> p \<noteq> q \<Longrightarrow> deln D p nf (putn E q kf V) = putn E q kf (deln D p nf V)"
  using nums_disj [of p q D nf E kf] by (auto simp: deln_def putn_def fun_eq_iff)

lemmas nums_simps = dom_putn putn_same putn_other deln_putn deln_swap

lemma pass_many:
  assumes "rv d2 = rv d1" "rv d1 \<in> Ds" "length d1 < 500" "length d2 < 500"
  shows "passes rv Ds (\<lambda>_. None) (map Do (b_many d1 d2)) (\<lambda>_. None)"
proof -
  let ?V = "putn (rv d1) ''bb'' 10 (putn (rv d1) ''aa'' 10 (\<lambda>_. None))"
  have l: "listing ?V (rv d2) 20" using listing_nums2 [of ?V "rv d2" "''bb''" 10 "''aa''" 10] assms(1) by (simp add: dom_putn MAX_NAMES_def)
  show ?thesis unfolding b_many_def
    by (rule passes_eq, ((rule passes_seq, (rule passes_nums passes_dircheck; (use assms l in \<open>auto simp: nums_simps; fail\<close>)))+,
        (rule passes_nums; (use assms in \<open>auto simp: nums_simps; fail\<close>)))[1]) (simp add: assms nums_simps)
qed

lemma pass_creates:
  assumes "rv d2 = rv d1" "rv d1 \<in> Ds" "length d1 < 500" "length d2 < 500"
  shows "passes rv Ds (\<lambda>_. None) (b_creates d1 d2) (\<lambda>_. None)"
proof -
  let ?V = "putn (rv d1) ''xx'' 20 (putn (rv d1) ''yy'' 20 (\<lambda>_. None))"
  have l: "listing ?V (rv d1) 40" using listing_nums2 [of ?V "rv d1" "''xx''" 20 "''yy''" 20] by (simp add: dom_putn MAX_NAMES_def)
  have 1: "passes rv Ds (\<lambda>_. None) (Fork (createn d2 ''xx'' 20) # map Do (createn d1 ''yy'' 20) @ [Reap]) ?V"
    using passes_createn_fork [of "''yy''" "''xx''" 20 d1 d2 rv Ds] assms by simp
  have "passes rv Ds ?V (map Do (dircheck d1 40 @ checkn d1 ''xx'' 20 @ checkn d2 ''yy'' 20 @ unlinkn d1 ''xx'' 20 @ unlinkn d1 ''yy'' 20)) (\<lambda>_. None)"
    by (rule passes_eq, ((rule passes_seq, (rule passes_nums passes_dircheck; (use assms l in \<open>auto simp: nums_simps; fail\<close>)))+,
        (rule passes_nums; (use assms in \<open>auto simp: nums_simps; fail\<close>)))[1]) (simp add: assms nums_simps)
  then show ?thesis using passes_append [OF 1] by (simp add: b_creates_def)
qed

lemma pass_same:
  assumes "rv d2 = rv d1" "rv d1 \<in> Ds" "length d1 < 500" "length d2 < 500"
  shows "passes rv Ds (\<lambda>_. None) (b_same d1 d2) (\<lambda>_. None)"
proof -
  let ?V = "putn (rv d1) ''zz'' 20 (\<lambda>_. None)"
  have l: "listing ?V (rv d1) 20" by (rule listing_nums [of _ _ "''zz''"]) (simp_all add: dom_putn MAX_NAMES_def)
  have 1: "passes rv Ds (\<lambda>_. None) (Fork (createn d2 ''zz'' 20) # map Do (createn d1 ''zz'' 20) @ map Do (dircheck d1 20) @ [Reap]) ?V"
    by (rule passes_createn_same) (use assms l in simp_all)
  have "passes rv Ds ?V (map Do (checkn d1 ''zz'' 20 @ checkn d2 ''zz'' 20 @ unlinkn d1 ''zz'' 20)) (\<lambda>_. None)"
    by (rule passes_eq, ((rule passes_seq, (rule passes_nums; (use assms in \<open>auto simp: nums_simps; fail\<close>)))+,
        (rule passes_nums; (use assms in \<open>auto simp: nums_simps; fail\<close>)))[1]) (simp add: assms nums_simps)
  then show ?thesis using passes_append [OF 1] by (simp add: b_same_def)
qed

lemma pass_same_server:
  assumes "rv d1 \<in> Ds" "length d1 < 500"
  shows "passes rv Ds (\<lambda>_. None) (b_same_server d1) (\<lambda>_. None)"
proof -
  let ?V = "putn (rv d1) ''zz'' 20 (\<lambda>_. None)"
  have l: "listing ?V (rv d1) 20" by (rule listing_nums [of _ _ "''zz''"]) (simp_all add: dom_putn MAX_NAMES_def)
  have 1: "passes rv Ds (\<lambda>_. None) (Fork (createn d1 ''zz'' 20) # map Do (createn d1 ''zz'' 20) @ map Do (dircheck d1 20) @ [Reap]) ?V"
    by (rule passes_createn_same) (use assms l in simp_all)
  have "passes rv Ds ?V (map Do (checkn d1 ''zz'' 20 @ unlinkn d1 ''zz'' 20)) (\<lambda>_. None)"
    by (rule passes_eq, ((rule passes_seq, (rule passes_nums; (use assms in \<open>auto simp: nums_simps; fail\<close>)))+,
        (rule passes_nums; (use assms in \<open>auto simp: nums_simps; fail\<close>)))[1]) (simp add: nums_simps)
  then show ?thesis using passes_append [OF 1] by (simp add: b_same_server_def)
qed

lemma pass_mixed:
  assumes "rv d2 = rv d1" "rv d1 \<in> Ds" "length d1 < 500" "length d2 < 500"
  shows "passes rv Ds (\<lambda>_. None) (b_mixed d1 d2) (\<lambda>_. None)"
proof -
  let ?V = "putn (rv d1) ''x2'' 20 (putn (rv d1) ''x1'' 20 (\<lambda>_. None))"
  let ?W = "putn (rv d1) ''x3'' 20 (deln (rv d1) ''x1'' 20 (putn (rv d1) ''x4'' 20 ?V))"
  have 1: "passes rv Ds (\<lambda>_. None) (map Do (createn d1 ''x1'' 20 @ createn d2 ''x2'' 20)) ?V"
    using passes_seq [OF passes_createn [of "''x1''" 20 d1 rv Ds "\<lambda>_. None"] passes_createn [of "''x2''" 20 d2]] assms by (simp del: map_append)
  have 2: "passes rv Ds ?V (Fork (unlinkn d2 ''x1'' 20 @ createn d1 ''x3'' 20) # map Do (createn d1 ''x4'' 20) @ [Reap]) ?W"
    using passes_mixed_fork [of "''x1''" "''x3''" "''x4''" 20 20 d1 d2 d1 rv Ds ?V] assms by (simp add: nums_simps)
  have "passes rv Ds ?W (map Do (unlinkn d2 ''x2'' 20 @ unlinkn d2 ''x4'' 20 @ unlinkn d2 ''x3'' 20 @ dircheck d1 0)) (\<lambda>_. None)"
    by (rule passes_eq, ((rule passes_seq, (rule passes_nums; (use assms in \<open>auto simp: nums_simps; fail\<close>)))+,
        (rule passes_dircheck; (use assms in \<open>simp add: nums_simps listing_empty; fail\<close>)))[1]) (simp add: assms nums_simps)
  then show ?thesis using passes_append [OF passes_append [OF 1 2]] by (simp add: b_mixed_def)
qed

lemma nums_last: "nums D p (Suc nf) - nums D p nf = {(D, numbered p nf)}"
  by (auto simp: nums_Suc nums_iff)

lemma pass_c:
  assumes "rv d1 \<noteq> rv d2" "rv d1 \<in> Ds" "rv d2 \<in> Ds" "length d1 < 500" "length d2 < 500"
  shows "\<exists>V. passes rv Ds (\<lambda>_. None) (c_tests d1 d2) V"
proof -
  let ?V = "deln (rv d2) ''xx'' 99 (putn (rv d2) ''xx'' 100 (deln (rv d1) ''yy'' 99 (putn (rv d1) ''yy'' 100 (\<lambda>_. None))))"
  have 1: "passes rv Ds (\<lambda>_. None) (Fork (createn d2 ''xx'' 100 @ unlinkn d2 ''xx'' 99) # map Do (createn d1 ''yy'' 100 @ unlinkn d1 ''yy'' 99) @ [Reap]) ?V"
    by (rule passes_separate_fork) (use assms in simp_all)
  have n: "nums D p 100 = insert (D, numbered p 99) (nums D p 99)" for D p using nums_Suc [of D p 99] by simp
  have d: "dom ?V = {(rv d1, numbered ''yy'' 99), (rv d2, numbered ''xx'' 99)}" by (auto simp: dom_putn n nums_iff)
  have "listing ?V (rv d1) 1" by (rule listing_dom [where N = "{numbered ''yy'' 99}"]) (use d assms(1) in \<open>auto simp: MAX_NAMES_def numbered_def\<close>)
  moreover have "listing ?V (rv d2) 1" by (rule listing_dom [where N = "{numbered ''xx'' 99}"]) (use d assms(1) in \<open>auto simp: MAX_NAMES_def numbered_def\<close>)
  ultimately have "passes rv Ds ?V (map Do (dircheck d1 1 @ dircheck d2 1)) ?V"
    using assms(2,3) by (intro passes_seq [OF passes_dircheck passes_dircheck]) simp_all
  then show ?thesis using passes_append [OF 1] by (auto simp: c_tests_def)
qed

lemma pass_b:
  assumes "rv d2 = rv d1" "rv d1 \<in> Ds" "length d1 < 500" "length d2 < 500"
  shows "passes rv Ds (\<lambda>_. None) (b_tests d1 d2) (\<lambda>_. None)"
proof -
  note first = pass_small [of rv d2 d1 Ds, OF assms] pass_append [of rv d2 d1 Ds, OF assms] pass_readdir [of rv d2 d1 Ds, OF assms]
    pass_many [of rv d2 d1 Ds, OF assms] pass_big [of rv d2 d1 Ds, OF assms]
  note rest = pass_creates [of rv d2 d1 Ds, OF assms] pass_same [of rv d2 d1 Ds, OF assms] pass_mixed [of rv d2 d1 Ds, OF assms]
    pass_same_server [of rv d1 Ds, OF assms(2,3)]
  have "passes rv Ds (\<lambda>_. None) (map Do (b_small d1 d2 @ b_append d1 d2 @ b_readdir d1 d2 @ b_many d1 d2 @ b_big d1 d2)) (\<lambda>_. None)"
    by (rule passes_seq [OF first(1) passes_seq [OF first(2) passes_seq [OF first(3) passes_seq [OF first(4,5)]]]])
  then show ?thesis unfolding b_tests_def
    by (rule passes_append [OF _ passes_append [OF rest(1) passes_append [OF rest(2) passes_append [OF rest(3,4)]]]])
qed

subsection \<open>The programs pass\<close>

text \<open>A safe program does not fail in any schedule, and finishes in every fair one.\<close>

lemma safe_result:
  assumes "rel_simulation K (pstep rv) id R" "R y t" "safe (pstep rv) (ft_start P t)"
  shows "(\<exists>s. ft_run K ps (ft_start P y) = Inr s)
    \<and> ((\<forall>b \<in> set bs. {Parent, Child} \<subseteq> set b) \<longrightarrow> ft_size (ft_start P y) < length bs \<longrightarrow> (\<exists>s. ft_run K (concat bs) (ft_start P y) = Inr s \<and> ft_parent s = []))"
proof -
  have "safe K (ft_start P y)" using safe_follows [OF assms(1,2)] assms(3) by (simp add: ft_start_def)
  then show ?thesis using safe_run [of K _ ps] rounds_finish [of K _ bs] by blast
qed

lemma start_mkdir:
  assumes "fs_ok Ds t" "view t = (\<lambda>_. None)" "pf_open t = (\<lambda>_. None)" "rv d \<notin> Ds" "length d < 500"
  shows "\<exists>t'. do_call (pstep rv) Parent (PMkdir d) Succeeds t = Inr t' \<and> fs_ok (insert (rv d) Ds) t' \<and> view t' = (\<lambda>_. None) \<and> pf_open t' = (\<lambda>_. None)"
proof -
  have n: "pf_dirs t (rv d) = None" using assms(1,4) unfolding fs_ok_def by blast
  have "view (t\<lparr>pf_dirs := (pf_dirs t)(rv d \<mapsto> [])\<rparr>) = (\<lambda>_. None)"
    using assms(2) by (auto simp: view_def pf_file_def fun_eq_iff split: option.splits)
  then show ?thesis using assms(1,3,5) n by (auto simp: do_call_def PATH_SZ_def fs_ok_def sm_ok_def)
qed

lemma start_access: "fs_ok Ds t \<Longrightarrow> rv d \<in> Ds \<Longrightarrow> length d < 500 \<Longrightarrow> do_call (pstep rv) Parent (PAccess d) Succeeds t = Inr t"
  by (auto simp: do_call_def PATH_SZ_def fs_ok_def)

lemma pfs_new_ok: "fs_ok {} pfs_new" "view pfs_new = (\<lambda>_. None)" "pf_open pfs_new = (\<lambda>_. None)"
  by (auto simp: fs_ok_def pfs_new_def view_def pf_file_def)

lemma safe_b:
  assumes "rv d2 = rv d1" "length d1 < 500" "length d2 < 500"
  shows "safe (pstep rv) (ft_start (map Do [(PMkdir d1, Succeeds), (PAccess d2, Succeeds)] @ b_tests d1 d2) pfs_new)"
proof -
  obtain t where t: "do_call (pstep rv) Parent (PMkdir d1) Succeeds pfs_new = Inr t" "fs_ok {rv d1} t" "view t = (\<lambda>_. None)" "pf_open t = (\<lambda>_. None)"
    using start_mkdir [OF pfs_new_ok, of rv d1] assms(2) by auto
  have "do_call (pstep rv) Parent (PAccess d2) Succeeds t = Inr t" by (rule start_access [OF t(2)]) (use assms in simp_all)
  moreover have "at_rest {rv d1} (\<lambda>_. None) t" using t by (simp add: at_rest_def)
  ultimately have "safe (pstep rv) (fstate t (Do (PAccess d2, Succeeds) # b_tests d1 d2) None)"
    using passes_safe [OF pass_b [of rv d2 d1 "{rv d1}"]] assms by (intro safe_call) auto
  then show ?thesis using safe_call [OF t(1)] by (simp add: ft_start_def)
qed

lemma safe_c:
  assumes "rv dd = rv d1" "rv d1 \<noteq> rv d2" "length d1 < 500" "length d2 < 500" "length dd < 500"
  shows "safe (pstep rv) (ft_start (map Do [(PMkdir d1, Succeeds), (PMkdir d2, Succeeds), (PAccess dd, Succeeds)] @ c_tests d1 d2) pfs_new)"
proof -
  obtain t where t: "do_call (pstep rv) Parent (PMkdir d1) Succeeds pfs_new = Inr t" "fs_ok {rv d1} t" "view t = (\<lambda>_. None)" "pf_open t = (\<lambda>_. None)"
    using start_mkdir [OF pfs_new_ok, of rv d1] assms(3) by auto
  obtain u where u: "do_call (pstep rv) Parent (PMkdir d2) Succeeds t = Inr u" "fs_ok {rv d2, rv d1} u" "view u = (\<lambda>_. None)" "pf_open u = (\<lambda>_. None)"
    using start_mkdir [OF t(2-4), of rv d2] assms(2,4) by auto
  have "do_call (pstep rv) Parent (PAccess dd) Succeeds u = Inr u" by (rule start_access [OF u(2)]) (use assms in simp_all)
  moreover obtain V where V: "passes rv {rv d2, rv d1} (\<lambda>_. None) (c_tests d1 d2) V" using pass_c [of rv d1 d2 "{rv d2, rv d1}"] assms by auto
  have "at_rest {rv d2, rv d1} (\<lambda>_. None) u" using u by (simp add: at_rest_def)
  ultimately have "safe (pstep rv) (fstate u (Do (PAccess dd, Succeeds) # c_tests d1 d2) None)"
    using passes_safe [OF V] by (intro safe_call)
  then show ?thesis using safe_call [OF t(1) safe_call [OF u(1)]] by (simp add: ft_start_def)
qed



text \<open>
  The tests of separate directories, \<open>test-lab-4-c\<close>: two processes that create and remove a hundred files each, in two directories of one file
  system, do not fail in any interleaving, and each directory ends with the one file that was not removed.
\<close>

lemma test_lab_4_c_passes:
  assumes kernel: "rel_simulation K (pstep rv) id R" "R y pfs_new"
    and shared: "rv (m2 @ ''/da'' @ show_nat pid) = rv (m1 @ ''/da'' @ show_nat pid)" "rv (m1 @ ''/da'' @ show_nat pid) \<noteq> rv (m2 @ ''/db'' @ show_nat pid)"
    and short: "length (m1 @ ''/da'' @ show_nat pid) < 500" "length (m2 @ ''/db'' @ show_nat pid) < 500"
  shows "\<exists>P. main_c [m1, m2] pid = Some P
    \<and> (\<exists>s. ft_run K ps (ft_start P y) = Inr s)
    \<and> ((\<forall>b \<in> set bs. {Parent, Child} \<subseteq> set b) \<longrightarrow> ft_size (ft_start P y) < length bs \<longrightarrow> (\<exists>s. ft_run K (concat bs) (ft_start P y) = Inr s \<and> ft_parent s = []))"
proof -
  have "length (m2 @ ''/da'' @ show_nat pid) < 500" using short(2) by simp
  then show ?thesis unfolding main_c_def using safe_result [OF kernel safe_c [OF shared short]] by (simp add: Let_def)
qed

end
