(* ===== verification/Connection.thy ===== *)
theory Connection
  imports Marshall "HOL-Library.Monad_Syntax"
begin

unbundle bit_operations_syntax

text \<open>
  A connection of the RPC library, \<open>rpc/connection.cc\<close>: PDUs with a four byte size in front are written to and read from a non-blocking
  socket in pieces.  The socket calls are arguments: what \<open>read\<close> returned, how much \<open>write\<close> took.  \<open>None\<close> stands for a failed assertion, and for
  \<open>send\<close> waiting until the previous message is out.
\<close>

subsection \<open>State\<close>

text \<open>
  Of the buffer a PDU is read into, the part filled so far is represented.
\<close>

record charbuf =
  cb_buf :: "byte list option"
  cb_sz :: int
  cb_solong :: int

definition charbuf0 :: charbuf where
  "charbuf0 = \<lparr>cb_buf = None, cb_sz = 0, cb_solong = 0\<rparr>"

record connection =
  cn_dead :: bool
  cn_wpdu :: charbuf
  cn_rpdu :: charbuf
  cn_waiters :: int
  cn_refno :: int

text \<open>What a connection asks of the poll manager.\<close>

datatype poll_act = AddRead | AddWrite | DelWrite | DelAll | RemoveFd

definition connection_new :: "poll_act list \<times> connection" where
  "connection_new = ([AddRead], \<lparr>cn_dead = False, cn_wpdu = charbuf0, cn_rpdu = charbuf0, cn_waiters = 0, cn_refno = 1\<rparr>)"

definition MAX_PDU :: int where "MAX_PDU = 10 * 2 ^ 20"

definition incref :: "connection \<Rightarrow> connection" where
  "incref c = c\<lparr>cn_refno := cn_refno c + 1\<rparr>"

text \<open>The flag of the result: the connection is deleted.\<close>

definition decref :: "connection \<Rightarrow> (bool \<times> connection) option" where
  "decref c =
     (let c = c\<lparr>cn_refno := cn_refno c - 1\<rparr>
      in if cn_refno c < 0 then None else Some (cn_refno c = 0 \<and> cn_dead c, c))"

definition closeconn :: "connection \<Rightarrow> poll_act list \<times> connection" where
  "closeconn c = (if \<not> cn_dead c then ([RemoveFd], c\<lparr>cn_dead := True\<rparr>) else ([], c))"

subsection \<open>Reading\<close>

text \<open>The flag: \<open>errno\<close> is \<open>EAGAIN\<close> when \<open>read\<close> has returned 0 or less.\<close>

datatype rd_result = RData "byte list" | REof bool | RFail bool

fun ntohl :: "byte list \<Rightarrow> u32" where
  "ntohl [a, b, c, d] = ((push_bit 24 (ucast a) OR push_bit 16 (ucast b)) OR push_bit 8 (ucast c)) OR ucast d"
| "ntohl _ = 0"

definition readpdu_body :: "rd_result \<Rightarrow> connection \<Rightarrow> bool \<times> connection" where
  "readpdu_body body c =
     (case body of
        RData bs \<Rightarrow> (True, c\<lparr>cn_rpdu := (cn_rpdu c)\<lparr>cb_buf := map_option (\<lambda>b. b @ bs) (cb_buf (cn_rpdu c)),
                                  cb_solong := cb_solong (cn_rpdu c) + int (length bs)\<rparr>\<rparr>)
      | REof again \<Rightarrow> if again then (True, c) else (False, c\<lparr>cn_rpdu := charbuf0\<rparr>)
      | RFail again \<Rightarrow> if again then (True, c) else (False, c\<lparr>cn_rpdu := charbuf0\<rparr>))"

definition readpdu :: "rd_result \<Rightarrow> rd_result \<Rightarrow> connection \<Rightarrow> (bool \<times> connection) option" where
  "readpdu hdr body c =
     (if cb_sz (cn_rpdu c) \<noteq> 0 then Some (readpdu_body body c)
      else case hdr of
             REof again \<Rightarrow> Some (False, c)
           | RFail again \<Rightarrow> if again then None else Some (False, c)
           | RData bs \<Rightarrow>
               if length bs \<noteq> 4 then Some (False, c)
               else let sz = sint (ntohl bs) in
                    if sz > MAX_PDU then Some (False, c)
                    else if cb_buf (cn_rpdu c) \<noteq> None then None
                    else Some (readpdu_body body (c\<lparr>cn_rpdu := \<lparr>cb_buf = Some bs, cb_sz = sz, cb_solong = 4\<rparr>\<rparr>)))"

text \<open>What \<open>readpdu\<close> passes to \<open>malloc\<close> and, as the count, to the second \<open>read\<close>, both converted to \<open>size_t\<close>.\<close>

definition read_alloc :: "int \<Rightarrow> u32" where
  "read_alloc sz = word_of_int (sz + 4)"

definition read_count :: "charbuf \<Rightarrow> u32" where
  "read_count b = word_of_int (cb_sz b - cb_solong b)"

text \<open>\<open>got\<close>: whether the channel manager's \<open>got_pdu\<close> consumes the PDU.\<close>

definition read_cb :: "(byte list \<Rightarrow> bool) \<Rightarrow> rd_result \<Rightarrow> rd_result \<Rightarrow> connection \<Rightarrow> (byte list list \<times> poll_act list \<times> connection) option" where
  "read_cb got hdr body c =
     (if cn_dead c then Some ([], [], c)
      else do { (succ, c) \<leftarrow> (if cb_buf (cn_rpdu c) = None \<or> cb_solong (cn_rpdu c) < cb_sz (cn_rpdu c) then readpdu hdr body c else Some (True, c));
                let (acts, c) = (if \<not> succ then ([DelAll], c\<lparr>cn_dead := True\<rparr>) else ([], c)) in
                case cb_buf (cn_rpdu c) of
                  None \<Rightarrow> Some ([], acts, c)
                | Some b \<Rightarrow>
                    if cb_sz (cn_rpdu c) = cb_solong (cn_rpdu c) \<and> got b then Some ([b], acts, c\<lparr>cn_rpdu := charbuf0\<rparr>)
                    else Some ([], acts, c) })"

subsection \<open>Writing\<close>

datatype wr_result = Wrote nat | WAgain | WFail

text \<open>The bytes that reach the socket are part of the result; the first call puts the size into the first four bytes.\<close>

definition writepdu :: "wr_result \<Rightarrow> connection \<Rightarrow> (bool \<times> byte list \<times> connection) option" where
  "writepdu w c =
     (let p = cn_wpdu c in
      if cb_solong p < 0 then None
      else if cb_solong p = cb_sz p then Some (True, [], c)
      else case cb_buf p of
             None \<Rightarrow> None
           | Some b \<Rightarrow>
               let b = (if cb_solong p = 0 then enc_int (cb_sz p) @ drop 4 b else b)
               in case w of
                    Wrote n \<Rightarrow> Some (True, take n (drop (nat (cb_solong p)) b),
                                     c\<lparr>cn_wpdu := p\<lparr>cb_buf := Some b, cb_solong := cb_solong p + int n\<rparr>\<rparr>)
                  | WAgain \<Rightarrow> Some (True, [], c\<lparr>cn_wpdu := p\<lparr>cb_buf := Some b\<rparr>\<rparr>)
                  | WFail \<Rightarrow> Some (False, [], c\<lparr>cn_wpdu := p\<lparr>cb_buf := Some b, cb_solong := - 1, cb_sz := 0\<rparr>\<rparr>))"

text \<open>The end of \<open>send\<close>, once it need not wait any more.\<close>

definition send_finish :: "connection \<Rightarrow> bool \<times> connection" where
  "send_finish c = (\<not> cn_dead c \<and> cb_solong (cn_wpdu c) = cb_sz (cn_wpdu c), c\<lparr>cn_wpdu := charbuf0\<rparr>)"

text \<open>
  \<open>send\<close> up to its first wait for \<open>send_complete_\<close>: \<open>Inl\<close> the value it returns, \<open>Inr\<close> when it waits.  It cannot start while another
  message is being written.
\<close>

definition send_start :: "wr_result \<Rightarrow> byte list \<Rightarrow> connection \<Rightarrow> ((bool + unit) \<times> byte list \<times> poll_act list \<times> connection) option" where
  "send_start w b c =
     (if cn_dead c then Some (Inl False, [], [], c)
      else if cb_buf (cn_wpdu c) \<noteq> None then None
      else do { (succ, out, c) \<leftarrow> writepdu w (c\<lparr>cn_wpdu := \<lparr>cb_buf = Some b, cb_sz = int (length b), cb_solong = 0\<rparr>\<rparr>);
                if \<not> succ then let (r, c) = send_finish (c\<lparr>cn_dead := True\<rparr>) in Some (Inl r, out, [RemoveFd], c)
                else if cb_solong (cn_wpdu c) = cb_sz (cn_wpdu c) then let (r, c) = send_finish c in Some (Inl r, out, [], c)
                else Some (Inr (), out, [AddWrite], c) })"

text \<open>\<open>write_cb\<close>; the flag: the sender is woken and runs \<open>send_finish\<close>.\<close>

definition write_cb :: "wr_result \<Rightarrow> connection \<Rightarrow> (bool \<times> byte list \<times> poll_act list \<times> connection) option" where
  "write_cb w c =
     (if cn_dead c then None
      else if cb_sz (cn_wpdu c) = 0 then Some (False, [], [DelWrite], c)
      else do { (succ, out, c) \<leftarrow> writepdu w c;
                if \<not> succ then Some (True, out, [DelAll], c\<lparr>cn_dead := True\<rparr>)
                else if cb_solong (cn_wpdu c) < cb_sz (cn_wpdu c) then Some (False, out, [], c)
                else Some (True, out, [], c) })"

subsection \<open>Framing\<close>

text \<open>What a message becomes on the wire, and what the receiver hands to its channel manager.\<close>

definition frame :: "byte list \<Rightarrow> byte list" where
  "frame b = enc_int (int (length b)) @ drop 4 b"

definition pdu_ok :: "byte list \<Rightarrow> bool" where
  "pdu_ok b \<longleftrightarrow> 4 < length b \<and> int (length b) \<le> MAX_PDU"

text \<open>A sender whose socket takes the given numbers of bytes, and a receiver whose reads return at most \<open>k\<close> bytes of a message at a time.\<close>

fun tx_rest :: "nat list \<Rightarrow> connection \<Rightarrow> (byte list \<times> connection) option" where
  "tx_rest [] c = Some ([], c)"
| "tx_rest (n # ns) c = do { (done, out, acts, c) \<leftarrow> write_cb (Wrote n) c; (outs, c) \<leftarrow> tx_rest ns c; Some (out @ outs, c) }"

definition tx_msg :: "byte list \<Rightarrow> nat list \<Rightarrow> connection \<Rightarrow> (bool \<times> byte list \<times> connection) option" where
  "tx_msg b ns c =
     (case send_start (Wrote (hd ns)) b c of
        Some (Inl r, out, acts, c) \<Rightarrow> Some (r, out, c)
      | Some (Inr _, out, acts, c) \<Rightarrow> do { (outs, c) \<leftarrow> tx_rest (tl ns) c; let (r, c) = send_finish c in Some (r, out @ outs, c) }
      | None \<Rightarrow> None)"

fun tx_all :: "(byte list \<times> nat list) list \<Rightarrow> connection \<Rightarrow> (byte list \<times> connection) option" where
  "tx_all [] c = Some ([], c)"
| "tx_all ((b, ns) # ms) c = do { (r, out, c) \<leftarrow> tx_msg b ns c; if \<not> r then None else do { (outs, c) \<leftarrow> tx_all ms c; Some (out @ outs, c) } }"

type_synonym rx_state = "connection \<times> byte list \<times> byte list list"

text \<open>The size bytes arrive together: the code takes a shorter read for an error.\<close>

definition rx_step :: "nat \<Rightarrow> rx_state \<Rightarrow> rx_state option" where
  "rx_step k = (\<lambda>(c, str, dl).
     let start = (cb_sz (cn_rpdu c) = 0); hdr = take 4 str; str1 = (if start then drop 4 str else str);
         room = (if start then sint (ntohl hdr) - 4 else cb_sz (cn_rpdu c) - cb_solong (cn_rpdu c));
         n = min k (min (nat room) (length str1))
     in if start \<and> length str < 4 then None
        else map_option (\<lambda>(d, acts, c). (c, drop n str1, dl @ d))
               (read_cb (\<lambda>_. True) (RData hdr) (if n = 0 then RFail True else RData (take n str1)) c))"

fun rx_run :: "nat list \<Rightarrow> rx_state \<Rightarrow> rx_state option" where
  "rx_run [] s = Some s"
| "rx_run (k # ks) s = rx_step k s \<bind> rx_run ks"

lemma length_frame: "pdu_ok b \<Longrightarrow> length (frame b) = length b"
  by (simp add: frame_def pdu_ok_def)

lemma tx_rest_lemma:
  assumes "pdu_ok b" "\<not> cn_dead c" "cn_wpdu c = \<lparr>cb_buf = Some (frame b), cb_sz = int (length b), cb_solong = int k\<rparr>"
    and "0 < k" "k + sum_list ns = length b" "\<forall>n \<in> set ns. 0 < n"
  shows "\<exists>c'. tx_rest ns c = Some (drop k (frame b), c') \<and> \<not> cn_dead c' \<and> send_finish c' = (True, c\<lparr>cn_wpdu := charbuf0\<rparr>)"
  using assms(2-6)
proof (induction ns arbitrary: c k)
  case Nil
  then show ?case using length_frame [OF assms(1)] by (simp add: send_finish_def)
next
  case (Cons n ns)
  define c1 where "c1 = c\<lparr>cn_wpdu := \<lparr>cb_buf = Some (frame b), cb_sz = int (length b), cb_solong = int (k + n)\<rparr>\<rparr>"
  have "\<exists>d. write_cb (Wrote n) c = Some (d, take n (drop k (frame b)), [], c1)"
    using Cons.prems by (auto simp: write_cb_def writepdu_def Let_def c1_def)
  moreover obtain c' where "tx_rest ns c1 = Some (drop (k + n) (frame b), c')" "\<not> cn_dead c'" "send_finish c' = (True, c1\<lparr>cn_wpdu := charbuf0\<rparr>)"
    using Cons.IH [of c1 "k + n"] Cons.prems by (auto simp: c1_def)
  moreover have "take n (drop k (frame b)) @ drop (k + n) (frame b) = drop k (frame b)"
    by (metis add.commute append_take_drop_id drop_drop)
  ultimately show ?case by (auto simp: c1_def)
qed

lemma tx_msg_lemma:
  assumes "pdu_ok b" "\<not> cn_dead c" "cn_wpdu c = charbuf0" "sum_list ns = length b" "\<forall>n \<in> set ns. 0 < n"
  shows "tx_msg b ns c = Some (True, frame b, c)"
proof -
  obtain n ms where ns: "ns = n # ms" using assms(1,4) by (cases ns) (auto simp: pdu_ok_def)
  define c1 where "c1 = c\<lparr>cn_wpdu := \<lparr>cb_buf = Some (frame b), cb_sz = int (length b), cb_solong = int n\<rparr>\<rparr>"
  have b: "0 < length b" using assms(1) by (auto simp: pdu_ok_def)
  have w: "writepdu (Wrote n) (c\<lparr>cn_wpdu := \<lparr>cb_buf = Some b, cb_sz = int (length b), cb_solong = 0\<rparr>\<rparr>) = Some (True, take n (frame b), c1)"
    using b by (simp add: writepdu_def Let_def c1_def frame_def [symmetric])
  have c0: "c\<lparr>cn_wpdu := charbuf0\<rparr> = c" using assms(3) by simp
  show ?thesis
  proof (cases "n = length b")
    case True
    then show ?thesis
      using assms(2,3) ns w c0 length_frame [OF assms(1)] by (simp add: tx_msg_def send_start_def charbuf0_def send_finish_def c1_def)
  next
    case False
    obtain c' where "tx_rest ms c1 = Some (drop n (frame b), c')" "send_finish c' = (True, c)"
      using tx_rest_lemma [OF assms(1), of c1 n ms] assms(2,4,5) ns c0 by (auto simp: c1_def)
    then show ?thesis
      using False assms(2,3) ns w by (simp add: tx_msg_def send_start_def charbuf0_def c1_def)
  qed
qed

lemma tx_all_lemma:
  assumes "\<not> cn_dead c" "cn_wpdu c = charbuf0" "\<forall>(b, ns) \<in> set ms. pdu_ok b \<and> sum_list ns = length b \<and> (\<forall>n \<in> set ns. 0 < n)"
  shows "tx_all ms c = Some (concat (map (frame \<circ> fst) ms), c)"
  using assms(3)
proof (induction ms)
  case (Cons m ms)
  then show ?case using tx_msg_lemma [OF _ assms(1,2)] by (cases m) auto
qed simp

lemma ntohl_enc: "ntohl (enc_u32 x) = x"
  unfolding enc_u32_def ntohl.simps by (rule u32_of_bytes)

lemma frame_header:
  assumes "pdu_ok b"
  shows "take 4 (frame b @ r) = take 4 (frame b)" "length (take 4 (frame b)) = 4" "sint (ntohl (take 4 (frame b))) = int (length b)"
proof -
  have "int32_ok (int (length b))" using assms by (simp add: pdu_ok_def int32_ok_def MAX_PDU_def)
  then have "sint (word_of_nat (length b) :: u32) = int (length b)" using sint_word_of_int32 [of "int (length b)"] by simp
  then show "sint (ntohl (take 4 (frame b))) = int (length b)" by (simp add: frame_def enc_int_def ntohl_enc)
  show "take 4 (frame b @ r) = take 4 (frame b)" "length (take 4 (frame b)) = 4"
    using assms length_frame [OF assms] by (simp_all add: pdu_ok_def frame_def)
qed

text \<open>The receiver between two steps: idle in front of the frames still to come, or with a part of the next one read.\<close>

definition rx_inv :: "byte list list \<Rightarrow> rx_state \<Rightarrow> bool" where
  "rx_inv bs = (\<lambda>(c, str, dl). \<not> cn_dead c \<and>
     (\<exists>n. dl = take n (map frame bs) \<and> n \<le> length bs \<and>
       ((cn_rpdu c = charbuf0 \<and> str = concat (drop n (map frame bs)))
        \<or> (n < length bs \<and> (\<exists>p. cn_rpdu c = \<lparr>cb_buf = Some p, cb_sz = int (length (bs ! n)), cb_solong = int (length p)\<rparr>
             \<and> 4 \<le> length p \<and> length p < length (bs ! n) \<and> p @ str = concat (drop n (map frame bs)))))))"

text \<open>The body of the next frame, from a partial one.\<close>

lemma rx_body:
  assumes "\<forall>b \<in> set bs. pdu_ok b" "n < length bs" "b = bs ! n" "4 \<le> length p" "length p < length b" "p @ str = concat (drop n (map frame bs))"
    and "m = min k (min (length b - length p) (length str))" "\<not> cn_dead c"
    and "c1 = c\<lparr>cn_rpdu := \<lparr>cb_buf = Some p, cb_sz = int (length b), cb_solong = int (length p)\<rparr>\<rparr>"
    and "readpdu_body (if m = 0 then RFail True else RData (take m str)) c1 = (ok, c2)"
  shows "ok \<and> cn_rpdu c2 = \<lparr>cb_buf = Some (p @ take m str), cb_sz = int (length b), cb_solong = int (length p + m)\<rparr>
    \<and> length p + m \<le> length b \<and> cn_dead c2 = cn_dead c \<and> (p @ take m str) @ drop m str = concat (drop n (map frame bs))"
  using assms by (auto simp: readpdu_body_def split: if_splits)

lemma frames_next: "n < length bs \<Longrightarrow> concat (drop n (map frame bs)) = frame (bs ! n) @ concat (drop (Suc n) (map frame bs))"
  by (metis Cons_nth_drop_Suc concat.simps(2) length_map nth_map)

lemma rx_deliver:
  assumes "\<forall>b \<in> set bs. pdu_ok b" "n < length bs" "b = bs ! n" "q @ r = concat (drop n (map frame bs))" "length q = length b"
  shows "q = frame b" "r = concat (drop (Suc n) (map frame bs))" "take n (map frame bs) @ [q] = take (Suc n) (map frame bs)"
proof -
  have "pdu_ok b" using assms(1-3) by simp
  then have "length q = length (frame b)" using assms(5) length_frame by simp
  then show q: "q = frame b" and "r = concat (drop (Suc n) (map frame bs))"
    using assms(4) frames_next [OF assms(2)] assms(3) by simp_all
  show "take n (map frame bs) @ [q] = take (Suc n) (map frame bs)"
    unfolding q using assms(2,3) by (simp add: take_Suc_conv_app_nth)
qed

lemma rx_finish:
  assumes "\<forall>b \<in> set bs. pdu_ok b" "n < length bs" "b = bs ! n" "4 \<le> length p" "length p < length b" "p @ str = concat (drop n (map frame bs))"
    and "m = min k (min (length b - length p) (length str))" "\<not> cn_dead c"
    and "c1 = c\<lparr>cn_rpdu := \<lparr>cb_buf = Some p, cb_sz = int (length b), cb_solong = int (length p)\<rparr>\<rparr>"
    and "readpdu_body (if m = 0 then RFail True else RData (take m str)) c1 = (ok, c2)"
    and "s = (if cb_sz (cn_rpdu c2) = cb_solong (cn_rpdu c2)
            then (c2\<lparr>cn_rpdu := charbuf0\<rparr>, drop m str, take n (map frame bs) @ [p @ take m str]) else (c2, drop m str, take n (map frame bs)))"
  shows "rx_inv bs s"
proof -
  let ?q = "p @ take m str"
  have b: "ok" "cn_rpdu c2 = \<lparr>cb_buf = Some ?q, cb_sz = int (length b), cb_solong = int (length p + m)\<rparr>"
      "length p + m \<le> length b" "\<not> cn_dead c2" "?q @ drop m str = concat (drop n (map frame bs))"
    using rx_body [OF assms(1-10)] assms(8) by auto
  have q: "length ?q = length p + m" using assms(7) by simp
  show ?thesis
  proof (cases "length p + m = length b")
    case True
    note d = rx_deliver [OF assms(1-3) b(5)]
    have "s = (c2\<lparr>cn_rpdu := charbuf0\<rparr>, drop m str, take (Suc n) (map frame bs))" using assms(11) b(2) True d(3) q by simp
    then show ?thesis using b(4) d(2) True q assms(2) by (auto simp: rx_inv_def intro!: exI [of _ "Suc n"])
  next
    case False
    then have "s = (c2, drop m str, take n (map frame bs))" using assms(11) b(2) by simp
    then show ?thesis using b False q assms(2-4) by (auto simp: rx_inv_def intro!: exI [of _ n])
  qed
qed

lemma read_cb_body:
  assumes "readpdu hdr body c = Some (readpdu_body body c1)" "readpdu_body body c1 = (ok, c2)" "ok" "\<not> cn_dead c" "cb_buf (cn_rpdu c2) = Some q"
    and "cb_buf (cn_rpdu c) = None \<or> cb_solong (cn_rpdu c) < cb_sz (cn_rpdu c)"
  shows "read_cb (\<lambda>_. True) hdr body c =
    Some (if cb_sz (cn_rpdu c2) = cb_solong (cn_rpdu c2) then ([q], [], c2\<lparr>cn_rpdu := charbuf0\<rparr>) else ([], [], c2))"
  using assms by (simp add: read_cb_def)

lemma rx_step_idle:
  assumes "\<forall>b \<in> set bs. pdu_ok b" "cn_rpdu c = charbuf0" "str = concat (drop n (map frame bs))" "dl = take n (map frame bs)" "n \<le> length bs"
    and "\<not> cn_dead c" "rx_step k (c, str, dl) = Some s'"
  shows "rx_inv bs s'"
proof -
  note i = assms(2,3) and n = assms(4-6)
  define b where "b = bs ! n"
  have l4: "\<not> length str < 4" using assms(7) i(1) by (auto simp: rx_step_def Let_def charbuf0_def)
  have nb: "n < length bs" using l4 i(2) n(2) by (cases "n = length bs") auto
  have ok: "pdu_ok b" using assms(1) nb by (simp add: b_def)
  have st: "str = frame b @ concat (drop (Suc n) (map frame bs))" using frames_next [OF nb] i(2) by (simp add: b_def)
  note h = frame_header [OF ok]
  define p str1 where "p = take 4 (frame b)" and "str1 = drop 4 str"
  have hd: "take 4 str = p" unfolding st p_def by (rule h(1))
  have pl: "length p = 4" "length p < length b" using h(2) ok by (auto simp: p_def pdu_ok_def)
  have ps: "p @ str1 = concat (drop n (map frame bs))" using i(2) hd by (metis append_take_drop_id str1_def)
  define m where "m = min k (min (length b - length p) (length str1))"
  define body where "body = (if m = 0 then RFail True else RData (take m str1))"
  define c1 where "c1 = c\<lparr>cn_rpdu := \<lparr>cb_buf = Some p, cb_sz = int (length b), cb_solong = int (length p)\<rparr>\<rparr>"
  obtain ok2 c2 where r: "readpdu_body body c1 = (ok2, c2)" by (cases "readpdu_body body c1")
  have rp: "readpdu (RData p) body c = Some (readpdu_body body c1)"
    using i(1) pl(1) h(3) ok by (simp add: readpdu_def charbuf0_def p_def [symmetric] c1_def pdu_ok_def)
  have b2: "ok2" "cb_buf (cn_rpdu c2) = Some (p @ take m str1)"
    using rx_body [OF assms(1) nb b_def _ pl(2) ps m_def n(3) c1_def] r pl(1) unfolding body_def by auto
  have md: "min k (min (length b - 4) (length str - 4)) = m" by (simp add: m_def pl(1) str1_def)
  have "rx_step k (c, str, dl) = map_option (\<lambda>(d, acts, c). (c, drop m str1, dl @ d)) (read_cb (\<lambda>_. True) (RData p) body c)"
    using i(1) l4 hd h(3) pl(1) md unfolding rx_step_def body_def str1_def p_def [symmetric]
    by (simp add: charbuf0_def Let_def nat_diff_distrib')
  then have "s' = (if cb_sz (cn_rpdu c2) = cb_solong (cn_rpdu c2)
          then (c2\<lparr>cn_rpdu := charbuf0\<rparr>, drop m str1, take n (map frame bs) @ [p @ take m str1]) else (c2, drop m str1, take n (map frame bs)))"
    using assms(7) read_cb_body [OF rp r b2(1) n(3) b2(2)] i(1) n(1) by (simp add: charbuf0_def split: if_splits)
  then show ?thesis
    using rx_finish [OF assms(1) nb b_def _ pl(2) ps m_def n(3) c1_def r [unfolded body_def]] pl(1) by simp
qed

lemma rx_step_partial:
  assumes "\<forall>b \<in> set bs. pdu_ok b" "n < length bs" "cn_rpdu c = \<lparr>cb_buf = Some p, cb_sz = int (length (bs ! n)), cb_solong = int (length p)\<rparr>"
    and "4 \<le> length p" "length p < length (bs ! n)" "p @ str = concat (drop n (map frame bs))" "dl = take n (map frame bs)"
    and "\<not> cn_dead c" "rx_step k (c, str, dl) = Some s'"
  shows "rx_inv bs s'"
proof -
  note nb = assms(2) and p = assms(3-6) and n = assms(7) assms(7) assms(8)
  define b where "b = bs ! n"
  define m where "m = min k (min (length b - length p) (length str))"
  define body where "body = (if m = 0 then RFail True else RData (take m str))"
  define c1 where "c1 = c\<lparr>cn_rpdu := \<lparr>cb_buf = Some p, cb_sz = int (length b), cb_solong = int (length p)\<rparr>\<rparr>"
  have ne: "bs ! n \<noteq> []" using p(3) by auto
  have cc: "c1 = c" using p(1) by (simp add: c1_def b_def)
  obtain ok2 c2 where r: "readpdu_body body c1 = (ok2, c2)" by (cases "readpdu_body body c1")
  have rp: "readpdu hdr body c = Some (readpdu_body body c1)" for hdr
    using p(1) ne by (simp add: readpdu_def cc)
  have b2: "ok2" "cb_buf (cn_rpdu c2) = Some (p @ take m str)"
    using rx_body [OF assms(1) nb b_def p(2) p(3) [folded b_def] p(4) m_def n(3) c1_def] r unfolding body_def by auto
  have z: "cb_sz (cn_rpdu c) \<noteq> 0" "nat (cb_sz (cn_rpdu c) - cb_solong (cn_rpdu c)) = length b - length p"
    using p(1) ne by (simp_all add: b_def)
  have "rx_step k (c, str, dl) = map_option (\<lambda>(d, acts, c). (c, drop m str, dl @ d)) (read_cb (\<lambda>_. True) (RData (take 4 str)) body c)"
    using z unfolding rx_step_def body_def by (simp add: Let_def m_def [symmetric])
  then have "s' = (if cb_sz (cn_rpdu c2) = cb_solong (cn_rpdu c2)
          then (c2\<lparr>cn_rpdu := charbuf0\<rparr>, drop m str, take n (map frame bs) @ [p @ take m str]) else (c2, drop m str, take n (map frame bs)))"
    using assms(9) read_cb_body [OF rp r b2(1) n(3) b2(2)] p(1,3) n(1) by (simp split: if_splits)
  then show ?thesis
    using rx_finish [OF assms(1) nb b_def p(2) p(3) [folded b_def] p(4) m_def n(3) c1_def r [unfolded body_def]] by simp
qed

lemma rx_step_inv:
  assumes "\<forall>b \<in> set bs. pdu_ok b" "rx_inv bs s" "rx_step k s = Some s'"
  shows "rx_inv bs s'"
proof (cases s)
  case (fields c str dl)
  then show ?thesis
    using assms(2,3) rx_step_idle [OF assms(1), of c str _ dl k s'] rx_step_partial [OF assms(1), of _ c _ str dl k s']
    unfolding rx_inv_def by fastforce
qed

lemma rx_run_inv: "\<forall>b \<in> set bs. pdu_ok b \<Longrightarrow> rx_inv bs s \<Longrightarrow> rx_run ks s = Some s' \<Longrightarrow> rx_inv bs s'"
  by (induction ks arbitrary: s) (auto dest: rx_step_inv split: bind_splits)



text \<open>
  C37. A size field below 4 overruns the buffer.  For a received size field up to the limit, \<open>readpdu\<close> lets the second \<open>read\<close> fill more bytes than
  it has allocated exactly when the field, as a signed number, lies between \<open>-4\<close> and \<open>3\<close>: the count of remaining bytes is then negative and
  becomes a huge \<open>size_t\<close>.  For every other size the bytes read stay within the buffer.
\<close>

theorem short_pdu_overruns:
  assumes "cn_rpdu c = charbuf0" "length hdr = 4" "sz = sint (ntohl hdr)" "sz \<le> MAX_PDU"
  shows "\<exists>c'. readpdu (RData hdr) (RFail True) c = Some (True, c') \<and> cb_sz (cn_rpdu c') = sz
    \<and> (unat (read_alloc sz) < 4 + unat (read_count (cn_rpdu c')) \<longleftrightarrow> - 4 \<le> sz \<and> sz < 4)"
proof -
  have lo: "- (2 ^ 31) \<le> sz" using sint_ge [of "ntohl hdr"] assms(3) by simp
  have hi: "sz \<le> 10485760" using assms(4) by (simp add: MAX_PDU_def)
  have u: "unat (word_of_int k :: u32) = nat (k mod 2 ^ 32)" for k by (simp add: unsigned_of_int take_bit_eq_mod)
  have w: "k mod 2 ^ 32 = k + 2 ^ 32" if "- (2 ^ 32) \<le> k" "k < 0" for k :: int
  proof -
    have "k mod 2 ^ 32 = (k + 2 ^ 32) mod 2 ^ 32" by simp
    also have "\<dots> = k + 2 ^ 32" by (rule mod_pos_pos_trivial) (use that in auto)
    finally show ?thesis .
  qed
  have a: "unat (read_alloc sz) = nat ((sz + 4) mod 2 ^ 32)" unfolding read_alloc_def by (rule u)
  have n: "unat (read_count \<lparr>cb_buf = Some hdr, cb_sz = sz, cb_solong = 4\<rparr>) = nat ((sz - 4) mod 2 ^ 32)"
    unfolding read_count_def by (simp only: u charbuf.simps)
  have "nat ((sz + 4) mod 2 ^ 32) < 4 + nat ((sz - 4) mod 2 ^ 32) \<longleftrightarrow> - 4 \<le> sz \<and> sz < 4"
  proof (cases "4 \<le> sz")
    case True
    then show ?thesis using hi by simp
  next
    case False
    have m: "(sz - 4) mod 2 ^ 32 = sz - 4 + 2 ^ 32" using False lo by (intro w) auto
    show ?thesis
    proof (cases "- 4 \<le> sz")
      case True
      then show ?thesis using False m by simp
    next
      case neg: False
      have "(sz + 4) mod 2 ^ 32 = sz + 4 + 2 ^ 32" using neg lo by (intro w) auto
      then show ?thesis using neg m lo by simp
    qed
  qed
  then show ?thesis using assms a n by (simp add: readpdu_def readpdu_body_def charbuf0_def)
qed

theorem short_pdu_overruns_witness:
  "\<exists>c'. readpdu (RData [0, 0, 0, 1]) (RFail True) (snd connection_new) = Some (True, c')
     \<and> unat (read_alloc 1) < 4 + unat (read_count (cn_rpdu c'))"
  using short_pdu_overruns [of "snd connection_new" "[0, 0, 0, 1]" 1] by (auto simp: connection_new_def MAX_PDU_def)

end
