(* ===== verification/CallLoop.thy ===== *)
theory CallLoop
  imports Connection "HOL-Library.Signed_Division"
begin

text \<open>
  The waiting loop of \<open>rpcc::call1\<close> in \<open>rpc/rpc.cc\<close> with the arithmetic on \<open>timespec\<close> it uses, and \<open>rpcc::get_refconn\<close>.  The parts of
  \<open>call1\<close> before and behind the loop are in the theory \<open>Rpc\<close>.
\<close>

record timespec =
  tv_sec :: int
  tv_nsec :: int

definition cmp_timespec :: "timespec \<Rightarrow> timespec \<Rightarrow> int" where
  "cmp_timespec a b =
     (if tv_sec a > tv_sec b then 1 else if tv_sec a < tv_sec b then - 1
      else if tv_nsec a > tv_nsec b then 1 else if tv_nsec a < tv_nsec b then - 1 else 0)"

function carry_nsec :: "timespec \<Rightarrow> timespec" where
  "carry_nsec t = (if tv_nsec t > 1000000000 then carry_nsec (t\<lparr>tv_sec := tv_sec t + 1, tv_nsec := tv_nsec t - 1000000000\<rparr>) else t)"
  by auto
termination by (relation "measure (\<lambda>t. nat (tv_nsec t))") auto

declare carry_nsec.simps [simp del]

text \<open>C++ division truncates towards zero.\<close>

definition add_timespec :: "timespec \<Rightarrow> int \<Rightarrow> timespec option" where
  "add_timespec a b =
     (let r = \<lparr>tv_sec = tv_sec a + b sdiv 1000, tv_nsec = tv_nsec a + (b smod 1000) * 1000000\<rparr>
      in if tv_nsec r < 0 then None else Some (carry_nsec r))"

definition diff_timespec :: "timespec \<Rightarrow> timespec \<Rightarrow> int option" where
  "diff_timespec e s =
     (let diff = (if tv_sec e > tv_sec s then (tv_sec e - tv_sec s) * 1000 else 0)
      in if diff = 0 \<and> tv_sec e \<noteq> tv_sec s then None
         else Some (if tv_nsec e > tv_nsec s then diff + (tv_nsec e - tv_nsec s) sdiv 1000000
                    else diff - (tv_nsec s - tv_nsec e) sdiv 1000000))"

subsection \<open>The loop\<close>

definition to_max :: int where "to_max = 120000"
definition to_min :: int where "to_min = 1000"

text \<open>
  What one round of the loop meets: the clock, whether the reply arrives before the deadline of the round, whether there is no live channel
  after the wait, and whether a transmission of this round finds a channel to send on.
\<close>

record call_round =
  cr_now :: timespec
  cr_done :: bool
  cr_nochan :: bool
  cr_sent :: bool

datatype call_end = Replied_call | Timed_out | Still_waiting | Call_abort

text \<open>\<open>final\<close>: the final deadline, with \<open>tv_sec\<close> 0 once the last round has begun.  The number counts the transmissions.\<close>

fun call_loop :: "bool \<Rightarrow> call_round list \<Rightarrow> int \<Rightarrow> timespec \<Rightarrow> bool \<Rightarrow> nat \<Rightarrow> call_end \<times> nat" where
  "call_loop retrans [] cur final transmit n = (Still_waiting, n)"
| "call_loop retrans (r # rs) cur final transmit n =
     (let n = (if transmit \<and> cr_sent r then n + 1 else n) in
      if tv_sec final = 0 then (Timed_out, n)
      else case add_timespec (cr_now r) cur of
             None \<Rightarrow> (Call_abort, n)
           | Some next_dl \<Rightarrow>
               let final = (if cmp_timespec next_dl final > 0 then final\<lparr>tv_sec := 0\<rparr> else final)
               in if cr_done r then (Replied_call, n)
                  else call_loop retrans rs (cur * 2) final (retrans \<and> cr_nochan r) n)"

definition call_wait :: "bool \<Rightarrow> timespec \<Rightarrow> int \<Rightarrow> call_round list \<Rightarrow> call_end \<times> nat" where
  "call_wait retrans now to rs =
     (case add_timespec now to of
        None \<Rightarrow> (Call_abort, 0)
      | Some final \<Rightarrow> call_loop retrans rs to_min final True 0)"

subsection \<open>The channel of a client\<close>

text \<open>
  \<open>store\<close> maps the addresses of connections to them; \<open>conn\<close>: the address of the connection \<open>connect_to_dst\<close> makes, if it can connect.  The
  result has the new \<open>chan_\<close>, the caller's \<open>*ch\<close> and the store; deleted connections leave it.
\<close>

definition store_decref :: "nat \<Rightarrow> (nat \<Rightarrow> connection option) \<Rightarrow> (nat \<Rightarrow> connection option) option" where
  "store_decref a st =
     (case st a of
        None \<Rightarrow> None
      | Some c \<Rightarrow> map_option (\<lambda>(del, c). st(a := if del then None else Some c)) (decref c))"

text \<open>The destructor: closes the channel and gives up its reference, and asserts that no call is left; \<open>n\<close> is \<open>calls_.size()\<close>.\<close>

definition rpcc_del :: "nat option \<Rightarrow> nat \<Rightarrow> (nat \<Rightarrow> connection option) \<Rightarrow> (nat \<Rightarrow> connection option) option" where
  "rpcc_del chan n st =
     (case chan of
        None \<Rightarrow> Some st
      | Some c \<Rightarrow> (case st c of None \<Rightarrow> None | Some cn \<Rightarrow> store_decref c (st(c \<mapsto> snd (closeconn cn)))))
     \<bind> (\<lambda>st. if n = 0 then Some st else None)"

definition get_refconn :: "nat option \<Rightarrow> nat option \<Rightarrow> nat option \<Rightarrow> (nat \<Rightarrow> connection option) \<Rightarrow> (nat option \<times> nat option \<times> (nat \<Rightarrow> connection option)) option" where
  "get_refconn conn chan ch st =
     do { (chan, st) \<leftarrow>
            (case chan of
               None \<Rightarrow> Some (conn, case conn of None \<Rightarrow> st | Some a \<Rightarrow> st(a \<mapsto> snd connection_new))
             | Some a \<Rightarrow>
                 (case st a of
                    None \<Rightarrow> None
                  | Some c \<Rightarrow>
                      if cn_dead c
                      then map_option (\<lambda>st. (conn, case conn of None \<Rightarrow> st | Some a \<Rightarrow> st(a \<mapsto> snd connection_new))) (store_decref a st)
                      else Some (Some a, st)));
          case chan of
            None \<Rightarrow> Some (chan, ch, st)
          | Some a \<Rightarrow>
              do { st \<leftarrow> (case ch of None \<Rightarrow> Some st | Some b \<Rightarrow> store_decref b st);
                   case st a of None \<Rightarrow> None | Some c \<Rightarrow> Some (chan, Some a, st(a \<mapsto> incref c)) } }"

subsection \<open>Every call comes to an end\<close>

definition ts_ok :: "timespec \<Rightarrow> bool" where
  "ts_ok t \<longleftrightarrow> 0 \<le> tv_nsec t \<and> tv_nsec t \<le> 1000000000"

definition ts_val :: "timespec \<Rightarrow> int" where
  "ts_val t = tv_sec t * 1000000000 + tv_nsec t"

lemma carry_nsec_lemma: "0 \<le> tv_nsec t \<Longrightarrow> ts_ok (carry_nsec t) \<and> ts_val (carry_nsec t) = ts_val t"
proof (induction t rule: carry_nsec.induct)
  case (1 t)
  then show ?case by (subst (1 2) carry_nsec.simps) (auto simp: ts_ok_def ts_val_def algebra_simps)
qed

lemma add_timespec_lemma:
  assumes "ts_ok a" "0 \<le> b"
  shows "\<exists>r. add_timespec a b = Some r \<and> ts_ok r \<and> ts_val r = ts_val a + b * 1000000"
proof -
  let ?r = "\<lparr>tv_sec = tv_sec a + b sdiv 1000, tv_nsec = tv_nsec a + (b smod 1000) * 1000000\<rparr>"
  have d: "b sdiv 1000 = b div 1000" "b smod 1000 = b mod 1000"
    using assms(2) by (cases "b = 0"; simp add: signed_divide_int_def signed_modulo_int_def)+
  have "0 \<le> tv_nsec ?r" using assms d by (simp add: ts_ok_def)
  moreover have "ts_val ?r = ts_val a + b * 1000000"
    by (simp add: ts_val_def d) presburger
  ultimately show ?thesis using carry_nsec_lemma [of ?r] by (simp add: add_timespec_def)
qed

lemma later_by_a_second: "ts_ok a \<Longrightarrow> ts_ok b \<Longrightarrow> ts_val a - ts_val b > 1000000000 \<Longrightarrow> cmp_timespec a b > 0"
  by (auto simp: ts_ok_def ts_val_def cmp_timespec_def)

text \<open>From the round in which the time-out has grown past what is left, the loop needs two more rounds at most.\<close>

lemma loop_last: "tv_sec final = 0 \<Longrightarrow> rs \<noteq> [] \<Longrightarrow> fst (call_loop retrans rs cur final tr n) = Timed_out"
  by (cases rs) auto

lemma loop_ends:
  assumes "ts_ok final" "ts_val final = ts_val start + to * 1000000" "\<forall>r \<in> set rs. ts_ok (cr_now r) \<and> ts_val start \<le> ts_val (cr_now r)"
    and "0 \<le> cur" "to + 1000 < cur * 2 ^ k" "k + 2 \<le> length rs"
  shows "fst (call_loop retrans rs cur final tr n) \<in> {Replied_call, Timed_out}"
  using assms(3-6)
proof (induction k arbitrary: rs cur tr n)
  case 0
  then obtain r rs' where rs: "rs = r # rs'" "rs' \<noteq> []" by (cases rs; cases "tl rs") auto
  obtain d where d: "add_timespec (cr_now r) cur = Some d" "ts_ok d" "ts_val d = ts_val (cr_now r) + cur * 1000000"
    using add_timespec_lemma [of "cr_now r" cur] 0 rs by auto
  have "cmp_timespec d final > 0" using 0 rs d assms(1,2) by (intro later_by_a_second) auto
  then show ?case using rs d(1) loop_last [of "final\<lparr>tv_sec := 0\<rparr>" rs'] by (simp add: Let_def)
next
  case (Suc k)
  then obtain r rs' where rs: "rs = r # rs'" by (cases rs) auto
  obtain d where d: "add_timespec (cr_now r) cur = Some d"
    using add_timespec_lemma [of "cr_now r" cur] Suc.prems rs by auto
  have ne: "rs' \<noteq> []" using Suc.prems(4) rs by auto
  have ih: "fst (call_loop retrans rs' (cur * 2) final tr' n') \<in> {Replied_call, Timed_out}" for tr' n'
    using Suc.IH [of rs' "cur * 2" tr' n'] Suc.prems rs by (simp add: mult.assoc)
  show ?case using rs d ih loop_last [of "final\<lparr>tv_sec := 0\<rparr>" rs', OF _ ne] by (auto simp: Let_def)
qed

text \<open>Transmissions happen in the first round and after rounds without a channel.\<close>

lemma loop_sends:
  "snd (call_loop retrans rs cur final tr n) \<le> n + (if tr then 1 else 0) + (if retrans then length (filter cr_nochan rs) else 0)"
proof (induction rs arbitrary: cur final tr n)
  case (Cons r rs)
  show ?case
  proof (cases "add_timespec (cr_now r) cur")
    case (Some d)
    define f where "f = (if cmp_timespec d final > 0 then final\<lparr>tv_sec := 0\<rparr> else final)"
    define m where "m = (if tr \<and> cr_sent r then n + 1 else n)"
    show ?thesis
      using Cons.IH [of "cur * 2" f "retrans \<and> cr_nochan r" m] Some
      by (auto simp: Let_def f_def [symmetric] m_def split: if_splits)
  qed (auto simp: Let_def)
qed simp



end
