(* ===== verification/ThreadPool.thy ===== *)
theory ThreadPool
  imports Prelude "HOL-Library.Monad_Syntax"
begin

text \<open>
  The bounded queue of \<open>rpc/fifo.h\<close> and the thread pool of \<open>rpc/thr_pool.cc\<close> built on it, and \<open>rpcs::got_pdu\<close>, which hands requests to the
  pool.  An operation that has to wait on a condition variable returns \<open>None\<close>: it takes place later, in another state.
\<close>

subsection \<open>The queue\<close>

record 'a fifo =
  ff_q :: "'a list"
  ff_max :: u32

definition fifo_new :: "int \<Rightarrow> 'a fifo" where
  "fifo_new limit = \<lparr>ff_q = [], ff_max = word_of_int limit\<rparr>"

text \<open>\<open>size\<close> is declared to return \<open>bool\<close>.\<close>

definition fifo_size :: "'a fifo \<Rightarrow> bool" where
  "fifo_size f \<longleftrightarrow> length (ff_q f) \<noteq> 0"

definition fifo_enq :: "'a \<Rightarrow> bool \<Rightarrow> 'a fifo \<Rightarrow> (bool \<times> 'a fifo) option" where
  "fifo_enq e blocking f =
     (if ff_max f = 0 \<or> length (ff_q f) < unat (ff_max f) then Some (True, f\<lparr>ff_q := ff_q f @ [e]\<rparr>)
      else if blocking then None else Some (False, f))"

text \<open>The flag: \<open>has_space_c_\<close> is signalled.\<close>

definition fifo_deq :: "'a fifo \<Rightarrow> ('a \<times> bool \<times> 'a fifo) option" where
  "fifo_deq f =
     (case ff_q f of
        [] \<Rightarrow> None
      | e # q \<Rightarrow> let f = f\<lparr>ff_q := q\<rparr> in Some (e, ff_max f \<noteq> 0 \<and> length (ff_q f) < unat (ff_max f), f))"

subsection \<open>The pool\<close>

text \<open>A job without a function is the poison pill that ends a worker.\<close>

record 'j thr_pool =
  tp_nthreads :: int
  tp_blockadd :: bool
  tp_jobq :: "'j option fifo"

definition thr_pool_new :: "int \<Rightarrow> bool \<Rightarrow> 'j thr_pool" where
  "thr_pool_new sz blocking = \<lparr>tp_nthreads = sz, tp_blockadd = blocking, tp_jobq = fifo_new (100 * sz)\<rparr>"

definition addJob :: "'j \<Rightarrow> 'j thr_pool \<Rightarrow> (bool \<times> 'j thr_pool) option" where
  "addJob j p = map_option (\<lambda>(r, q). (r, p\<lparr>tp_jobq := q\<rparr>)) (fifo_enq (Some j) (tp_blockadd p) (tp_jobq p))"

definition addPoison :: "'j thr_pool \<Rightarrow> 'j thr_pool option" where
  "addPoison p = map_option (\<lambda>(r, q). p\<lparr>tp_jobq := q\<rparr>) (fifo_enq None True (tp_jobq p))"

definition takeJob :: "'j thr_pool \<Rightarrow> ('j option \<times> 'j thr_pool) option" where
  "takeJob p = map_option (\<lambda>(j, sig, q). (j, p\<lparr>tp_jobq := q\<rparr>)) (fifo_deq (tp_jobq p))"

text \<open>
  \<open>rpcs::got_pdu\<close>: \<open>refs\<close> is the connection's reference count, \<open>reachable\<close> and \<open>reachable'\<close> the two readings of \<open>reachable_\<close>.  The results: what
  the connection is told, the reference count, and whether the job was freed.
\<close>

definition rpcs_got_pdu :: "bool \<Rightarrow> bool \<Rightarrow> 'j \<Rightarrow> int \<Rightarrow> 'j thr_pool \<Rightarrow> (bool \<times> int \<times> bool \<times> 'j thr_pool) option" where
  "rpcs_got_pdu reachable reachable' j refs p =
     (if \<not> reachable then Some (True, refs, False, p)
      else let refs = refs + 1 in
        case addJob j p of
          None \<Rightarrow> None
        | Some (succ, p) \<Rightarrow> if \<not> succ \<or> \<not> reachable' then Some (succ, refs - 1, True, p) else Some (succ, refs, False, p))"

text \<open>
  A server that stays reachable frees a job exactly when the pool refused it, and holds one more reference on the connection for each queued
  job.  When \<open>set_reachable(false)\<close> falls between the two readings, a job in the queue has been freed.
\<close>

lemma got_pdu_accounts:
  assumes "rpcs_got_pdu True True j refs p = Some (succ, refs', freed, p')"
  shows "freed = (\<not> succ)" "refs' = refs + (if succ then 1 else 0)" "ff_q (tp_jobq p') = ff_q (tp_jobq p) @ (if succ then [Some j] else [])"
  using assms by (auto simp: rpcs_got_pdu_def addJob_def fifo_enq_def Let_def split: if_splits)

lemma got_pdu_frees_queued:
  assumes "length (ff_q (tp_jobq p)) < unat (ff_max (tp_jobq p))"
  shows "\<exists>p'. rpcs_got_pdu True False j refs p = Some (True, refs, True, p') \<and> Some j \<in> set (ff_q (tp_jobq p'))"
  using assms by (auto simp: rpcs_got_pdu_def addJob_def fifo_enq_def Let_def)

subsection \<open>The pool at work\<close>

text \<open>
  Clients add jobs, the workers take them, and the destructor adds one pill for each thread; it may run only when no client uses the pool any
  more.  Beside the pool: the workers alive, the pills added, the jobs accepted and the jobs run, in order.
\<close>

record 'j pool_sys =
  ps_pool :: "'j thr_pool"
  ps_alive :: nat
  ps_pills :: nat
  ps_added :: "'j list"
  ps_run :: "'j list"

datatype 'j pool_ev = Add 'j | Work | Poison

fun pool_step :: "'j pool_ev \<Rightarrow> 'j pool_sys \<Rightarrow> 'j pool_sys option" where
  "pool_step (Add j) s =
     (if ps_pills s \<noteq> 0 then None
      else map_option (\<lambda>(ok, p). s\<lparr>ps_pool := p, ps_added := ps_added s @ (if ok then [j] else [])\<rparr>) (addJob j (ps_pool s)))"
| "pool_step Work s =
     (if ps_alive s = 0 then None
      else case takeJob (ps_pool s) of
             None \<Rightarrow> None
           | Some (None, p) \<Rightarrow> Some (s\<lparr>ps_pool := p, ps_alive := ps_alive s - 1\<rparr>)
           | Some (Some j, p) \<Rightarrow> Some (s\<lparr>ps_pool := p, ps_run := ps_run s @ [j]\<rparr>))"
| "pool_step Poison s =
     (if int (ps_pills s) \<ge> tp_nthreads (ps_pool s) then None
      else map_option (\<lambda>p. s\<lparr>ps_pool := p, ps_pills := ps_pills s + 1\<rparr>) (addPoison (ps_pool s)))"

fun pool_run :: "'j pool_ev list \<Rightarrow> 'j pool_sys \<Rightarrow> 'j pool_sys option" where
  "pool_run [] s = Some s"
| "pool_run (e # es) s = pool_step e s \<bind> pool_run es"

definition pool_start :: "nat \<Rightarrow> bool \<Rightarrow> 'j pool_sys" where
  "pool_start n blocking = \<lparr>ps_pool = thr_pool_new (int n) blocking, ps_alive = n, ps_pills = 0, ps_added = [], ps_run = []\<rparr>"

text \<open>The queue is jobs followed by pills; a worker has ended only after the last job was taken.\<close>

definition pool_inv :: "nat \<Rightarrow> 'j pool_sys \<Rightarrow> bool" where
  "pool_inv n s \<longleftrightarrow> (let f = tp_jobq (ps_pool s) in tp_nthreads (ps_pool s) = int n \<and> unat (ff_max f) = 100 * n \<and> length (ff_q f) \<le> 100 * n \<and>
     ps_alive s \<le> n \<and> ps_pills s \<le> n \<and>
     (\<exists>js. ff_q f = map Some js @ replicate (ps_pills s - (n - ps_alive s)) None \<and> ps_run s @ js = ps_added s
        \<and> n - ps_alive s \<le> ps_pills s \<and> (ps_alive s < n \<longrightarrow> js = [])))"

lemma pool_start_inv: "0 < n \<Longrightarrow> 100 * n < 2 ^ 32 \<Longrightarrow> pool_inv n (pool_start n b)"
proof -
  assume n: "0 < n" "100 * n < 2 ^ 32"
  have "word_of_int (100 * int n) = (word_of_nat (100 * n) :: u32)" by simp
  then have "unat (word_of_int (100 * int n) :: u32) = 100 * n" using n(2) by (simp only: unat_of_nat) simp
  then show ?thesis by (simp add: pool_inv_def pool_start_def thr_pool_new_def fifo_new_def)
qed

lemma enq_inv:
  assumes "fifo_enq e b f = Some (r, f')" "unat (ff_max f) = m" "0 < m" "length (ff_q f) \<le> m"
  shows "ff_max f' = ff_max f" "ff_q f' = ff_q f @ (if r then [e] else [])" "length (ff_q f') \<le> m"
proof -
  have "ff_max f \<noteq> 0" using assms(2,3) by auto
  then show "ff_max f' = ff_max f" "ff_q f' = ff_q f @ (if r then [e] else [])" "length (ff_q f') \<le> m"
    using assms by (auto simp: fifo_enq_def split: if_splits)
qed

lemma pool_step_inv:
  assumes "0 < n" "pool_inv n s" "pool_step e s = Some s'"
  shows "pool_inv n s'"
proof -
  define f where "f = tp_jobq (ps_pool s)"
  obtain js where i: "tp_nthreads (ps_pool s) = int n" "unat (ff_max f) = 100 * n" "length (ff_q f) \<le> 100 * n" "ps_alive s \<le> n" "ps_pills s \<le> n"
      "ff_q f = map Some js @ replicate (ps_pills s - (n - ps_alive s)) None" "ps_run s @ js = ps_added s" "n - ps_alive s \<le> ps_pills s"
      "ps_alive s < n \<longrightarrow> js = []"
    using assms(2) by (auto simp: pool_inv_def f_def Let_def)
  show ?thesis
  proof (cases e)
    case (Add j)
    then obtain r f' where r: "fifo_enq (Some j) (tp_blockadd (ps_pool s)) f = Some (r, f')" "ps_pills s = 0"
        "s' = s\<lparr>ps_pool := (ps_pool s)\<lparr>tp_jobq := f'\<rparr>, ps_added := ps_added s @ (if r then [j] else [])\<rparr>"
      using assms(3) by (auto simp: addJob_def f_def split: if_splits)
    have "ps_alive s = n" using r(2) i(4,8) by simp
    then show ?thesis
      using enq_inv [OF r(1) i(2) _ i(3)] assms(1) i r(2,3)
      by (auto simp: pool_inv_def intro!: exI [of _ "js @ (if r then [j] else [])"])
  next
    case Work
    show ?thesis
    proof (cases js)
      case Nil
      then have "ff_q f \<noteq> []" using assms(3) Work by (auto simp: takeJob_def fifo_deq_def f_def split: if_splits)
      then obtain k where k: "ps_pills s - (n - ps_alive s) = Suc k" using i(6) Nil by (cases "ps_pills s - (n - ps_alive s)") auto
      then have q: "ff_q f = None # replicate k None" using i(6) Nil by simp
      have "s' = s\<lparr>ps_pool := (ps_pool s)\<lparr>tp_jobq := f\<lparr>ff_q := replicate k None\<rparr>\<rparr>, ps_alive := ps_alive s - 1\<rparr>" "ps_alive s \<noteq> 0"
        using assms(3) Work q by (auto simp: takeJob_def fifo_deq_def f_def Let_def split: if_splits)
      moreover have "ps_pills s - (n - (ps_alive s - 1)) = k" "n - (ps_alive s - 1) \<le> ps_pills s" using k calculation(2) i(4) by auto
      ultimately show ?thesis using i q Nil k by (auto simp: pool_inv_def intro!: exI [of _ "[]"])
    next
      case (Cons j js')
      then have q: "ff_q f = Some j # (map Some js' @ replicate (ps_pills s - (n - ps_alive s)) None)" using i(6) by simp
      then have "s' = s\<lparr>ps_pool := (ps_pool s)\<lparr>tp_jobq := f\<lparr>ff_q := map Some js' @ replicate (ps_pills s - (n - ps_alive s)) None\<rparr>\<rparr>, ps_run := ps_run s @ [j]\<rparr>"
        using assms(3) Work by (auto simp: takeJob_def fifo_deq_def f_def Let_def split: if_splits)
      then show ?thesis using i q Cons by (auto simp: pool_inv_def intro!: exI [of _ js'])
    qed
  next
    case Poison
    then obtain r f' where r: "fifo_enq None True f = Some (r, f')" "ps_pills s < n"
        "s' = s\<lparr>ps_pool := (ps_pool s)\<lparr>tp_jobq := f'\<rparr>, ps_pills := ps_pills s + 1\<rparr>"
      using assms(3) i(1) by (auto simp: addPoison_def f_def split: if_splits)
    have "r" using r(1) by (auto simp: fifo_enq_def split: if_splits)
    moreover have "ps_pills s + 1 - (n - ps_alive s) = Suc (ps_pills s - (n - ps_alive s))" using i(8) by simp
    ultimately show ?thesis
      using enq_inv [OF r(1) i(2) _ i(3)] assms(1) i r(2,3)
      by (auto simp: pool_inv_def replicate_append_same intro!: exI [of _ js])
  qed
qed

lemma pool_run_inv: "0 < n \<Longrightarrow> pool_inv n s \<Longrightarrow> pool_run es s = Some s' \<Longrightarrow> pool_inv n s'"
  by (induction es arbitrary: s) (auto dest: pool_step_inv split: bind_splits)

text \<open>
  C23. The pool runs every accepted job once, in order.  At any moment the jobs run so far are an initial part of the jobs accepted, and the queue
  holds at most a hundred jobs per thread.  When the destructor has put in its pills and all workers have ended, every accepted job has been run.
\<close>

theorem pool_runs_every_job:
  assumes "0 < n" "100 * n < 2 ^ 32" "pool_run es (pool_start n blocking) = Some s"
  shows "(\<exists>rest. ps_added s = ps_run s @ rest) \<and> length (ff_q (tp_jobq (ps_pool s))) \<le> 100 * n \<and> (ps_alive s = 0 \<longrightarrow> ps_run s = ps_added s)"
  using pool_run_inv [OF assms(1) pool_start_inv [OF assms(1,2)] assms(3)] assms(1) by (auto simp: pool_inv_def Let_def intro: sym)

theorem pool_runs_every_job_witness:
  "\<exists>s. pool_run [Add (1 :: nat), Add 2, Work, Poison, Work, Poison, Work, Work] (pool_start 2 True) = Some s \<and> ps_alive s = 0 \<and> ps_run s = [1, 2]"
proof -
  obtain s where s: "pool_run [Add (1 :: nat), Add 2, Work, Poison, Work, Poison, Work, Work] (pool_start 2 True) = Some s" "ps_alive s = 0" "ps_added s = [1, 2]"
    by (simp add: pool_start_def thr_pool_new_def fifo_new_def addJob_def fifo_enq_def takeJob_def fifo_deq_def addPoison_def)
  then show ?thesis using pool_runs_every_job [OF _ _ s(1)] by auto
qed

end
