(* ===== verification/HandleMgr.thy ===== *)
theory HandleMgr
  imports StdMap "HOL-Library.Char_ord" "HOL-Library.List_Lexorder" "HOL-Library.Multiset" "HOL-Library.Monad_Syntax"
begin

text \<open>
  The cache of RPC clients, \<open>handle.cc\<close>.  A pointer \<open>&hmap[m]\<close> is the key \<open>m\<close> (the nodes of a \<open>std::map\<close> do not move), an \<open>rpcc\<close> object the number
  of its allocation.  Using an entry that was erased is \<open>None\<close>.
\<close>

record hinfo =
  hi_cl :: nat
  hi_refcnt :: int
  hi_del :: bool
  hi_m :: string

record handle_mgr =
  hm_map :: "(string, hinfo) stdmap"
  hm_next :: nat
  hm_deleted :: "nat list"

definition handle_mgr_new :: handle_mgr where
  "handle_mgr_new = \<lparr>hm_map = [], hm_next = 0, hm_deleted = []\<rparr>"

text \<open>\<open>ret\<close> is the result of \<open>bind\<close>.  The result \<open>False\<close> is the null pointer.\<close>

definition get_handle :: "string \<Rightarrow> int \<Rightarrow> handle_mgr \<Rightarrow> bool \<times> handle_mgr" where
  "get_handle m ret g =
     (case mfind (hm_map g) m of
        None \<Rightarrow>
          let cl = hm_next g; g = g\<lparr>hm_next := cl + 1\<rparr> in
          if ret < 0 then (False, g)
          else (True, g\<lparr>hm_map := mput m \<lparr>hi_cl = cl, hi_refcnt = 1, hi_del = False, hi_m = m\<rparr> (hm_map g)\<rparr>)
      | Some h \<Rightarrow>
          if \<not> hi_del h then (True, g\<lparr>hm_map := mput m (h\<lparr>hi_refcnt := hi_refcnt h + 1\<rparr>) (hm_map g)\<rparr>)
          else (False, g))"

definition delete_handle_wo :: "string \<Rightarrow> handle_mgr \<Rightarrow> handle_mgr" where
  "delete_handle_wo m g =
     (case mfind (hm_map g) m of
        None \<Rightarrow> g
      | Some h \<Rightarrow>
          if hi_refcnt h = 0 then g\<lparr>hm_deleted := hm_deleted g @ [hi_cl h], hm_map := merase m (hm_map g)\<rparr>
          else g\<lparr>hm_map := mput m (h\<lparr>hi_del := True\<rparr>) (hm_map g)\<rparr>)"

definition delete_handle :: "string \<Rightarrow> handle_mgr \<Rightarrow> handle_mgr" where
  "delete_handle m g = delete_handle_wo m g"

definition done_handle :: "string \<Rightarrow> handle_mgr \<Rightarrow> handle_mgr option" where
  "done_handle p g =
     do {
       h \<leftarrow> mfind (hm_map g) p;
       let h = h\<lparr>hi_refcnt := hi_refcnt h - 1\<rparr>;
       let g = g\<lparr>hm_map := mput p h (hm_map g)\<rparr>;
       Some (if hi_refcnt h \<le> 0 \<and> hi_del h then delete_handle_wo (hi_m h) g else g)
     }"

text \<open>\<open>handle::get_rpcc\<close>: \<open>h\<close> is the handle's pointer, \<open>None\<close> the null pointer.\<close>

definition get_rpcc :: "string option \<Rightarrow> handle_mgr \<Rightarrow> nat option option" where
  "get_rpcc h g = (case h of None \<Rightarrow> Some None | Some p \<Rightarrow> map_option (\<lambda>i. Some (hi_cl i)) (mfind (hm_map g) p))"

subsection \<open>Handles in use\<close>

text \<open>Threads construct handles, destroy handles they constructed, and delete members; \<open>out\<close> is the multiset of the handles alive.\<close>

datatype handle_ev = Get string int | Done string | Delete string

fun handle_step :: "handle_ev \<Rightarrow> handle_mgr \<times> string multiset \<Rightarrow> (handle_mgr \<times> string multiset) option" where
  "handle_step (Get m ret) (g, out) = (let (ok, g) = get_handle m ret g in Some (g, if ok then add_mset m out else out))"
| "handle_step (Done m) (g, out) = (if m \<in># out then map_option (\<lambda>g. (g, out - {#m#})) (done_handle m g) else Some (g, out))"
| "handle_step (Delete m) (g, out) = Some (delete_handle m g, out)"

fun handle_run :: "handle_ev list \<Rightarrow> handle_mgr \<times> string multiset \<Rightarrow> (handle_mgr \<times> string multiset) option" where
  "handle_run [] s = Some s"
| "handle_run (e # es) s = handle_step e s \<bind> handle_run es"

fun ref_at :: "hinfo option \<Rightarrow> nat \<Rightarrow> string \<Rightarrow> bool" where
  "ref_at None n m \<longleftrightarrow> n = 0"
| "ref_at (Some h) n m \<longleftrightarrow> hi_refcnt h = int n \<and> hi_m h = m"

definition refs_ok :: "handle_mgr \<Rightarrow> string multiset \<Rightarrow> bool" where
  "refs_ok g out \<longleftrightarrow> (\<forall>m. ref_at (mfind (hm_map g) m) (count out m) m)"

definition clients_ok :: "handle_mgr \<Rightarrow> bool" where
  "clients_ok g \<longleftrightarrow> distinct (hm_deleted g) \<and> (\<forall>c \<in> set (hm_deleted g). c < hm_next g) \<and>
     (\<forall>m h. mfind (hm_map g) m = Some h \<longrightarrow> hi_cl h < hm_next g \<and> hi_cl h \<notin> set (hm_deleted g)) \<and>
     (\<forall>m m' h h'. mfind (hm_map g) m = Some h \<and> mfind (hm_map g) m' = Some h' \<and> hi_cl h = hi_cl h' \<longrightarrow> m = m')"

lemma refs_okD:
  assumes "refs_ok g out"
  shows "mfind (hm_map g) m = Some h \<Longrightarrow> hi_refcnt h = int (count out m) \<and> hi_m h = m" "mfind (hm_map g) m = None \<Longrightarrow> count out m = 0"
  using assms spec [of "\<lambda>m. ref_at (mfind (hm_map g) m) (count out m) m" m] unfolding refs_ok_def by auto

lemma refs_ok_put:
  assumes "refs_ok g out" "hi_refcnt h = int (count out' m)" "hi_m h = m" "\<And>k. k \<noteq> m \<Longrightarrow> count out' k = count out k"
  shows "refs_ok (g\<lparr>hm_map := mput m h (hm_map g)\<rparr>) out'"
  using assms unfolding refs_ok_def by simp

lemma refs_ok_next [simp]: "refs_ok (g\<lparr>hm_next := n\<rparr>) out = refs_ok g out"
  by (simp add: refs_ok_def)

lemma get_refs: "refs_ok g out \<Longrightarrow> get_handle m ret g = (ok, g') \<Longrightarrow> refs_ok g' (if ok then add_mset m out else out)"
proof (cases "mfind (hm_map g) m")
  case None
  assume r: "refs_ok g out" "get_handle m ret g = (ok, g')"
  have c: "count out m = 0" using refs_okD(2) [OF r(1) None] .
  show ?thesis
  proof (cases "ret < 0")
    case False
    then have g': "ok" "g' = (g\<lparr>hm_next := hm_next g + 1\<rparr>)\<lparr>hm_map := mput m \<lparr>hi_cl = hm_next g, hi_refcnt = 1, hi_del = False, hi_m = m\<rparr> (hm_map (g\<lparr>hm_next := hm_next g + 1\<rparr>))\<rparr>"
      using r(2) None by (auto simp: get_handle_def Let_def)
    show ?thesis unfolding g'(2) if_P [OF g'(1)] by (rule refs_ok_put [of _ out]) (use r(1) c in simp_all)
  qed (use r None in \<open>auto simp: get_handle_def Let_def\<close>)
next
  case (Some h)
  assume r: "refs_ok g out" "get_handle m ret g = (ok, g')"
  show ?thesis
    using r(2) Some refs_okD(1) [OF r(1) Some] r(1) by (auto simp: get_handle_def split: if_splits intro!: refs_ok_put [OF r(1)])
qed

lemma delete_refs: "refs_ok g out \<Longrightarrow> refs_ok (delete_handle_wo m g) out"
proof (cases "mfind (hm_map g) m")
  case (Some h)
  assume r: "refs_ok g out"
  note h = refs_okD(1) [OF r Some]
  show ?thesis
  proof (cases "hi_refcnt h = 0")
    case True
    then have "count out m = 0" using h by simp
    then show ?thesis using r Some True unfolding refs_ok_def delete_handle_wo_def by simp
  qed (use Some h refs_ok_put [OF r, of "h\<lparr>hi_del := True\<rparr>" out m] in \<open>simp add: delete_handle_wo_def count_eq_zero_iff\<close>)
qed (simp add: delete_handle_wo_def)

text \<open>The destructor of a live handle finds its entry, and takes its reference away.\<close>

lemma done_refs:
  assumes "refs_ok g out" "m \<in># out"
  shows "\<exists>g'. done_handle m g = Some g' \<and> refs_ok g' (out - {#m#})"
proof -
  obtain h where h: "mfind (hm_map g) m = Some h" "hi_refcnt h = int (count out m)" "hi_m h = m"
    using refs_okD [OF assms(1), of m] assms(2) by (cases "mfind (hm_map g) m") (auto simp: count_eq_zero_iff)
  let ?h = "h\<lparr>hi_refcnt := hi_refcnt h - 1\<rparr>"
  have c: "0 < count out m" using assms(2) by simp
  have "refs_ok (g\<lparr>hm_map := mput m ?h (hm_map g)\<rparr>) (out - {#m#})"
    by (rule refs_ok_put [OF assms(1)]) (use h c in auto)
  then show ?thesis using h by (auto simp: done_handle_def Let_def intro: delete_refs)
qed

lemma clients_okD:
  assumes "clients_ok g" "mfind (hm_map g) m = Some h"
  shows "hi_cl h < hm_next g" "hi_cl h \<notin> set (hm_deleted g)" "mfind (hm_map g) m' = Some h' \<Longrightarrow> hi_cl h' = hi_cl h \<Longrightarrow> m' = m"
  using assms unfolding clients_ok_def by blast+

lemma clients_okI:
  assumes "distinct (hm_deleted g)" "\<And>c. c \<in> set (hm_deleted g) \<Longrightarrow> c < hm_next g"
    "\<And>m h. mfind (hm_map g) m = Some h \<Longrightarrow> hi_cl h < hm_next g \<and> hi_cl h \<notin> set (hm_deleted g)"
    "\<And>m m' h h'. mfind (hm_map g) m = Some h \<Longrightarrow> mfind (hm_map g) m' = Some h' \<Longrightarrow> hi_cl h = hi_cl h' \<Longrightarrow> m = m'"
  shows "clients_ok g"
  using assms unfolding clients_ok_def by blast

lemma put_clients: "clients_ok g \<Longrightarrow> mfind (hm_map g) m = Some h \<Longrightarrow> hi_cl h' = hi_cl h \<Longrightarrow> clients_ok (g\<lparr>hm_map := mput m h' (hm_map g)\<rparr>)"
  unfolding clients_ok_def by (auto split: if_splits)

lemma new_clients: "clients_ok g \<Longrightarrow> clients_ok (g\<lparr>hm_next := Suc (hm_next g)\<rparr>)"
  unfolding clients_ok_def by (auto intro: less_SucI)

lemma put_new_clients:
  assumes "clients_ok g" "hi_cl h = hm_next g"
  shows "clients_ok (g\<lparr>hm_next := Suc (hm_next g), hm_map := mput m h (hm_map g)\<rparr>)"
proof -
  have lt: "hi_cl h' < hm_next g" if "mfind (hm_map g) k = Some h'" for k h' using clients_okD(1) [OF assms(1) that] .
  have del: "distinct (hm_deleted g)" "\<forall>c \<in> set (hm_deleted g). c < hm_next g" using assms(1) by (simp_all add: clients_ok_def)
  have cl: "hi_cl h' < Suc (hm_next g) \<and> hi_cl h' \<notin> set (hm_deleted g)" if "((mfind (hm_map g))(m \<mapsto> h)) k = Some h'" for k h'
    using that assms(2) del(2) lt [of k h'] clients_okD(2) [OF assms(1), of k h'] by (auto split: if_splits)
  have inj: "k = k'" if "((mfind (hm_map g))(m \<mapsto> h)) k = Some h1" "((mfind (hm_map g))(m \<mapsto> h)) k' = Some h2" "hi_cl h1 = hi_cl h2" for k k' h1 h2
    using that assms(2) lt [of k h1] lt [of k' h2] clients_okD(3) [OF assms(1), of k' h2 k h1] by (auto split: if_splits)
  show ?thesis
  proof (rule clients_okI)
    show "k = k'" if "mfind (hm_map (g\<lparr>hm_next := Suc (hm_next g), hm_map := mput m h (hm_map g)\<rparr>)) k = Some h1"
        "mfind (hm_map (g\<lparr>hm_next := Suc (hm_next g), hm_map := mput m h (hm_map g)\<rparr>)) k' = Some h2" "hi_cl h1 = hi_cl h2" for k k' h1 h2
      by (rule inj [OF _ _ that(3)]) (use that in simp_all)
  qed (use del cl in \<open>auto intro: less_SucI\<close>)
qed

lemma get_clients: "clients_ok g \<Longrightarrow> clients_ok (snd (get_handle m ret g))"
  by (auto simp: get_handle_def Let_def split: option.splits intro: new_clients put_new_clients put_clients)

lemma delete_clients: "clients_ok g \<Longrightarrow> clients_ok (delete_handle_wo m g)"
proof (cases "mfind (hm_map g) m")
  case (Some h)
  assume ok: "clients_ok g"
  show ?thesis
  proof (cases "hi_refcnt h = 0")
    case True
    have "clients_ok (g\<lparr>hm_deleted := hm_deleted g @ [hi_cl h], hm_map := merase m (hm_map g)\<rparr>)"
      using ok clients_okD [OF ok Some] unfolding clients_ok_def by (auto split: if_splits)
    then show ?thesis using Some True by (simp add: delete_handle_wo_def)
  qed (use Some put_clients [OF ok Some] in \<open>simp add: delete_handle_wo_def\<close>)
qed (simp add: delete_handle_wo_def)

lemma done_clients: "clients_ok g \<Longrightarrow> done_handle m g = Some g' \<Longrightarrow> clients_ok g'"
  by (auto simp: done_handle_def Let_def intro!: delete_clients put_clients split: bind_splits)

lemma handle_step_ok:
  assumes "refs_ok g out" "clients_ok g"
  shows "\<exists>g' out'. handle_step e (g, out) = Some (g', out') \<and> refs_ok g' out' \<and> clients_ok g'"
proof (cases e)
  case (Get m ret)
  then show ?thesis using get_refs [OF assms(1), of m ret] get_clients [OF assms(2), of m ret]
    by (cases "get_handle m ret g") auto
next
  case (Done m)
  then show ?thesis using done_refs [OF assms(1), of m] done_clients [OF assms(2), of m] assms by auto
qed (use assms in \<open>simp add: delete_handle_def delete_refs delete_clients\<close>)

lemma handle_run_ok:
  "refs_ok g out \<Longrightarrow> clients_ok g \<Longrightarrow> \<exists>g' out'. handle_run es (g, out) = Some (g', out') \<and> refs_ok g' out' \<and> clients_ok g'"
proof (induction es arbitrary: g out)
  case (Cons e es)
  obtain g1 out1 where "handle_step e (g, out) = Some (g1, out1)" "refs_ok g1 out1" "clients_ok g1" using handle_step_ok [OF Cons.prems] by blast
  then show ?case using Cons.IH [of g1 out1] by simp
qed simp

text \<open>
  C24. A handle stays valid as long as it lives.  However threads construct and destroy handles and delete members, no operation touches an erased
  entry, every live handle yields a client that has not been deleted, the reference count of its entry is the number of live handles for that
  member, and no client is deleted twice.
\<close>

theorem handles_stay_valid:
  "\<exists>g out. handle_run es (handle_mgr_new, {#}) = Some (g, out) \<and> distinct (hm_deleted g) \<and>
     (\<forall>m h. mfind (hm_map g) m = Some h \<longrightarrow> hi_refcnt h = int (count out m)) \<and>
     (\<forall>m. m \<in># out \<longrightarrow> (\<exists>c. get_rpcc (Some m) g = Some (Some c) \<and> c \<notin> set (hm_deleted g)))"
proof -
  have "refs_ok handle_mgr_new {#}" "clients_ok handle_mgr_new" by (auto simp: refs_ok_def clients_ok_def handle_mgr_new_def)
  then obtain g out where r: "handle_run es (handle_mgr_new, {#}) = Some (g, out)" "refs_ok g out" "clients_ok g" using handle_run_ok by blast
  have "\<exists>c. get_rpcc (Some m) g = Some (Some c) \<and> c \<notin> set (hm_deleted g)" if "m \<in># out" for m
    using that refs_okD(2) [OF r(2), of m] clients_okD(2) [OF r(3), of m] by (cases "mfind (hm_map g) m") (auto simp: get_rpcc_def count_eq_zero_iff)
  then show ?thesis using r refs_okD(1) [OF r(2)] by (auto simp: clients_ok_def)
qed

theorem handles_stay_valid_witness:
  "\<exists>g out. handle_run [Get ''a'' 0, Get ''a'' 0, Delete ''a'', Done ''a'', Get ''a'' 0] (handle_mgr_new, {#}) = Some (g, out) \<and> out = {#''a''#}
     \<and> (\<exists>c. get_rpcc (Some ''a'') g = Some (Some c) \<and> c \<notin> set (hm_deleted g))"
proof -
  let ?es = "[Get ''a'' 0, Get ''a'' 0, Delete ''a'', Done ''a'', Get ''a'' 0]"
  obtain g out where r: "handle_run ?es (handle_mgr_new, {#}) = Some (g, out)"
      "\<forall>m. m \<in># out \<longrightarrow> (\<exists>c. get_rpcc (Some m) g = Some (Some c) \<and> c \<notin> set (hm_deleted g))"
    using handles_stay_valid [of ?es] by blast
  have "out = {#''a''#}"
    using r(1) by (auto simp: handle_mgr_new_def get_handle_def delete_handle_def delete_handle_wo_def done_handle_def mfind_def Let_def)
  then show ?thesis using r by auto
qed

end
