(* ===== verification/SimpleLocks.thy ===== *)
theory SimpleLocks
  imports StdMap "HOL-Library.Monad_Syntax"
begin

text \<open>
  The first lock server, \<open>lock_server.cc\<close>: a client's \<open>acquire\<close> runs on a thread of the server and waits there, on one condition variable for all
  locks.  Beside the fields of the class the state has the threads that wait in \<open>pthread_cond_wait\<close> and the threads that were woken and have
  not yet looked at the lock again.
\<close>

type_synonym request = "int \<times> u32 \<times> u64"

record lock_server =
  sl_client :: "(u64, int) stdmap"
  sl_thread :: "(u64, u32) stdmap"
  sl_count :: "(int, (u64, int) stdmap) stdmap"
  sl_waiting :: "request list"
  sl_woken :: "request list"

definition lock_server_new :: lock_server where
  "lock_server_new = \<lparr>sl_client = [], sl_thread = [], sl_count = [], sl_waiting = [], sl_woken = []\<rparr>"

definition sl_stat :: "int \<Rightarrow> u64 \<Rightarrow> lock_server \<Rightarrow> int" where
  "sl_stat clid lid s =
     (if mcount (sl_count s) clid
      then if mcount (mget [] (sl_count s) clid) lid then mget 0 (mget [] (sl_count s) clid) lid else 0
      else 0)"

definition held_by :: "lock_server \<Rightarrow> request \<Rightarrow> bool" where
  "held_by s r = (case r of (clid, tid, lid) \<Rightarrow> mcount (sl_client s) lid \<and> mget 0 (sl_client s) lid = clid \<and> mget 0 (sl_thread s) lid = tid)"

text \<open>The part of \<open>acquire\<close> after the loop.\<close>

definition sl_grant :: "request \<Rightarrow> lock_server \<Rightarrow> lock_server" where
  "sl_grant r s =
     (case r of (clid, tid, lid) \<Rightarrow>
        let counts = mget [] (sl_count s) clid;
            n = if mcount (sl_count s) clid then if mcount counts lid then mget 0 counts lid + 1 else 1 else 1
        in s\<lparr>sl_client := mput lid clid (sl_client s), sl_thread := mput lid tid (sl_thread s),
             sl_count := mput clid (mput lid n counts) (sl_count s)\<rparr>)"

text \<open>One test of the loop's condition: the thread takes the lock, or waits.\<close>

definition sl_loop :: "request \<Rightarrow> lock_server \<Rightarrow> lock_server" where
  "sl_loop r s = (if mcount (sl_client s) (snd (snd r)) then s\<lparr>sl_waiting := sl_waiting s @ [r]\<rparr> else sl_grant r s)"

definition sl_acquire :: "request \<Rightarrow> lock_server \<Rightarrow> lock_server" where
  "sl_acquire r s = (if held_by s r then s else sl_loop r s)"

text \<open>\<open>pthread_cond_signal\<close> wakes one of the waiting threads, the \<open>w\<close>-th, if there is any.\<close>

definition wake :: "nat \<Rightarrow> lock_server \<Rightarrow> lock_server" where
  "wake w s =
     (if sl_waiting s = [] then s
      else let i = w mod length (sl_waiting s) in
        s\<lparr>sl_waiting := take i (sl_waiting s) @ drop (i + 1) (sl_waiting s), sl_woken := sl_woken s @ [sl_waiting s ! i]\<rparr>)"

definition sl_release :: "request \<Rightarrow> nat \<Rightarrow> lock_server \<Rightarrow> lock_server" where
  "sl_release r w s =
     (case r of (clid, tid, lid) \<Rightarrow>
        if \<not> mcount (sl_client s) lid then s
        else if mget 0 (sl_client s) lid \<noteq> clid \<or> mget 0 (sl_thread s) lid \<noteq> tid then s
        else wake w (s\<lparr>sl_client := merase lid (sl_client s), sl_thread := merase lid (sl_thread s)\<rparr>))"

subsection \<open>Runs\<close>

text \<open>\<open>Spurious w\<close>: a waiting thread wakes without a signal.  \<open>Resume\<close>: the first woken thread gets the mutex.\<close>

datatype sl_ev = Acquire request | Release request nat | Spurious nat | Resume

fun sl_step :: "lock_server \<Rightarrow> sl_ev \<Rightarrow> lock_server" where
  "sl_step s (Acquire r) = sl_acquire r s"
| "sl_step s (Release r w) = sl_release r w s"
| "sl_step s (Spurious w) = wake w s"
| "sl_step s Resume = (case sl_woken s of [] \<Rightarrow> s | r # rs \<Rightarrow> sl_loop r (s\<lparr>sl_woken := rs\<rparr>))"

fun ev_lock :: "sl_ev \<Rightarrow> u64 option" where
  "ev_lock (Acquire r) = Some (snd (snd r))"
| "ev_lock (Release r w) = Some (snd (snd r))"
| "ev_lock e = None"

text \<open>The tables of clients and threads name the same locks, and when a lock that is waited for is free, a thread has been woken.\<close>

definition sl_inv :: "u64 \<Rightarrow> lock_server \<Rightarrow> bool" where
  "sl_inv l s \<longleftrightarrow> (\<forall>r \<in> set (sl_waiting s @ sl_woken s). snd (snd r) = l) \<and> (sl_waiting s \<noteq> [] \<longrightarrow> mcount (sl_client s) l \<or> sl_woken s \<noteq> [])"

lemma grant_fields [simp]:
  "sl_waiting (sl_grant r s) = sl_waiting s" "sl_woken (sl_grant r s) = sl_woken s"
  "mcount (sl_client (sl_grant r s)) l \<longleftrightarrow> l = snd (snd r) \<or> mcount (sl_client s) l"
  by (auto simp: sl_grant_def Let_def mcount_mput split: prod.splits)

lemma wake_fields:
  assumes "sl_waiting s \<noteq> []"
  shows "sl_woken (wake w s) \<noteq> []" "set (sl_waiting (wake w s) @ sl_woken (wake w s)) \<subseteq> set (sl_waiting s @ sl_woken s)"
  using assms by (auto simp: wake_def Let_def dest: in_set_takeD in_set_dropD)

lemma wake_client [simp]: "sl_client (wake w s) = sl_client s"
  by (simp add: wake_def Let_def)

lemma wake_inv: "\<forall>r \<in> set (sl_waiting s @ sl_woken s). snd (snd r) = l \<Longrightarrow> sl_inv l (wake w s)"
  using wake_fields [of s w] by (cases "sl_waiting s = []") (auto simp: sl_inv_def wake_def)

lemma loop_inv:
  "\<forall>r \<in> set (sl_waiting s @ sl_woken s). snd (snd r) = l \<Longrightarrow> snd (snd r) = l \<Longrightarrow> sl_inv l (sl_loop r s)"
  by (auto simp: sl_inv_def sl_loop_def)

lemma sl_step_inv:
  assumes "sl_inv l s" "ev_lock e \<in> {None, Some l}"
  shows "sl_inv l (sl_step s e)"
proof (cases e)
  case (Acquire r)
  then show ?thesis using assms loop_inv [of s l r] by (auto simp: sl_acquire_def) (auto simp: sl_inv_def)
next
  case (Release r w)
  let ?s = "s\<lparr>sl_client := merase l (sl_client s), sl_thread := merase l (sl_thread s)\<rparr>"
  have "sl_inv l (wake w ?s)" by (rule wake_inv) (use assms(1) in \<open>simp add: sl_inv_def\<close>)
  then show ?thesis using Release assms by (auto simp: sl_release_def split: prod.splits)
next
  case (Spurious w)
  then show ?thesis using assms wake_inv [of s l w] by (simp add: sl_inv_def)
next
  case Resume
  show ?thesis
  proof (cases "sl_woken s")
    case (Cons r rs)
    then show ?thesis using Resume assms loop_inv [of "s\<lparr>sl_woken := rs\<rparr>" l r] by (simp add: sl_inv_def)
  qed (use Resume assms in simp)
qed

lemma sl_run_inv: "sl_inv l s \<Longrightarrow> \<forall>e \<in> set es. ev_lock e \<in> {None, Some l} \<Longrightarrow> sl_inv l (foldl sl_step s es)"
  by (induction es arbitrary: s) (auto simp: sl_step_inv)

text \<open>
  C25. One lock has no lost wakeup.  As long as all requests are for one lock, then however requests, signals, spurious wakeups and rescheduled
  threads interleave: while a thread waits and the lock is free, some thread has been woken and will try the lock.
\<close>

theorem one_lock_no_lost_wakeup:
  assumes "\<forall>e \<in> set es. ev_lock e \<in> {None, Some l}" "sl_waiting (foldl sl_step lock_server_new es) \<noteq> []"
  shows "mcount (sl_client (foldl sl_step lock_server_new es)) l \<or> sl_woken (foldl sl_step lock_server_new es) \<noteq> []"
proof -
  have "sl_inv l lock_server_new" by (simp add: sl_inv_def lock_server_new_def)
  then show ?thesis using sl_run_inv [of l lock_server_new es] assms by (simp add: sl_inv_def)
qed

lemmas sl_defs = lock_server_new_def sl_acquire_def sl_loop_def sl_release_def sl_grant_def wake_def held_by_def mcount_def mget_def mfind_def Let_def

theorem one_lock_no_lost_wakeup_witness:
  "sl_woken (foldl sl_step lock_server_new [Acquire (1, 1, 7), Acquire (2, 1, 7), Acquire (3, 1, 7), Release (1, 1, 7) 1]) \<noteq> []"
proof -
  let ?es = "[Acquire (1, 1, 7), Acquire (2, 1, 7), Acquire (3, 1, 7), Release (1, 1, 7) 1]"
  have "sl_waiting (foldl sl_step lock_server_new ?es) \<noteq> []" "\<not> mcount (sl_client (foldl sl_step lock_server_new ?es)) 7"
    by (simp_all add: sl_defs merase_def)
  then show ?thesis using one_lock_no_lost_wakeup [of ?es 7] by simp
qed

text \<open>
  Two locks share the condition, and a signal can go to the wrong thread.  Client 1 holds locks 7 and 8, client 2 waits for 7 and client 3
  for 8.  When 7 is released and the signal wakes the thread that waits for 8, that thread goes back to wait: lock 7 is free, client 2 still waits
  for it, and no thread is awake.
\<close>

lemma signal_wakes_wrong_waiter:
  "let s = foldl sl_step lock_server_new
             [Acquire (1, 1, 7), Acquire (1, 1, 8), Acquire (2, 1, 7), Acquire (3, 1, 8), Release (1, 1, 7) 1, Resume]
   in \<not> mcount (sl_client s) 7 \<and> (2, 1, 7) \<in> set (sl_waiting s) \<and> sl_woken s = []"
  by (simp add: sl_defs merase_def)

end
