(* ===== verification/PollManager.thy ===== *)
theory PollManager
  imports Prelude "HOL-Library.Monad_Syntax"
begin

unbundle bit_operations_syntax

text \<open>
  The poll manager, \<open>rpc/pollmgr.cc\<close>: the interface \<open>aio_mgr\<close> with its two implementations over \<open>select\<close> and \<open>epoll\<close>, and the class \<open>PollMgr\<close> that
  keeps one callback for each watched descriptor.  A failed assertion is \<open>None\<close>.
\<close>

definition MAX_POLL_FDS :: int where "MAX_POLL_FDS = 128"

datatype poll_flag = CB_NONE | CB_RDONLY | CB_WRONLY | CB_RDWR | CB_MASK

fun flag_bits :: "poll_flag \<Rightarrow> u32" where
  "flag_bits CB_NONE = 0"
| "flag_bits CB_RDONLY = 0x1"
| "flag_bits CB_WRONLY = 0x10"
| "flag_bits CB_RDWR = 0x11"
| "flag_bits CB_MASK = NOT 0x11"

subsection \<open>SelectAIO\<close>

text \<open>\<open>sa_pipe\<close> is the reading end of the pipe that interrupts \<open>select\<close>, \<open>sa_bytes\<close> the number of bytes in the pipe.\<close>

record select_aio =
  sa_rfds :: "int set"
  sa_wfds :: "int set"
  sa_highfds :: int
  sa_pipe :: int
  sa_bytes :: nat

definition select_aio_new :: "int \<Rightarrow> select_aio" where
  "select_aio_new pipefd = \<lparr>sa_rfds = {pipefd}, sa_wfds = {}, sa_highfds = pipefd, sa_pipe = pipefd, sa_bytes = 0\<rparr>"

definition sa_watch_fd :: "int \<Rightarrow> poll_flag \<Rightarrow> select_aio \<Rightarrow> select_aio option" where
  "sa_watch_fd fd flag a =
     (let a = (if sa_highfds a \<le> fd then a\<lparr>sa_highfds := fd\<rparr> else a);
          a = (if flag = CB_RDONLY then a\<lparr>sa_rfds := insert fd (sa_rfds a)\<rparr>
               else if flag = CB_WRONLY then a\<lparr>sa_wfds := insert fd (sa_wfds a)\<rparr>
               else a\<lparr>sa_rfds := insert fd (sa_rfds a), sa_wfds := insert fd (sa_wfds a)\<rparr>)
      in Some (a\<lparr>sa_bytes := sa_bytes a + 1\<rparr>))"

definition sa_is_watched :: "int \<Rightarrow> poll_flag \<Rightarrow> select_aio \<Rightarrow> bool" where
  "sa_is_watched fd flag a =
     (if flag = CB_RDONLY then fd \<in> sa_rfds a
      else if flag = CB_WRONLY then fd \<in> sa_wfds a
      else fd \<in> sa_rfds a \<and> fd \<in> sa_wfds a)"

text \<open>The loop that looks for the highest descriptor.\<close>

definition sa_rescan :: "select_aio \<Rightarrow> int" where
  "sa_rescan a = fold (\<lambda>i newh. if i \<in> sa_rfds a then i else if i \<in> sa_wfds a then i else newh) [0..sa_highfds a] (sa_pipe a)"

definition sa_unwatch_fd :: "int \<Rightarrow> poll_flag \<Rightarrow> select_aio \<Rightarrow> (bool \<times> select_aio) option" where
  "sa_unwatch_fd fd flag a =
     do {
       a \<leftarrow> (if flag = CB_RDONLY then Some (a\<lparr>sa_rfds := sa_rfds a - {fd}\<rparr>)
            else if flag = CB_WRONLY then Some (a\<lparr>sa_wfds := sa_wfds a - {fd}\<rparr>)
            else if flag = CB_RDWR then Some (a\<lparr>sa_wfds := sa_wfds a - {fd}, sa_rfds := sa_rfds a - {fd}\<rparr>)
            else None);
       let gone = (fd \<notin> sa_rfds a \<and> fd \<notin> sa_wfds a);
       let a = (if gone \<and> fd = sa_highfds a then a\<lparr>sa_highfds := sa_rescan a\<rparr> else a);
       let a = (if flag = CB_RDWR then a\<lparr>sa_bytes := sa_bytes a + 1\<rparr> else a);
       Some (gone, a)
     }"

text \<open>
  \<open>wait_ready\<close>: \<open>c\<close> is the object when its sets were copied, \<open>a\<close> the object when \<open>select\<close> has returned; \<open>sel n r w\<close> is what \<open>select\<close> makes of the two
  sets, \<open>None\<close> when it was interrupted by a signal.  The loop goes over the descriptors up to \<open>high\<close>; the result is the readable and the
  writable descriptors.  Reading from the empty pipe fails the assertion.
\<close>

definition sa_wait_ready ::
  "(int \<Rightarrow> int set \<Rightarrow> int set \<Rightarrow> (int set \<times> int set) option) \<Rightarrow> select_aio \<Rightarrow> select_aio \<Rightarrow> (int list \<times> int list \<times> select_aio) option" where
  "sa_wait_ready sel c a =
     (case sel (sa_highfds c + 1) (sa_rfds c) (sa_wfds c) of
        None \<Rightarrow> Some ([], [], a)
      | Some (r, w) \<Rightarrow>
          let fds = [0..sa_highfds c];
              piped = (\<lambda>fd. fd = sa_pipe a \<and> fd \<in> r) in
          if (\<exists>fd \<in> set fds. piped fd) \<and> sa_bytes a = 0 then None
          else Some (filter (\<lambda>fd. \<not> piped fd \<and> fd \<in> r) fds, filter (\<lambda>fd. \<not> piped fd \<and> fd \<in> w) fds,
                     if \<exists>fd \<in> set fds. piped fd then a\<lparr>sa_bytes := sa_bytes a - 1\<rparr> else a))"

subsection \<open>EPollAIO\<close>

text \<open>\<open>ctl op fd events\<close> tells whether \<open>epoll_ctl\<close> succeeds.  The array \<open>fdstatus_\<close> is a function of the descriptor.\<close>

datatype epoll_op = EPOLL_CTL_ADD | EPOLL_CTL_MOD | EPOLL_CTL_DEL

type_synonym epoll_aio = "int \<Rightarrow> u32"

definition EPOLLIN :: u32 where "EPOLLIN = 0x1"
definition EPOLLOUT :: u32 where "EPOLLOUT = 0x4"
definition EPOLLET :: u32 where "EPOLLET = 0x80000000"

definition epoll_aio_new :: epoll_aio where
  "epoll_aio_new = (\<lambda>_. 0)"

definition poll_flag_to_event :: "poll_flag \<Rightarrow> u32" where
  "poll_flag_to_event flag = (if flag = CB_RDONLY then EPOLLIN else if flag = CB_WRONLY then EPOLLOUT else EPOLLIN OR EPOLLOUT)"

definition ep_events :: "u32 \<Rightarrow> u32" where
  "ep_events st = (let ev = EPOLLET; ev = (if st AND flag_bits CB_RDONLY \<noteq> 0 then ev OR EPOLLIN else ev)
                   in if st AND flag_bits CB_WRONLY \<noteq> 0 then ev OR EPOLLOUT else ev)"

definition ep_watch_fd :: "(epoll_op \<Rightarrow> int \<Rightarrow> u32 \<Rightarrow> bool) \<Rightarrow> int \<Rightarrow> poll_flag \<Rightarrow> epoll_aio \<Rightarrow> epoll_aio option" where
  "ep_watch_fd ctl fd flag a =
     (if fd \<ge> MAX_POLL_FDS then None
      else let op = if a fd \<noteq> 0 then EPOLL_CTL_MOD else EPOLL_CTL_ADD;
               st = a fd OR flag_bits flag;
               ev = ep_events st
        in if flag = CB_RDWR \<and> ev \<noteq> EPOLLET OR EPOLLIN OR EPOLLOUT then None
           else if \<not> ctl op fd ev then None
           else Some (a(fd := st)))"

definition ep_unwatch_fd :: "(epoll_op \<Rightarrow> int \<Rightarrow> u32 \<Rightarrow> bool) \<Rightarrow> int \<Rightarrow> poll_flag \<Rightarrow> epoll_aio \<Rightarrow> (bool \<times> epoll_aio) option" where
  "ep_unwatch_fd ctl fd flag a =
     (if fd \<ge> MAX_POLL_FDS then None
      else let st = a fd AND NOT (flag_bits flag);
               op = if st \<noteq> 0 then EPOLL_CTL_MOD else EPOLL_CTL_DEL;
               ev = ep_events st
        in if flag = CB_RDWR \<and> op \<noteq> EPOLL_CTL_DEL then None
           else if \<not> ctl op fd ev then None
           else Some (op = EPOLL_CTL_DEL, a(fd := st)))"

definition ep_is_watched :: "int \<Rightarrow> poll_flag \<Rightarrow> epoll_aio \<Rightarrow> bool option" where
  "ep_is_watched fd flag a = (if fd \<ge> MAX_POLL_FDS then None else Some (a fd AND flag_bits CB_MASK = flag_bits flag))"

definition ep_wait_ready :: "(int \<times> u32) list \<Rightarrow> int list \<times> int list" where
  "ep_wait_ready ready =
     (map fst (filter (\<lambda>(fd, ev). ev AND EPOLLIN \<noteq> 0) ready), map fst (filter (\<lambda>(fd, ev). ev AND EPOLLOUT \<noteq> 0) ready))"

subsection \<open>PollMgr\<close>

text \<open>The operations take the virtual functions of \<open>aio_\<close> as parameters.\<close>

record ('c, 'a) poll_mgr =
  pm_callbacks :: "int \<Rightarrow> 'c option"
  pm_aio :: 'a
  pm_pending_change :: bool

definition poll_mgr_new :: "'a \<Rightarrow> ('c, 'a) poll_mgr" where
  "poll_mgr_new a = \<lparr>pm_callbacks = (\<lambda>_. None), pm_aio = a, pm_pending_change = False\<rparr>"

definition add_callback :: "(int \<Rightarrow> poll_flag \<Rightarrow> 'a \<Rightarrow> 'a option) \<Rightarrow> int \<Rightarrow> poll_flag \<Rightarrow> 'c \<Rightarrow> ('c, 'a) poll_mgr \<Rightarrow> ('c, 'a) poll_mgr option" where
  "add_callback watch fd flag ch p =
     (if fd \<ge> MAX_POLL_FDS then None
      else do {
        a \<leftarrow> watch fd flag (pm_aio p);
        if pm_callbacks p fd = None \<or> pm_callbacks p fd = Some ch
        then Some (p\<lparr>pm_aio := a, pm_callbacks := (pm_callbacks p)(fd := Some ch)\<rparr>) else None
      })"

text \<open>\<open>block_remove_fd\<close> before and after its wait for the loop.\<close>

definition block_remove_start :: "(int \<Rightarrow> poll_flag \<Rightarrow> 'a \<Rightarrow> (bool \<times> 'a) option) \<Rightarrow> int \<Rightarrow> ('c, 'a) poll_mgr \<Rightarrow> ('c, 'a) poll_mgr option" where
  "block_remove_start unwatch fd p = map_option (\<lambda>(r, a). p\<lparr>pm_aio := a, pm_pending_change := True\<rparr>) (unwatch fd CB_RDWR (pm_aio p))"

definition block_remove_end :: "int \<Rightarrow> ('c, 'a) poll_mgr \<Rightarrow> ('c, 'a) poll_mgr" where
  "block_remove_end fd p = p\<lparr>pm_callbacks := (pm_callbacks p)(fd := None)\<rparr>"

definition del_callback :: "(int \<Rightarrow> poll_flag \<Rightarrow> 'a \<Rightarrow> (bool \<times> 'a) option) \<Rightarrow> int \<Rightarrow> poll_flag \<Rightarrow> ('c, 'a) poll_mgr \<Rightarrow> ('c, 'a) poll_mgr option" where
  "del_callback unwatch fd flag p =
     map_option (\<lambda>(r, a). p\<lparr>pm_aio := a, pm_callbacks := if r then (pm_callbacks p)(fd := None) else pm_callbacks p\<rparr>) (unwatch fd flag (pm_aio p))"

definition has_callback :: "(int \<Rightarrow> poll_flag \<Rightarrow> 'a \<Rightarrow> bool) \<Rightarrow> int \<Rightarrow> poll_flag \<Rightarrow> 'c \<Rightarrow> ('c, 'a) poll_mgr \<Rightarrow> bool" where
  "has_callback is_watched fd flag c p =
     (if pm_callbacks p fd = None \<or> pm_callbacks p fd \<noteq> Some c then False else is_watched fd flag (pm_aio p))"

subsection \<open>The loop and its clients\<close>

text \<open>
  \<open>wait_loop\<close> runs beside the threads that add, delete and remove callbacks.  Its round: the head, which wakes the removers; the copy of the sets;
  \<open>select\<close>; one call after the other.  \<open>Calling xs cur\<close>: the calls still to make (\<open>True\<close> for \<open>read_cb\<close>) and the one being made.
\<close>

datatype ('c, 'a) phase = Copying | Selecting 'a | Calling "(int \<times> bool) list" "('c \<times> int \<times> bool) option"

text \<open>The descriptors of the calls of \<open>block_remove_fd\<close> in progress, \<open>True\<close> when the loop has woken the thread.\<close>

record ('c, 'a) poll_sys =
  sy_pm :: "('c, 'a) poll_mgr"
  sy_removing :: "(int \<times> bool) list"
  sy_phase :: "('c, 'a) phase"

definition poll_start :: "'a \<Rightarrow> ('c, 'a) poll_sys" where
  "poll_start a = \<lparr>sy_pm = poll_mgr_new a, sy_removing = [], sy_phase = Calling [] None\<rparr>"

definition loop_head :: "('c, 'a) poll_sys \<Rightarrow> ('c, 'a) poll_sys" where
  "loop_head s =
     (let s = (if pm_pending_change (sy_pm s)
               then s\<lparr>sy_pm := (sy_pm s)\<lparr>pm_pending_change := False\<rparr>, sy_removing := map (\<lambda>(fd, b). (fd, True)) (sy_removing s)\<rparr> else s)
      in s\<lparr>sy_phase := Copying\<rparr>)"

text \<open>One step of the loop, \<open>wait\<close> being \<open>wait_ready\<close> after the copy.\<close>

definition loop_step :: "('a \<Rightarrow> 'a \<Rightarrow> (int list \<times> int list \<times> 'a) option) \<Rightarrow> ('c, 'a) poll_sys \<Rightarrow> ('c, 'a) poll_sys option" where
  "loop_step wait s =
     (case sy_phase s of
        Copying \<Rightarrow> Some (s\<lparr>sy_phase := Selecting (pm_aio (sy_pm s))\<rparr>)
      | Selecting c \<Rightarrow>
          map_option (\<lambda>(rs, ws, a). s\<lparr>sy_pm := (sy_pm s)\<lparr>pm_aio := a\<rparr>,
                                     sy_phase := Calling (map (\<lambda>fd. (fd, True)) rs @ map (\<lambda>fd. (fd, False)) ws) None\<rparr>)
            (wait c (pm_aio (sy_pm s)))
      | Calling xs (Some call) \<Rightarrow> Some (s\<lparr>sy_phase := Calling xs None\<rparr>)
      | Calling [] None \<Rightarrow> Some (loop_head s)
      | Calling ((fd, rd) # xs) None \<Rightarrow> Some (s\<lparr>sy_phase := Calling xs (map_option (\<lambda>c. (c, fd, rd)) (pm_callbacks (sy_pm s) fd))\<rparr>))"

datatype ('c, 'k) pm_ev = AddCb int poll_flag 'c | DelCb int poll_flag | RemStart int | RemEnd int | Loop 'k

text \<open>
  A descriptor that is being removed is open until the removal returns, and nobody adds a callback for it; a thread returns from the condition
  only after the broadcast.
\<close>

fun pm_step :: "(int \<Rightarrow> poll_flag \<Rightarrow> 'a \<Rightarrow> 'a option) \<Rightarrow> (int \<Rightarrow> poll_flag \<Rightarrow> 'a \<Rightarrow> (bool \<times> 'a) option) \<Rightarrow>
    ('k \<Rightarrow> 'a \<Rightarrow> 'a \<Rightarrow> (int list \<times> int list \<times> 'a) option) \<Rightarrow> ('c, 'k) pm_ev \<Rightarrow> ('c, 'a) poll_sys \<Rightarrow> ('c, 'a) poll_sys option" where
  "pm_step watch unwatch wait (AddCb fd flag ch) s =
     (if fd \<in> fst ` set (sy_removing s) then None else map_option (\<lambda>p. s\<lparr>sy_pm := p\<rparr>) (add_callback watch fd flag ch (sy_pm s)))"
| "pm_step watch unwatch wait (DelCb fd flag) s = map_option (\<lambda>p. s\<lparr>sy_pm := p\<rparr>) (del_callback unwatch fd flag (sy_pm s))"
| "pm_step watch unwatch wait (RemStart fd) s =
     map_option (\<lambda>p. s\<lparr>sy_pm := p, sy_removing := sy_removing s @ [(fd, False)]\<rparr>) (block_remove_start unwatch fd (sy_pm s))"
| "pm_step watch unwatch wait (RemEnd fd) s =
     (if (fd, True) \<in> set (sy_removing s)
      then Some (s\<lparr>sy_pm := block_remove_end fd (sy_pm s), sy_removing := remove1 (fd, True) (sy_removing s)\<rparr>) else None)"
| "pm_step watch unwatch wait (Loop k) s = loop_step (wait k) s"

fun pm_run :: "(int \<Rightarrow> poll_flag \<Rightarrow> 'a \<Rightarrow> 'a option) \<Rightarrow> (int \<Rightarrow> poll_flag \<Rightarrow> 'a \<Rightarrow> (bool \<times> 'a) option) \<Rightarrow>
    ('k \<Rightarrow> 'a \<Rightarrow> 'a \<Rightarrow> (int list \<times> int list \<times> 'a) option) \<Rightarrow> ('c, 'k) pm_ev list \<Rightarrow> ('c, 'a) poll_sys \<Rightarrow> ('c, 'a) poll_sys option" where
  "pm_run watch unwatch wait [] s = Some s"
| "pm_run watch unwatch wait (e # es) s = pm_step watch unwatch wait e s \<bind> pm_run watch unwatch wait es"

text \<open>A callback on \<open>fd\<close> is being called or will be called in this round.\<close>

fun busy :: "('c, 'a) phase \<Rightarrow> int \<Rightarrow> bool" where
  "busy (Calling xs cur) fd \<longleftrightarrow> fd \<in> fst ` set xs \<or> (\<exists>c b. cur = Some (c, fd, b))"
| "busy _ fd \<longleftrightarrow> False"

text \<open>The events whose descriptor belongs to a client and whose flag is one of the three a client uses.\<close>

fun ev_ok :: "(int \<Rightarrow> bool) \<Rightarrow> ('k \<Rightarrow> bool) \<Rightarrow> ('c, 'k) pm_ev \<Rightarrow> bool" where
  "ev_ok usable kern (AddCb fd flag ch) \<longleftrightarrow> usable fd \<and> flag \<in> {CB_RDONLY, CB_WRONLY, CB_RDWR}"
| "ev_ok usable kern (DelCb fd flag) \<longleftrightarrow> usable fd \<and> flag \<in> {CB_RDONLY, CB_WRONLY, CB_RDWR}"
| "ev_ok usable kern (RemStart fd) \<longleftrightarrow> usable fd"
| "ev_ok usable kern (RemEnd fd) \<longleftrightarrow> usable fd"
| "ev_ok usable kern (Loop k) \<longleftrightarrow> kern k"

subsection \<open>What the poll manager relies on\<close>

locale aio_mgr =
  fixes watch :: "int \<Rightarrow> poll_flag \<Rightarrow> 'a \<Rightarrow> 'a option"
    and unwatch :: "int \<Rightarrow> poll_flag \<Rightarrow> 'a \<Rightarrow> (bool \<times> 'a) option"
    and rd wr :: "'a \<Rightarrow> int \<Rightarrow> bool"
    and ok :: "'a \<Rightarrow> bool"
    and usable :: "int \<Rightarrow> bool"
  assumes watch_law: "ok a \<Longrightarrow> usable fd \<Longrightarrow> flag \<in> {CB_RDONLY, CB_WRONLY, CB_RDWR} \<Longrightarrow> watch fd flag a = Some a' \<Longrightarrow>
      ok a' \<and> rd a' = (rd a)(fd := rd a fd \<or> flag \<noteq> CB_WRONLY) \<and> wr a' = (wr a)(fd := wr a fd \<or> flag \<noteq> CB_RDONLY)"
    and unwatch_law: "ok a \<Longrightarrow> usable fd \<Longrightarrow> flag \<in> {CB_RDONLY, CB_WRONLY, CB_RDWR} \<Longrightarrow> unwatch fd flag a = Some (r, a') \<Longrightarrow>
      ok a' \<and> rd a' = (rd a)(fd := rd a fd \<and> flag = CB_WRONLY) \<and> wr a' = (wr a)(fd := wr a fd \<and> flag = CB_RDONLY) \<and>
      r = (\<not> rd a' fd \<and> \<not> wr a' fd)"
begin

definition watched :: "'a \<Rightarrow> int \<Rightarrow> bool" where
  "watched a fd \<longleftrightarrow> rd a fd \<or> wr a fd"

text \<open>A descriptor has a callback exactly when it is watched.\<close>

definition matching :: "int set \<Rightarrow> ('c, 'a) poll_mgr \<Rightarrow> bool" where
  "matching removing p \<longleftrightarrow> ok (pm_aio p) \<and> (\<forall>fd. usable fd \<and> fd \<notin> removing \<longrightarrow> (pm_callbacks p fd \<noteq> None \<longleftrightarrow> watched (pm_aio p) fd))"

lemma add_callback_matching:
  assumes "matching R p" "usable fd" "flag \<in> {CB_RDONLY, CB_WRONLY, CB_RDWR}" "add_callback watch fd flag ch p = Some p'"
  shows "matching R p'" "\<And>k. k \<noteq> fd \<Longrightarrow> watched (pm_aio p') k = watched (pm_aio p) k" "pm_pending_change p' = pm_pending_change p"
proof -
  obtain a where a: "watch fd flag (pm_aio p) = Some a" "p' = p\<lparr>pm_aio := a, pm_callbacks := (pm_callbacks p)(fd := Some ch)\<rparr>"
    using assms(4) by (auto simp: add_callback_def split: if_splits bind_splits)
  note l = watch_law [OF _ assms(2,3) a(1)]
  show "matching R p'" using assms(1,3) l a(2) by (auto simp: matching_def watched_def)
  show "\<And>k. k \<noteq> fd \<Longrightarrow> watched (pm_aio p') k = watched (pm_aio p) k" using assms(1) l a(2) by (auto simp: matching_def watched_def)
  show "pm_pending_change p' = pm_pending_change p" using a(2) by simp
qed

lemma del_callback_matching:
  assumes "matching R p" "usable fd" "flag \<in> {CB_RDONLY, CB_WRONLY, CB_RDWR}" "del_callback unwatch fd flag p = Some p'"
  shows "matching R p'" "\<And>k. watched (pm_aio p') k \<Longrightarrow> watched (pm_aio p) k" "pm_pending_change p' = pm_pending_change p"
proof -
  obtain r a where a: "unwatch fd flag (pm_aio p) = Some (r, a)"
      "p' = p\<lparr>pm_aio := a, pm_callbacks := if r then (pm_callbacks p)(fd := None) else pm_callbacks p\<rparr>"
    using assms(4) by (auto simp: del_callback_def)
  note l = unwatch_law [OF _ assms(2,3) a(1)]
  have o: "ok (pm_aio p)" using assms(1) by (simp add: matching_def)
  show "matching R p'" using assms(1) l [OF o] a(2) by (auto simp: matching_def watched_def split: if_splits)
  show "\<And>k. watched (pm_aio p') k \<Longrightarrow> watched (pm_aio p) k" using l [OF o] a(2) by (auto simp: watched_def split: if_splits)
  show "pm_pending_change p' = pm_pending_change p" using a(2) by simp
qed

lemma block_remove_matching:
  assumes "matching R p" "usable fd" "block_remove_start unwatch fd p = Some p'"
  shows "matching (insert fd R) p'" "\<And>k. watched (pm_aio p') k \<longleftrightarrow> k \<noteq> fd \<and> watched (pm_aio p) k" "pm_pending_change p'"
proof -
  obtain r a where a: "unwatch fd CB_RDWR (pm_aio p) = Some (r, a)" "p' = p\<lparr>pm_aio := a, pm_pending_change := True\<rparr>"
    using assms(3) by (auto simp: block_remove_start_def)
  have l: "ok a" "rd a = (rd (pm_aio p))(fd := False)" "wr a = (wr (pm_aio p))(fd := False)"
    using unwatch_law [OF _ assms(2) _ a(1)] assms(1) by (auto simp: matching_def)
  show "matching (insert fd R) p'" using assms(1) l a(2) by (auto simp: matching_def watched_def)
  show "\<And>k. watched (pm_aio p') k \<longleftrightarrow> k \<noteq> fd \<and> watched (pm_aio p) k" using l a(2) by (auto simp: watched_def)
  show "pm_pending_change p'" using a(2) by simp
qed

end

locale aio_loop = aio_mgr +
  fixes wait :: "'k \<Rightarrow> 'a \<Rightarrow> 'a \<Rightarrow> (int list \<times> int list \<times> 'a) option"
    and kern :: "'k \<Rightarrow> bool"
  assumes wait_law: "ok c \<Longrightarrow> ok a \<Longrightarrow> kern k \<Longrightarrow> wait k c a = Some (rs, ws, a') \<Longrightarrow>
      ok a' \<and> rd a' = rd a \<and> wr a' = wr a \<and> (\<forall>fd. usable fd \<longrightarrow> (fd \<in> set rs \<longrightarrow> rd c fd) \<and> (fd \<in> set ws \<longrightarrow> wr c fd))"
begin

fun clear_of :: "('c, 'a) phase \<Rightarrow> int \<Rightarrow> bool" where
  "clear_of (Selecting c) fd \<longleftrightarrow> \<not> watched c fd"
| "clear_of ph fd \<longleftrightarrow> \<not> busy ph fd"

definition quiet :: "('c, 'a) poll_sys \<Rightarrow> bool" where
  "quiet s \<longleftrightarrow> (\<forall>(fd, woken) \<in> set (sy_removing s). usable fd \<and> \<not> watched (pm_aio (sy_pm s)) fd \<and>
     (if woken then clear_of (sy_phase s) fd else pm_pending_change (sy_pm s)))"

definition sys_inv :: "('c, 'a) poll_sys \<Rightarrow> bool" where
  "sys_inv s \<longleftrightarrow> matching (fst ` set (sy_removing s)) (sy_pm s) \<and> quiet s \<and> (\<forall>c. sy_phase s = Selecting c \<longrightarrow> ok c)"

lemma quietD:
  assumes "quiet s"
  shows "(fd, b) \<in> set (sy_removing s) \<Longrightarrow> usable fd" "(fd, b) \<in> set (sy_removing s) \<Longrightarrow> \<not> watched (pm_aio (sy_pm s)) fd"
    "(fd, True) \<in> set (sy_removing s) \<Longrightarrow> clear_of (sy_phase s) fd" "(fd, False) \<in> set (sy_removing s) \<Longrightarrow> pm_pending_change (sy_pm s)"
  using assms unfolding quiet_def by (auto split: if_splits)

lemma quietI:
  assumes "\<And>fd b. (fd, b) \<in> set (sy_removing s) \<Longrightarrow> usable fd \<and> \<not> watched (pm_aio (sy_pm s)) fd"
    "\<And>fd. (fd, True) \<in> set (sy_removing s) \<Longrightarrow> clear_of (sy_phase s) fd"
    "\<And>fd. (fd, False) \<in> set (sy_removing s) \<Longrightarrow> pm_pending_change (sy_pm s)"
  shows "quiet s"
  using assms unfolding quiet_def by (auto split: if_splits)

lemma add_inv:
  assumes "sys_inv s" "usable fd" "flag \<in> {CB_RDONLY, CB_WRONLY, CB_RDWR}" "fd \<notin> fst ` set (sy_removing s)" "add_callback watch fd flag ch (sy_pm s) = Some p"
  shows "sys_inv (s\<lparr>sy_pm := p\<rparr>)"
proof -
  have i: "matching (fst ` set (sy_removing s)) (sy_pm s)" "quiet s" "\<forall>c. sy_phase s = Selecting c \<longrightarrow> ok c" using assms(1) by (auto simp: sys_inv_def)
  note p = add_callback_matching [OF i(1) assms(2,3,5)]
  have "quiet (s\<lparr>sy_pm := p\<rparr>)"
  proof (rule quietI, goal_cases)
    case (1 k b)
    then have "k \<noteq> fd" using assms(4) by force
    then show ?case using 1 p(2) [of k] by (auto dest: quietD [OF i(2)])
  qed (use p(3) in \<open>auto dest: quietD [OF i(2)]\<close>)
  then show ?thesis using i p by (simp add: sys_inv_def)
qed

lemma del_inv:
  assumes "sys_inv s" "usable fd" "flag \<in> {CB_RDONLY, CB_WRONLY, CB_RDWR}" "del_callback unwatch fd flag (sy_pm s) = Some p"
  shows "sys_inv (s\<lparr>sy_pm := p\<rparr>)"
proof -
  have i: "matching (fst ` set (sy_removing s)) (sy_pm s)" "quiet s" "\<forall>c. sy_phase s = Selecting c \<longrightarrow> ok c" using assms(1) by (auto simp: sys_inv_def)
  note p = del_callback_matching [OF i(1) assms(2,3,4)]
  have "quiet (s\<lparr>sy_pm := p\<rparr>)" by (rule quietI) (use p(3) in \<open>auto dest: quietD [OF i(2)] p(2)\<close>)
  then show ?thesis using i p by (simp add: sys_inv_def)
qed

lemma rem_start_inv:
  assumes "sys_inv s" "usable fd" "block_remove_start unwatch fd (sy_pm s) = Some p"
  shows "sys_inv (s\<lparr>sy_pm := p, sy_removing := sy_removing s @ [(fd, False)]\<rparr>)"
proof -
  have i: "matching (fst ` set (sy_removing s)) (sy_pm s)" "quiet s" "\<forall>c. sy_phase s = Selecting c \<longrightarrow> ok c" using assms(1) by (auto simp: sys_inv_def)
  note p = block_remove_matching [OF i(1) assms(2,3)]
  have "quiet (s\<lparr>sy_pm := p, sy_removing := sy_removing s @ [(fd, False)]\<rparr>)" by (rule quietI) (use p(2,3) assms(2) in \<open>auto dest: quietD [OF i(2)]\<close>)
  then show ?thesis using i p by (simp add: sys_inv_def)
qed

lemma rem_end_inv:
  assumes "sys_inv s" "(fd, True) \<in> set (sy_removing s)"
  shows "sys_inv (s\<lparr>sy_pm := block_remove_end fd (sy_pm s), sy_removing := remove1 (fd, True) (sy_removing s)\<rparr>)"
proof -
  have i: "matching (fst ` set (sy_removing s)) (sy_pm s)" "quiet s" "\<forall>c. sy_phase s = Selecting c \<longrightarrow> ok c" using assms(1) by (auto simp: sys_inv_def)
  let ?s = "s\<lparr>sy_pm := block_remove_end fd (sy_pm s), sy_removing := remove1 (fd, True) (sy_removing s)\<rparr>"
  have sub: "x \<in> set (remove1 (fd, True) (sy_removing s)) \<Longrightarrow> x \<in> set (sy_removing s)" for x using set_remove1_subset by fast
  have "quiet ?s" by (rule quietI) (auto simp: block_remove_end_def dest!: sub dest: quietD [OF i(2)])
  have k: "k \<notin> fst ` set (sy_removing s)" if "k \<noteq> fd" "k \<notin> fst ` set (remove1 (fd, True) (sy_removing s))" for k
    using that by (metis (no_types, opaque_lifting) image_iff fst_conv in_set_remove1)
  have "matching (fst ` set (sy_removing ?s)) (sy_pm ?s)"
    using i(1) quietD(2) [OF i(2) assms(2)] k by (auto simp: matching_def block_remove_end_def)
  then show ?thesis using i(3) \<open>quiet ?s\<close> by (simp add: sys_inv_def)
qed

lemma phase_inv:
  assumes "sys_inv s" "\<And>fd. usable fd \<Longrightarrow> \<not> watched (pm_aio (sy_pm s)) fd \<Longrightarrow> clear_of (sy_phase s) fd \<Longrightarrow> clear_of ph fd" "\<And>c. ph = Selecting c \<Longrightarrow> ok c"
  shows "sys_inv (s\<lparr>sy_phase := ph\<rparr>)"
proof -
  have i: "matching (fst ` set (sy_removing s)) (sy_pm s)" "quiet s" using assms(1) by (auto simp: sys_inv_def)
  have "quiet (s\<lparr>sy_phase := ph\<rparr>)" by (rule quietI) (auto dest: quietD [OF i(2)] intro: assms(2))
  then show ?thesis using i assms(3) by (simp add: sys_inv_def)
qed

lemma head_inv: "sys_inv s \<Longrightarrow> sys_inv (loop_head s)"
proof -
  assume "sys_inv s"
  then have i: "matching (fst ` set (sy_removing s)) (sy_pm s)" "quiet s" by (auto simp: sys_inv_def)
  have "quiet (loop_head s)" by (rule quietI) (auto simp: loop_head_def Let_def dest: quietD [OF i(2)] split: if_splits)
  moreover have "fst ` set (sy_removing (loop_head s)) = fst ` set (sy_removing s)" by (auto simp: loop_head_def Let_def image_image split_def)
  moreover have "pm_aio (sy_pm (loop_head s)) = pm_aio (sy_pm s)" "pm_callbacks (sy_pm (loop_head s)) = pm_callbacks (sy_pm s)" "sy_phase (loop_head s) = Copying"
    by (simp_all add: loop_head_def Let_def)
  ultimately show ?thesis using i by (simp add: sys_inv_def matching_def)
qed

lemma ready_inv:
  assumes "sys_inv s" "sy_phase s = Selecting c" "kern k" "wait k c (pm_aio (sy_pm s)) = Some (rs, ws, a)"
  shows "sys_inv (s\<lparr>sy_pm := (sy_pm s)\<lparr>pm_aio := a\<rparr>, sy_phase := Calling (map (\<lambda>fd. (fd, True)) rs @ map (\<lambda>fd. (fd, False)) ws) None\<rparr>)"
proof -
  have i: "matching (fst ` set (sy_removing s)) (sy_pm s)" "quiet s" "ok c" using assms(1,2) by (auto simp: sys_inv_def)
  have a: "ok a" "rd a = rd (pm_aio (sy_pm s))" "wr a = wr (pm_aio (sy_pm s))" "\<And>fd. usable fd \<Longrightarrow> fd \<in> set rs \<or> fd \<in> set ws \<Longrightarrow> watched c fd"
    using wait_law [OF i(3) _ assms(3,4)] i(1) by (auto simp: matching_def watched_def)
  have w: "watched a = watched (pm_aio (sy_pm s))" by (simp add: watched_def fun_eq_iff a)
  let ?s = "s\<lparr>sy_pm := (sy_pm s)\<lparr>pm_aio := a\<rparr>, sy_phase := Calling (map (\<lambda>fd. (fd, True)) rs @ map (\<lambda>fd. (fd, False)) ws) None\<rparr>"
  have "quiet ?s"
  proof (rule quietI, goal_cases)
    case (2 fd)
    then show ?case using quietD(1,3) [OF i(2), of fd] a(4) [of fd] assms(2) by auto
  qed (use w in \<open>auto dest: quietD [OF i(2)]\<close>)
  then show ?thesis using i a(1) w by (simp add: sys_inv_def matching_def)
qed

lemma loop_step_inv:
  assumes "sys_inv s" "kern k" "loop_step (wait k) s = Some s'"
  shows "sys_inv s'"
proof (cases "sy_phase s")
  case Copying
  then show ?thesis using assms phase_inv [OF assms(1), of "Selecting (pm_aio (sy_pm s))"] by (auto simp: loop_step_def sys_inv_def matching_def)
next
  case (Selecting c)
  then show ?thesis using assms ready_inv [OF assms(1) Selecting assms(2)] by (auto simp: loop_step_def)
next
  case (Calling xs cur)
  show ?thesis
  proof (cases cur)
    case None
    then show ?thesis using assms Calling head_inv [OF assms(1)]
      by (cases xs) (auto simp: loop_step_def intro!: phase_inv [OF assms(1)])
  next
    case (Some call)
    then show ?thesis using assms Calling by (cases xs) (auto simp: loop_step_def intro!: phase_inv [OF assms(1)])
  qed
qed

lemma pm_step_inv: "sys_inv s \<Longrightarrow> ev_ok usable kern e \<Longrightarrow> pm_step watch unwatch wait e s = Some s' \<Longrightarrow> sys_inv s'"
  by (cases e) (auto simp: rem_end_inv intro: add_inv del_inv rem_start_inv loop_step_inv split: if_splits)

lemma pm_run_inv:
  "sys_inv s \<Longrightarrow> \<forall>e \<in> set es. ev_ok usable kern e \<Longrightarrow> pm_run watch unwatch wait es s = Some s' \<Longrightarrow> sys_inv s'"
proof (induction es arbitrary: s)
  case (Cons e es)
  then show ?case using pm_step_inv [of s e] by (auto split: bind_splits)
qed simp

lemma start_inv: "ok a \<Longrightarrow> (\<And>fd. usable fd \<Longrightarrow> \<not> watched a fd) \<Longrightarrow> sys_inv (poll_start a)"
  by (simp add: sys_inv_def poll_start_def matching_def poll_mgr_new_def quiet_def)

text \<open>When \<open>block_remove_fd\<close> returns, no callback on the descriptor is running and none is about to.\<close>

lemma removal_quiet:
  assumes "sys_inv s" "pm_step watch unwatch wait (RemEnd fd) s = Some s'"
  shows "\<not> busy (sy_phase s') fd \<and> pm_callbacks (sy_pm s') fd = None"
proof -
  have r: "(fd, True) \<in> set (sy_removing s)" "s' = s\<lparr>sy_pm := block_remove_end fd (sy_pm s), sy_removing := remove1 (fd, True) (sy_removing s)\<rparr>"
    using assms(2) by (auto split: if_splits)
  have "clear_of (sy_phase s) fd" using quietD(3) [OF _ r(1)] assms(1) by (simp add: sys_inv_def)
  then have "\<not> busy (sy_phase s) fd" by (cases "sy_phase s") auto
  then show ?thesis using r(2) by (simp add: block_remove_end_def)
qed

end

subsection \<open>The two implementations\<close>

definition sa_usable :: "int \<Rightarrow> int \<Rightarrow> bool" where
  "sa_usable pipefd fd \<longleftrightarrow> 0 \<le> fd \<and> fd < MAX_POLL_FDS \<and> fd \<noteq> pipefd"

definition sa_ok :: "int \<Rightarrow> select_aio \<Rightarrow> bool" where
  "sa_ok pipefd a \<longleftrightarrow> sa_pipe a = pipefd \<and> pipefd \<in> sa_rfds a \<and> (\<forall>fd \<in> sa_rfds a \<union> sa_wfds a. 0 \<le> fd \<and> fd \<le> sa_highfds a)"

definition sa_rd :: "select_aio \<Rightarrow> int \<Rightarrow> bool" where
  "sa_rd a fd \<longleftrightarrow> fd \<in> sa_rfds a \<and> fd \<noteq> sa_pipe a"

definition sa_wr :: "select_aio \<Rightarrow> int \<Rightarrow> bool" where
  "sa_wr a fd \<longleftrightarrow> fd \<in> sa_wfds a \<and> fd \<noteq> sa_pipe a"

text \<open>\<open>select\<close> clears bits of the sets it is given, and sets none.\<close>

definition select_ok :: "(int \<Rightarrow> int set \<Rightarrow> int set \<Rightarrow> (int set \<times> int set) option) \<Rightarrow> bool" where
  "select_ok sel \<longleftrightarrow> (\<forall>n r w r' w'. sel n r w = Some (r', w') \<longrightarrow> r' \<subseteq> r \<and> w' \<subseteq> w)"

lemma fold_last_upper:
  fixes i :: "'i :: linorder"
  assumes "sorted xs" "i \<in> set xs" "P i"
  shows "i \<le> fold (\<lambda>i n. if P i then i else n) xs d"
  using assms by (induction xs rule: rev_induct) (auto simp: sorted_append)

lemma rescan_upper:
  assumes "fd \<in> sa_rfds a \<union> sa_wfds a" "0 \<le> fd" "fd \<le> sa_highfds a"
  shows "fd \<le> sa_rescan a"
proof -
  have "(\<lambda>i newh. if i \<in> sa_rfds a then i else if i \<in> sa_wfds a then i else newh) = (\<lambda>i n. if i \<in> sa_rfds a \<union> sa_wfds a then i else n)"
    by (auto simp: fun_eq_iff)
  then show ?thesis
    using fold_last_upper [of "[0..sa_highfds a]" fd "\<lambda>i. i \<in> sa_rfds a \<union> sa_wfds a" "sa_pipe a"] assms by (simp add: sa_rescan_def)
qed

lemma sa_watch_law:
  assumes "sa_ok P a" "sa_usable P fd" "sa_watch_fd fd flag a = Some a'"
  shows "sa_ok P a'" "sa_rd a' = (sa_rd a)(fd := sa_rd a fd \<or> flag \<noteq> CB_WRONLY)" "sa_wr a' = (sa_wr a)(fd := sa_wr a fd \<or> flag \<noteq> CB_RDONLY)"
proof -
  have f: "sa_pipe a' = sa_pipe a" "sa_rfds a \<subseteq> sa_rfds a'" "sa_rfds a' \<union> sa_wfds a' \<subseteq> insert fd (sa_rfds a \<union> sa_wfds a)" "sa_highfds a' = max (sa_highfds a) fd"
    using assms(3) by (auto simp: sa_watch_fd_def Let_def split: if_splits)
  have "0 \<le> x \<and> x \<le> sa_highfds a'" if "x \<in> sa_rfds a' \<union> sa_wfds a'" for x
  proof (cases "x = fd")
    case False
    then have "0 \<le> x \<and> x \<le> sa_highfds a" using that f(3) assms(1) unfolding sa_ok_def by blast
    then show ?thesis using f(4) by auto
  qed (use assms(2) f(4) in \<open>simp add: sa_usable_def\<close>)
  then show "sa_ok P a'" using assms(1) f(1,2) by (auto simp: sa_ok_def)
  show "sa_rd a' = (sa_rd a)(fd := sa_rd a fd \<or> flag \<noteq> CB_WRONLY)" "sa_wr a' = (sa_wr a)(fd := sa_wr a fd \<or> flag \<noteq> CB_RDONLY)"
    using assms by (auto simp: sa_ok_def sa_usable_def sa_rd_def sa_wr_def sa_watch_fd_def Let_def fun_eq_iff split: if_splits)
qed

text \<open>Taking descriptors away keeps \<open>highfds_\<close> an upper bound, whether it is scanned for again or not.\<close>

lemma sa_shrink_ok:
  assumes "sa_ok P a" "fd \<noteq> P" "R \<subseteq> sa_rfds a" "W \<subseteq> sa_wfds a" "P \<in> R" "b = a\<lparr>sa_rfds := R, sa_wfds := W\<rparr>"
  shows "sa_ok P b" "sa_ok P (b\<lparr>sa_highfds := sa_rescan b\<rparr>)"
proof -
  have in_a: "x \<in> sa_rfds a \<union> sa_wfds a" if "x \<in> R \<union> W" for x using that assms(3,4) by auto
  then have lt: "0 \<le> x \<and> x \<le> sa_highfds a" if "x \<in> R \<union> W" for x using assms(1) that unfolding sa_ok_def by blast
  show "sa_ok P b" using assms lt by (auto simp: sa_ok_def)
  show "sa_ok P (b\<lparr>sa_highfds := sa_rescan b\<rparr>)" using assms lt rescan_upper [of _ b] by (auto simp: sa_ok_def)
qed

lemma sa_ok_bytes [simp]: "sa_ok P (a\<lparr>sa_bytes := n\<rparr>) = sa_ok P a" "sa_rd (a\<lparr>sa_bytes := n\<rparr>) = sa_rd a" "sa_wr (a\<lparr>sa_bytes := n\<rparr>) = sa_wr a"
  by (simp_all add: sa_ok_def sa_rd_def sa_wr_def fun_eq_iff)

lemma sa_bytes_same [simp]: "a\<lparr>sa_bytes := sa_bytes a\<rparr> = a"
  by (cases a) simp

lemma sa_unwatch_result:
  assumes "sa_unwatch_fd fd flag a = Some (r, a')" "flag \<in> {CB_RDONLY, CB_WRONLY, CB_RDWR}"
  obtains b n where "b = a\<lparr>sa_rfds := if flag = CB_WRONLY then sa_rfds a else sa_rfds a - {fd}, sa_wfds := if flag = CB_RDONLY then sa_wfds a else sa_wfds a - {fd}\<rparr>"
    "r = (fd \<notin> sa_rfds b \<and> fd \<notin> sa_wfds b)" "a' = (if r \<and> fd = sa_highfds a then b\<lparr>sa_highfds := sa_rescan b\<rparr> else b)\<lparr>sa_bytes := n\<rparr>"
proof -
  define b where "b = a\<lparr>sa_rfds := if flag = CB_WRONLY then sa_rfds a else sa_rfds a - {fd}, sa_wfds := if flag = CB_RDONLY then sa_wfds a else sa_wfds a - {fd}\<rparr>"
  have s: "(if flag = CB_RDONLY then Some (a\<lparr>sa_rfds := sa_rfds a - {fd}\<rparr>)
            else if flag = CB_WRONLY then Some (a\<lparr>sa_wfds := sa_wfds a - {fd}\<rparr>)
            else if flag = CB_RDWR then Some (a\<lparr>sa_wfds := sa_wfds a - {fd}, sa_rfds := sa_rfds a - {fd}\<rparr>)
            else None) = Some b"
    using assms(2) by (auto simp: b_def)
  have h: "sa_highfds b = sa_highfds a" by (simp add: b_def)
  show thesis
    using assms(1) unfolding sa_unwatch_fd_def s
    by (intro that [OF b_def, of "if flag = CB_RDWR then sa_bytes b + 1 else sa_bytes b"]) (auto simp: Let_def h)
qed

lemma sa_unwatch_law:
  assumes "sa_ok P a" "sa_usable P fd" "flag \<in> {CB_RDONLY, CB_WRONLY, CB_RDWR}" "sa_unwatch_fd fd flag a = Some (r, a')"
  shows "sa_ok P a'" "sa_rd a' = (sa_rd a)(fd := sa_rd a fd \<and> flag = CB_WRONLY)" "sa_wr a' = (sa_wr a)(fd := sa_wr a fd \<and> flag = CB_RDONLY)"
    "r = (\<not> sa_rd a' fd \<and> \<not> sa_wr a' fd)"
proof -
  obtain b n where b: "b = a\<lparr>sa_rfds := if flag = CB_WRONLY then sa_rfds a else sa_rfds a - {fd}, sa_wfds := if flag = CB_RDONLY then sa_wfds a else sa_wfds a - {fd}\<rparr>"
    "r = (fd \<notin> sa_rfds b \<and> fd \<notin> sa_wfds b)" "a' = (if r \<and> fd = sa_highfds a then b\<lparr>sa_highfds := sa_rescan b\<rparr> else b)\<lparr>sa_bytes := n\<rparr>"
    using sa_unwatch_result [OF assms(4,3)] .
  have fd: "fd \<noteq> P" "sa_pipe a = P" using assms(1,2) by (auto simp: sa_usable_def sa_ok_def)
  have "sa_ok P b" "sa_ok P (b\<lparr>sa_highfds := sa_rescan b\<rparr>)" using sa_shrink_ok [OF assms(1) fd(1) _ _ _ b(1)] assms(1) fd(1) by (auto simp: sa_ok_def)
  then show "sa_ok P a'" by (simp add: b(3))
  have "sa_rd a' = sa_rd b" "sa_wr a' = sa_wr b" by (simp_all add: b(3) sa_rd_def sa_wr_def fun_eq_iff)
  then show "sa_rd a' = (sa_rd a)(fd := sa_rd a fd \<and> flag = CB_WRONLY)" "sa_wr a' = (sa_wr a)(fd := sa_wr a fd \<and> flag = CB_RDONLY)"
      "r = (\<not> sa_rd a' fd \<and> \<not> sa_wr a' fd)"
    using fd assms(3) b(1,2) by (auto simp: sa_rd_def sa_wr_def fun_eq_iff)
qed

lemma sa_wait_law:
  assumes "sa_ok P c" "sa_ok P a" "select_ok sel" "sa_wait_ready sel c a = Some (rs, ws, a')"
  shows "sa_ok P a' \<and> sa_rd a' = sa_rd a \<and> sa_wr a' = sa_wr a \<and> (\<forall>fd. sa_usable P fd \<longrightarrow> (fd \<in> set rs \<longrightarrow> sa_rd c fd) \<and> (fd \<in> set ws \<longrightarrow> sa_wr c fd))"
proof (cases "sel (sa_highfds c + 1) (sa_rfds c) (sa_wfds c)")
  case None
  then show ?thesis using assms by (simp add: sa_wait_ready_def)
next
  case (Some rw)
  obtain r w where rw: "rw = (r, w)" by (cases rw)
  have sub: "r \<subseteq> sa_rfds c" "w \<subseteq> sa_wfds c" using assms(3) Some rw unfolding select_ok_def by blast+
  have "a' = a \<or> a' = a\<lparr>sa_bytes := sa_bytes a - 1\<rparr>" "set rs \<subseteq> r" "set ws \<subseteq> w"
    using assms(4) Some rw by (auto simp: sa_wait_ready_def Let_def split: if_splits)
  then show ?thesis using assms(1,2) sub by (auto simp: sa_ok_def sa_rd_def sa_wr_def sa_usable_def fun_eq_iff)
qed

interpretation sel: aio_loop sa_watch_fd sa_unwatch_fd sa_rd sa_wr "sa_ok P" "sa_usable P" sa_wait_ready select_ok for P
proof (unfold_locales, goal_cases)
  case (1 a fd flag a')
  then show ?case using sa_watch_law [OF 1(1,2,4)] by simp
next
  case (2 a fd flag r a')
  then show ?case using sa_unwatch_law [OF 2] by simp
next
  case (3 c a k rs ws a')
  then show ?case by (rule sa_wait_law)
qed

text \<open>
  The \<open>epoll\<close> implementation keeps the same promises: a status is one of the four flags, and \<open>epoll_ctl\<close> is told to delete a descriptor exactly
  when nothing is watched on it any more.
\<close>

definition ep_ok :: "epoll_aio \<Rightarrow> bool" where
  "ep_ok a \<longleftrightarrow> (\<forall>fd. a fd \<in> {0, 0x1, 0x10, 0x11})"

definition ep_rd :: "epoll_aio \<Rightarrow> int \<Rightarrow> bool" where
  "ep_rd a fd \<longleftrightarrow> a fd AND 0x1 \<noteq> 0"

definition ep_wr :: "epoll_aio \<Rightarrow> int \<Rightarrow> bool" where
  "ep_wr a fd \<longleftrightarrow> a fd AND 0x10 \<noteq> 0"

definition ep_usable :: "int \<Rightarrow> bool" where
  "ep_usable fd \<longleftrightarrow> 0 \<le> fd \<and> fd < MAX_POLL_FDS"

lemma status_watch:
  fixes st :: u32
  assumes "st \<in> {0, 0x1, 0x10, 0x11}" "flag \<in> {CB_RDONLY, CB_WRONLY, CB_RDWR}"
  shows "st OR flag_bits flag \<in> {0, 0x1, 0x10, 0x11}"
    "(st OR flag_bits flag) AND 0x1 \<noteq> 0 \<longleftrightarrow> st AND 0x1 \<noteq> 0 \<or> flag \<noteq> CB_WRONLY"
    "(st OR flag_bits flag) AND 0x10 \<noteq> 0 \<longleftrightarrow> st AND 0x10 \<noteq> 0 \<or> flag \<noteq> CB_RDONLY"
  using assms by auto

lemma status_unwatch:
  fixes st :: u32
  assumes "st \<in> {0, 0x1, 0x10, 0x11}" "flag \<in> {CB_RDONLY, CB_WRONLY, CB_RDWR}"
  shows "st AND NOT (flag_bits flag) \<in> {0, 0x1, 0x10, 0x11}"
    "(st AND NOT (flag_bits flag)) AND 0x1 \<noteq> 0 \<longleftrightarrow> st AND 0x1 \<noteq> 0 \<and> flag = CB_WRONLY"
    "(st AND NOT (flag_bits flag)) AND 0x10 \<noteq> 0 \<longleftrightarrow> st AND 0x10 \<noteq> 0 \<and> flag = CB_RDONLY"
    "st AND NOT (flag_bits flag) = 0 \<longleftrightarrow> (st AND NOT (flag_bits flag)) AND 0x1 = 0 \<and> (st AND NOT (flag_bits flag)) AND 0x10 = 0"
  using assms by auto

interpretation ep: aio_mgr "ep_watch_fd ctl" "ep_unwatch_fd ctl" ep_rd ep_wr ep_ok ep_usable for ctl
proof (unfold_locales, goal_cases)
  case (1 a fd flag a')
  then have "a' = a(fd := a fd OR flag_bits flag)" "a fd \<in> {0, 0x1, 0x10, 0x11}"
    by (auto simp: ep_watch_fd_def Let_def ep_ok_def split: if_splits)
  then show ?case using status_watch [OF _ 1(3), of "a fd"] 1(1) by (simp add: ep_ok_def ep_rd_def ep_wr_def fun_eq_iff)
next
  case (2 a fd flag r a')
  define st where "st = a fd AND NOT (flag_bits flag)"
  have a: "a' = a(fd := st)" "r = (st = 0)" "a fd \<in> {0, 0x1, 0x10, 0x11}"
    using 2 by (auto simp: ep_unwatch_fd_def Let_def ep_ok_def st_def split: if_splits)
  note st = status_unwatch [OF a(3) 2(3), folded st_def]
  have "ep_ok a'" using 2(1) st(1) a(1) by (simp add: ep_ok_def)
  moreover have "ep_rd a' = (ep_rd a)(fd := ep_rd a fd \<and> flag = CB_WRONLY)" "ep_wr a' = (ep_wr a)(fd := ep_wr a fd \<and> flag = CB_RDONLY)"
    using st(2,3) a(1) by (auto simp: ep_rd_def ep_wr_def fun_eq_iff)
  moreover have "r = (\<not> ep_rd a' fd \<and> \<not> ep_wr a' fd)" unfolding a(2) st(4) by (simp add: ep_rd_def ep_wr_def a(1))
  ultimately show ?case by simp
qed

text \<open>\<open>CB_MASK\<close> is the complement of the flags, so \<open>is_watched\<close> of this class answers no for every flag a client uses.\<close>

lemma ep_is_watched_never:
  assumes "ep_ok a" "ep_usable fd" "flag \<in> {CB_RDONLY, CB_WRONLY, CB_RDWR}"
  shows "ep_is_watched fd flag a = Some False"
proof -
  have "a fd \<in> {0, 0x1, 0x10, 0x11}" using assms(1) by (simp add: ep_ok_def)
  then have "a fd AND flag_bits CB_MASK = 0" by auto
  then show ?thesis using assms(2,3) by (auto simp: ep_is_watched_def ep_usable_def)
qed

subsection \<open>The poll manager over select\<close>

lemma select_start: "0 \<le> P \<Longrightarrow> sel.sys_inv P (poll_start (select_aio_new P))"
  by (rule sel.start_inv) (auto simp: sa_ok_def select_aio_new_def sa_usable_def sel.watched_def sa_rd_def sa_wr_def)

lemmas select_run_inv = sel.pm_run_inv [OF select_start]

text \<open>
  The table of callbacks and the sets of \<open>select\<close> agree.  However threads add, delete and remove callbacks while the loop runs: a client's
  descriptor that is not being removed has a callback exactly when it is watched, every watched descriptor and the pipe that interrupts \<open>select\<close>
  lie within the range \<open>select\<close> looks at, and the pipe is always watched.
\<close>

lemma callbacks_match_select:
  assumes "0 \<le> P" "\<forall>e \<in> set es. ev_ok (sa_usable P) select_ok e"
    "pm_run sa_watch_fd sa_unwatch_fd sa_wait_ready es (poll_start (select_aio_new P)) = Some s"
  shows "let a = pm_aio (sy_pm s) in
    (\<forall>fd. sa_usable P fd \<longrightarrow> fd \<notin> fst ` set (sy_removing s) \<longrightarrow> (pm_callbacks (sy_pm s) fd \<noteq> None \<longleftrightarrow> fd \<in> sa_rfds a \<union> sa_wfds a)) \<and>
    (\<forall>fd. fd \<in> sa_rfds a \<union> sa_wfds a \<longrightarrow> 0 \<le> fd \<and> fd \<le> sa_highfds a) \<and> P \<in> sa_rfds a"
proof -
  have "sel.matching P (fst ` set (sy_removing s)) (sy_pm s)" using select_run_inv [OF assms] by (simp add: sel.sys_inv_def)
  then have m: "sa_ok P (pm_aio (sy_pm s))"
      "\<And>fd. sa_usable P fd \<Longrightarrow> fd \<notin> fst ` set (sy_removing s) \<Longrightarrow> pm_callbacks (sy_pm s) fd \<noteq> None \<longleftrightarrow> sa_rd (pm_aio (sy_pm s)) fd \<or> sa_wr (pm_aio (sy_pm s)) fd"
    by (auto simp: sel.matching_def sel.watched_def)
  have "pm_callbacks (sy_pm s) fd \<noteq> None \<longleftrightarrow> fd \<in> sa_rfds (pm_aio (sy_pm s)) \<union> sa_wfds (pm_aio (sy_pm s))"
    if "sa_usable P fd" "fd \<notin> fst ` set (sy_removing s)" for fd
    using m(2) [OF that] m(1) that(1) by (simp add: sa_rd_def sa_wr_def sa_ok_def sa_usable_def)
  then show ?thesis using m(1) by (simp add: sa_ok_def)
qed


text \<open>A round in which descriptor 5 is readable, and is removed after \<open>select\<close> has returned.\<close>

definition demo_select :: "int \<Rightarrow> int set \<Rightarrow> int set \<Rightarrow> (int set \<times> int set) option" where
  "demo_select n r w = Some (r \<inter> {5}, {})"

lemma demo_select_ok [simp]: "select_ok demo_select"
  by (simp add: select_ok_def demo_select_def)

lemma upto_5: "[0..5] = [0, 1, 2, 3, 4, 5 :: int]"
  by (simp add: upto.simps)

lemmas poll_defs = poll_start_def poll_mgr_new_def select_aio_new_def add_callback_def sa_watch_fd_def loop_step_def loop_head_def sa_wait_ready_def
  demo_select_def block_remove_start_def sa_unwatch_fd_def sa_rescan_def block_remove_end_def MAX_POLL_FDS_def Let_def


end
