(* ===== verification/Listener.thy ===== *)
theory Listener
  imports Connection StdMap
begin

text \<open>
  The listening side of the RPC library, \<open>tcpsconn\<close> of \<open>rpc/connection.cc\<close>, and \<open>connect_to_dst\<close>.  Connection objects live in a heap, named by
  address, since the listener shares them with the RPC server by reference counts.  What the socket calls return is an argument.  \<open>None\<close> stands
  for a failed assertion and for the use of a deleted object.
\<close>

subsection \<open>State\<close>

record listener =
  ln_tcp :: int
  ln_pipe :: "int \<times> int"
  ln_conns :: "(int, nat) stdmap"
  ln_heap :: "(nat, int \<times> connection) stdmap"
  ln_open :: "int set"
  ln_next :: nat

text \<open>\<open>socket\<close>, \<open>bind\<close>, \<open>listen\<close> and \<open>pipe\<close> return -1 on failure, and the constructor asserts.\<close>

definition tcpsconn_new :: "int \<Rightarrow> int \<Rightarrow> int \<Rightarrow> int \<times> int \<times> int \<Rightarrow> listener option" where
  "tcpsconn_new tcp bnd lst pip =
     (case pip of (r, p0, p1) \<Rightarrow>
      if tcp < 0 \<or> bnd < 0 \<or> lst < 0 \<or> r < 0 then None
      else Some \<lparr>ln_tcp = tcp, ln_pipe = (p0, p1), ln_conns = [], ln_heap = [], ln_open = {tcp, p0, p1}, ln_next = 0\<rparr>)"

definition isdead :: "connection \<Rightarrow> bool" where
  "isdead c = cn_dead c"

definition conn_ref :: "connection \<Rightarrow> int" where
  "conn_ref c = cn_refno c"

text \<open>The destructor of a connection; it asserts that the connection is dead and that no message is half written, and closes the descriptor.\<close>

definition connection_del :: "nat \<Rightarrow> listener \<Rightarrow> listener option" where
  "connection_del a l =
     (case mfind (ln_heap l) a of
        None \<Rightarrow> None
      | Some (fd, c) \<Rightarrow>
          if \<not> cn_dead c \<or> cb_buf (cn_wpdu c) \<noteq> None then None
          else Some (l\<lparr>ln_heap := merase a (ln_heap l), ln_open := ln_open l - {fd}\<rparr>))"

definition with_conn :: "nat \<Rightarrow> (connection \<Rightarrow> connection) \<Rightarrow> listener \<Rightarrow> listener option" where
  "with_conn a f l = (case mfind (ln_heap l) a of None \<Rightarrow> None | Some (fd, c) \<Rightarrow> Some (l\<lparr>ln_heap := mput a (fd, f c) (ln_heap l)\<rparr>))"

definition ln_decref :: "nat \<Rightarrow> listener \<Rightarrow> listener option" where
  "ln_decref a l =
     (case mfind (ln_heap l) a of
        None \<Rightarrow> None
      | Some (fd, c) \<Rightarrow>
          (case decref c of
             None \<Rightarrow> None
           | Some (del, c) \<Rightarrow>
               let l = l\<lparr>ln_heap := mput a (fd, c) (ln_heap l)\<rparr> in if del then connection_del a l else Some l))"

subsection \<open>Operations\<close>

text \<open>
  The loop that collects dead connections nobody else refers to.  It erases the entry its iterator points to and then increments that
  iterator, which is undefined: \<open>Inl\<close> the state at that point.
\<close>

fun collect_dead :: "(int \<times> nat) list \<Rightarrow> listener \<Rightarrow> (listener + listener) option" where
  "collect_dead [] l = Some (Inr l)"
| "collect_dead ((fd, a) # i) l =
     (case mfind (ln_heap l) a of
        None \<Rightarrow> None
      | Some (_, c) \<Rightarrow>
          if isdead c \<and> conn_ref c = 1
          then map_option (\<lambda>l. Inl (l\<lparr>ln_conns := merase fd (ln_conns l)\<rparr>)) (ln_decref a l)
          else collect_dead i l)"

text \<open>\<open>s1\<close> is the descriptor \<open>accept\<close> returns; a negative one ends the thread.\<close>

datatype accepted = ThreadExit | Undefined listener | Accepted listener

definition process_accept :: "int \<Rightarrow> listener \<Rightarrow> accepted option" where
  "process_accept s1 l =
     (if s1 < 0 then Some ThreadExit
      else let ch = ln_next l;
               l = l\<lparr>ln_heap := mput ch (s1, snd connection_new) (ln_heap l), ln_open := insert s1 (ln_open l), ln_next := ch + 1\<rparr>
           in map_option (case_sum Undefined (\<lambda>l. Accepted (l\<lparr>ln_conns := mput s1 ch (ln_conns l)\<rparr>))) (collect_dead (ln_conns l) l))"

text \<open>One round of \<open>accept_conn\<close>.  \<open>select\<close> fails (the flag: with \<open>EINTR\<close>), or tells which of the pipe and the socket can be read.\<close>

datatype sel_result = SelFail bool | SelReady bool bool int

datatype accept_state = Looping listener | Stopped listener | Exited listener | Broken listener

definition accept_round :: "sel_result \<Rightarrow> listener \<Rightarrow> accept_state option" where
  "accept_round ev l =
     (case ev of
        SelFail eintr \<Rightarrow> if eintr then Some (Looping l) else None
      | SelReady pip tcp s1 \<Rightarrow>
          if pip then Some (Stopped (l\<lparr>ln_open := ln_open l - {fst (ln_pipe l), ln_tcp l}\<rparr>))
          else if tcp
          then map_option (\<lambda>r. case r of ThreadExit \<Rightarrow> Exited l | Undefined l \<Rightarrow> Broken l | Accepted l \<Rightarrow> Looping l) (process_accept s1 l)
          else None)"

text \<open>The destructor, after the accepting thread has ended.\<close>

fun close_conns :: "(int \<times> nat) list \<Rightarrow> listener \<Rightarrow> listener option" where
  "close_conns [] l = Some l"
| "close_conns ((fd, a) # i) l =
     do { l \<leftarrow> with_conn a (\<lambda>c. snd (closeconn c)) l; l \<leftarrow> ln_decref a l; close_conns i l }"

definition tcpsconn_del :: "listener \<Rightarrow> listener option" where
  "tcpsconn_del l = close_conns (ln_conns l) (l\<lparr>ln_open := ln_open l - {snd (ln_pipe l)}\<rparr>)"

text \<open>The other end.  A socket that cannot connect is closed again.\<close>

definition connect_to_dst :: "int \<Rightarrow> int \<Rightarrow> (int \<times> connection) option" where
  "connect_to_dst s r = (if r < 0 then None else Some (s, snd connection_new))"

subsection \<open>A run of the listener\<close>

text \<open>
  Rounds of the accepting thread, between which the RPC server takes and drops references of its own and connections die.  A descriptor
  returned by \<open>accept\<close> is one that is not open.
\<close>

datatype ln_act = Round sel_result | TakeRef nat | DropRef nat | Die nat

definition act_possible :: "ln_act \<Rightarrow> listener \<Rightarrow> bool" where
  "act_possible act l =
     (case act of
        Round ev \<Rightarrow> (case ev of SelFail eintr \<Rightarrow> eintr | SelReady pip tcp s1 \<Rightarrow> \<not> pip \<and> tcp \<and> 0 \<le> s1 \<and> s1 \<notin> ln_open l)
      | TakeRef a \<Rightarrow> mcount (ln_heap l) a
      | DropRef a \<Rightarrow> (case mfind (ln_heap l) a of Some (fd, c) \<Rightarrow> conn_ref c > 1 | None \<Rightarrow> False)
      | Die a \<Rightarrow> mcount (ln_heap l) a)"

definition ln_step :: "ln_act \<Rightarrow> listener \<Rightarrow> accept_state option" where
  "ln_step act l =
     (case act of
        Round ev \<Rightarrow> accept_round ev l
      | TakeRef a \<Rightarrow> map_option Looping (with_conn a incref l)
      | DropRef a \<Rightarrow> map_option Looping (ln_decref a l)
      | Die a \<Rightarrow> map_option Looping (with_conn a (\<lambda>c. snd (closeconn c)) l))"

fun ln_run :: "ln_act list \<Rightarrow> listener \<Rightarrow> accept_state option" where
  "ln_run [] l = Some (Looping l)"
| "ln_run (act # acts) l =
     (if act_possible act l
      then case ln_step act l of None \<Rightarrow> None | Some (Looping l) \<Rightarrow> ln_run acts l | Some r \<Rightarrow> Some r
      else ln_run acts l)"

text \<open>A dead connection that only \<open>conns_\<close> still refers to.\<close>

definition lone :: "listener \<Rightarrow> nat \<Rightarrow> bool" where
  "lone l a = (case mfind (ln_heap l) a of Some (_, c) \<Rightarrow> isdead c \<and> conn_ref c = 1 | None \<Rightarrow> False)"

definition orphan :: "listener \<Rightarrow> bool" where
  "orphan l \<longleftrightarrow> list_ex (\<lambda>(fd, a). lone l a) (ln_conns l)"

subsection \<open>Who owns a connection\<close>

text \<open>
  Every connection object is in \<open>conns_\<close> under its own descriptor, and \<open>conns_\<close> holds one of its references.  Its descriptor is open, so
  that \<open>accept\<close> cannot return it again.
\<close>

definition conn_ok :: "listener \<Rightarrow> nat \<Rightarrow> int \<Rightarrow> connection \<Rightarrow> bool" where
  "conn_ok l a fd c \<longleftrightarrow> mfind (ln_conns l) fd = Some a \<and> 1 \<le> cn_refno c \<and> cb_buf (cn_wpdu c) = None \<and> fd \<in> ln_open l \<and> a < ln_next l"

definition listener_inv :: "listener \<Rightarrow> bool" where
  "listener_inv l \<longleftrightarrow> sm_ok (ln_conns l) \<and> (\<forall>a fd c. mfind (ln_heap l) a = Some (fd, c) \<longrightarrow> conn_ok l a fd c)
     \<and> (\<forall>fd a. mfind (ln_conns l) fd = Some a \<longrightarrow> (\<exists>c. mfind (ln_heap l) a = Some (fd, c)))"

lemma inv_new: "tcpsconn_new tcp bnd lst pip = Some l \<Longrightarrow> listener_inv l"
  by (auto simp: tcpsconn_new_def listener_inv_def mfind_def sm_ok_def split: prod.splits if_splits)

text \<open>A change of one object that leaves it the listener's reference.\<close>

lemma inv_update:
  assumes "listener_inv l" "mfind (ln_heap l) a = Some (fd, c)" "1 \<le> cn_refno c'" "cn_wpdu c' = cn_wpdu c"
  shows "listener_inv (l\<lparr>ln_heap := mput a (fd, c') (ln_heap l)\<rparr>)"
proof -
  have c: "conn_ok l a fd c" using assms(1,2) by (simp add: listener_inv_def)
  have "\<exists>c. mfind (ln_heap l) b = Some (fd', c)" if "mfind (ln_conns l) fd' = Some b" for fd' b
    using assms(1) that by (simp add: listener_inv_def)
  then have "fd' = fd" if "mfind (ln_conns l) fd' = Some a" for fd' using that assms(2) by fastforce
  then show ?thesis using assms c by (auto simp: listener_inv_def conn_ok_def)
qed

lemma collect_dead_result:
  assumes "\<And>fd a. (fd, a) \<in> set i \<Longrightarrow> \<exists>fd' c. mfind (ln_heap l) a = Some (fd', c) \<and> cb_buf (cn_wpdu c) = None"
  shows "if list_ex (\<lambda>(fd, a). lone l a) i then \<exists>l'. collect_dead i l = Some (Inl l') else collect_dead i l = Some (Inr l)"
  using assms
proof (induction i)
  case (Cons e i)
  obtain fd a where e: "e = (fd, a)" by (cases e)
  have IH: "if list_ex (\<lambda>(fd, a). lone l a) i then \<exists>l'. collect_dead i l = Some (Inl l') else collect_dead i l = Some (Inr l)"
    using Cons.prems by (intro Cons.IH) (meson list.set_intros(2))
  obtain fd' c where c: "mfind (ln_heap l) a = Some (fd', c)" "cb_buf (cn_wpdu c) = None" using Cons.prems [of fd a] e by auto
  show ?case
  proof (cases "lone l a")
    case True
    then have "\<exists>l'. ln_decref a l = Some l'"
      using c by (simp add: ln_decref_def decref_def connection_del_def isdead_def conn_ref_def lone_def)
    then show ?thesis using True c by (auto simp: e lone_def)
  next
    case False
    then have "collect_dead (e # i) l = collect_dead i l" using c by (auto simp: e lone_def)
    then show ?thesis using IH False by (simp add: e)
  qed
qed simp

lemma conns_mem:
  assumes "listener_inv l" "(fd, a) \<in> set (ln_conns l)"
  obtains c where "mfind (ln_heap l) a = Some (fd, c)" "conn_ok l a fd c"
proof -
  have "mfind (ln_conns l) fd = Some a"
    using assms by (simp add: listener_inv_def mfind_def sm_ok_def map_of_is_SomeI strict_sorted_iff)
  then show ?thesis using assms(1) that unfolding listener_inv_def by blast
qed

lemma accept_result:
  assumes "listener_inv l" "0 \<le> s1" "s1 \<notin> ln_open l"
  shows "if orphan l then \<exists>l'. process_accept s1 l = Some (Undefined l')
    else \<exists>l'. process_accept s1 l = Some (Accepted l') \<and> listener_inv l' \<and> mfind (ln_conns l) s1 = None
      \<and> mfind (ln_conns l') = (mfind (ln_conns l))(s1 \<mapsto> ln_next l)"
proof -
  let ?ch = "ln_next l"
  let ?l = "l\<lparr>ln_heap := mput ?ch (s1, snd connection_new) (ln_heap l), ln_open := insert s1 (ln_open l), ln_next := ?ch + 1\<rparr>"
  let ?l' = "?l\<lparr>ln_conns := mput s1 ?ch (ln_conns l)\<rparr>"
  have C: "conn_ok l a fd c" if "mfind (ln_heap l) a = Some (fd, c)" for a fd c using that assms(1) by (simp add: listener_inv_def)
  have N: "\<exists>c. mfind (ln_heap l) a = Some (fd, c) \<and> conn_ok l a fd c" if "mfind (ln_conns l) fd = Some a" for fd a
    using that assms(1) C by (simp add: listener_inv_def) blast
  have new: "mfind (ln_conns l) s1 = None" using N assms(3) by (cases "mfind (ln_conns l) s1") (auto simp: conn_ok_def)
  have "lone ?l a = lone l a" if "(fd, a) \<in> set (ln_conns l)" for fd a
    using conns_mem [OF assms(1) that] by (auto simp: lone_def conn_ok_def)
  then have eq: "list_ex (\<lambda>(fd, a). lone ?l a) (ln_conns l) = orphan l"
    by (auto simp: orphan_def list_ex_iff)
  have "\<exists>fd' c. mfind (ln_heap ?l) a = Some (fd', c) \<and> cb_buf (cn_wpdu c) = None" if "(fd, a) \<in> set (ln_conns l)" for fd a
    by (rule conns_mem [OF assms(1) that]) (auto simp: conn_ok_def connection_new_def charbuf0_def)
  from collect_dead_result [of "ln_conns l" ?l, OF this]
  have "if orphan l then \<exists>l'. collect_dead (ln_conns l) ?l = Some (Inl l') else collect_dead (ln_conns l) ?l = Some (Inr ?l)"
    unfolding eq .
  moreover have "listener_inv ?l'"
  proof -
    have "conn_ok ?l' a fd c" if "mfind (ln_heap ?l') a = Some (fd, c)" for a fd c
      using that C [of a fd c] assms(3) by (auto simp: conn_ok_def connection_new_def charbuf0_def split: if_splits)
    moreover have "\<exists>c. mfind (ln_heap ?l') a = Some (fd, c)" if "mfind (ln_conns ?l') fd = Some a" for fd a
      using that N [of fd a] by (auto simp: conn_ok_def split: if_splits)
    ultimately show ?thesis using assms(1) by (simp add: listener_inv_def mput_sorted)
  qed
  ultimately show ?thesis using assms(2) new by (auto simp: process_accept_def Let_def)
qed

lemma step_result:
  assumes "listener_inv l" "act_possible act l"
  shows "\<exists>r. ln_step act l = Some r \<and> (case r of Looping l' \<Rightarrow> listener_inv l' | Broken l' \<Rightarrow> orphan l | _ \<Rightarrow> False)"
proof (cases act)
  case (Round ev)
  show ?thesis
  proof (cases ev)
    case (SelFail eintr)
    then show ?thesis using assms Round by (simp add: ln_step_def act_possible_def accept_round_def)
  next
    case (SelReady pip tcp s1)
    then have "\<not> pip" "tcp" "0 \<le> s1" "s1 \<notin> ln_open l" using assms(2) Round by (simp_all add: act_possible_def)
    then show ?thesis using accept_result [OF assms(1)] Round SelReady
      by (cases "orphan l") (fastforce simp: ln_step_def accept_round_def)+
  qed
next
  case (TakeRef a)
  then obtain fd c where c: "mfind (ln_heap l) a = Some (fd, c)" using assms(2) by (auto simp: act_possible_def mcount_def)
  then have "1 \<le> cn_refno c" using assms(1) by (auto simp: listener_inv_def conn_ok_def)
  then show ?thesis using inv_update [OF assms(1) c, of "incref c"] TakeRef c by (simp add: ln_step_def with_conn_def incref_def)
next
  case (DropRef a)
  then obtain fd c where c: "mfind (ln_heap l) a = Some (fd, c)" "cn_refno c > 1"
    using assms(2) by (auto simp: act_possible_def conn_ref_def split: option.splits)
  then show ?thesis using inv_update [OF assms(1) c(1), of "c\<lparr>cn_refno := cn_refno c - 1\<rparr>"] DropRef
    by (simp add: ln_step_def ln_decref_def decref_def Let_def)
next
  case (Die a)
  then obtain fd c where c: "mfind (ln_heap l) a = Some (fd, c)" using assms(2) by (auto simp: act_possible_def mcount_def)
  then have "1 \<le> cn_refno c" using assms(1) by (auto simp: listener_inv_def conn_ok_def)
  then show ?thesis using inv_update [OF assms(1) c, of "snd (closeconn c)"] Die c by (simp add: ln_step_def with_conn_def closeconn_def)
qed

text \<open>A run met an orphan: after some of its actions a dead connection was left to the listener alone.\<close>

definition met_orphan :: "ln_act list \<Rightarrow> listener \<Rightarrow> bool" where
  "met_orphan acts l \<longleftrightarrow> (\<exists>n \<le> length acts. \<exists>l'. ln_run (take n acts) l = Some (Looping l') \<and> orphan l')"

lemma met_orphan_Cons:
  assumes "ln_run [act] l = Some (Looping l1)" "met_orphan acts l1"
  shows "met_orphan (act # acts) l"
proof -
  obtain n l' where n: "n \<le> length acts" "ln_run (take n acts) l1 = Some (Looping l')" "orphan l'" using assms(2) by (auto simp: met_orphan_def)
  then have "ln_run (take (Suc n) (act # acts)) l = Some (Looping l')"
    using assms(1) by (auto split: if_splits option.splits accept_state.splits)
  then show ?thesis using n by (auto simp: met_orphan_def intro!: exI [of _ "Suc n"])
qed

lemma run_result:
  "listener_inv l \<Longrightarrow> \<exists>r. ln_run acts l = Some r \<and> (case r of Looping l' \<Rightarrow> listener_inv l' | Broken l' \<Rightarrow> met_orphan acts l | _ \<Rightarrow> False)"
proof (induction acts arbitrary: l)
  case (Cons act acts)
  have go: "\<exists>r. ln_run acts l1 = Some r \<and> (case r of Looping l' \<Rightarrow> listener_inv l' | Broken l' \<Rightarrow> met_orphan (act # acts) l | _ \<Rightarrow> False)"
    if "listener_inv l1" "ln_run [act] l = Some (Looping l1)" for l1
    using Cons.IH [OF that(1)] met_orphan_Cons [OF that(2)] by (fastforce split: accept_state.splits)
  show ?case
  proof (cases "act_possible act l")
    case True
    then obtain r where r: "ln_step act l = Some r" "case r of Looping l' \<Rightarrow> listener_inv l' | Broken l' \<Rightarrow> orphan l | _ \<Rightarrow> False"
      using step_result [OF Cons.prems] by blast
    have "orphan l \<Longrightarrow> met_orphan (act # acts) l" by (auto simp: met_orphan_def intro!: exI [of _ 0])
    then show ?thesis using go r True by (cases r) auto
  qed (use go [OF Cons.prems] in simp)
qed simp

text \<open>What the destructor leaves of an object: closed, without the listener's reference, and deleted if that was the last.\<close>

fun closed :: "(int \<times> connection) option \<Rightarrow> (int \<times> connection) option" where
  "closed None = None"
| "closed (Some (fd, c)) = (if cn_refno c = 1 then None else Some (fd, c\<lparr>cn_dead := True, cn_refno := cn_refno c - 1\<rparr>))"

lemma closeconn_dead: "snd (closeconn c) = c\<lparr>cn_dead := True\<rparr>"
  by (cases c) (simp add: closeconn_def)

lemma close_conns_result:
  assumes "distinct (map snd i)"
    and "\<And>fd a. (fd, a) \<in> set i \<Longrightarrow> \<exists>c. mfind (ln_heap l) a = Some (fd, c) \<and> 1 \<le> cn_refno c \<and> cb_buf (cn_wpdu c) = None"
  shows "\<exists>l'. close_conns i l = Some l' \<and> (\<forall>a. mfind (ln_heap l') a = (if a \<in> snd ` set i then closed (mfind (ln_heap l) a) else mfind (ln_heap l) a))"
  using assms
proof (induction i arbitrary: l)
  case (Cons e i)
  obtain fd a where e: "e = (fd, a)" by (cases e)
  then obtain c where c: "mfind (ln_heap l) a = Some (fd, c)" "1 \<le> cn_refno c" "cb_buf (cn_wpdu c) = None" using Cons.prems(2) by force
  obtain l1 where l1: "with_conn a (\<lambda>c. snd (closeconn c)) l \<bind> ln_decref a = Some l1" "mfind (ln_heap l1) = (mfind (ln_heap l))(a := closed (Some (fd, c)))"
    using c by (cases "cn_refno c = 1") (auto simp: with_conn_def closeconn_dead ln_decref_def decref_def Let_def connection_del_def)
  have "distinct (map snd i)" "a \<notin> snd ` set i" using Cons.prems(1) e by auto
  moreover have "\<exists>c. mfind (ln_heap l1) b = Some (fd', c) \<and> 1 \<le> cn_refno c \<and> cb_buf (cn_wpdu c) = None" if "(fd', b) \<in> set i" for fd' b
  proof -
    have "b \<noteq> a" using that \<open>a \<notin> snd ` set i\<close> by force
    then show ?thesis using Cons.prems(2) [of fd' b] that l1(2) by simp
  qed
  ultimately obtain l' where l': "close_conns i l1 = Some l'"
      "\<forall>b. mfind (ln_heap l') b = (if b \<in> snd ` set i then closed (mfind (ln_heap l1) b) else mfind (ln_heap l1) b)"
    using Cons.IH by blast
  have "close_conns (e # i) l = Some l'" using l1(1) l'(1) by (auto simp: e Option.bind_eq_Some_conv)
  then show ?case using l'(2) l1(2) c(1) \<open>a \<notin> snd ` set i\<close> by (auto simp: e)
qed simp

lemma del_result:
  assumes "listener_inv l"
  shows "\<exists>l'. tcpsconn_del l = Some l' \<and> (\<forall>a. mfind (ln_heap l') a = closed (mfind (ln_heap l) a))"
proof -
  let ?l = "l\<lparr>ln_open := ln_open l - {snd (ln_pipe l)}\<rparr>"
  have c: "\<exists>c. mfind (ln_heap ?l) a = Some (fd, c) \<and> 1 \<le> cn_refno c \<and> cb_buf (cn_wpdu c) = None" if "(fd, a) \<in> set (ln_conns l)" for fd a
    by (rule conns_mem [OF assms that]) (simp add: conn_ok_def)
  have d: "distinct (map fst (ln_conns l))" using assms by (simp add: listener_inv_def sm_ok_def strict_sorted_iff)
  moreover have "fd = fd'" if "(fd, a) \<in> set (ln_conns l)" "(fd', a) \<in> set (ln_conns l)" for fd fd' a
    using c [OF that(1)] c [OF that(2)] by auto
  ultimately have "distinct (map snd (ln_conns l))"
    by (auto simp: distinct_map inj_on_def)
  from close_conns_result [OF this c] obtain l' where l': "tcpsconn_del l = Some l'"
      "\<forall>a. mfind (ln_heap l') a = (if a \<in> snd ` set (ln_conns l) then closed (mfind (ln_heap l) a) else mfind (ln_heap l) a)"
    by (auto simp: tcpsconn_del_def)
  have "a \<in> snd ` set (ln_conns l)" if "mfind (ln_heap l) a = Some (fd, c)" for a fd c
  proof -
    have "mfind (ln_conns l) fd = Some a" using assms that by (simp add: listener_inv_def conn_ok_def)
    then show ?thesis using map_of_SomeD by (force simp: mfind_def)
  qed
  then have "mfind (ln_heap l') a = closed (mfind (ln_heap l) a)" for a
    using l'(2) by (cases "mfind (ln_heap l) a") auto
  then show ?thesis using l'(1) by blast
qed

text \<open>
  C12. The listener and its connections.  Whatever sockets are accepted, whatever references the server takes and drops and whichever
  connections die, no assertion of the listener or of a connection fails.  Each connection accepted is registered under its own
  descriptor, with the listener's reference counted, unless the accepting thread has met a dead connection that only the listener refers to.  Deleting the listener then closes every
  connection and deletes exactly those the server does not refer to.
\<close>

theorem listener_owns_connections:
  assumes "tcpsconn_new tcp bnd lst pip = Some l0"
  shows "\<exists>r. ln_run acts l0 = Some r \<and> (case r of
      Looping l \<Rightarrow>
        (\<forall>fd a. mfind (ln_conns l) fd = Some a \<longleftrightarrow> (\<exists>c. mfind (ln_heap l) a = Some (fd, c) \<and> 1 \<le> conn_ref c \<and> fd \<in> ln_open l))
        \<and> (\<exists>l'. tcpsconn_del l = Some l' \<and> (\<forall>a. mfind (ln_heap l') a = closed (mfind (ln_heap l) a)))
    | Broken l \<Rightarrow> met_orphan acts l0
    | _ \<Rightarrow> False)"
proof -
  obtain r where r: "ln_run acts l0 = Some r" "case r of Looping l' \<Rightarrow> listener_inv l' | Broken l' \<Rightarrow> met_orphan acts l0 | _ \<Rightarrow> False"
    using run_result [OF inv_new [OF assms]] by blast
  have "mfind (ln_conns l) fd = Some a \<longleftrightarrow> (\<exists>c. mfind (ln_heap l) a = Some (fd, c) \<and> 1 \<le> conn_ref c \<and> fd \<in> ln_open l)"
    if "listener_inv l" for l fd a
    using that unfolding listener_inv_def conn_ok_def conn_ref_def by blast
  then show ?thesis using r del_result by (cases r) auto
qed

definition demo_ln_acts :: "ln_act list" where
  "demo_ln_acts = [Round (SelReady False True 6), TakeRef 0, Round (SelFail True), Round (SelReady False True 7), Die 0, Round (SelReady False True 8)]"

definition demo_ln_outcome :: "accept_state \<Rightarrow> ((int \<times> nat) list \<times> nat list option) option" where
  "demo_ln_outcome r = (case r of Looping l \<Rightarrow> Some (ln_conns l, map_option (\<lambda>l. map fst (ln_heap l)) (tcpsconn_del l)) | _ \<Rightarrow> None)"

lemma demo_ln_run:
  "tcpsconn_new 3 0 0 (0, 4, 5) \<bind> ln_run demo_ln_acts \<bind> demo_ln_outcome = Some ([(6, 0), (7, 1), (8, 2)], Some [0])"
  by code_simp

theorem listener_owns_connections_witness:
  "\<exists>l0 l l'. tcpsconn_new 3 0 0 (0, 4, 5) = Some l0 \<and> ln_run demo_ln_acts l0 = Some (Looping l) \<and> ln_conns l = [(6, 0), (7, 1), (8, 2)]
    \<and> tcpsconn_del l = Some l' \<and> map fst (ln_heap l') = [0] \<and> mfind (ln_heap l') 0 = closed (mfind (ln_heap l) 0)"
proof -
  obtain l0 r where r: "tcpsconn_new 3 0 0 (0, 4, 5) = Some l0" "ln_run demo_ln_acts l0 = Some r"
      "demo_ln_outcome r = Some ([(6, 0), (7, 1), (8, 2)], Some [0])"
    using demo_ln_run by (auto simp: Option.bind_eq_Some_conv)
  then obtain l where "ln_run demo_ln_acts l0 = Some (Looping l)" "ln_conns l = [(6, 0), (7, 1), (8, 2)]"
      "map_option (\<lambda>l. map fst (ln_heap l)) (tcpsconn_del l) = Some [0]"
    by (cases r) (auto simp: demo_ln_outcome_def)
  then show ?thesis using r(1) listener_owns_connections [OF r(1), of demo_ln_acts] by auto
qed

text \<open>Once a client has gone and the server has dropped its reference, the next \<open>accept\<close> increments the iterator it has erased.\<close>

lemma orphan_breaks_accept:
  assumes "listener_inv l" "act_possible (Round (SelReady False True s1)) l"
  shows "orphan l \<longleftrightarrow> (\<exists>l'. accept_round (SelReady False True s1) l = Some (Broken l'))"
  using accept_result [OF assms(1), of s1] assms(2)
  by (auto simp: act_possible_def accept_round_def split: if_splits accepted.splits)

end
