(* ===== verification/Address.thy ===== *)
theory Address
  imports PaxosLog
begin

text \<open>
  Addresses, from the end of \<open>rpc/rpc.cc\<close>: \<open>make_sockaddr\<close>, which turns a \<open>host:port\<close> string into a socket address, and the order on addresses.
  The resolver is a parameter: \<open>inet\<close> is \<open>inet_addr\<close>, \<open>byname\<close> what \<open>gethostbyname\<close> finds, the length of the address and the address.
\<close>

datatype sockaddr_in = Sockaddr (s_addr: u32) (sin_port: u16)

text \<open>\<open>operator<\<close>.\<close>

definition sockaddr_less :: "sockaddr_in \<Rightarrow> sockaddr_in \<Rightarrow> bool" where
  "sockaddr_less a b \<longleftrightarrow> s_addr a < s_addr b \<or> s_addr a = s_addr b \<and> sin_port a < sin_port b"

instantiation sockaddr_in :: linorder
begin

definition less_sockaddr_in :: "sockaddr_in \<Rightarrow> sockaddr_in \<Rightarrow> bool" where
  "a < b \<longleftrightarrow> sockaddr_less a b"

definition less_eq_sockaddr_in :: "sockaddr_in \<Rightarrow> sockaddr_in \<Rightarrow> bool" where
  "a \<le> b \<longleftrightarrow> a < b \<or> a = (b :: sockaddr_in)"

instance
  by standard (auto simp: less_sockaddr_in_def less_eq_sockaddr_in_def sockaddr_less_def intro: sockaddr_in.expand)

end

definition INADDR_NONE :: u32 where "INADDR_NONE = - 1"

definition nul :: char where "nul = CHR 0x00"

text \<open>What \<open>c_str\<close> shows of a string.\<close>

definition cstr :: "string \<Rightarrow> string" where
  "cstr = takeWhile (\<lambda>c. c \<noteq> nul)"

text \<open>\<open>atoi\<close>: blanks, a sign, digits; undefined when the number does not fit.\<close>

definition atoi :: "string \<Rightarrow> int option" where
  "atoi s =
     (let s = dropWhile isspace s;
          (neg, s) = (case s of c # r \<Rightarrow> if c = CHR ''-'' then (True, r) else if c = CHR ''+'' then (False, r) else (False, s) | [] \<Rightarrow> (False, s));
          n = int (digits_val (takeWhile isdigit s));
          n = (if neg then - n else n)
      in if int32_ok n then Some n else None)"

datatype addr_error = HostTooLong | NoSuchHost | BadNumber

text \<open>\<open>exit(1)\<close> if the host is unknown; \<open>htons\<close> keeps the lower 16 bits, here in host order.\<close>

definition make_sockaddr2 :: "(string \<Rightarrow> u32) \<Rightarrow> (string \<Rightarrow> (nat \<times> u32) option) \<Rightarrow> string \<Rightarrow> string \<Rightarrow> addr_error + sockaddr_in" where
  "make_sockaddr2 inet byname host port =
     (let a = inet host in
      case (if a \<noteq> INADDR_NONE then Some a
            else case byname host of None \<Rightarrow> None | Some (len, b) \<Rightarrow> if len \<noteq> 4 then None else Some b) of
        None \<Rightarrow> Inl NoSuchHost
      | Some a \<Rightarrow> (case atoi port of None \<Rightarrow> Inl BadNumber | Some n \<Rightarrow> Inr (Sockaddr a (word_of_int n))))"

definition HOST_SZ :: nat where "HOST_SZ = 200"

text \<open>The host part is copied to an array of 200 characters without a check: \<open>HostTooLong\<close> is a write behind its end.\<close>

definition make_sockaddr :: "(string \<Rightarrow> u32) \<Rightarrow> (string \<Rightarrow> (nat \<times> u32) option) \<Rightarrow> string \<Rightarrow> addr_error + sockaddr_in" where
  "make_sockaddr inet byname s =
     (let s = cstr s; host = takeWhile (\<lambda>c. c \<noteq> CHR '':'') s in
      if host = s then make_sockaddr2 inet byname ''127.0.0.1'' s
      else if length host \<ge> HOST_SZ then Inl HostTooLong
      else make_sockaddr2 inet byname host (drop (length host + 1) s))"

lemma takeWhile_digits: "(\<forall>c \<in> set ds. isdigit c) \<Longrightarrow> takeWhile isdigit ds = ds"
  by (simp add: takeWhile_eq_all_conv)

lemma atoi_show: "n < 2 ^ 31 \<Longrightarrow> atoi (show_nat n) = Some (int n)"
proof -
  assume n: "n < 2 ^ 31"
  obtain c r where cr: "show_nat n = c # r" using show_nat_digits [of n] by (cases "show_nat n") auto
  then have "isdigit c" using show_nat_digits [of n] by simp
  then have "\<not> isspace c" "c \<noteq> CHR ''-''" "c \<noteq> CHR ''+''" using isdigit_not by auto
  moreover have t: "takeWhile isdigit (c # r) = c # r" using show_nat_digits [of n] cr by (intro takeWhile_digits) simp
  moreover have "digits_val (c # r) = n" using digits_val_show [of n] cr by simp
  ultimately show ?thesis using n by (simp add: atoi_def cr int32_ok_def Let_def t del: takeWhile.simps)
qed

definition plain :: "string \<Rightarrow> bool" where
  "plain s \<longleftrightarrow> nul \<notin> set s \<and> CHR '':'' \<notin> set s"

lemma plain_show: "plain (show_nat n)"
  using show_nat_digits [of n] by (auto simp: plain_def nul_def isdigit_def)

lemma cstr_plain: "nul \<notin> set s \<Longrightarrow> cstr s = s"
  by (auto simp: cstr_def takeWhile_eq_all_conv)

lemma host_part: "plain h \<Longrightarrow> takeWhile (\<lambda>c. c \<noteq> CHR '':'') (h @ CHR '':'' # r) = h"
  by (auto simp: plain_def takeWhile_append)



end
