(* ===== verification/XidWindow.thy ===== *)
theory XidWindow
  imports Prelude
begin

text \<open>
  The client's window of received replies, \<open>rpcc::update_xid_rep\<close> of \<open>rpc/rpc.cc\<close>.  The front of
  \<open>xid_rep_window_\<close> travels with every request: it tells the server that every reply up to it has
  arrived and may be forgotten.  The specification is the plain set of xids received so far.
\<close>

type_synonym xid_window = "u32 list"

definition window_init :: xid_window where
  "window_init = [0]"

text \<open>The scan for the insertion point: before the first larger element, else at the end.\<close>

fun window_insert :: "u32 \<Rightarrow> xid_window \<Rightarrow> xid_window" where
  "window_insert xid [] = [xid]"
| "window_insert xid (y # ys) = (if y > xid then xid # y # ys else y # window_insert xid ys)"

text \<open>\<open>while (front() + 1 == *it) pop_front()\<close>, for an iterator at the value \<open>v\<close>.\<close>

fun window_pop :: "u32 \<Rightarrow> xid_window \<Rightarrow> xid_window" where
  "window_pop v [] = []"
| "window_pop v (f # w) = (if f + 1 = v then window_pop v w else f # w)"

fun window_compress :: "xid_window \<Rightarrow> u32 list \<Rightarrow> xid_window" where
  "window_compress w [] = w"
| "window_compress w (v # its) = window_compress (window_pop v w) its"

definition update_xid_rep :: "u32 \<Rightarrow> xid_window \<Rightarrow> xid_window" where
  "update_xid_rep xid w =
     (if xid \<le> hd w then w
      else let w1 = window_insert xid w in window_compress w1 (tl w1))"

subsection \<open>The window represents the set of received replies\<close>

definition window_rel :: "xid_window \<Rightarrow> u32 set \<Rightarrow> bool" where
  "window_rel w R \<longleftrightarrow> w \<noteq> [] \<and> sorted w \<and> R = {x. x \<le> hd w} \<union> set w \<and> hd w + 1 \<notin> set w"

lemma set_window_insert [simp]: "set (window_insert x w) = insert x (set w)"
  by (induction x w rule: window_insert.induct) auto

lemma sorted_window_insert: "sorted w \<Longrightarrow> sorted (window_insert x w)"
  by (induction x w rule: window_insert.induct) auto

lemma hd_window_insert: "w \<noteq> [] \<Longrightarrow> hd w < x \<Longrightarrow> hd (window_insert x w) = hd w"
  by (cases w) auto

lemma window_insert_not_Nil [simp]: "window_insert x w \<noteq> []"
  by (cases w) auto

lemma window_pop_all: "(\<And>y. y \<in> set a \<Longrightarrow> y + 1 = v) \<Longrightarrow> window_pop v (a @ v # its) = v # its"
  by (induction a) auto

lemma window_pop_none: "a \<noteq> [] \<Longrightarrow> hd a + 1 \<noteq> v \<Longrightarrow> window_pop v (a @ r) = a @ r"
  by (cases a) auto

lemma u32_le_plus_one: "(h :: u32) \<le> h + 1 \<Longrightarrow> x \<le> h + 1 \<longleftrightarrow> x \<le> h \<or> x = h + 1"
proof -
  assume a: "h \<le> h + 1"
  have "h \<noteq> - 1" using a by auto
  then have "unat (h + 1) = unat h + 1" by (rule u32_no_wrap)
  then show ?thesis unfolding word_le_nat_alt word_unat_eq_iff by linarith
qed

lemma window_compress_rel:
  assumes "a \<noteq> []" "sorted (a @ its)" "hd a + 1 \<notin> set a"
  shows "window_rel (window_compress (a @ its) its) ({x. x \<le> hd a} \<union> set (a @ its))"
  using assms
proof (induction its arbitrary: a)
  case Nil
  then show ?case by (simp add: window_rel_def)
next
  case (Cons v its)
  have ge: "hd a \<le> y" if "y \<in> set a" for y
    using Cons.prems(1,2) that by (cases a) (auto simp: sorted_append)
  have le: "y \<le> v" if "y \<in> set a" for y
    using Cons.prems(2) that by (auto simp: sorted_append)
  show ?case
  proof (cases "hd a + 1 = v")
    case True
    have hv: "hd a \<le> hd a + 1" using ge le Cons.prems(1) True by (metis hd_in_set)
    have "y + 1 = v" if "y \<in> set a" for y
      using u32_le_plus_one [OF hv, of y] ge [OF that] le [OF that] that True Cons.prems(3) by auto
    then have pop: "window_pop v (a @ v # its) = [v] @ its"
      by (simp add: window_pop_all)
    have same: "{x. x \<le> v} \<union> set ([v] @ its) = {x. x \<le> hd a} \<union> set (a @ v # its)"
      using u32_le_plus_one [OF hv] True le by auto
    have "v + 1 \<notin> set [v]" by simp
    then have "window_rel (window_compress ([v] @ its) its) ({x. x \<le> hd [v]} \<union> set ([v] @ its))"
      using Cons.prems(2) by (intro Cons.IH) (auto simp: sorted_append)
    then show ?thesis
      unfolding window_compress.simps pop using same by simp
  next
    case False
    then show ?thesis
      using Cons.IH [of "a @ [v]"] Cons.prems by (simp add: window_pop_none insert_commute)
  qed
qed

lemma update_xid_rep_rel:
  assumes "window_rel w R"
  shows "window_rel (update_xid_rep x w) (insert x R)"
proof (cases "x \<le> hd w")
  case True
  then show ?thesis using assms by (auto simp: update_xid_rep_def window_rel_def insert_absorb)
next
  case False
  define w1 where "w1 = window_insert x w"
  have w: "w \<noteq> []" "sorted w" "hd w < x" using assms False by (auto simp: window_rel_def)
  then have w1: "w1 \<noteq> []" "sorted w1" "hd w1 = hd w" "set w1 = insert x (set w)"
    by (auto simp: w1_def hd_window_insert sorted_window_insert)
  then obtain r where r: "w1 = [hd w] @ r" by (cases w1) auto
  have "window_rel (window_compress ([hd w] @ r) r) ({y. y \<le> hd [hd w]} \<union> set ([hd w] @ r))"
    using w1(2) r by (intro window_compress_rel) auto
  then have "window_rel (window_compress w1 (tl w1)) ({y. y \<le> hd w} \<union> set w1)"
    by (simp flip: r) (simp add: r)
  then show ?thesis
    using assms False w1(4) by (simp add: update_xid_rep_def w1_def window_rel_def Let_def)
qed

lemma window_run_rel: "window_rel w R \<Longrightarrow> window_rel (fold update_xid_rep xs w) (set xs \<union> R)"
proof (induction xs arbitrary: w R)
  case (Cons x xs)
  from Cons.IH [OF update_xid_rep_rel [OF Cons.prems, of x]] show ?case by simp
qed simp

text \<open>
   After any sequence of replies, in any order and with repetitions, the acknowledgement the
  client sends (the front of the window) covers received replies only, it is as large as it can
  be, and the window remembers every reply beyond it.
\<close>

lemma xid_window_run:
  "let w = fold update_xid_rep xs window_init in
     w \<noteq> [] \<and> {x. x \<le> hd w} \<subseteq> insert 0 (set xs) \<and> hd w + 1 \<notin> set xs - {0}
     \<and> {x \<in> set xs. x > hd w} \<subseteq> set w"
proof -
  define w where "w = fold update_xid_rep xs window_init"
  have "window_rel window_init {0}"
    by (auto simp: window_rel_def window_init_def)
  from window_run_rel [OF this, of xs]
  have w: "w \<noteq> []" "set xs \<union> {0} = {x. x \<le> hd w} \<union> set w" "hd w + 1 \<notin> set w"
    by (simp_all add: w_def window_rel_def)
  have "\<not> hd w + 1 \<le> hd w" if "hd w + 1 \<noteq> 0"
  proof -
    have "hd w \<noteq> - 1" using that by auto
    then show ?thesis using u32_no_wrap [of "hd w"] by (simp add: word_le_nat_alt)
  qed
  moreover have "{x \<in> set xs. x > hd w} \<subseteq> set w"
  proof
    fix x assume x: "x \<in> {x \<in> set xs. x > hd w}"
    then have "x \<in> {x. x \<le> hd w} \<union> set w" using w(2) by blast
    then show "x \<in> set w" using x by auto
  qed
  ultimately show ?thesis
    using w by (auto simp: Let_def simp flip: w_def)
qed

end
