(* ===== verification/ReplyWindow.thy ===== *)
theory ReplyWindow
  imports Prelude
begin

text \<open>
  The server's at-most-once machinery for one client: the list of \<open>reply_t\<close> entries of
  \<open>rpcs::reply_window_\<close>, with \<open>rpcs::checkduplicate_and_update\<close> and \<open>rpcs::add_reply\<close> of
  \<open>rpc/rpc.cc\<close>.  Loops over xids count in 32-bit arithmetic as the source does.
\<close>

datatype rpcstate = NEW | INPROGRESS | DONE "byte list" | FORGOTTEN

text \<open>\<open>EmptyAccess\<close>: \<open>front()\<close> or \<open>back()\<close> of an empty list; \<open>NotFound\<close>: the \<open>exit(1)\<close> at the end.\<close>

datatype rw_error = EmptyAccess | NotFound

record reply_t =
  rt_xid :: u32
  cb_present :: bool
  rt_buf :: "byte list option"

definition reply_new :: "u32 \<Rightarrow> reply_t" where
  "reply_new x = \<lparr>rt_xid = x, cb_present = False, rt_buf = None\<rparr>"

type_synonym reply_list = "reply_t list"

text \<open>\<open>while (xid_rep < first_xid) { push_front(first_xid); first_xid--; }\<close>\<close>

function fill_front :: "u32 \<Rightarrow> u32 \<Rightarrow> reply_list \<Rightarrow> reply_list" where
  "fill_front xid_rep first_xid l =
     (if xid_rep < first_xid then fill_front xid_rep (first_xid - 1) (reply_new first_xid # l) else l)"
  by pat_completeness auto
termination
proof (relation "measure (\<lambda>(r, f, l). unat f)")
  fix r f :: u32 and l
  assume "r < f"
  then have "f \<noteq> 0" by auto
  then have "unat (f - 1) < unat f" by (simp add: unat_minus_one unat_gt_0)
  then show "((r, f - 1, reply_new f # l), r, f, l) \<in> measure (\<lambda>(r, f, l). unat f)" by simp
qed simp

text \<open>\<open>while (xid > last_xid) { last_xid++; push_back(last_xid); }\<close>\<close>

function fill_back :: "u32 \<Rightarrow> u32 \<Rightarrow> reply_list \<Rightarrow> reply_list" where
  "fill_back xid last_xid l =
     (if xid > last_xid then fill_back xid (last_xid + 1) (l @ [reply_new (last_xid + 1)]) else l)"
  by pat_completeness auto
termination
proof (relation "measure (\<lambda>(x, la, l). unat x - unat la)")
  fix x la :: u32 and l
  assume "la < x"
  moreover from this have "unat (la + 1) = unat la + 1" by (rule u32_less_plus_one)
  ultimately show "((x, la + 1, l @ [reply_new (la + 1)]), x, la, l) \<in> measure (\<lambda>(x, la, l). unat x - unat la)"
    by (simp add: word_less_nat_alt)
qed simp

declare fill_front.simps [simp del] fill_back.simps [simp del]

text \<open>The final search loop, which marks the entry of a new request.\<close>

fun find_reply :: "u32 \<Rightarrow> reply_list \<Rightarrow> (rpcstate \<times> reply_list) option" where
  "find_reply xid [] = None"
| "find_reply xid (e # es) =
     (if rt_xid e = xid
      then (if cb_present e
            then (case rt_buf e of Some b \<Rightarrow> Some (DONE b, e # es) | None \<Rightarrow> Some (INPROGRESS, e # es))
            else Some (NEW, e\<lparr>cb_present := True\<rparr> # es))
      else (case find_reply xid es of None \<Rightarrow> None | Some (st, es') \<Rightarrow> Some (st, e # es')))"

definition checkduplicate_and_update :: "u32 \<Rightarrow> u32 \<Rightarrow> reply_list \<Rightarrow> rw_error + (rpcstate \<times> reply_list)" where
  "checkduplicate_and_update xid xid_rep reply_l =
     (let l1 = (if reply_l \<noteq> [] then dropWhile (\<lambda>e. rt_xid e \<le> xid_rep) reply_l else reply_l);
          first_xid = (if l1 = [] then xid else rt_xid (hd l1) - 1);
          l2 = fill_front xid_rep first_xid l1
      in if l2 = [] then Inl EmptyAccess
         else let l3 = fill_back xid (rt_xid (last l2)) l2
              in if rt_xid (hd l3) > xid then Inr (FORGOTTEN, l3)
                 else (case find_reply xid l3 of Some r \<Rightarrow> Inr r | None \<Rightarrow> Inl NotFound))"

fun add_reply :: "u32 \<Rightarrow> byte list \<Rightarrow> reply_list \<Rightarrow> reply_list" where
  "add_reply xid b [] = []"
| "add_reply xid b (e # es) =
     (if rt_xid e = xid then e\<lparr>rt_buf := Some b\<rparr> # es else e # add_reply xid b es)"

subsection \<open>The window as a table of request states\<close>

definition xids :: "reply_list \<Rightarrow> nat list" where
  "xids l = map (\<lambda>e. unat (rt_xid e)) l"

text \<open>The entries are consecutive; an entry nobody has claimed holds no reply.\<close>

definition rw_ok :: "reply_list \<Rightarrow> bool" where
  "rw_ok l \<longleftrightarrow> (\<exists>a b. xids l = [a ..< b])"

definition clean_at :: "u32 \<Rightarrow> reply_list \<Rightarrow> bool" where
  "clean_at x l \<longleftrightarrow> (\<forall>e \<in> set l. rt_xid e = x \<longrightarrow> \<not> cb_present e \<longrightarrow> rt_buf e = None)"

definition rw_clean :: "reply_list \<Rightarrow> bool" where
  "rw_clean l \<longleftrightarrow> (\<forall>x. clean_at x l)"

text \<open>The abstract table: what the server knows about request \<open>x\<close>.\<close>

definition entry_state :: "reply_t \<Rightarrow> rpcstate" where
  "entry_state e = (if cb_present e then (case rt_buf e of Some b \<Rightarrow> DONE b | None \<Rightarrow> INPROGRESS) else NEW)"

definition reply_state :: "reply_list \<Rightarrow> u32 \<Rightarrow> rpcstate" where
  "reply_state l x = (case find (\<lambda>e. rt_xid e = x) l of Some e \<Rightarrow> entry_state e | None \<Rightarrow> NEW)"

lemma xids_simps [simp]: "xids [] = []" "xids (e # l) = unat (rt_xid e) # xids l" "xids (l @ l') = xids l @ xids l'"
  by (simp_all add: xids_def)

definition dummies :: "nat \<Rightarrow> nat \<Rightarrow> reply_list" where
  "dummies a b = map (\<lambda>n. reply_new (word_of_nat n)) [a ..< b]"

lemma xids_dummies: "b \<le> 2 ^ 32 \<Longrightarrow> xids (dummies a b) = [a ..< b]"
  by (auto simp: dummies_def xids_def reply_new_def unat_of_nat intro!: map_idI)

lemma reply_state_simps [simp]:
  "reply_state [] x = NEW"
  "reply_state (e # l) x = (if rt_xid e = x then entry_state e else reply_state l x)"
  by (simp_all add: reply_state_def)

lemma reply_state_append:
  "reply_state (l @ l') x = (if unat x \<in> set (xids l) then reply_state l x else reply_state l' x)"
  by (induction l) (auto simp: word_unat_eq_iff)

lemma reply_state_absent: "unat x \<notin> set (xids l) \<Longrightarrow> reply_state l x = NEW"
  by (induction l) auto

lemma reply_state_unclaimed: "(\<And>e. e \<in> set l \<Longrightarrow> \<not> cb_present e) \<Longrightarrow> reply_state l x = NEW"
  by (induction l) (auto simp: entry_state_def)

lemma reply_state_dummies [simp]: "reply_state (dummies a b) x = NEW"
  by (rule reply_state_unclaimed) (auto simp: dummies_def reply_new_def)

lemma fill_front_eq: "fill_front r f l = dummies (unat r + 1) (unat f + 1) @ l"
proof (induction r f l rule: fill_front.induct)
  case (1 r f l)
  show ?case
  proof (cases "r < f")
    case True
    then have "f \<noteq> 0" by auto
    then have f: "unat (f - 1) + 1 = unat f" "unat r < unat f"
      using True by (auto simp: word_less_nat_alt unat_minus_one unat_gt_0)
    have "dummies (unat r + 1) (unat f + 1) = dummies (unat r + 1) (unat f) @ [reply_new f]"
      using f by (simp add: dummies_def)
    then show ?thesis using 1 [OF True] True f by (simp add: fill_front.simps [of r f])
  next
    case False
    then show ?thesis by (simp add: fill_front.simps [of r f] dummies_def word_less_nat_alt)
  qed
qed

lemma fill_back_eq: "fill_back x la l = l @ dummies (unat la + 1) (unat x + 1)"
proof (induction x la l rule: fill_back.induct)
  case (1 x la l)
  show ?case
  proof (cases "x > la")
    case True
    then have la: "unat (la + 1) = unat la + 1" "unat la < unat x"
      by (auto simp: u32_less_plus_one word_less_nat_alt)
    then have "reply_new (la + 1) # dummies (unat la + 2) (unat x + 1) = dummies (unat la + 1) (unat x + 1)"
      by (simp add: dummies_def upt_conv_Cons ac_simps del: upt_Suc)
    then show ?thesis using 1 [OF True] True la by (simp add: fill_back.simps [of x la])
  next
    case False
    then show ?thesis by (simp add: fill_back.simps [of x la] dummies_def word_less_nat_alt)
  qed
qed

lemma cons_eq_upt: "x # xs = [a ..< b] \<longleftrightarrow> a < b \<and> x = a \<and> xs = [Suc a ..< b]"
  by (subst eq_commute) (auto simp: upt_eq_Cons_conv)

lemma xids_dropWhile:
  "xids l = [a ..< b] \<Longrightarrow> xids (dropWhile (\<lambda>e. rt_xid e \<le> r) l) = [max a (unat r + 1) ..< b]"
proof (induction l arbitrary: a)
  case (Cons e l)
  then have ab: "a < b" and e: "unat (rt_xid e) = a" and l: "xids l = [a + 1 ..< b]"
    by (auto simp: cons_eq_upt)
  have "xids (e # l) = [max a (unat r + 1) ..< b]" if "\<not> rt_xid e \<le> r"
    using that Cons.prems e by (simp add: word_le_nat_alt max_absorb1)
  moreover have "xids (dropWhile (\<lambda>e. rt_xid e \<le> r) l) = [max a (unat r + 1) ..< b]" if "rt_xid e \<le> r"
    using that Cons.IH [OF l] e by (simp add: word_le_nat_alt max_def)
  ultimately show ?case by simp
qed (auto simp: eq_commute [of "[]"])

lemma reply_state_dropWhile:
  "xids l = [a ..< b] \<Longrightarrow> reply_state (dropWhile (\<lambda>e. rt_xid e \<le> r) l) x = (if x \<le> r then NEW else reply_state l x)"
proof (induction l arbitrary: a)
  case (Cons e l)
  then have l: "xids l = [a + 1 ..< b]" and e: "unat (rt_xid e) = a"
    by (auto simp: cons_eq_upt)
  show ?case
  proof (cases "rt_xid e \<le> r")
    case True
    then show ?thesis using Cons.IH [OF l] by auto
  next
    case False
    then have "unat x \<notin> set (xids (e # l))" if "x \<le> r"
      using that l e by (auto simp: word_le_nat_alt)
    then show ?thesis using False by (auto simp del: reply_state_simps xids_simps intro: reply_state_absent)
  qed
qed simp

lemma clean_at_dropWhile: "clean_at x l \<Longrightarrow> clean_at x (dropWhile P l)"
  by (auto simp: clean_at_def dest: set_dropWhileD)

lemma clean_at_append [simp]: "clean_at x (l @ l') \<longleftrightarrow> clean_at x l \<and> clean_at x l'"
  by (auto simp: clean_at_def)

lemma clean_at_dummies [simp]: "clean_at x (dummies a b)"
  by (auto simp: clean_at_def dummies_def reply_new_def)

lemma reply_state_pad:
  assumes "distinct (xids (dummies a b @ l))"
  shows "reply_state (dummies a b @ l @ dummies c d) = reply_state l"
proof
  fix x
  show "reply_state (dummies a b @ l @ dummies c d) x = reply_state l x"
    using assms reply_state_absent [of x l] by (auto simp: reply_state_append)
qed

text \<open>What the two filling loops leave: every xid from \<open>xid_rep + 1\<close> to the newest one.\<close>

lemma filled_window:
  fixes xid r :: u32
  assumes l: "xids l = [a ..< b]" and r: "r < xid"
  defines "l1 \<equiv> dropWhile (\<lambda>e. rt_xid e \<le> r) l"
  defines "l2 \<equiv> fill_front r (if l1 = [] then xid else rt_xid (hd l1) - 1) l1"
  defines "l3 \<equiv> fill_back xid (rt_xid (last l2)) l2"
  shows "l2 \<noteq> [] \<and> (\<exists>n. xids l3 = [unat r + 1 ..< n] \<and> unat xid < n)
    \<and> reply_state l3 = (\<lambda>x. if x \<le> r then NEW else reply_state l x) \<and> (\<forall>y. clean_at y l \<longrightarrow> clean_at y l3)"
proof -
  have l1: "xids l1 = [max a (unat r + 1) ..< b]" unfolding l1_def by (rule xids_dropWhile [OF l])
  have r': "unat r < unat xid" "unat xid < 2 ^ 32" using r u32_bound [of xid] by (simp_all add: word_less_nat_alt)
  obtain k n where l2: "l2 = dummies (unat r + 1) k @ l1" and n: "unat r + 1 < n"
    and x2: "xids l2 = [unat r + 1 ..< n]"
  proof (cases l1)
    case Nil
    then show ?thesis using that [of "unat xid + 1" "unat xid + 1"] r'
      by (auto simp: l2_def fill_front_eq xids_dummies)
  next
    case (Cons e es)
    define h where "h = max a (unat r + 1)"
    have e: "h < b" "unat (rt_xid e) = h" using l1 Cons by (simp_all add: cons_eq_upt h_def)
    then have "rt_xid e \<noteq> 0" by (auto simp: h_def)
    then have "unat (rt_xid e - 1) + 1 = h" using e by (simp add: unat_minus_one unat_gt_0 h_def)
    moreover have "h \<le> 2 ^ 32" using e(2) u32_bound [of "rt_xid e"] by simp
    moreover have "[unat r + 1 ..< h] @ [h ..< b] = [unat r + 1 ..< b]"
      using e by (intro upt_append) (auto simp: h_def)
    moreover have "unat r + 1 < b" using e by (simp add: h_def)
    ultimately show ?thesis using that [of h b] Cons l1 e
      by (simp add: l2_def fill_front_eq xids_dummies h_def [simplified, symmetric] del: upt_Suc xids_simps(2))
  qed
  have last: "unat (rt_xid (last l2)) + 1 = n"
  proof -
    have "l2 \<noteq> []" using x2 n by (auto simp: eq_commute [of "[]"])
    then have "unat (rt_xid (last l2)) = last (xids l2)" by (simp add: xids_def last_map)
    then show ?thesis using x2 n by simp
  qed
  have l3: "l3 = dummies (unat r + 1) k @ l1 @ dummies n (unat xid + 1)"
    unfolding l3_def fill_back_eq last by (simp add: l2)
  have "xids l3 = [unat r + 1 ..< n] @ [n ..< unat xid + 1]"
    using x2 l2 r' by (simp add: l3 xids_dummies del: upt_Suc)
  also have "\<dots> = [unat r + 1 ..< max n (unat xid + 1)]"
    using n by (auto simp: max_def upt_append simp del: upt_Suc)
  finally have "\<exists>n. xids l3 = [unat r + 1 ..< n] \<and> unat xid < n" by (meson less_add_one max.strict_coboundedI2)
  moreover have "reply_state l3 = reply_state l1"
    unfolding l3 by (rule reply_state_pad) (metis l2 x2 distinct_upt)
  moreover have "l2 \<noteq> []" using x2 n by (auto simp: eq_commute [of "[]"])
  moreover have "\<forall>y. clean_at y l \<longrightarrow> clean_at y l3" by (simp add: l3 l1_def clean_at_dropWhile)
  ultimately show ?thesis
    using reply_state_dropWhile [OF l, of r] by (simp add: l1_def fun_eq_iff)
qed

lemma find_reply_state:
  "unat xid \<in> set (xids l) \<Longrightarrow> \<exists>l'. find_reply xid l = Some (reply_state l xid, l') \<and> xids l' = xids l
     \<and> (\<forall>x. reply_state l' x \<noteq> NEW \<longleftrightarrow> x = xid \<or> reply_state l x \<noteq> NEW)
     \<and> (\<forall>y. clean_at y l \<longrightarrow> clean_at y l') \<and> (clean_at xid l \<longrightarrow> reply_state l' =
          (reply_state l)(xid := if reply_state l xid = NEW then INPROGRESS else reply_state l xid))"
proof (induction l)
  case (Cons e l)
  show ?case
  proof (cases "rt_xid e = xid")
    case True
    then show ?thesis
      by (auto simp: entry_state_def clean_at_def fun_eq_iff split: option.splits)
  next
    case False
    with Cons.prems have "unat xid \<in> set (xids l)" by (simp add: word_unat_eq_iff)
    from Cons.IH [OF this] False show ?thesis by (auto simp: clean_at_def fun_eq_iff)
  qed
qed simp

lemma checkduplicate_lemma:
  assumes "rw_ok l" "xid_rep < xid"
  shows "\<exists>l'. checkduplicate_and_update xid xid_rep l = Inr (reply_state l xid, l') \<and> rw_ok l'
    \<and> (\<forall>x. reply_state l' x \<noteq> NEW \<longleftrightarrow> x = xid \<or> xid_rep < x \<and> reply_state l x \<noteq> NEW)
    \<and> (\<forall>y. clean_at y l \<longrightarrow> clean_at y l') \<and> (clean_at xid l \<longrightarrow> reply_state l' =
         (\<lambda>x. if x \<le> xid_rep then NEW else if x = xid \<and> reply_state l xid = NEW then INPROGRESS
              else reply_state l x))"
proof -
  obtain a b where l: "xids l = [a ..< b]" using assms(1) by (auto simp: rw_ok_def)
  define l1 where "l1 = dropWhile (\<lambda>e. rt_xid e \<le> xid_rep) l"
  define l2 where "l2 = fill_front xid_rep (if l1 = [] then xid else rt_xid (hd l1) - 1) l1"
  define l3 where "l3 = fill_back xid (rt_xid (last l2)) l2"
  note F = filled_window [OF l assms(2), folded l1_def, folded l2_def, folded l3_def]
  then obtain n where x3: "xids l3 = [unat xid_rep + 1 ..< n]" and n: "unat xid < n" by auto
  have in3: "unat xid \<in> set (xids l3)" using x3 n assms(2) by (simp add: word_less_nat_alt)
  then obtain e es where "l3 = e # es" by (cases l3) auto
  then have hd: "\<not> rt_xid (hd l3) > xid"
    using x3 assms(2) by (auto simp: cons_eq_upt word_less_nat_alt)
  from find_reply_state [OF in3] obtain l' where l': "find_reply xid l3 = Some (reply_state l3 xid, l')"
    and rest: "xids l' = xids l3" "\<And>x. reply_state l' x \<noteq> NEW \<longleftrightarrow> x = xid \<or> reply_state l3 x \<noteq> NEW"
      "\<forall>y. clean_at y l3 \<longrightarrow> clean_at y l'" "clean_at xid l3 \<longrightarrow> reply_state l' =
         (reply_state l3)(xid := if reply_state l3 xid = NEW then INPROGRESS else reply_state l3 xid)"
    by auto
  have "(if l \<noteq> [] then dropWhile (\<lambda>e. rt_xid e \<le> xid_rep) l else l) = l1" by (simp add: l1_def)
  note l1 = this
  have "checkduplicate_and_update xid xid_rep l = Inr (reply_state l3 xid, l')"
    unfolding checkduplicate_and_update_def Let_def l1 l2_def [symmetric] l3_def [symmetric]
    using hd l' F by simp
  moreover have "rw_ok l'" using rest(1) x3 by (auto simp: rw_ok_def)
  ultimately show ?thesis using rest(2-4) F assms(2) by (auto simp: fun_eq_iff not_le)
qed

lemma rw_ok_Nil: "rw_ok []"
  unfolding rw_ok_def by (intro exI [of _ 0]) simp

lemma add_reply_keeps: "xids (add_reply x b l) = xids l"
  by (induction l) auto

lemma add_reply_state:
  "reply_state (add_reply x b l) y = (if y = x \<and> reply_state l x \<noteq> NEW then DONE b else reply_state l y)"
  by (induction l) (auto simp: entry_state_def split: option.splits)

lemma add_reply_clean: "clean_at y l \<Longrightarrow> y = x \<longrightarrow> reply_state l x \<noteq> NEW \<Longrightarrow> clean_at y (add_reply x b l)"
  by (induction l) (auto simp: clean_at_def entry_state_def split: if_splits)

subsection \<open>Runs of the window\<close>

text \<open>A request arrives, or the reply to \<open>x\<close> is stored.  The run returns the requests handed to a handler.\<close>

datatype rw_event = Req u32 u32 | Reply u32 "byte list"

fun rw_run :: "rw_event list \<Rightarrow> reply_list \<Rightarrow> rw_error + u32 list" where
  "rw_run [] l = Inr []"
| "rw_run (Req x r # evs) l =
     (case checkduplicate_and_update x r l of
        Inl e \<Rightarrow> Inl e
      | Inr (st, l') \<Rightarrow> map_sum id (\<lambda>ex. if st = NEW then x # ex else ex) (rw_run evs l'))"
| "rw_run (Reply x b # evs) l = rw_run evs (add_reply x b l)"

fun reqs :: "rw_event list \<Rightarrow> (u32 \<times> u32) list" where
  "reqs [] = []"
| "reqs (Req x r # evs) = (x, r) # reqs evs"
| "reqs (Reply x b # evs) = reqs evs"

lemma rw_run_at_most_once_from:
  assumes "rw_ok l" "\<forall>(x, r) \<in> set (reqs evs). r < x \<and> m \<le> r" "sorted (map snd (reqs evs))"
  shows "\<exists>ex. rw_run evs l = Inr ex \<and> distinct ex
    \<and> (\<forall>x \<in> set ex. m < x \<and> reply_state l x = NEW \<and> x \<in> fst ` set (reqs evs))"
  using assms
proof (induction evs l arbitrary: m rule: rw_run.induct)
  case (2 x r evs l)
  obtain l' where l': "checkduplicate_and_update x r l = Inr (reply_state l x, l')" "rw_ok l'"
    "\<And>y. reply_state l' y \<noteq> NEW \<longleftrightarrow> y = x \<or> r < y \<and> reply_state l y \<noteq> NEW"
    using checkduplicate_lemma [of l r x] 2 by auto
  obtain ex where ex: "rw_run evs l' = Inr ex" "distinct ex"
    "\<And>y. y \<in> set ex \<Longrightarrow> r < y \<and> reply_state l' y = NEW \<and> y \<in> fst ` set (reqs evs)"
    using "2.IH" [OF l'(1) refl l'(2), of r] "2.prems" by fastforce
  have "reply_state l y = NEW" "m < y" if "y \<in> set ex" for y
    using ex(3) [OF that] l'(3) [of y] "2.prems"(2) by auto
  moreover have "x \<notin> set ex" using ex(3) l'(3) by blast
  ultimately show ?case using l' ex "2.prems" by auto
next
  case (3 x b evs l)
  then have "rw_ok (add_reply x b l)" by (simp add: rw_ok_def add_reply_keeps)
  from "3.IH" [OF this, of m] "3.prems" show ?case
    by (auto simp: add_reply_state split: if_splits)
qed simp

text \<open>
  C10.  Against the table of request states, \<open>checkduplicate_and_update\<close> is a look-up: for every request
  that has not itself been acknowledged (\<open>xid_rep < xid\<close>) it returns what the table says about \<open>xid\<close>, claims the
  request if it was new, forgets exactly the acknowledged requests, never reports \<open>FORGOTTEN\<close> by mistake,
  never reads an empty list, and keeps the window contiguous.
\<close>

theorem checkduplicate_refines:
  assumes "rw_ok l" "rw_clean l" "xid_rep < xid"
  shows "\<exists>l'. checkduplicate_and_update xid xid_rep l = Inr (reply_state l xid, l') \<and> rw_ok l' \<and> rw_clean l'
    \<and> reply_state l' = (\<lambda>x. if x \<le> xid_rep then NEW
                             else if x = xid \<and> reply_state l xid = NEW then INPROGRESS
                             else reply_state l x)"
  using checkduplicate_lemma [OF assms(1,3)] assms(2) by (auto simp: rw_clean_def)

theorem checkduplicate_refines_witness:
  "\<exists>l'. checkduplicate_and_update 3 1 [\<lparr>rt_xid = 1, cb_present = True, rt_buf = Some [7]\<rparr>,
      \<lparr>rt_xid = 2, cb_present = True, rt_buf = Some [9]\<rparr>] = Inr (NEW, l')
     \<and> map (reply_state l') [1, 2, 3] = [NEW, DONE [9], INPROGRESS]"
proof -
  let ?l = "[\<lparr>rt_xid = 1, cb_present = True, rt_buf = Some [7 :: byte]\<rparr>, \<lparr>rt_xid = 2, cb_present = True, rt_buf = Some [9]\<rparr>]"
  have "xids ?l = [1 ..< 3]" by (simp add: upt_rec)
  then have "rw_ok ?l" unfolding rw_ok_def by blast
  moreover have "rw_clean ?l" by (simp add: rw_clean_def clean_at_def)
  ultimately show ?thesis
    using checkduplicate_refines [of ?l 1 3] by (auto simp: entry_state_def word_le_nat_alt)
qed

text \<open>
  At most once: along every sequence of requests and stored replies in which the acknowledged
  \<open>xid_rep\<close> never decreases and every request is newer than what it acknowledges, the window never fails
  and hands each xid to a handler at most once, and only xids that were asked for.
\<close>

lemma rw_run_at_most_once:
  assumes "\<forall>(x, r) \<in> set (reqs evs). r < x" "sorted (map snd (reqs evs))"
  shows "\<exists>ex. rw_run evs [] = Inr ex \<and> distinct ex \<and> set ex \<subseteq> fst ` set (reqs evs)"
  using rw_run_at_most_once_from [of "[]" evs 0] assms rw_ok_Nil by fastforce


end
