(* ===== verification/Rpc.thy ===== *)
theory Rpc
  imports Protocols XidWindow ReplyWindow
begin

text \<open>
  The RPC endpoints of \<open>rpc/rpc.h\<close> and \<open>rpc/rpc.cc\<close>.  Server: handler registration (\<open>reg\<close> for each arity, \<open>reg1\<close>), \<open>updatestat\<close> and
  \<open>dispatch\<close>.  Client: the locked sections of \<open>call1\<close>, \<open>got_pdu\<close>, \<open>cancel\<close>, \<open>bind\<close> and the typed wrappers \<open>call_m\<close> and \<open>call\<close>.
  A connection is a number; \<open>dispatch\<close> returns the messages it sends and tracks the connections' reference counts.
\<close>

definition timeout_failure :: int where "timeout_failure = -1"
definition unmarshal_args_failure :: int where "unmarshal_args_failure = -2"
definition unmarshal_reply_failure :: int where "unmarshal_reply_failure = -3"
definition atmostonce_failure :: int where "atmostonce_failure = -4"
definition oldsrv_failure :: int where "oldsrv_failure = -5"
definition bind_failure :: int where "bind_failure = -6"
definition cancel_failure :: int where "cancel_failure = -7"
definition bind_proc :: u32 where "bind_proc = 1"

lemmas rpc_const_defs = timeout_failure_def unmarshal_args_failure_def unmarshal_reply_failure_def
  atmostonce_failure_def oldsrv_failure_def bind_failure_def cancel_failure_def

subsection \<open>Handlers\<close>

text \<open>
  A handler runs on the application state \<open>'h\<close>, the request's arguments and the reply under construction; \<open>None\<close> is a store
  outside the reply buffer.  \<open>h1_fn\<close> to \<open>h7_fn\<close> are the classes the \<open>reg\<close> templates create for methods of one to seven arguments.
\<close>

type_synonym 'h handler = "'h \<Rightarrow> unmarshall \<Rightarrow> marshall \<Rightarrow> (int \<times> marshall \<times> 'h) option"

definition h1_fn :: "(unmarshall \<Rightarrow> 'a \<times> unmarshall) \<Rightarrow> ('r \<Rightarrow> marshall \<Rightarrow> marshall option)
    \<Rightarrow> ('h \<Rightarrow> 'a \<Rightarrow> int \<times> 'r \<times> 'h) \<Rightarrow> 'h handler" where
  "h1_fn g1 put meth st args ret =
     (let (a1, args) = g1 args in
      if \<not> okdone args then Some (unmarshal_args_failure, ret, st)
      else let (b, r, st) = meth st a1 in do { ret \<leftarrow> put r ret; Some (b, ret, st) })"

definition h2_fn where
  "h2_fn g1 g2 put meth st args ret =
     (let (a1, args) = g1 args; (a2, args) = g2 args in
      if \<not> okdone args then Some (unmarshal_args_failure, ret, st)
      else let (b, r, st) = meth st a1 a2 in do { ret \<leftarrow> put r ret; Some (b, ret, st) })"

definition h3_fn where
  "h3_fn g1 g2 g3 put meth st args ret =
     (let (a1, args) = g1 args; (a2, args) = g2 args; (a3, args) = g3 args in
      if \<not> okdone args then Some (unmarshal_args_failure, ret, st)
      else let (b, r, st) = meth st a1 a2 a3 in do { ret \<leftarrow> put r ret; Some (b, ret, st) })"

definition h4_fn where
  "h4_fn g1 g2 g3 g4 put meth st args ret =
     (let (a1, args) = g1 args; (a2, args) = g2 args; (a3, args) = g3 args; (a4, args) = g4 args in
      if \<not> okdone args then Some (unmarshal_args_failure, ret, st)
      else let (b, r, st) = meth st a1 a2 a3 a4 in do { ret \<leftarrow> put r ret; Some (b, ret, st) })"

definition h5_fn where
  "h5_fn g1 g2 g3 g4 g5 put meth st args ret =
     (let (a1, args) = g1 args; (a2, args) = g2 args; (a3, args) = g3 args; (a4, args) = g4 args;
          (a5, args) = g5 args in
      if \<not> okdone args then Some (unmarshal_args_failure, ret, st)
      else let (b, r, st) = meth st a1 a2 a3 a4 a5 in do { ret \<leftarrow> put r ret; Some (b, ret, st) })"

definition h6_fn where
  "h6_fn g1 g2 g3 g4 g5 g6 put meth st args ret =
     (let (a1, args) = g1 args; (a2, args) = g2 args; (a3, args) = g3 args; (a4, args) = g4 args;
          (a5, args) = g5 args; (a6, args) = g6 args in
      if \<not> okdone args then Some (unmarshal_args_failure, ret, st)
      else let (b, r, st) = meth st a1 a2 a3 a4 a5 a6 in do { ret \<leftarrow> put r ret; Some (b, ret, st) })"

definition h7_fn where
  "h7_fn g1 g2 g3 g4 g5 g6 g7 put meth st args ret =
     (let (a1, args) = g1 args; (a2, args) = g2 args; (a3, args) = g3 args; (a4, args) = g4 args;
          (a5, args) = g5 args; (a6, args) = g6 args; (a7, args) = g7 args in
      if \<not> okdone args then Some (unmarshal_args_failure, ret, st)
      else let (b, r, st) = meth st a1 a2 a3 a4 a5 a6 a7 in do { ret \<leftarrow> put r ret; Some (b, ret, st) })"

subsection \<open>Server\<close>

record 'h rpcs =
  nonce :: u32
  procs :: "(u32, 'h handler) stdmap"
  reply_window :: "(u32, reply_list) stdmap"
  conns :: "(u32, nat option) stdmap"
  counting :: int
  curr_counts :: int
  counts :: "(u32, int) stdmap"
  refs :: "nat \<Rightarrow> int"
  app :: 'h

datatype dispatch_error = WindowError rw_error | NullConnection | BadReturn | Overrun

definition ref_conn :: "nat \<Rightarrow> 'h rpcs \<Rightarrow> 'h rpcs" where
  "ref_conn c s = s\<lparr>refs := (refs s)(c := refs s c + 1)\<rparr>"

definition unref_conn :: "nat \<Rightarrow> 'h rpcs \<Rightarrow> 'h rpcs" where
  "unref_conn c s = s\<lparr>refs := (refs s)(c := refs s c - 1)\<rparr>"

text \<open>\<open>None\<close>: the \<open>assert\<close> that the number is not yet registered.\<close>

definition reg1 :: "u32 \<Rightarrow> 'h handler \<Rightarrow> 'h rpcs \<Rightarrow> 'h rpcs option" where
  "reg1 p h s = (if mcount (procs s) p then None else Some (s\<lparr>procs := mput p h (procs s)\<rparr>))"

definition rpcbind :: "u32 \<Rightarrow> int \<Rightarrow> int \<times> int" where
  "rpcbind n a = (0, sint n)"

text \<open>The constructor; \<open>rnd\<close> is the result of \<open>random()\<close>.  It registers \<open>rpcbind\<close>, a method of the server itself that reads its nonce.\<close>

definition bind_handler :: "u32 \<Rightarrow> 'h handler" where
  "bind_handler n = h1_fn get_int put_int (\<lambda>st a. case rpcbind n a of (ret, r) \<Rightarrow> (ret, r, st))"

definition rpcs_new :: "u32 \<Rightarrow> int \<Rightarrow> 'h \<Rightarrow> 'h rpcs" where
  "rpcs_new rnd count st = \<lparr>nonce = rnd, procs = [(bind_proc, bind_handler rnd)], reply_window = [], conns = [], counting = count,
     curr_counts = count, counts = [], refs = (\<lambda>_. 0), app = st\<rparr>"

definition free_reply_window :: "'h rpcs \<Rightarrow> 'h rpcs" where
  "free_reply_window s = s\<lparr>reply_window := []\<rparr>"

definition updatestat :: "u32 \<Rightarrow> 'h rpcs \<Rightarrow> 'h rpcs" where
  "updatestat p s =
     (let s = s\<lparr>counts := mput p (mget 0 (counts s) p + 1) (counts s), curr_counts := curr_counts s - 1\<rparr>
      in if curr_counts s = 0 then s\<lparr>curr_counts := counting s\<rparr> else s)"

text \<open>\<open>save the latest good connection to the client\<close>\<close>

definition save_conn :: "u32 \<Rightarrow> nat \<Rightarrow> 'h rpcs \<Rightarrow> 'h rpcs" where
  "save_conn clt c s = (case mfind (conns s) clt of
      None \<Rightarrow> (ref_conn c s)\<lparr>conns := mput clt (Some c) (conns s)\<rparr>
    | Some old \<Rightarrow> if old \<noteq> Some c
        then (ref_conn c (case old of Some d \<Rightarrow> unref_conn d s | None \<Rightarrow> s))\<lparr>conns := mput clt (Some c) (conns s)\<rparr>
        else s)"

definition rpcs_check :: "u32 \<Rightarrow> u32 \<Rightarrow> u32 \<Rightarrow> 'h rpcs \<Rightarrow> rw_error + rpcstate \<times> 'h rpcs" where
  "rpcs_check clt xid xid_rep s =
     (case checkduplicate_and_update xid xid_rep (mget [] (reply_window s) clt) of
        Inl e \<Rightarrow> Inl e
      | Inr (st, l) \<Rightarrow> Inr (st, s\<lparr>reply_window := mput clt l (reply_window s)\<rparr>))"

definition rpcs_add_reply :: "u32 \<Rightarrow> u32 \<Rightarrow> byte list \<Rightarrow> 'h rpcs \<Rightarrow> 'h rpcs" where
  "rpcs_add_reply clt xid b s =
     s\<lparr>reply_window := mput clt (add_reply xid b (mget [] (reply_window s) clt)) (reply_window s)\<rparr>"

text \<open>
  \<open>get the latest connection to the client\<close>: \<open>conns_[h.clt_nonce]\<close> is a null pointer if it was never saved.
\<close>

definition latest_conn :: "(nat \<Rightarrow> bool) \<Rightarrow> u32 \<Rightarrow> nat \<Rightarrow> 'h rpcs \<Rightarrow> (nat \<times> 'h rpcs) option" where
  "latest_conn dead clt c s =
     (if dead c
      then let s = s\<lparr>conns := mindex None clt (conns s)\<rparr>; latest = mget None (conns s) clt in
        if latest = Some c then Some (c, s)
        else (case latest of None \<Rightarrow> None | Some d \<Rightarrow> Some (d, ref_conn d (unref_conn c s)))
      else Some (c, s))"

definition reply_bytes :: "marshall \<Rightarrow> byte list" where
  "reply_bytes m = pdu_bytes (word_of_nat (m_ind m)) m"

definition dispatch_new :: "(nat \<Rightarrow> bool) \<Rightarrow> 'h handler \<Rightarrow> nat \<Rightarrow> req_header \<Rightarrow> unmarshall \<Rightarrow> 'h rpcs
    \<Rightarrow> dispatch_error + (nat \<times> byte list) list \<times> 'h rpcs" where
  "dispatch_new dead f c h req s =
     (let s = (if counting s \<noteq> 0 then updatestat (rq_proc h) s else s) in
      case f (app s) req marshall_new of
        None \<Rightarrow> Inl Overrun
      | Some (ret, rep, st) \<Rightarrow>
          if \<not> (ret \<ge> 0 \<or> ret = unmarshal_args_failure) then Inl BadReturn
          else case pack_reply_header \<lparr>rp_xid = rq_xid h, rp_ret = ret\<rparr> rep of
              None \<Rightarrow> Inl Overrun
            | Some rep \<Rightarrow>
                let b = reply_bytes rep; s = s\<lparr>app := st\<rparr>;
                    s = (if rq_clt_nonce h > 0 then rpcs_add_reply (rq_clt_nonce h) (rq_xid h) b s else s)
                in case latest_conn dead (rq_clt_nonce h) c s of
                    None \<Rightarrow> Inl NullConnection
                  | Some (c, s) \<Rightarrow> Inr ([(c, b)], unref_conn c s))"

definition dispatch_fail :: "nat \<Rightarrow> u32 \<Rightarrow> int \<Rightarrow> 'h rpcs \<Rightarrow> dispatch_error + (nat \<times> byte list) list \<times> 'h rpcs" where
  "dispatch_fail c xid ret s =
     (case pack_reply_header \<lparr>rp_xid = xid, rp_ret = ret\<rparr> marshall_new of
        None \<Rightarrow> Inl Overrun
      | Some rep \<Rightarrow> Inr ([(c, reply_bytes rep)], s))"

definition dispatch :: "(nat \<Rightarrow> bool) \<Rightarrow> nat \<Rightarrow> byte list \<Rightarrow> 'h rpcs
    \<Rightarrow> dispatch_error + (nat \<times> byte list) list \<times> 'h rpcs" where
  "dispatch dead c buf s =
     (let (h, req) = unpack_req_header (unmarshall_pdu buf) in
      if \<not> u_good req then Inr ([], unref_conn c s)
      else if rq_srv_nonce h \<noteq> 0 \<and> rq_srv_nonce h \<noteq> nonce s then dispatch_fail c (rq_xid h) oldsrv_failure s
      else (case mfind (procs s) (rq_proc h) of
          None \<Rightarrow> Inr ([], unref_conn c s)
        | Some f \<Rightarrow>
            (case (if rq_clt_nonce h \<noteq> 0
                   then rpcs_check (rq_clt_nonce h) (rq_xid h) (rq_xid_rep h) (save_conn (rq_clt_nonce h) c s)
                   else Inr (NEW, s)) of
               Inl e \<Rightarrow> Inl (WindowError e)
             | Inr (NEW, s) \<Rightarrow> dispatch_new dead f c h req s
             | Inr (INPROGRESS, s) \<Rightarrow> Inr ([], unref_conn c s)
             | Inr (DONE b, s) \<Rightarrow> Inr ([(c, b)], unref_conn c s)
             | Inr (FORGOTTEN, s) \<Rightarrow> map_sum id (\<lambda>(out, s). (out, unref_conn c s)) (dispatch_fail c (rq_xid h) atmostonce_failure s))))"

subsection \<open>Client\<close>

record caller =
  ca_un :: unmarshall
  ca_ret :: int
  ca_done :: bool

record rpcc =
  clt_nonce :: u32
  srv_nonce :: u32
  bind_done :: bool
  next_xid :: u32
  destroy_wait :: bool
  calls :: "(u32, caller) stdmap"
  xid_rep_window :: xid_window

text \<open>The constructor; \<open>rnd\<close> is the result of \<open>random()\<close>.\<close>

definition rpcc_new :: "bool \<Rightarrow> u32 \<Rightarrow> rpcc" where
  "rpcc_new retrans rnd = \<lparr>clt_nonce = (if retrans then rnd else 0), srv_nonce = 0, bind_done = False, next_xid = 1,
     destroy_wait = False, calls = [], xid_rep_window = window_init\<rparr>"

text \<open>
  \<open>call1\<close> holds the mutex \<open>m_\<close> twice: to enter the call in \<open>calls_\<close> and pack the header, and to take it out again after the
  wait.  In between \<open>got_pdu\<close> and \<open>cancel\<close> run; a caller that times out is simply not done.
\<close>

definition call1_begin :: "u32 \<Rightarrow> marshall \<Rightarrow> rpcc \<Rightarrow> (int + u32 \<times> marshall) option \<times> rpcc" where
  "call1_begin p req c =
     (if (p \<noteq> bind_proc \<and> \<not> bind_done c) \<or> (p = bind_proc \<and> bind_done c) then (Some (Inl bind_failure), c)
      else if destroy_wait c then (Some (Inl cancel_failure), c)
      else let x = next_xid c;
               c = c\<lparr>next_xid := x + 1,
                     calls := mput x \<lparr>ca_un = unmarshall_new, ca_ret = 0, ca_done = False\<rparr> (calls c)\<rparr>
           in (map_option (\<lambda>m. Inr (x, m))
                (pack_req_header \<lparr>rq_xid = x, rq_proc = p, rq_clt_nonce = clt_nonce c, rq_srv_nonce = srv_nonce c,
                   rq_xid_rep = hd (xid_rep_window c)\<rparr> req), c))"

definition rpcc_got_pdu :: "byte list \<Rightarrow> rpcc \<Rightarrow> rpcc" where
  "rpcc_got_pdu buf c =
     (let (h, rep) = unpack_reply_header (unmarshall_pdu buf) in
      if \<not> u_good rep then c
      else let c = c\<lparr>xid_rep_window := update_xid_rep (rp_xid h) (xid_rep_window c)\<rparr> in
        case mfind (calls c) (rp_xid h) of
          None \<Rightarrow> c
        | Some ca \<Rightarrow> if ca_done ca then c
            else c\<lparr>calls := mput (rp_xid h) \<lparr>ca_un = take_in rep, ca_ret = rp_ret h, ca_done = True\<rparr> (calls c)\<rparr>)"

text \<open>\<open>cancel\<close> up to its wait for the callers to leave.\<close>

definition rpcc_cancel :: "rpcc \<Rightarrow> rpcc" where
  "rpcc_cancel c = c\<lparr>calls := map (\<lambda>(x, ca). (x, ca\<lparr>ca_done := True, ca_ret := cancel_failure\<rparr>)) (calls c),
     destroy_wait := (if calls c = [] then destroy_wait c else True)\<rparr>"

definition call1_end :: "u32 \<Rightarrow> rpcc \<Rightarrow> (int \<times> unmarshall) \<times> rpcc" where
  "call1_end x c =
     (let ca = mget \<lparr>ca_un = unmarshall_new, ca_ret = 0, ca_done = False\<rparr> (calls c) x
      in ((if ca_done ca then ca_ret ca else timeout_failure, ca_un ca),
          c\<lparr>calls := merase x (calls c), xid_rep_window := update_xid_rep x (xid_rep_window c)\<rparr>))"

text \<open>\<open>call_m\<close> and \<open>call\<close> for each number of arguments, over the outcome \<open>call1\<close> of sending a request.\<close>

definition call_m :: "(u32 \<Rightarrow> marshall \<Rightarrow> int \<times> unmarshall) \<Rightarrow> (unmarshall \<Rightarrow> 'r \<times> unmarshall) \<Rightarrow> u32 \<Rightarrow> marshall \<Rightarrow> int \<times> 'r option" where
  "call_m call1 get p req =
     (let (intret, u) = call1 p req in
      if intret < 0 then (intret, None)
      else let (r, u) = get u in
        if \<not> okdone u then (unmarshal_reply_failure, Some r) else (intret, Some r))"

definition call_0 where
  "call_0 call1 get p = Some (call_m call1 get p marshall_new)"

definition call_1 where
  "call_1 call1 get p m1 = map_option (call_m call1 get p) (put_all [m1] marshall_new)"

definition call_2 where
  "call_2 call1 get p m1 m2 = map_option (call_m call1 get p) (put_all [m1, m2] marshall_new)"

definition call_3 where
  "call_3 call1 get p m1 m2 m3 = map_option (call_m call1 get p) (put_all [m1, m2, m3] marshall_new)"

definition call_4 where
  "call_4 call1 get p m1 m2 m3 m4 = map_option (call_m call1 get p) (put_all [m1, m2, m3, m4] marshall_new)"

definition call_5 where
  "call_5 call1 get p m1 m2 m3 m4 m5 = map_option (call_m call1 get p) (put_all [m1, m2, m3, m4, m5] marshall_new)"

definition call_6 where
  "call_6 call1 get p m1 m2 m3 m4 m5 m6 =
     map_option (call_m call1 get p) (put_all [m1, m2, m3, m4, m5, m6] marshall_new)"

definition call_7 where
  "call_7 call1 get p m1 m2 m3 m4 m5 m6 m7 =
     map_option (call_m call1 get p) (put_all [m1, m2, m3, m4, m5, m6, m7] marshall_new)"

text \<open>\<open>bind\<close>: the nonce the server returned identifies its incarnation from then on.\<close>

definition rpcc_bind :: "int \<times> int option \<Rightarrow> rpcc \<Rightarrow> int \<times> rpcc" where
  "rpcc_bind res c = (case res of
      (ret, Some r) \<Rightarrow> if ret = 0 then (ret, c\<lparr>bind_done := True, srv_nonce := word_of_int r\<rparr>) else (ret, c)
    | (ret, None) \<Rightarrow> (ret, c))"

subsection \<open>A call from end to end\<close>

lemma reply_bytes_req:
  assumes "m_ok m" "m_ind m < 2 ^ 32" "pack_req_header h m = Some m'"
  shows "\<exists>u. unpack_req_header (unmarshall_pdu (reply_bytes m')) = (h, u) \<and> u_ok u \<and> u_good u \<and> u_rest u = m_bytes m"
proof -
  obtain m0 where m0: "pack_req_header h m = Some m0" "m_ind m0 = m_ind m"
    "pdu_bytes (word_of_nat (m_ind m)) m0 = enc_u32 (word_of_nat (m_ind m)) @ concat (map enc_u32 (req_words h)) @ m_bytes m"
    using req_pdu [OF assms(1)] by blast
  then have b: "reply_bytes m' = enc_u32 (word_of_nat (m_ind m)) @ concat (map enc_u32 (req_words h)) @ m_bytes m"
    using assms(3) by (simp add: reply_bytes_def)
  have len: "length (m_bytes m) + 24 < 2 ^ 32"
    using assms(1,2) by (simp add: m_ok_def m_bytes_def RPC_HEADER_SZ_def)
  let ?u = "unmarshall_pdu (reply_bytes m')"
  have "unpack_req_header ?u = (h, ?u\<lparr>u_ind := RPC_HEADER_SZ\<rparr>)"
    using b len by (intro unpack_req_header_enc [of "enc_u32 (word_of_nat (m_ind m))"]) (simp_all add: unmarshall_pdu_def req_words_def)
  moreover have "u_ok (?u\<lparr>u_ind := RPC_HEADER_SZ\<rparr>)" "u_good (?u\<lparr>u_ind := RPC_HEADER_SZ\<rparr>)" "u_rest (?u\<lparr>u_ind := RPC_HEADER_SZ\<rparr>) = m_bytes m"
    using b len by (simp_all add: u_ok_def u_rest_def unmarshall_pdu_def RPC_HEADER_SZ_def req_words_def)
  ultimately show ?thesis by blast
qed

lemma reply_bytes_reply:
  assumes "m_ok m" "m_ind m < 2 ^ 32" "int32_ok (rp_ret h)"
  shows "\<exists>m' u. pack_reply_header h m = Some m' \<and> unpack_reply_header (unmarshall_pdu (reply_bytes m')) = (h, u)
     \<and> u_good u \<and> u_ok (take_in u) \<and> u_rest (take_in u) = m_bytes m"
proof -
  obtain m' junk where m': "pack_reply_header h m = Some m'" "m_ind m' = m_ind m" "length junk = 12"
    "pdu_bytes (word_of_nat (m_ind m)) m' = enc_u32 (word_of_nat (m_ind m)) @ concat (map enc_u32 (reply_words h)) @ junk @ m_bytes m"
    using reply_pdu [OF assms(1)] by blast
  then have b: "reply_bytes m' = enc_u32 (word_of_nat (m_ind m)) @ concat (map enc_u32 (reply_words h)) @ junk @ m_bytes m"
    by (simp add: reply_bytes_def)
  have len: "length (m_bytes m) + 24 < 2 ^ 32"
    using assms(1,2) by (simp add: m_ok_def m_bytes_def RPC_HEADER_SZ_def)
  let ?u = "unmarshall_pdu (reply_bytes m')"
  have "unpack_reply_header ?u = (h, ?u\<lparr>u_ind := RPC_HEADER_SZ\<rparr>)"
    using b len m'(3) assms(3) by (intro unpack_reply_header_enc [of "enc_u32 (word_of_nat (m_ind m))"])
      (simp_all add: unmarshall_pdu_def reply_words_def)
  moreover have "u_good (?u\<lparr>u_ind := RPC_HEADER_SZ\<rparr>)" "u_ok (take_in (?u\<lparr>u_ind := RPC_HEADER_SZ\<rparr>))"
    "u_rest (take_in (?u\<lparr>u_ind := RPC_HEADER_SZ\<rparr>)) = m_bytes m"
    using b len m'(3) by (simp_all add: u_ok_def u_rest_def unmarshall_pdu_def take_in_def RPC_HEADER_SZ_def reply_words_def)
  ultimately show ?thesis using m'(1) by blast
qed

lemma m_ind_bytes: "m_ok m \<Longrightarrow> m_ind m = length (m_bytes m) + 24"
  by (simp add: m_ok_def m_bytes_def RPC_HEADER_SZ_def)

lemma save_conn_simps [simp]:
  "reply_window (save_conn clt c s) = reply_window s" "app (save_conn clt c s) = app s"
  "counting (save_conn clt c s) = counting s"
  by (auto simp: save_conn_def ref_conn_def unref_conn_def split: option.splits)

lemma parses_all:
  assumes "parses get bs x" "u_ok u" "u_good u" "u_rest u = bs"
  shows "\<exists>u'. get u = (x, u') \<and> okdone u'"
proof -
  have "get u = (x, u\<lparr>u_ind := u_ind u + length bs\<rparr>)" using parsesD [OF assms(1,2), of "[]"] assms(4) by simp
  moreover have "u_ind u + length bs = length (u_buf u)" using assms(2,4) by (auto simp: u_ok_def u_rest_def)
  ultimately show ?thesis using assms(3) by (simp add: okdone_def)
qed

text \<open>
  The contract between a stub and a registered method: argument and result types that are codecs.
  Whatever they are, a call reaches the method with the caller's argument and returns the method's result.
\<close>

locale rpc_method = a: codec wfa puta geta enca + r: codec wfr putr getr encr
  for wfa :: "'a \<Rightarrow> bool" and puta geta enca and wfr :: "'r \<Rightarrow> bool" and putr getr encr
begin

lemma handler_runs:
  assumes "wfa x" "u_ok u" "u_rest u = enca x" "meth st x = (ret, r, st')" "wfr r"
  shows "\<exists>m. h1_fn geta putr meth st u marshall_new = Some (ret, m, st') \<and> m_ok m \<and> m_bytes m = encr r"
proof -
  have "u_good u" using assms(2) by (simp add: u_ok_def)
  from parses_all [OF a.get_parses [OF assms(1)] assms(2) this assms(3)]
  obtain u' where "geta u = (x, u')" "okdone u'" by blast
  moreover obtain m where "putr r marshall_new = Some m" "m_ok m" "m_bytes m = encr r"
    using emitsD [OF r.put_emits [OF assms(5)] m_ok_new] by auto
  ultimately show ?thesis using assms(4) by (simp add: h1_fn_def)
qed

lemma reply_decodes:
  assumes "wfr r" "m_ok m" "m_bytes m = encr r" "m_ind m < 2 ^ 32" "int32_ok ret" "0 \<le> ret"
    and "mfind (calls c) x = Some ca" "\<not> ca_done ca"
  shows "\<exists>m'. pack_reply_header \<lparr>rp_xid = x, rp_ret = ret\<rparr> m = Some m' \<and>
     call_m (\<lambda>_ _. fst (call1_end x (rpcc_got_pdu (reply_bytes m') c))) getr p req = (ret, Some r)"
proof -
  obtain m' u where m': "pack_reply_header \<lparr>rp_xid = x, rp_ret = ret\<rparr> m = Some m'"
    "unpack_reply_header (unmarshall_pdu (reply_bytes m')) = (\<lparr>rp_xid = x, rp_ret = ret\<rparr>, u)"
    "u_good u" "u_ok (take_in u)" "u_rest (take_in u) = encr r"
    using reply_bytes_reply [OF assms(2,4), of "\<lparr>rp_xid = x, rp_ret = ret\<rparr>"] assms(3,5) by auto
  have "u_good (take_in u)" using m'(4) by (simp add: u_ok_def)
  then obtain u' where u': "getr (take_in u) = (r, u')" "okdone u'"
    using parses_all [OF r.get_parses [OF assms(1)] m'(4) _ m'(5)] by blast
  have "fst (call1_end x (rpcc_got_pdu (reply_bytes m') c)) = (ret, take_in u)"
    using m'(2,3) assms(7,8) by (simp add: rpcc_got_pdu_def call1_end_def stdmap_simps)
  then show ?thesis using m'(1) u' assms(6) by (simp add: call_m_def)
qed

lemma server_runs:
  assumes h: "unpack_req_header (unmarshall_pdu buf) = (h, u)" "u_ok u" "u_rest u = enca x" "wfa x"
    and s: "rq_srv_nonce h = 0 \<or> rq_srv_nonce h = nonce s" "mfind (procs s) (rq_proc h) = Some (h1_fn geta putr meth)"
      "counting s = 0" "rq_clt_nonce h \<noteq> 0" "rq_xid_rep h < rq_xid h" "rw_ok (mget [] (reply_window s) (rq_clt_nonce h))"
      "reply_state (mget [] (reply_window s) (rq_clt_nonce h)) (rq_xid h) = NEW" "\<not> dead conn"
    and r: "meth (app s) x = (ret, r, st')" "wfr r" "0 \<le> ret"
    and m: "h1_fn geta putr meth (app s) u marshall_new = Some (ret, m, st')"
      "pack_reply_header \<lparr>rp_xid = rq_xid h, rp_ret = ret\<rparr> m = Some m'"
  shows "\<exists>s'. dispatch dead conn buf s = Inr ([(conn, reply_bytes m')], s') \<and> app s' = st'"
proof -
  obtain l where "checkduplicate_and_update (rq_xid h) (rq_xid_rep h) (mget [] (reply_window s) (rq_clt_nonce h)) = Inr (NEW, l)"
    using checkduplicate_lemma [OF s(6,5)] s(7) by auto
  then obtain s1 where s1: "rpcs_check (rq_clt_nonce h) (rq_xid h) (rq_xid_rep h) (save_conn (rq_clt_nonce h) conn s) = Inr (NEW, s1)"
      "app s1 = app s" "counting s1 = 0"
    using s(3) by (simp add: rpcs_check_def)
  have "\<exists>s'. dispatch_new dead (h1_fn geta putr meth) conn h u s1 = Inr ([(conn, reply_bytes m')], s') \<and> app s' = st'"
    using m s1(2,3) s(8) r(3) by (simp add: dispatch_new_def latest_conn_def rpcs_add_reply_def unref_conn_def Let_def)
  moreover have "u_good u" using h(2) by (simp add: u_ok_def)
  then have "dispatch dead conn buf s = dispatch_new dead (h1_fn geta putr meth) conn h u s1"
    using h(1) s(1,2,4) s1(1) by (auto simp: dispatch_def)
  ultimately show ?thesis by simp
qed

lemma call_end_to_end:
  assumes c: "bind_done c" "\<not> destroy_wait c" "p \<noteq> bind_proc" "clt_nonce c \<noteq> 0" "hd (xid_rep_window c) < next_xid c"
    and m: "puta x marshall_new = Some m" "wfa x" "length (enca x) + 24 < 2 ^ 32"
    and s: "srv_nonce c = 0 \<or> srv_nonce c = nonce s" "mfind (procs s) p = Some (h1_fn geta putr meth)" "counting s = 0"
      "rw_ok (mget [] (reply_window s) (clt_nonce c))" "reply_state (mget [] (reply_window s) (clt_nonce c)) (next_xid c) = NEW"
      "\<not> dead conn"
    and r: "meth (app s) x = (ret, r, st')" "wfr r" "length (encr r) + 24 < 2 ^ 32" "0 \<le> ret" "int32_ok ret"
  shows "\<exists>m' c' b s'. call1_begin p m c = (Some (Inr (next_xid c, m')), c')
     \<and> dispatch dead conn (reply_bytes m') s = Inr ([(conn, b)], s') \<and> app s' = st'
     \<and> call_m (\<lambda>_ _. fst (call1_end (next_xid c) (rpcc_got_pdu b c'))) getr p m = (ret, Some r)"
proof -
  define h where "h = \<lparr>rq_xid = next_xid c, rq_proc = p, rq_clt_nonce = clt_nonce c, rq_srv_nonce = srv_nonce c,
     rq_xid_rep = hd (xid_rep_window c)\<rparr>"
  have mm: "m_ok m" "m_bytes m = enca x" using emitsD [OF a.put_emits [OF m(2)] m_ok_new] m(1) by auto
  then have ind: "m_ind m < 2 ^ 32" using m(3) m_ind_bytes [OF mm(1)] by simp
  obtain m' where m': "pack_req_header h m = Some m'" using req_pdu [OF mm(1)] by blast
  obtain u where u: "unpack_req_header (unmarshall_pdu (reply_bytes m')) = (h, u)" "u_ok u" "u_rest u = enca x"
    using reply_bytes_req [OF mm(1) ind m'] mm(2) by auto
  define c' where "c' = c\<lparr>next_xid := next_xid c + 1,
     calls := mput (next_xid c) \<lparr>ca_un = unmarshall_new, ca_ret = 0, ca_done = False\<rparr> (calls c)\<rparr>"
  have beg: "call1_begin p m c = (Some (Inr (next_xid c, m')), c')"
    using c m' by (simp add: call1_begin_def c'_def h_def Let_def)
  obtain m2 where m2: "h1_fn geta putr meth (app s) u marshall_new = Some (ret, m2, st')" "m_ok m2" "m_bytes m2 = encr r"
    using handler_runs [where meth = meth, OF m(2) u(2,3) r(1,2)] by blast
  have ind2: "m_ind m2 < 2 ^ 32" using m2(3) r(3) m_ind_bytes [OF m2(2)] by simp
  have "mfind (calls c') (next_xid c) = Some \<lparr>ca_un = unmarshall_new, ca_ret = 0, ca_done = False\<rparr>"
    by (simp add: c'_def)
  from reply_decodes [OF r(2) m2(2,3) ind2 r(5,4) this] obtain m3 where
    m3: "pack_reply_header \<lparr>rp_xid = next_xid c, rp_ret = ret\<rparr> m2 = Some m3"
    "call_m (\<lambda>_ _. fst (call1_end (next_xid c) (rpcc_got_pdu (reply_bytes m3) c'))) getr p m = (ret, Some r)" by auto
  have "\<exists>s'. dispatch dead conn (reply_bytes m') s = Inr ([(conn, reply_bytes m3)], s') \<and> app s' = st'"
    by (rule server_runs [where meth = meth and dead = dead and conn = conn, OF u m(2) _ _ s(3) _ _ _ _ s(6) r(1,2,4) m2(1)])
      (use s c m3(1) in \<open>simp_all add: h_def\<close>)
  then show ?thesis using beg m3(2) by blast
qed

end

lemma h2_fn_pair: "h2_fn g1 g2 put meth = h1_fn (get_pair g1 g2) put (\<lambda>st (a, b). meth st a b)"
  by (intro ext) (simp add: h2_fn_def h1_fn_def get_pair_def split: prod.splits)

end
