(* ===== verification/RpcSystem.thy ===== *)
theory RpcSystem
  imports Rpc
begin

text \<open>
  A client with its threads, a server whose handlers run concurrently on the thread pool, and a network between them.  The network may lose
  messages, deliver them in any order and any number of times; a retransmission is one more delivery of the same PDU.  One thing is asked of
  it: no copy of a request arrives after the call has ended.
\<close>

subsection \<open>Dispatch in two halves\<close>

text \<open>
  \<open>dispatch\<close> lets go of the reply window while a handler runs, so that other requests are looked at in between.  The first half ends with
  nothing to do, with a stored reply to send again, or with a handler to run; the second half is \<open>dispatch_new\<close>.
\<close>

type_synonym 'h job = "'h handler \<times> nat \<times> req_header \<times> unmarshall"

definition dispatch_arrive :: "nat \<Rightarrow> byte list \<Rightarrow> 'h rpcs \<Rightarrow> dispatch_error + 'h job option \<times> (nat \<times> byte list) list \<times> 'h rpcs" where
  "dispatch_arrive c buf s =
     (let (h, req) = unpack_req_header (unmarshall_pdu buf) in
      if \<not> u_good req then Inr (None, [], unref_conn c s)
      else if rq_srv_nonce h \<noteq> 0 \<and> rq_srv_nonce h \<noteq> nonce s then map_sum id (Pair None) (dispatch_fail c (rq_xid h) oldsrv_failure s)
      else (case mfind (procs s) (rq_proc h) of
          None \<Rightarrow> Inr (None, [], unref_conn c s)
        | Some f \<Rightarrow>
            (case (if rq_clt_nonce h \<noteq> 0
                   then rpcs_check (rq_clt_nonce h) (rq_xid h) (rq_xid_rep h) (save_conn (rq_clt_nonce h) c s)
                   else Inr (NEW, s)) of
               Inl e \<Rightarrow> Inl (WindowError e)
             | Inr (NEW, s) \<Rightarrow> Inr (Some (f, c, h, req), [], s)
             | Inr (INPROGRESS, s) \<Rightarrow> Inr (None, [], unref_conn c s)
             | Inr (DONE b, s) \<Rightarrow> Inr (None, [(c, b)], unref_conn c s)
             | Inr (FORGOTTEN, s) \<Rightarrow>
                 map_sum id (\<lambda>(out, s). (None, out, unref_conn c s)) (dispatch_fail c (rq_xid h) atmostonce_failure s))))"

lemma dispatch_split:
  "dispatch dead c buf s =
     (case dispatch_arrive c buf s of
        Inl e \<Rightarrow> Inl e
      | Inr (Some (f, c, h, req), out, s) \<Rightarrow> dispatch_new dead f c h req s
      | Inr (None, out, s) \<Rightarrow> Inr (out, s))"
  by (auto simp: dispatch_def dispatch_arrive_def dispatch_fail_def split: prod.splits option.splits sum.splits rpcstate.splits)

subsection \<open>The system\<close>

text \<open>
  \<open>rs_reqs\<close> and \<open>rs_reps\<close> are the PDUs ever sent.  The logs: the calls made (xid, procedure, arguments), the handlers run (with the reply) and
  the results the calls returned.
\<close>

record 'h rpc_sys =
  rs_clt :: rpcc
  rs_srv :: "'h rpcs"
  rs_reqs :: "byte list list"
  rs_reps :: "byte list list"
  rs_jobs :: "'h job list"
  rs_calls :: "(u32 \<times> u32 \<times> byte list) list"
  rs_runs :: "(u32 \<times> u32 \<times> byte list \<times> byte list) list"
  rs_rets :: "(u32 \<times> int \<times> unmarshall) list"

datatype rs_act = Call u32 marshall | Arrive nat nat | Finish nat "nat \<Rightarrow> bool" | Deliver nat | Return u32

definition waiting :: "rpcc \<Rightarrow> u32 \<Rightarrow> bool" where
  "waiting c x = (case mfind (calls c) x of Some ca \<Rightarrow> \<not> ca_done ca | None \<Rightarrow> False)"

definition pdu_xid :: "byte list \<Rightarrow> u32" where
  "pdu_xid b = rq_xid (fst (unpack_req_header (unmarshall_pdu b)))"

text \<open>
  A thread enters \<open>call1\<close>; a copy of a request arrives on some connection; a running handler ends (the argument tells which connections are
  dead by then); a copy of a reply reaches \<open>got_pdu\<close>; a call leaves \<open>call1\<close> with its reply or timed out.  An action that is not possible
  changes nothing.
\<close>

fun rs_step :: "rs_act \<Rightarrow> 'h rpc_sys \<Rightarrow> dispatch_error + 'h rpc_sys" where
  "rs_step (Call p m) y =
     (if next_xid (rs_clt y) = - 1 then Inr y
      else case call1_begin p m (rs_clt y) of
          (None, c) \<Rightarrow> Inl Overrun
        | (Some (Inl e), c) \<Rightarrow> Inr (y\<lparr>rs_clt := c\<rparr>)
        | (Some (Inr (x, m')), c) \<Rightarrow>
            Inr (y\<lparr>rs_clt := c, rs_reqs := rs_reqs y @ [reply_bytes m'], rs_calls := rs_calls y @ [(x, p, m_bytes m)]\<rparr>))"
| "rs_step (Arrive i conn) y =
     (if i < length (rs_reqs y) \<and> waiting (rs_clt y) (pdu_xid (rs_reqs y ! i))
      then case dispatch_arrive conn (rs_reqs y ! i) (rs_srv y) of
          Inl e \<Rightarrow> Inl e
        | Inr (j, out, s) \<Rightarrow>
            Inr (y\<lparr>rs_srv := s, rs_reps := rs_reps y @ map snd out, rs_jobs := rs_jobs y @ (case j of None \<Rightarrow> [] | Some j \<Rightarrow> [j])\<rparr>)
      else Inr y)"
| "rs_step (Finish i dead) y =
     (if i < length (rs_jobs y)
      then case rs_jobs y ! i of (f, c, h, u) \<Rightarrow>
          (case dispatch_new dead f c h u (rs_srv y) of
             Inl e \<Rightarrow> Inl e
           | Inr (out, s) \<Rightarrow>
               Inr (y\<lparr>rs_srv := s, rs_reps := rs_reps y @ map snd out, rs_jobs := take i (rs_jobs y) @ drop (i + 1) (rs_jobs y),
                      rs_runs := rs_runs y @ map (\<lambda>(c, b). (rq_xid h, rq_proc h, u_rest u, b)) out\<rparr>))
      else Inr y)"
| "rs_step (Deliver i) y =
     (if i < length (rs_reps y) then Inr (y\<lparr>rs_clt := rpcc_got_pdu (rs_reps y ! i) (rs_clt y)\<rparr>) else Inr y)"
| "rs_step (Return x) y =
     (if mcount (calls (rs_clt y)) x
      then let ((ret, u), c) = call1_end x (rs_clt y) in Inr (y\<lparr>rs_clt := c, rs_rets := rs_rets y @ [(x, ret, u)]\<rparr>)
      else Inr y)"

fun rs_run :: "rs_act list \<Rightarrow> 'h rpc_sys \<Rightarrow> dispatch_error + 'h rpc_sys" where
  "rs_run [] y = Inr y"
| "rs_run (a # as) y = (case rs_step a y of Inl e \<Rightarrow> Inl e | Inr y \<Rightarrow> rs_run as y)"

text \<open>
  What is asked of the application: the stubs give well-formed requests, and the handlers well-formed replies to the arguments they are
  called with.
\<close>

definition handles :: "'h handler \<Rightarrow> byte list \<Rightarrow> bool" where
  "handles f a \<longleftrightarrow> (\<forall>st u. u_ok u \<and> u_rest u = a \<longrightarrow> (\<exists>ret m st'. f st u marshall_new = Some (ret, m, st')
     \<and> (0 \<le> ret \<or> ret = unmarshal_args_failure) \<and> int32_ok ret \<and> m_ok m \<and> m_ind m < 2 ^ 32))"

definition served :: "(u32, 'h handler) stdmap \<Rightarrow> u32 \<Rightarrow> byte list \<Rightarrow> bool" where
  "served pr p a = (case mfind pr p of None \<Rightarrow> True | Some f \<Rightarrow> handles f a)"

fun act_ok :: "(u32, 'h handler) stdmap \<Rightarrow> rs_act \<Rightarrow> bool" where
  "act_ok pr (Call p m) \<longleftrightarrow> m_ok m \<and> m_ind m < 2 ^ 32 \<and> served pr p (m_bytes m)"
| "act_ok pr _ \<longleftrightarrow> True"

definition rs_start :: "rpcc \<Rightarrow> 'h rpcs \<Rightarrow> 'h rpc_sys" where
  "rs_start c s = \<lparr>rs_clt = c, rs_srv = s, rs_reqs = [], rs_reps = [], rs_jobs = [], rs_calls = [], rs_runs = [], rs_rets = []\<rparr>"

text \<open>A bound client that has no call under way, and a server that has seen nothing of its later calls.\<close>

definition start_ok :: "rpcc \<Rightarrow> 'h rpcs \<Rightarrow> bool" where
  "start_ok c s \<longleftrightarrow> bind_done c \<and> \<not> destroy_wait c \<and> clt_nonce c \<noteq> 0 \<and> srv_nonce c = nonce s \<and> calls c = []
     \<and> next_xid c \<noteq> 0 \<and> xid_rep_window c = [next_xid c - 1] \<and> rw_ok (mget [] (reply_window s) (clt_nonce c))
     \<and> (\<forall>e \<in> set (mget [] (reply_window s) (clt_nonce c)). rt_xid e < next_xid c)"

subsection \<open>Replies\<close>

definition decoded :: "byte list \<Rightarrow> int \<times> unmarshall" where
  "decoded b = (let (h, u) = unpack_reply_header (unmarshall_pdu b) in (rp_ret h, take_in u))"

definition reply_of :: "u32 \<Rightarrow> byte list \<Rightarrow> bool" where
  "reply_of x b \<longleftrightarrow> rp_xid (fst (unpack_reply_header (unmarshall_pdu b))) = x \<and> u_good (snd (unpack_reply_header (unmarshall_pdu b)))"

text \<open>The reply is the one the handler gave on these arguments, and it took the server from \<open>st\<close> to \<open>st'\<close>.\<close>

definition reply_by :: "'h handler \<Rightarrow> unmarshall \<Rightarrow> byte list \<Rightarrow> 'h \<Rightarrow> 'h \<Rightarrow> bool" where
  "reply_by f u b st st' \<longleftrightarrow> (\<exists>ret m. f st u marshall_new = Some (ret, m, st') \<and> fst (decoded b) = ret
     \<and> u_ok (snd (decoded b)) \<and> u_rest (snd (decoded b)) = m_bytes m)"

lemma dispatch_new_lemma:
  assumes "handles f (u_rest u)" "u_ok u" "rq_clt_nonce h \<noteq> 0" "mfind (conns s) (rq_clt_nonce h) = Some (Some d)"
  shows "\<exists>c' b s'. dispatch_new dead f c h u s = Inr ([(c', b)], s') \<and> reply_of (rq_xid h) b \<and> reply_by f u b (app s) (app s')
    \<and> reply_window s' = mput (rq_clt_nonce h) (add_reply (rq_xid h) b (mget [] (reply_window s) (rq_clt_nonce h))) (reply_window s)
    \<and> mfind (conns s') (rq_clt_nonce h) = Some (Some d) \<and> procs s' = procs s \<and> nonce s' = nonce s"
proof -
  define s1 where "s1 = (if counting s \<noteq> 0 then updatestat (rq_proc h) s else s)"
  have s1: "reply_window s1 = reply_window s" "conns s1 = conns s" "procs s1 = procs s" "nonce s1 = nonce s" "app s1 = app s"
    by (simp_all add: s1_def updatestat_def Let_def)
  obtain ret m st where f: "f (app s1) u marshall_new = Some (ret, m, st)" "0 \<le> ret \<or> ret = unmarshal_args_failure" "int32_ok ret"
      "m_ok m" "m_ind m < 2 ^ 32"
    using assms(1,2) unfolding handles_def by blast
  obtain m' v where m': "pack_reply_header \<lparr>rp_xid = rq_xid h, rp_ret = ret\<rparr> m = Some m'"
      "unpack_reply_header (unmarshall_pdu (reply_bytes m')) = (\<lparr>rp_xid = rq_xid h, rp_ret = ret\<rparr>, v)" "u_good v"
      "u_ok (take_in v)" "u_rest (take_in v) = m_bytes m"
    using reply_bytes_reply [OF f(4,5), of "\<lparr>rp_xid = rq_xid h, rp_ret = ret\<rparr>"] f(3) by auto
  define s2 where "s2 = rpcs_add_reply (rq_clt_nonce h) (rq_xid h) (reply_bytes m') (s1\<lparr>app := st\<rparr>)"
  have s2: "mfind (conns s2) (rq_clt_nonce h) = Some (Some d)" "procs s2 = procs s" "nonce s2 = nonce s" "app s2 = st"
      "reply_window s2 = mput (rq_clt_nonce h) (add_reply (rq_xid h) (reply_bytes m') (mget [] (reply_window s) (rq_clt_nonce h))) (reply_window s)"
    using assms(4) s1 by (simp_all add: s2_def rpcs_add_reply_def)
  obtain c' s3 where s3: "latest_conn dead (rq_clt_nonce h) c s2 = Some (c', s3)" "conns s3 = conns s2" "procs s3 = procs s2" "nonce s3 = nonce s2"
      "reply_window s3 = reply_window s2" "app s3 = app s2"
    using s2(1) by (cases "dead c"; cases "d = c")
      (simp_all add: latest_conn_def Let_def mget_def mindex_def mcount_def ref_conn_def unref_conn_def)
  have "rq_clt_nonce h > 0" using assms(3) by (simp add: word_gt_0)
  then have "dispatch_new dead f c h u s = Inr ([(c', reply_bytes m')], unref_conn c' s3)"
    using f(1,2) m'(1) s3(1) unfolding dispatch_new_def s1_def [symmetric] by (auto simp: Let_def s2_def [symmetric])
  moreover have "reply_by f u (reply_bytes m') (app s) st"
    using f(1) m'(2,4,5) s1(5) by (simp add: reply_by_def decoded_def)
  ultimately show ?thesis using m'(2,3) s2 s3 by (auto simp: reply_of_def unref_conn_def)
qed

lemma arrive_lemma:
  assumes "unpack_req_header (unmarshall_pdu buf) = (h, u)" "u_good u" "rq_clt_nonce h \<noteq> 0" "rq_srv_nonce h = 0 \<or> rq_srv_nonce h = nonce s"
    and "rw_ok (mget [] (reply_window s) (rq_clt_nonce h))" "rq_xid_rep h < rq_xid h" "mfind (procs s) (rq_proc h) = Some f"
    and "reply_state (mget [] (reply_window s) (rq_clt_nonce h)) (rq_xid h) \<noteq> FORGOTTEN"
  defines "l \<equiv> mget [] (reply_window s) (rq_clt_nonce h)"
  shows "\<exists>s' l'. dispatch_arrive c buf s = Inr (if reply_state l (rq_xid h) = NEW then Some (f, c, h, u) else None,
      (case reply_state l (rq_xid h) of DONE b \<Rightarrow> [(c, b)] | _ \<Rightarrow> []), s')
    \<and> checkduplicate_and_update (rq_xid h) (rq_xid_rep h) l = Inr (reply_state l (rq_xid h), l')
    \<and> reply_window s' = mput (rq_clt_nonce h) l' (reply_window s) \<and> procs s' = procs s \<and> nonce s' = nonce s \<and> app s' = app s
    \<and> (\<exists>d. mfind (conns s') (rq_clt_nonce h) = Some (Some d))"
proof -
  define s1 where "s1 = save_conn (rq_clt_nonce h) c s"
  have s1: "reply_window s1 = reply_window s" "procs s1 = procs s" "nonce s1 = nonce s" "app s1 = app s" "\<exists>d. mfind (conns s1) (rq_clt_nonce h) = Some (Some d)"
    by (auto simp: s1_def save_conn_def ref_conn_def unref_conn_def split: option.splits)
  obtain l' where l': "checkduplicate_and_update (rq_xid h) (rq_xid_rep h) l = Inr (reply_state l (rq_xid h), l')"
    using checkduplicate_lemma [OF assms(5,6)] unfolding l_def by blast
  define s2 where "s2 = s1\<lparr>reply_window := mput (rq_clt_nonce h) l' (reply_window s1)\<rparr>"
  have ck: "rpcs_check (rq_clt_nonce h) (rq_xid h) (rq_xid_rep h) s1 = Inr (reply_state l (rq_xid h), s2)"
    using l' by (simp add: rpcs_check_def s1(1) l_def [symmetric] s2_def)
  define s3 where "s3 = (if reply_state l (rq_xid h) = NEW then s2 else unref_conn c s2)"
  have s3: "reply_window s3 = mput (rq_clt_nonce h) l' (reply_window s)" "procs s3 = procs s" "nonce s3 = nonce s" "app s3 = app s"
      "\<exists>d. mfind (conns s3) (rq_clt_nonce h) = Some (Some d)"
    using s1 by (auto simp: s3_def s2_def unref_conn_def)
  have "dispatch_arrive c buf s = Inr (if reply_state l (rq_xid h) = NEW then Some (f, c, h, u) else None,
      (case reply_state l (rq_xid h) of DONE b \<Rightarrow> [(c, b)] | _ \<Rightarrow> []), s3)"
    using assms(1-4,7,8) ck unfolding l_def [symmetric] s1_def s3_def
    by (auto simp: dispatch_arrive_def split: rpcstate.splits)
  then show ?thesis using l' s3 by blast
qed

subsection \<open>The client\<close>

definition acked :: "rpcc \<Rightarrow> u32 set" where
  "acked c = {x. x \<le> hd (xid_rep_window c)} \<union> set (xid_rep_window c)"

text \<open>The calls that wait, and those still to come.\<close>

definition live :: "rpcc \<Rightarrow> u32 \<Rightarrow> bool" where
  "live c x \<longleftrightarrow> waiting c x \<or> next_xid c \<le> x"

definition clt_inv :: "rpcc \<Rightarrow> bool" where
  "clt_inv c \<longleftrightarrow> bind_done c \<and> \<not> destroy_wait c \<and> clt_nonce c \<noteq> 0 \<and> window_rel (xid_rep_window c) (acked c)
     \<and> (\<forall>x \<in> acked c. \<not> live c x) \<and> (\<forall>x. mcount (calls c) x \<longrightarrow> x < next_xid c)"

definition clt_le :: "rpcc \<Rightarrow> rpcc \<Rightarrow> bool" where
  "clt_le c c' \<longleftrightarrow> clt_nonce c' = clt_nonce c \<and> srv_nonce c' = srv_nonce c \<and> next_xid c \<le> next_xid c'
     \<and> acked c \<subseteq> acked c' \<and> (\<forall>x. live c' x \<longrightarrow> live c x)"

lemma acked_update: "window_rel (xid_rep_window c) (acked c) \<Longrightarrow>
  window_rel (update_xid_rep x (xid_rep_window c)) (insert x (acked c)) \<and>
  {z. z \<le> hd (update_xid_rep x (xid_rep_window c))} \<union> set (update_xid_rep x (xid_rep_window c)) = insert x (acked c)"
  using update_xid_rep_rel by (simp add: window_rel_def)

lemma call_lemma:
  assumes "clt_inv c" "next_xid c \<noteq> - 1" "m_ok m"
  shows "(\<exists>e. call1_begin p m c = (Some (Inl e), c)) \<or> (\<exists>m' c'. call1_begin p m c = (Some (Inr (next_xid c, m')), c')
    \<and> pack_req_header \<lparr>rq_xid = next_xid c, rq_proc = p, rq_clt_nonce = clt_nonce c, rq_srv_nonce = srv_nonce c,
        rq_xid_rep = hd (xid_rep_window c)\<rparr> m = Some m'
    \<and> clt_inv c' \<and> clt_le c c' \<and> next_xid c < next_xid c' \<and> (\<forall>x ca. mfind (calls c') x = Some ca \<and> ca_done ca \<longrightarrow> mfind (calls c) x = Some ca))"
proof (cases "p = bind_proc")
  case True
  then show ?thesis using assms(1) by (simp add: call1_begin_def clt_inv_def)
next
  case False
  let ?x = "next_xid c"
  define c' where "c' = c\<lparr>next_xid := ?x + 1, calls := mput ?x \<lparr>ca_un = unmarshall_new, ca_ret = 0, ca_done = False\<rparr> (calls c)\<rparr>"
  let ?h = "\<lparr>rq_xid = ?x, rq_proc = p, rq_clt_nonce = clt_nonce c, rq_srv_nonce = srv_nonce c, rq_xid_rep = hd (xid_rep_window c)\<rparr>"
  obtain m' where m': "pack_req_header ?h m = Some m'"
    using req_pdu [OF assms(3)] by blast
  have c: "call1_begin p m c = (Some (Inr (?x, m')), c')"
    using False assms(1) m' by (simp add: call1_begin_def clt_inv_def c'_def Let_def)
  have lt: "?x < ?x + 1" "\<And>y. ?x + 1 \<le> y \<Longrightarrow> ?x \<le> y" "\<And>y. y < ?x \<Longrightarrow> y < ?x + 1"
    using u32_no_wrap [OF assms(2)] by (auto simp: word_less_nat_alt word_le_nat_alt)
  have lv: "live c z" if "live c' z" for z
    using that lt by (auto simp: live_def waiting_def c'_def stdmap_simps split: if_splits)
  have ak: "acked c' = acked c" by (simp add: acked_def c'_def)
  have "clt_inv c'" using assms(1) lv lt unfolding clt_inv_def ak by (auto simp: c'_def mcount_mput)
  moreover have "clt_le c c'" using lv lt ak by (simp add: clt_le_def c'_def)
  ultimately show ?thesis using c m' lt by (auto simp: c'_def stdmap_simps split: if_splits)
qed

lemma shrink_lemma:
  assumes "clt_inv c" "x < next_xid c" "\<And>z. waiting c' z \<Longrightarrow> waiting c z \<and> z \<noteq> x" "\<And>z. mcount (calls c') z \<Longrightarrow> mcount (calls c) z"
    and "xid_rep_window c' = update_xid_rep x (xid_rep_window c)" "next_xid c' = next_xid c" "clt_nonce c' = clt_nonce c" "srv_nonce c' = srv_nonce c"
    and "bind_done c' = bind_done c" "destroy_wait c' = destroy_wait c"
  shows "clt_inv c' \<and> clt_le c c'"
proof -
  have a: "acked c' = insert x (acked c)" "window_rel (xid_rep_window c') (acked c')"
    using acked_update [of c x] assms(1) by (simp_all add: acked_def assms(5) clt_inv_def)
  have l: "live c z \<and> z \<noteq> x" if "live c' z" for z
    using that assms(2,3,6) by (auto simp: live_def)
  show ?thesis using assms a l by (auto simp: clt_inv_def clt_le_def)
qed

lemma got_lemma:
  assumes "clt_inv c" "reply_of x b" "x < next_xid c"
  defines "c' \<equiv> rpcc_got_pdu b c"
  shows "clt_inv c' \<and> clt_le c c' \<and> (\<forall>z ca. mfind (calls c') z = Some ca \<longrightarrow> mfind (calls c) z = Some ca \<or> z = x \<and> (ca_ret ca, ca_un ca) = decoded b)"
proof -
  obtain h u where h: "unpack_reply_header (unmarshall_pdu b) = (h, u)" "rp_xid h = x" "u_good u"
    using assms(2) by (cases "unpack_reply_header (unmarshall_pdu b)") (auto simp: reply_of_def)
  have "clt_inv c' \<and> clt_le c c'"
    by (rule shrink_lemma [OF assms(1,3)])
      (auto simp: c'_def rpcc_got_pdu_def h waiting_def Let_def mcount_def stdmap_simps split: option.splits if_splits)
  moreover have "mfind (calls c) z = Some ca \<or> z = x \<and> (ca_ret ca, ca_un ca) = decoded b" if "mfind (calls c') z = Some ca" for z ca
    using that by (auto simp: c'_def rpcc_got_pdu_def h decoded_def Let_def stdmap_simps split: option.splits if_splits)
  ultimately show ?thesis by blast
qed

lemma end_lemma:
  assumes "clt_inv c" "mcount (calls c) x" "call1_end x c = (r, c')"
  shows "clt_inv c' \<and> clt_le c c' \<and> (\<forall>z ca. mfind (calls c') z = Some ca \<longrightarrow> mfind (calls c) z = Some ca)
    \<and> (fst r = timeout_failure \<or> (\<exists>ca. mfind (calls c) x = Some ca \<and> ca_done ca \<and> r = (ca_ret ca, ca_un ca)))"
proof -
  have x: "x < next_xid c" using assms(1,2) by (simp add: clt_inv_def)
  have "clt_inv c' \<and> clt_le c c'"
    using assms(3) by (intro shrink_lemma [OF assms(1) x])
      (auto simp: call1_end_def waiting_def Let_def mcount_def stdmap_simps split: option.splits if_splits)
  then show ?thesis
    using assms(2,3) by (auto simp: call1_end_def Let_def mcount_def mget_def stdmap_simps split: if_splits)
qed

subsection \<open>The invariant\<close>

text \<open>What the server's window says of a call that waits is what has happened to it.\<close>

definition state_ok :: "reply_list \<Rightarrow> u32 list \<Rightarrow> (u32 \<times> u32 \<times> byte list \<times> byte list) list \<Rightarrow> u32 \<Rightarrow> bool" where
  "state_ok l js rs x \<longleftrightarrow> clean_at x l \<and> (case reply_state l x of
     NEW \<Rightarrow> x \<notin> set js \<and> x \<notin> fst ` set rs | INPROGRESS \<Rightarrow> x \<in> set js | DONE b \<Rightarrow> \<exists>p a. (x, p, a, b) \<in> set rs | FORGOTTEN \<Rightarrow> False)"

definition job_xid :: "'h job \<Rightarrow> u32" where
  "job_xid j = (case j of (f, c, h, u) \<Rightarrow> rq_xid h)"

definition job_ok :: "rpcc \<Rightarrow> 'h rpcs \<Rightarrow> (u32 \<times> u32 \<times> byte list) list \<Rightarrow> 'h job \<Rightarrow> bool" where
  "job_ok c s cs j = (case j of (f, k, h, u) \<Rightarrow> mfind (procs s) (rq_proc h) = Some f \<and> handles f (u_rest u) \<and> u_ok u \<and> rq_clt_nonce h = clt_nonce c
     \<and> (\<exists>d. mfind (conns s) (clt_nonce c) = Some (Some d)) \<and> (rq_xid h, rq_proc h, u_rest u) \<in> set cs)"

definition req_ok :: "rpcc \<Rightarrow> (u32 \<times> u32 \<times> byte list) list \<Rightarrow> byte list \<Rightarrow> bool" where
  "req_ok c cs b = (case unpack_req_header (unmarshall_pdu b) of (h, u) \<Rightarrow> u_ok u \<and> rq_clt_nonce h = clt_nonce c \<and> rq_srv_nonce h = srv_nonce c
     \<and> rq_xid_rep h < rq_xid h \<and> {x. x \<le> rq_xid_rep h} \<subseteq> acked c \<and> (rq_xid h, rq_proc h, u_rest u) \<in> set cs)"

definition answered :: "(u32 \<times> u32 \<times> byte list \<times> byte list) list \<Rightarrow> u32 \<Rightarrow> int \<times> unmarshall \<Rightarrow> bool" where
  "answered rs x r \<longleftrightarrow> (\<exists>p a b. (x, p, a, b) \<in> set rs \<and> r = decoded b)"

definition srv_inv :: "'h rpc_sys \<Rightarrow> bool" where
  "srv_inv y \<longleftrightarrow> srv_nonce (rs_clt y) = nonce (rs_srv y) \<and> (\<forall>(x, p, a) \<in> set (rs_calls y). served (procs (rs_srv y)) p a)
     \<and> rw_ok (mget [] (reply_window (rs_srv y)) (clt_nonce (rs_clt y)))
     \<and> (\<forall>j \<in> set (rs_jobs y). job_ok (rs_clt y) (rs_srv y) (rs_calls y) j)
     \<and> distinct (map fst (rs_runs y) @ map job_xid (rs_jobs y))
     \<and> (\<forall>x. live (rs_clt y) x \<longrightarrow>
          state_ok (mget [] (reply_window (rs_srv y)) (clt_nonce (rs_clt y))) (map job_xid (rs_jobs y)) (rs_runs y) x)"

definition log_inv :: "'h rpc_sys \<Rightarrow> bool" where
  "log_inv y \<longleftrightarrow> (\<forall>b \<in> set (rs_reqs y). req_ok (rs_clt y) (rs_calls y) b)
     \<and> (\<forall>b \<in> set (rs_reps y). \<exists>x p a. (x, p, a, b) \<in> set (rs_runs y))
     \<and> (\<forall>(x, p, a, b) \<in> set (rs_runs y). reply_of x b \<and> (x, p, a) \<in> set (rs_calls y))
     \<and> (\<forall>q \<in> set (rs_calls y). fst q < next_xid (rs_clt y)) \<and> distinct (map fst (rs_calls y))
     \<and> (\<forall>x ca. mfind (calls (rs_clt y)) x = Some ca \<and> ca_done ca \<longrightarrow> answered (rs_runs y) x (ca_ret ca, ca_un ca))
     \<and> (\<forall>(x, r, u) \<in> set (rs_rets y). r = timeout_failure \<or> answered (rs_runs y) x (r, u))"

definition sys_ok :: "'h rpc_sys \<Rightarrow> bool" where
  "sys_ok y \<longleftrightarrow> clt_inv (rs_clt y) \<and> srv_inv y \<and> log_inv y"

text \<open>The client's steps keep what holds of the server.\<close>

lemma job_ok_mono: "job_ok c s cs j \<Longrightarrow> clt_nonce c' = clt_nonce c \<Longrightarrow> set cs \<subseteq> set cs' \<Longrightarrow> job_ok c' s cs' j"
  by (auto simp: job_ok_def)

lemma srv_inv_clt:
  assumes "srv_inv y" "clt_le (rs_clt y) c'" "set (rs_calls y) \<subseteq> set cs" "\<forall>(x, p, a) \<in> set cs. served (procs (rs_srv y)) p a"
    and "rs_clt y' = c'" "rs_srv y' = rs_srv y" "rs_calls y' = cs" "rs_jobs y' = rs_jobs y" "rs_runs y' = rs_runs y"
  shows "srv_inv y'"
proof -
  have c: "clt_nonce c' = clt_nonce (rs_clt y)" "srv_nonce c' = srv_nonce (rs_clt y)" "\<And>x. live c' x \<Longrightarrow> live (rs_clt y) x"
    using assms(2) by (auto simp: clt_le_def)
  have "\<forall>j \<in> set (rs_jobs y). job_ok c' (rs_srv y) cs j"
    using assms(1) by (auto simp: srv_inv_def intro: job_ok_mono [OF _ c(1) assms(3)])
  then show ?thesis using assms(1,4) c(3) unfolding srv_inv_def assms(5-9) c(1,2) by simp
qed

lemma req_ok_mono: "req_ok c cs b \<Longrightarrow> clt_le c c' \<Longrightarrow> set cs \<subseteq> set cs' \<Longrightarrow> req_ok c' cs' b"
  by (auto simp: req_ok_def clt_le_def)

lemma answered_mono: "answered rs x r \<Longrightarrow> set rs \<subseteq> set rs' \<Longrightarrow> answered rs' x r"
  by (auto simp: answered_def)

lemma log_inv_clt:
  assumes "log_inv y" "clt_le (rs_clt y) c'"
    and "\<And>x ca. mfind (calls c') x = Some ca \<Longrightarrow> ca_done ca \<Longrightarrow> answered (rs_runs y) x (ca_ret ca, ca_un ca)"
    and "\<And>x r u. (x, r, u) \<in> set rets \<Longrightarrow> r = timeout_failure \<or> answered (rs_runs y) x (r, u)"
  shows "log_inv (y\<lparr>rs_clt := c', rs_rets := rets\<rparr>)"
proof -
  have "\<forall>b \<in> set (rs_reqs y). req_ok c' (rs_calls y) b"
    using assms(1) req_ok_mono [OF _ assms(2) subset_refl] by (simp add: log_inv_def)
  moreover have "\<forall>q \<in> set (rs_calls y). fst q < next_xid c'"
    using assms(1,2) by (auto simp: log_inv_def clt_le_def intro: order_less_le_trans)
  moreover have "\<forall>(x, r, u) \<in> set rets. r = timeout_failure \<or> answered (rs_runs y) x (r, u)"
    using assms(4) by blast
  ultimately show ?thesis using assms(1,3) by (simp add: log_inv_def)
qed

lemma rs_call_ok:
  assumes "sys_ok y" "act_ok (procs (rs_srv y)) (Call p m)"
  shows "\<exists>y'. rs_step (Call p m) y = Inr y' \<and> sys_ok y'"
proof (cases "next_xid (rs_clt y) = - 1")
  case False
  let ?c = "rs_clt y"
  have m: "m_ok m" "m_ind m < 2 ^ 32" "served (procs (rs_srv y)) p (m_bytes m)" and I: "clt_inv ?c" "srv_inv y" "log_inv y"
    using assms by (auto simp: sys_ok_def)
  consider (err) e where "call1_begin p m ?c = (Some (Inl e), ?c)" |
    (ok) m' c' where "call1_begin p m ?c = (Some (Inr (next_xid ?c, m')), c')"
      "pack_req_header \<lparr>rq_xid = next_xid ?c, rq_proc = p, rq_clt_nonce = clt_nonce ?c, rq_srv_nonce = srv_nonce ?c,
        rq_xid_rep = hd (xid_rep_window ?c)\<rparr> m = Some m'"
      "clt_inv c'" "clt_le ?c c'" "next_xid ?c < next_xid c'" "\<forall>x ca. mfind (calls c') x = Some ca \<and> ca_done ca \<longrightarrow> mfind (calls ?c) x = Some ca"
    using call_lemma [OF I(1) False m(1)] by blast
  then show ?thesis
  proof cases
    case err
    then show ?thesis using assms(1) False by simp
  next
    case ok
    define y' where "y' = y\<lparr>rs_clt := c', rs_reqs := rs_reqs y @ [reply_bytes m'], rs_calls := rs_calls y @ [(next_xid ?c, p, m_bytes m)]\<rparr>"
    obtain u where u: "unpack_req_header (unmarshall_pdu (reply_bytes m')) = (\<lparr>rq_xid = next_xid ?c, rq_proc = p, rq_clt_nonce = clt_nonce ?c,
        rq_srv_nonce = srv_nonce ?c, rq_xid_rep = hd (xid_rep_window ?c)\<rparr>, u)" "u_ok u" "u_rest u = m_bytes m"
      using reply_bytes_req [OF m(1,2) ok(2)] by blast
    have "hd (xid_rep_window ?c) \<in> acked ?c" by (simp add: acked_def)
    then have "hd (xid_rep_window ?c) < next_xid ?c" using I(1) by (auto simp: clt_inv_def live_def not_le)
    moreover have "{x. x \<le> hd (xid_rep_window ?c)} \<subseteq> acked c'" using ok(4) by (auto simp: clt_le_def acked_def)
    ultimately have "req_ok c' (rs_calls y') (reply_bytes m')"
      using u ok(4) by (simp add: req_ok_def clt_le_def y'_def)
    moreover have "req_ok c' (rs_calls y') b" if "req_ok ?c (rs_calls y) b" for b
      using req_ok_mono [OF that ok(4), of "rs_calls y'"] by (auto simp: y'_def)
    ultimately have "log_inv y'" using I(3) ok(5,6) unfolding log_inv_def by (fastforce simp: y'_def)
    moreover have "srv_inv y'" by (rule srv_inv_clt [OF I(2) ok(4), where cs = "rs_calls y'"]) (use I(2) m(3) in \<open>auto simp: y'_def srv_inv_def\<close>)
    ultimately show ?thesis using ok(1,3) False by (simp add: sys_ok_def y'_def)
  qed
qed (use assms in simp)

lemma rs_deliver_ok:
  assumes "sys_ok y"
  shows "\<exists>y'. rs_step (Deliver i) y = Inr y' \<and> sys_ok y'"
proof (cases "i < length (rs_reps y)")
  case True
  let ?c = "rs_clt y" and ?b = "rs_reps y ! i"
  have I: "clt_inv ?c" "srv_inv y" "log_inv y" using assms by (auto simp: sys_ok_def)
  obtain x p a where x: "(x, p, a, ?b) \<in> set (rs_runs y)" using I(3) nth_mem [OF True] unfolding log_inv_def by blast
  then have "reply_of x ?b \<and> (x, p, a) \<in> set (rs_calls y)" using I(3) by (auto simp: log_inv_def)
  then have r: "reply_of x ?b" "x < next_xid ?c" using I(3) by (auto simp: log_inv_def)
  define c' where "c' = rpcc_got_pdu ?b ?c"
  define y' where "y' = y\<lparr>rs_clt := c'\<rparr>"
  note g = got_lemma [OF I(1) r, folded c'_def]
  have d: "answered (rs_runs y) x (decoded ?b)" using x by (auto simp: answered_def)
  have "answered (rs_runs y) z (ca_ret ca, ca_un ca)" if f: "mfind (calls c') z = Some ca" "ca_done ca" for z ca
  proof -
    consider "mfind (calls ?c) z = Some ca" | "z = x" "(ca_ret ca, ca_un ca) = decoded ?b" using g f(1) by blast
    then show ?thesis using d f(2) I(3) by cases (simp_all add: log_inv_def)
  qed
  then have "log_inv (y\<lparr>rs_clt := c', rs_rets := rs_rets y\<rparr>)"
    using g I(3) by (intro log_inv_clt) (auto simp: log_inv_def)
  then have "log_inv y'" by (simp add: y'_def)
  moreover have "srv_inv y'" by (rule srv_inv_clt [OF I(2), of c' "rs_calls y"]) (use g I(2) in \<open>simp_all add: y'_def srv_inv_def\<close>)
  ultimately show ?thesis using True g by (simp add: sys_ok_def y'_def c'_def)
qed (use assms in simp)

lemma rs_return_ok:
  assumes "sys_ok y"
  shows "\<exists>y'. rs_step (Return x) y = Inr y' \<and> sys_ok y'"
proof (cases "mcount (calls (rs_clt y)) x")
  case True
  let ?c = "rs_clt y"
  have I: "clt_inv ?c" "srv_inv y" "log_inv y" using assms by (auto simp: sys_ok_def)
  obtain ret u c' where e: "call1_end x ?c = ((ret, u), c')" by (metis prod.exhaust)
  define y' where "y' = y\<lparr>rs_clt := c', rs_rets := rs_rets y @ [(x, ret, u)]\<rparr>"
  note g = end_lemma [OF I(1) True e]
  have "ret = timeout_failure \<or> answered (rs_runs y) x (ret, u)" using g I(3) by (auto simp: log_inv_def)
  then have "log_inv y'" unfolding y'_def using g I(3) by (intro log_inv_clt) (auto simp: log_inv_def)
  moreover have "srv_inv y'" by (rule srv_inv_clt [OF I(2), of c' "rs_calls y"]) (use g I(2) in \<open>simp_all add: y'_def srv_inv_def\<close>)
  ultimately show ?thesis using True g e by (simp add: sys_ok_def y'_def)
qed (use assms in simp)

text \<open>The server's steps.\<close>

lemma log_inv_srv:
  assumes "log_inv y" "\<And>x p a b. (x, p, a, b) \<in> set rs \<Longrightarrow> reply_of x b \<and> (x, p, a) \<in> set (rs_calls y)"
    and "\<And>b. b \<in> set bs \<Longrightarrow> \<exists>x p a. (x, p, a, b) \<in> set (rs_runs y @ rs)"
  shows "log_inv (y\<lparr>rs_srv := s, rs_reps := rs_reps y @ bs, rs_jobs := js, rs_runs := rs_runs y @ rs\<rparr>)"
proof -
  have mono: "answered (rs_runs y @ rs) x r" if "answered (rs_runs y) x r" for x r
    using that by (rule answered_mono) simp
  have "\<forall>b \<in> set (rs_reps y @ bs). \<exists>x p a. (x, p, a, b) \<in> set (rs_runs y @ rs)"
  proof -
    have "\<exists>x p a. (x, p, a, b) \<in> set (rs_runs y)" if "b \<in> set (rs_reps y)" for b using assms(1) that by (simp add: log_inv_def)
    then show ?thesis using assms(3) by (metis Un_iff set_append)
  qed
  moreover have "\<forall>(x, p, a, b) \<in> set (rs_runs y @ rs). reply_of x b \<and> (x, p, a) \<in> set (rs_calls y)"
    using assms(1,2) by (auto simp: log_inv_def)
  moreover have "\<forall>(x, r, u) \<in> set (rs_rets y). r = timeout_failure \<or> answered (rs_runs y @ rs) x (r, u)"
  proof -
    have "\<forall>(x, r, u) \<in> set (rs_rets y). r = timeout_failure \<or> answered (rs_runs y) x (r, u)" using assms(1) by (simp add: log_inv_def)
    then show ?thesis using mono by blast
  qed
  ultimately show ?thesis using assms(1) mono by (simp add: log_inv_def)
qed

lemma job_ok_srv: "job_ok c s cs j \<Longrightarrow> procs s' = procs s \<Longrightarrow> \<exists>d. mfind (conns s') (clt_nonce c) = Some (Some d) \<Longrightarrow> job_ok c s' cs j"
  by (auto simp: job_ok_def)

lemma arrive_state:
  assumes "rw_ok l" "r < x" "state_ok l js rs x" "checkduplicate_and_update x r l = Inr (st, l')"
  shows "rw_ok l'" "st = reply_state l x"
    and "r < z \<Longrightarrow> state_ok l js rs z \<Longrightarrow> state_ok l' (js @ (if st = NEW then [x] else [])) rs z"
proof -
  have cl: "clean_at x l" using assms(3) by (simp add: state_ok_def)
  have c: "rw_ok l'" "st = reply_state l x" "\<forall>y. clean_at y l \<longrightarrow> clean_at y l'" "reply_state l' =
         (\<lambda>z. if z \<le> r then NEW else if z = x \<and> reply_state l x = NEW then INPROGRESS else reply_state l z)"
    using checkduplicate_lemma [OF assms(1,2)] assms(4) cl by auto
  then show "rw_ok l'" "st = reply_state l x" by simp_all
  assume "r < z" "state_ok l js rs z"
  then show "state_ok l' (js @ (if st = NEW then [x] else [])) rs z"
    using c assms(3) by (cases "z = x"; cases "reply_state l x"; cases "reply_state l z") (simp_all add: state_ok_def not_le [symmetric])
qed

lemma rs_arrive_ok:
  assumes "sys_ok y"
  shows "\<exists>y'. rs_step (Arrive i k) y = Inr y' \<and> sys_ok y'"
proof (cases "i < length (rs_reqs y) \<and> waiting (rs_clt y) (pdu_xid (rs_reqs y ! i))")
  case True
  let ?c = "rs_clt y" and ?s = "rs_srv y" and ?b = "rs_reqs y ! i"
  let ?n = "clt_nonce ?c"
  let ?l = "mget [] (reply_window ?s) ?n" and ?js = "map job_xid (rs_jobs y)"
  have I: "clt_inv ?c" "srv_inv y" "log_inv y" using assms by (auto simp: sys_ok_def)
  obtain h u where h: "unpack_req_header (unmarshall_pdu ?b) = (h, u)" by fastforce
  have "req_ok ?c (rs_calls y) ?b" using I(3) nth_mem True unfolding log_inv_def by blast
  then have q: "u_ok u" "rq_clt_nonce h = ?n" "rq_srv_nonce h = nonce ?s" "rq_xid_rep h < rq_xid h" "{x. x \<le> rq_xid_rep h} \<subseteq> acked ?c"
      "(rq_xid h, rq_proc h, u_rest u) \<in> set (rs_calls y)"
    using I(2) by (simp_all add: req_ok_def h srv_inv_def)
  have g: "u_good u" "?n \<noteq> 0" using q(1) I(1) by (simp_all add: u_ok_def clt_inv_def)
  have st: "state_ok ?l ?js (rs_runs y) (rq_xid h)" using I(2) True by (auto simp: srv_inv_def live_def pdu_xid_def h)
  show ?thesis
  proof (cases "mfind (procs ?s) (rq_proc h)")
    case None
    then have "dispatch_arrive k ?b ?s = Inr (None, [], unref_conn k ?s)" using g q(3) by (simp add: dispatch_arrive_def h)
    moreover have "srv_inv (y\<lparr>rs_srv := unref_conn k ?s\<rparr>)" using I(2) unfolding srv_inv_def unref_conn_def job_ok_def by simp
    moreover have "log_inv (y\<lparr>rs_srv := unref_conn k ?s\<rparr>)" using I(3) by (simp add: log_inv_def)
    ultimately show ?thesis using True I(1) by (simp add: sys_ok_def)
  next
    case (Some f)
    let ?st = "reply_state ?l (rq_xid h)"
    have l: "rw_ok ?l" using I(2) by (simp add: srv_inv_def)
    have "served (procs ?s) (rq_proc h) (u_rest u)" using I(2) q(6) unfolding srv_inv_def by blast
    then have f: "handles f (u_rest u)" using Some by (simp add: served_def)
    have nf: "?st \<noteq> FORGOTTEN" using st by (auto simp: state_ok_def)
    obtain s' l' where a: "dispatch_arrive k ?b ?s = Inr (if ?st = NEW then Some (f, k, h, u) else None,
          (case ?st of DONE b \<Rightarrow> [(k, b)] | _ \<Rightarrow> []), s')"
        "checkduplicate_and_update (rq_xid h) (rq_xid_rep h) ?l = Inr (?st, l')"
        "reply_window s' = mput ?n l' (reply_window ?s)" "procs s' = procs ?s" "nonce s' = nonce ?s" "app s' = app ?s" "\<exists>d. mfind (conns s') ?n = Some (Some d)"
      using arrive_lemma [OF h g(1) _ disjI2 [OF q(3)] _ q(4) Some] g(2) l nf unfolding q(2) by blast
    let ?bs = "map snd (case ?st of DONE b \<Rightarrow> [(k, b)] | _ \<Rightarrow> [])" and ?j = "if ?st = NEW then [(f, k, h, u)] else []"
    define y' where "y' = y\<lparr>rs_srv := s', rs_reps := rs_reps y @ ?bs, rs_jobs := rs_jobs y @ ?j, rs_runs := rs_runs y @ []\<rparr>"
    note A = arrive_state [OF l q(4) st a(2)]
    have jx: "map job_xid ?j = (if ?st = NEW then [rq_xid h] else [])" by (simp add: job_xid_def)
    have new: "rq_xid h \<notin> set ?js \<and> rq_xid h \<notin> fst ` set (rs_runs y)" if "?st = NEW" using st that by (simp add: state_ok_def)
    have l': "mget [] (reply_window s') ?n = l'" by (simp add: a(3) mget_def)
    have "log_inv y'"
      unfolding y'_def using st by (intro log_inv_srv [OF I(3)]) (auto simp: state_ok_def split: rpcstate.splits)
    moreover have "state_ok l' (map job_xid (rs_jobs y @ ?j)) (rs_runs y) z" if "live ?c z" for z
    proof -
      have "z \<notin> acked ?c" using I(1) that by (auto simp: clt_inv_def)
      then have "rq_xid_rep h < z" using q(5) by (auto simp: not_le [symmetric])
      then show ?thesis using A(3) I(2) that unfolding map_append jx by (simp add: srv_inv_def)
    qed
    moreover have "\<forall>j \<in> set (rs_jobs y @ ?j). job_ok ?c s' (rs_calls y) j"
      using I(2) Some f q(1,2,6) a(4,7) by (auto simp: srv_inv_def job_ok_def)
    moreover have "distinct (map fst (rs_runs y) @ map job_xid (rs_jobs y @ ?j))"
      using I(2) new unfolding map_append jx by (auto simp: srv_inv_def)
    ultimately have "log_inv y'" "srv_inv y'"
      using I(2) A(1) a(4,5) by (simp_all add: srv_inv_def y'_def l')
    moreover have "rs_step (Arrive i k) y = Inr y'" using True a(1) by (cases "?st = NEW") (simp_all add: y'_def)
    ultimately show ?thesis using I(1) by (simp add: sys_ok_def y'_def)
  qed
qed (use assms in auto)

lemma finish_state:
  assumes "state_ok l js rs z" "distinct (map fst rs @ js)" "x \<in> set js"
  shows "state_ok (add_reply x b l) (remove1 x js) (rs @ [(x, p, a, b)]) z"
proof (cases "z = x")
  case True
  have "x \<notin> fst ` set rs" using assms(2,3) by auto
  then have "reply_state l x = INPROGRESS" "clean_at x l"
    using assms(1,3) True by (force simp: state_ok_def split: rpcstate.splits)+
  then show ?thesis by (simp add: True state_ok_def add_reply_state add_reply_clean) blast
next
  case False
  have "z \<in> set (remove1 x js) \<longleftrightarrow> z \<in> set js" using False by simp
  then show ?thesis using assms(1) False
    by (cases "reply_state l z") (auto simp: state_ok_def add_reply_state add_reply_clean)
qed

lemma take_drop_remove1: "distinct (map f xs) \<Longrightarrow> i < length xs \<Longrightarrow> map f (take i xs @ drop (i + 1) xs) = remove1 (f (xs ! i)) (map f xs)"
proof (induction xs arbitrary: i)
  case (Cons x xs)
  then show ?case by (cases i) (auto, metis image_eqI nth_mem)
qed simp

lemma distinct_move: "distinct (a @ js) \<Longrightarrow> x \<in> set js \<Longrightarrow> distinct ((a @ [x]) @ remove1 x js)"
  by (auto simp: set_remove1_eq)

lemma rs_finish_ok:
  assumes "sys_ok y"
  shows "\<exists>y'. rs_step (Finish i dead) y = Inr y' \<and> sys_ok y'"
proof (cases "i < length (rs_jobs y)")
  case True
  let ?c = "rs_clt y" and ?s = "rs_srv y"
  let ?n = "clt_nonce ?c"
  let ?l = "mget [] (reply_window ?s) ?n" and ?js = "map job_xid (rs_jobs y)" and ?J = "take i (rs_jobs y) @ drop (i + 1) (rs_jobs y)"
  have I: "clt_inv ?c" "srv_inv y" "log_inv y" using assms by (auto simp: sys_ok_def)
  obtain f k h u where j: "rs_jobs y ! i = (f, k, h, u)" by (metis prod_cases4)
  have "job_ok ?c ?s (rs_calls y) (f, k, h, u)" using I(2) nth_mem [OF True] by (simp add: j srv_inv_def)
  then obtain d where q: "handles f (u_rest u)" "u_ok u" "rq_clt_nonce h = ?n" "mfind (conns ?s) ?n = Some (Some d)"
      "(rq_xid h, rq_proc h, u_rest u) \<in> set (rs_calls y)"
    by (auto simp: job_ok_def)
  have n: "rq_clt_nonce h \<noteq> 0" "mfind (conns ?s) (rq_clt_nonce h) = Some (Some d)" using I(1) q(3,4) by (simp_all add: clt_inv_def)
  obtain c' b s' where s': "dispatch_new dead f k h u ?s = Inr ([(c', b)], s')" "reply_of (rq_xid h) b" "reply_by f u b (app ?s) (app s')"
      "reply_window s' = mput ?n (add_reply (rq_xid h) b ?l) (reply_window ?s)" "mfind (conns s') ?n = Some (Some d)"
      "procs s' = procs ?s" "nonce s' = nonce ?s"
    using dispatch_new_lemma [OF q(1,2) n, of dead k] unfolding q(3) by blast
  define y' where "y' = y\<lparr>rs_srv := s', rs_reps := rs_reps y @ [b], rs_jobs := ?J, rs_runs := rs_runs y @ [(rq_xid h, rq_proc h, u_rest u, b)]\<rparr>"
  have step: "rs_step (Finish i dead) y = Inr y'" using True by (simp add: j s'(1) y'_def)
  have D: "distinct (map fst (rs_runs y) @ ?js)" using I(2) by (simp add: srv_inv_def)
  have x: "rq_xid h \<in> set ?js" using nth_mem [OF True] by (force simp: j job_xid_def)
  have J: "map job_xid ?J = remove1 (rq_xid h) ?js" using take_drop_remove1 [of job_xid, OF _ True] D by (simp add: j job_xid_def)
  have l': "mget [] (reply_window s') ?n = add_reply (rq_xid h) b ?l" by (simp add: s'(4) mget_def)
  have L: "log_inv y'" unfolding y'_def using q(5) s'(2) by (intro log_inv_srv [OF I(3)]) auto
  have S: "state_ok (add_reply (rq_xid h) b ?l) (map job_xid ?J) (rs_runs y @ [(rq_xid h, rq_proc h, u_rest u, b)]) z" if "live ?c z" for z
    unfolding J using I(2) that by (intro finish_state [OF _ D x]) (simp add: srv_inv_def)
  have K: "job_ok ?c s' (rs_calls y) j" if "j \<in> set ?J" for j
  proof -
    have "j \<in> set (rs_jobs y)" using that by (auto dest: in_set_takeD in_set_dropD)
    then have "job_ok ?c ?s (rs_calls y) j" using I(2) by (simp add: srv_inv_def)
    from job_ok_srv [OF this s'(6)] show ?thesis using s'(5) by blast
  qed
  have U: "distinct (map fst (rs_runs y @ [(rq_xid h, rq_proc h, u_rest u, b)]) @ map job_xid ?J)"
    unfolding J using distinct_move [OF D x] by simp
  have "rw_ok (add_reply (rq_xid h) b ?l)" using I(2) by (simp add: srv_inv_def rw_ok_def add_reply_keeps)
  then have "srv_inv y'"
    using I(2) s'(6,7) S K U by (simp add: srv_inv_def y'_def l' del: map_append append_assoc)
  then show ?thesis using step L I(1) by (simp add: sys_ok_def y'_def)
qed (use assms in simp)

lemma arrive_keeps: "dispatch_arrive c b s = Inr (j, out, s') \<Longrightarrow> procs s' = procs s \<and> app s' = app s"
  by (auto simp: dispatch_arrive_def dispatch_fail_def rpcs_check_def save_conn_def ref_conn_def unref_conn_def
      split: prod.splits if_splits option.splits sum.splits rpcstate.splits)

lemma new_keeps: "dispatch_new dead f c h u s = Inr (out, s') \<Longrightarrow> procs s' = procs s"
  by (auto simp: dispatch_new_def latest_conn_def ref_conn_def unref_conn_def rpcs_add_reply_def updatestat_def Let_def
      split: prod.splits if_splits option.splits)

lemma rs_step_procs: "rs_step a y = Inr y' \<Longrightarrow> procs (rs_srv y') = procs (rs_srv y)"
  by (cases a) (auto simp: Let_def dest!: arrive_keeps new_keeps split: if_splits option.splits sum.splits prod.splits)

lemma rs_run_ok: "sys_ok y \<Longrightarrow> list_all (act_ok (procs (rs_srv y))) as \<Longrightarrow> \<exists>y'. rs_run as y = Inr y' \<and> sys_ok y'"
proof (induction as arbitrary: y)
  case (Cons a as)
  have "\<exists>y'. rs_step a y = Inr y' \<and> sys_ok y'"
    using Cons.prems by (cases a) (auto simp del: rs_step.simps intro!: rs_call_ok rs_arrive_ok rs_finish_ok rs_deliver_ok rs_return_ok)
  then obtain y' where "rs_step a y = Inr y'" "sys_ok y'" by blast
  then show ?case using Cons rs_step_procs [of a y y'] by simp
qed simp

lemma rs_start_ok: "start_ok c s \<Longrightarrow> sys_ok (rs_start c s)"
proof -
  assume a: "start_ok c s"
  let ?l = "mget [] (reply_window s) (clt_nonce c)"
  have lt: "next_xid c - 1 < next_xid c" using a by (auto simp: start_ok_def word_less_nat_alt unat_minus_one intro!: diff_Suc_less word_gt_0 [THEN iffD2] simp: unat_gt_0)
  have w: "waiting c x = False" for x using a by (simp add: waiting_def start_ok_def mfind_def)
  have "acked c = {x. x \<le> next_xid c - 1}" using a by (auto simp: acked_def start_ok_def)
  moreover have "window_rel (xid_rep_window c) (acked c)" using a by (auto simp: window_rel_def start_ok_def acked_def)
  ultimately have "clt_inv c" using a lt w by (auto simp: clt_inv_def start_ok_def live_def mcount_def mfind_def)
  moreover have "reply_state ?l x = NEW \<and> clean_at x ?l" if "next_xid c \<le> x" for x
  proof -
    have "rt_xid e \<noteq> x" if "e \<in> set ?l" for e using that a \<open>next_xid c \<le> x\<close> by (auto simp: start_ok_def)
    then show ?thesis using find_None_iff [of "\<lambda>e. rt_xid e = x" ?l] by (auto simp: reply_state_def clean_at_def)
  qed
  ultimately show ?thesis using a w
    by (auto simp: sys_ok_def srv_inv_def log_inv_def rs_start_def start_ok_def state_ok_def live_def mfind_def)
qed

subsection \<open>The runs in sequence\<close>

text \<open>Handlers run one after the other, in the order of the log, take the server's state from \<open>st\<close> to \<open>st'\<close> and give the logged replies.\<close>

fun replay :: "(u32, 'h handler) stdmap \<Rightarrow> 'h \<Rightarrow> (u32 \<times> u32 \<times> byte list \<times> byte list) list \<Rightarrow> 'h \<Rightarrow> bool" where
  "replay pr st [] st' \<longleftrightarrow> st = st'"
| "replay pr st ((x, p, a, b) # rs) st' \<longleftrightarrow>
     (\<exists>f u st1. mfind pr p = Some f \<and> u_ok u \<and> u_rest u = a \<and> reply_by f u b st st1 \<and> replay pr st1 rs st')"

lemma replay_append: "replay pr st (rs @ rs') st' \<longleftrightarrow> (\<exists>st1. replay pr st rs st1 \<and> replay pr st1 rs' st')"
  by (induction pr st rs st' rule: replay.induct) auto

definition history :: "'h rpcs \<Rightarrow> 'h rpc_sys \<Rightarrow> bool" where
  "history s0 y \<longleftrightarrow> procs (rs_srv y) = procs s0 \<and> replay (procs s0) (app s0) (rs_runs y) (app (rs_srv y))"

lemma finish_history:
  assumes "sys_ok y" "rs_step (Finish i dead) y = Inr y'" "history s0 y"
  shows "history s0 y'"
proof (cases "i < length (rs_jobs y)")
  case True
  obtain f k h u where j: "rs_jobs y ! i = (f, k, h, u)" by (metis prod_cases4)
  have "job_ok (rs_clt y) (rs_srv y) (rs_calls y) (f, k, h, u)" "clt_nonce (rs_clt y) \<noteq> 0"
    using assms(1) nth_mem [OF True] by (simp_all add: j sys_ok_def srv_inv_def clt_inv_def)
  then obtain d where q: "mfind (procs (rs_srv y)) (rq_proc h) = Some f" "handles f (u_rest u)" "u_ok u" "rq_clt_nonce h \<noteq> 0"
      "mfind (conns (rs_srv y)) (rq_clt_nonce h) = Some (Some d)"
    by (auto simp: job_ok_def)
  obtain c' b s' where s': "dispatch_new dead f k h u (rs_srv y) = Inr ([(c', b)], s')" "reply_by f u b (app (rs_srv y)) (app s')"
      "procs s' = procs (rs_srv y)"
    using dispatch_new_lemma [OF q(2-5), of dead k] by blast
  then have "rs_runs y' = rs_runs y @ [(rq_xid h, rq_proc h, u_rest u, b)]" "rs_srv y' = s'"
    using assms(2) True j by auto
  then show ?thesis using assms(3) s' q(1,3) by (auto simp: history_def replay_append)
qed (use assms in simp)

lemma rs_run_history: "sys_ok y \<Longrightarrow> list_all (act_ok (procs (rs_srv y))) as \<Longrightarrow> rs_run as y = Inr y' \<Longrightarrow> history s0 y \<Longrightarrow> history s0 y'"
proof (induction as arbitrary: y)
  case (Cons a as)
  then obtain y1 where y1: "rs_step a y = Inr y1" "rs_run as y1 = Inr y'" by (auto split: sum.splits)
  have "sys_ok y1" using rs_run_ok [OF Cons.prems(1), of "[a]"] Cons.prems(2) y1(1) by simp
  moreover have "history s0 y1"
  proof (cases a)
    case (Finish i dead)
    then show ?thesis using finish_history Cons.prems(1,4) y1(1) by blast
  next
    case (Arrive i c)
    then show ?thesis using y1(1) Cons.prems(4) by (auto simp: history_def dest!: arrive_keeps split: if_splits sum.splits)
  qed (use y1(1) Cons.prems(4) in \<open>auto simp: history_def Let_def split: if_splits option.splits sum.splits prod.splits\<close>)
  ultimately show ?case using Cons y1(2) rs_step_procs [OF y1(1)] by simp
qed simp

subsection \<open>Binding\<close>

lemma bind_handler_result:
  assumes "u_ok u" "u_rest u = enc_int 0"
  shows "\<exists>m. bind_handler n st u marshall_new = Some (0, m, st) \<and> m_ok m \<and> m_bytes m = enc_int (sint n)"
proof -
  have "u_good u" using assms(1) by (simp add: u_ok_def)
  from parses_all [OF parses_int assms(1) this assms(2)] obtain u' where "get_int u = (0, u')" "okdone u'" by (auto simp: int32_ok_def)
  moreover obtain m where "put_int (sint n) marshall_new = Some m" "m_ok m" "m_bytes m = enc_int (sint n)"
    using emitsD [OF emits_int m_ok_new] by auto
  ultimately show ?thesis by (simp add: bind_handler_def h1_fn_def rpcbind_def)
qed

lemma bind_handles: "handles (bind_handler n) (enc_int 0)"
  unfolding handles_def
proof (intro allI impI)
  fix st u assume "u_ok u \<and> u_rest u = enc_int 0"
  then obtain m where "bind_handler n st u marshall_new = Some (0, m, st)" "m_ok m" "m_bytes m = enc_int (sint n)"
    using bind_handler_result [of u n st] by blast
  then show "\<exists>ret m st'. bind_handler n st u marshall_new = Some (ret, m, st') \<and> (0 \<le> ret \<or> ret = unmarshal_args_failure) \<and> int32_ok ret
      \<and> m_ok m \<and> m_ind m < 2 ^ 32" by (simp add: int32_ok_def m_ind_bytes)
qed

text \<open>
  A new client binds to a server, which need not be new: one call of the bind procedure, after which client and server are in a state
  the runs below start from.
\<close>

lemma bind_start:
  assumes "rnd \<noteq> 0" "mfind (procs s) bind_proc = Some (bind_handler (nonce s))"
    and "mget [] (reply_window s) rnd = []"
  shows "\<exists>m m' c1 k' b s1 r c2. put_int 0 marshall_new = Some m \<and> call1_begin bind_proc m (rpcc_new True rnd) = (Some (Inr (1, m')), c1)
    \<and> dispatch dead k (reply_bytes m') s = Inr ([(k', b)], s1) \<and> call1_end 1 (rpcc_got_pdu b c1) = (r, c2)
    \<and> call_m (\<lambda>_ _. r) get_int bind_proc m = (0, Some (sint (nonce s)))
    \<and> start_ok (snd (rpcc_bind (0, Some (sint (nonce s))) c2)) s1 \<and> next_xid c2 = 2 \<and> procs s1 = procs s \<and> app s1 = app s"
proof -
  obtain m where m: "put_int 0 marshall_new = Some m" "m_ok m" "m_bytes m = enc_int 0"
    using emitsD [OF emits_int m_ok_new] by auto
  then have ind: "m_ind m < 2 ^ 32" by (simp add: m_ind_bytes)
  define h where "h = \<lparr>rq_xid = 1, rq_proc = bind_proc, rq_clt_nonce = rnd, rq_srv_nonce = 0, rq_xid_rep = 0\<rparr>"
  obtain m' where m': "pack_req_header h m = Some m'" using req_pdu [OF m(2)] by blast
  define c1 where "c1 = (rpcc_new True rnd)\<lparr>next_xid := 2, calls := [(1, \<lparr>ca_un = unmarshall_new, ca_ret = 0, ca_done = False\<rparr>)]\<rparr>"
  have beg: "call1_begin bind_proc m (rpcc_new True rnd) = (Some (Inr (1, m')), c1)"
    using m' by (simp add: call1_begin_def rpcc_new_def c1_def h_def window_init_def Let_def)
  obtain u where u: "unpack_req_header (unmarshall_pdu (reply_bytes m')) = (h, u)" "u_ok u" "u_good u" "u_rest u = enc_int 0"
    using reply_bytes_req [OF m(2) ind m'] m(3) by auto
  define e where "e = (reply_new 1)\<lparr>cb_present := True\<rparr>"
  have ck: "checkduplicate_and_update 1 0 [] = Inr (NEW, [e])" unfolding e_def by code_simp
  have "reply_state [] 1 = NEW" by (simp add: reply_state_def)
  then obtain s' where s': "dispatch_arrive k (reply_bytes m') s = Inr (Some (bind_handler (nonce s), k, h, u), [], s')"
      "reply_window s' = mput rnd [e] (reply_window s)" "procs s' = procs s" "nonce s' = nonce s" "app s' = app s" "\<exists>d. mfind (conns s') rnd = Some (Some d)"
    using arrive_lemma [OF u(1,3), of s "bind_handler (nonce s)" k] assms ck rw_ok_Nil by (auto simp: h_def)
  then obtain d where d: "mfind (conns s') (rq_clt_nonce h) = Some (Some d)" by (auto simp: h_def)
  obtain k' b s1 where s1: "dispatch_new dead (bind_handler (nonce s)) k h u s' = Inr ([(k', b)], s1)" "reply_of 1 b"
      "reply_by (bind_handler (nonce s)) u b (app s') (app s1)" "reply_window s1 = mput rnd (add_reply 1 b [e]) (reply_window s')"
      "procs s1 = procs s" "nonce s1 = nonce s"
    using dispatch_new_lemma [OF bind_handles [of "nonce s", folded u(4)] u(2) _ d, of dead k] assms(1) s'(2-4) by (auto simp: h_def mget_def)
  from bind_handler_result [OF u(2,4), of "nonce s" "app s"]
  have r: "fst (decoded b) = 0" "u_ok (snd (decoded b))" "u_rest (snd (decoded b)) = enc_int (sint (nonce s))" "app s1 = app s"
    using s1(3) s'(5) by (auto simp: reply_by_def)
  obtain hh v where hv: "unpack_reply_header (unmarshall_pdu b) = (hh, v)" "rp_xid hh = 1" "u_good v"
    using s1(2) by (cases "unpack_reply_header (unmarshall_pdu b)") (auto simp: reply_of_def)
  define c2 where "c2 = c1\<lparr>calls := [], xid_rep_window := [1]\<rparr>"
  have w: "update_xid_rep 1 (update_xid_rep 1 [0]) = [1]" by code_simp
  have en: "call1_end 1 (rpcc_got_pdu b c1) = (decoded b, c2)"
    using hv w by (simp add: rpcc_got_pdu_def call1_end_def c1_def c2_def rpcc_new_def window_init_def decoded_def mget_def mfind_def merase_def)
  have i32: "int32_ok (sint (nonce s))" using sint_greater_eq [of "nonce s"] sint_less [of "nonce s"] by (simp add: int32_ok_def)
  have "u_good (snd (decoded b))" using r(2) by (simp add: u_ok_def)
  from parses_all [OF parses_int [OF i32] r(2) this r(3)] have "call_m (\<lambda>_ _. decoded b) get_int bind_proc m = (0, Some (sint (nonce s)))"
    using r(1) by (auto simp: call_m_def split: prod.splits)
  moreover have "dispatch dead k (reply_bytes m') s = Inr ([(k', b)], s1)" using s'(1) s1(1) by (simp add: dispatch_split)
  moreover have "start_ok (snd (rpcc_bind (0, Some (sint (nonce s))) c2)) s1"
  proof -
    have "xids (add_reply 1 b [e]) = [1 ..< 2]" by (simp add: add_reply_keeps xids_def e_def reply_new_def upt_rec)
    then have "rw_ok (add_reply 1 b [e])" unfolding rw_ok_def by blast
    then show ?thesis using assms(1) s'(2) s1(4-6)
      by (auto simp: start_ok_def rpcc_bind_def c2_def c1_def rpcc_new_def mget_def e_def reply_new_def)
  qed
  moreover have "next_xid c2 = 2" by (simp add: c2_def c1_def)
  ultimately show ?thesis using m(1) beg en r(4) s1(5) by blast
qed

subsection \<open>At most once, end to end\<close>

subsection \<open>A call that gets through\<close>

text \<open>The request and the reply are delivered once each, on connection 0.\<close>

definition sys_call :: "u32 \<Rightarrow> marshall \<Rightarrow> 'h rpc_sys \<Rightarrow> dispatch_error + 'h rpc_sys" where
  "sys_call p m y = rs_run [Call p m, Arrive (length (rs_reqs y)) 0, Finish (length (rs_jobs y)) (\<lambda>_. False),
     Deliver (length (rs_reps y)), Return (next_xid (rs_clt y))] y"

lemma next_is_new:
  assumes "sys_ok y"
  shows "reply_state (mget [] (reply_window (rs_srv y)) (clt_nonce (rs_clt y))) (next_xid (rs_clt y)) = NEW"
proof -
  let ?x = "next_xid (rs_clt y)"
  have I: "srv_inv y" "log_inv y" using assms by (simp_all add: sys_ok_def)
  have lt: "fst q < ?x" if "q \<in> set (rs_calls y)" for q using I(2) that by (simp add: log_inv_def)
  have "job_xid j \<noteq> ?x" if "j \<in> set (rs_jobs y)" for j
  proof -
    have "job_ok (rs_clt y) (rs_srv y) (rs_calls y) j" using I(1) that by (simp add: srv_inv_def)
    then show ?thesis using lt by (cases j) (fastforce simp: job_ok_def job_xid_def)
  qed
  then have j: "?x \<notin> set (map job_xid (rs_jobs y))" by fastforce
  have "x \<noteq> ?x" if "(x, p, a, b) \<in> set (rs_runs y)" for x p a b
  proof -
    have "(x, p, a) \<in> set (rs_calls y)" using I(2) that unfolding log_inv_def by blast
    then show ?thesis using lt by fastforce
  qed
  then have r: "?x \<notin> fst ` set (rs_runs y)" by fastforce
  have "state_ok (mget [] (reply_window (rs_srv y)) (clt_nonce (rs_clt y))) (map job_xid (rs_jobs y)) (rs_runs y) ?x"
    using I(1) by (simp add: srv_inv_def live_def)
  then show ?thesis using j r by (simp add: state_ok_def split: rpcstate.splits) force
qed

lemma call_arrives:
  assumes ok: "sys_ok y" and m: "m_ok m" "m_ind m < 2 ^ 32" and x: "next_xid (rs_clt y) \<noteq> - 1" and p: "p \<noteq> bind_proc"
    and f: "mfind (procs (rs_srv y)) p = Some f"
  defines "c \<equiv> rs_clt y"
  shows "\<exists>h u m' s'. rs_run [Call p m, Arrive (length (rs_reqs y)) 0] y = Inr (y\<lparr>
      rs_clt := c\<lparr>next_xid := next_xid c + 1, calls := mput (next_xid c) \<lparr>ca_un = unmarshall_new, ca_ret = 0, ca_done = False\<rparr> (calls c)\<rparr>,
      rs_srv := s', rs_reqs := rs_reqs y @ [reply_bytes m'], rs_calls := rs_calls y @ [(next_xid c, p, m_bytes m)],
      rs_jobs := rs_jobs y @ [(f, 0, h, u)]\<rparr>)
    \<and> rq_xid h = next_xid c \<and> rq_clt_nonce h \<noteq> 0 \<and> u_ok u \<and> u_rest u = m_bytes m \<and> app s' = app (rs_srv y) \<and> procs s' = procs (rs_srv y)
    \<and> (\<exists>d. mfind (conns s') (rq_clt_nonce h) = Some (Some d))"
proof -
  let ?s = "rs_srv y"
  have c: "bind_done c" "\<not> destroy_wait c" "clt_nonce c \<noteq> 0" "hd (xid_rep_window c) < next_xid c" and sn: "srv_nonce c = nonce ?s"
      and l: "rw_ok (mget [] (reply_window ?s) (clt_nonce c))"
    using ok by (auto simp: sys_ok_def clt_inv_def c_def live_def acked_def not_le srv_inv_def)
  define h where "h = \<lparr>rq_xid = next_xid c, rq_proc = p, rq_clt_nonce = clt_nonce c, rq_srv_nonce = srv_nonce c, rq_xid_rep = hd (xid_rep_window c)\<rparr>"
  obtain m' where m': "pack_req_header h m = Some m'" using req_pdu [OF m(1)] by blast
  obtain u where u: "unpack_req_header (unmarshall_pdu (reply_bytes m')) = (h, u)" "u_ok u" "u_good u" "u_rest u = m_bytes m"
    using reply_bytes_req [OF m m'] by blast
  define y1 where "y1 = y\<lparr>rs_clt := c\<lparr>next_xid := next_xid c + 1,
      calls := mput (next_xid c) \<lparr>ca_un = unmarshall_new, ca_ret = 0, ca_done = False\<rparr> (calls c)\<rparr>,
      rs_reqs := rs_reqs y @ [reply_bytes m'], rs_calls := rs_calls y @ [(next_xid c, p, m_bytes m)]\<rparr>"
  have 1: "rs_step (Call p m) y = Inr y1"
    using x p c m' by (simp add: call1_begin_def c_def [symmetric] h_def y1_def Let_def)
  have new: "reply_state (mget [] (reply_window ?s) (clt_nonce c)) (next_xid c) = NEW" using next_is_new [OF ok] by (simp add: c_def)
  obtain s' where s': "dispatch_arrive 0 (reply_bytes m') ?s = Inr (Some (f, 0, h, u), [], s')" "procs s' = procs ?s" "app s' = app ?s"
      "\<exists>d. mfind (conns s') (rq_clt_nonce h) = Some (Some d)"
    using arrive_lemma [OF u(1,3), of ?s f 0] c(3,4) sn l f new by (auto simp: h_def)
  have "waiting (rs_clt y1) (pdu_xid (reply_bytes m'))" by (simp add: waiting_def y1_def pdu_xid_def u(1) h_def)
  then have "rs_step (Arrive (length (rs_reqs y)) 0) y1 = Inr (y1\<lparr>rs_srv := s', rs_jobs := rs_jobs y @ [(f, 0, h, u)]\<rparr>)"
    using s'(1) by (simp add: y1_def)
  then have "rs_run [Call p m, Arrive (length (rs_reqs y)) 0] y = Inr (y1\<lparr>rs_srv := s', rs_jobs := rs_jobs y @ [(f, 0, h, u)]\<rparr>)"
    using 1 by (simp del: rs_step.simps)
  then show ?thesis using u s' c(3) by (intro exI [of _ h] exI [of _ u] exI [of _ m'] exI [of _ s']) (simp add: y1_def h_def)
qed

lemma rs_run_append: "rs_run (as @ bs) y = (case rs_run as y of Inl e \<Rightarrow> Inl e | Inr y \<Rightarrow> rs_run bs y)"
  by (induction as arbitrary: y) (auto split: sum.split)

lemma sys_call_result:
  assumes ok: "sys_ok y" and m: "m_ok m" "m_ind m < 2 ^ 32" and x: "next_xid (rs_clt y) \<noteq> - 1" and p: "p \<noteq> bind_proc"
    and f: "mfind (procs (rs_srv y)) p = Some f" and hf: "handles f (m_bytes m)"
  shows "\<exists>y' u v ret r. sys_call p m y = Inr y' \<and> sys_ok y' \<and> u_ok u \<and> u_rest u = m_bytes m
    \<and> f (app (rs_srv y)) u marshall_new = Some (ret, r, app (rs_srv y')) \<and> rs_rets y' = rs_rets y @ [(next_xid (rs_clt y), ret, v)]
    \<and> u_ok v \<and> u_rest v = m_bytes r \<and> procs (rs_srv y') = procs (rs_srv y) \<and> next_xid (rs_clt y') = next_xid (rs_clt y) + 1"
proof -
  let ?c = "rs_clt y" and ?x = "next_xid (rs_clt y)"
  define c1 where "c1 = ?c\<lparr>next_xid := ?x + 1, calls := mput ?x \<lparr>ca_un = unmarshall_new, ca_ret = 0, ca_done = False\<rparr> (calls ?c)\<rparr>"
  from call_arrives [OF ok m x p f] obtain h u m' s1 d where A: "rs_run [Call p m, Arrive (length (rs_reqs y)) 0] y = Inr (y\<lparr>rs_clt := c1,
      rs_srv := s1, rs_reqs := rs_reqs y @ [reply_bytes m'], rs_calls := rs_calls y @ [(?x, p, m_bytes m)], rs_jobs := rs_jobs y @ [(f, 0, h, u)]\<rparr>)"
    and h: "rq_xid h = ?x" "rq_clt_nonce h \<noteq> 0" "u_ok u" "u_rest u = m_bytes m" "app s1 = app (rs_srv y)" "procs s1 = procs (rs_srv y)"
      "mfind (conns s1) (rq_clt_nonce h) = Some (Some d)"
    unfolding c1_def by blast
  have fo: "handles f (u_rest u)" using hf h(4) by simp
  from dispatch_new_lemma [OF fo h(3,2,7), of "\<lambda>_. False" 0] obtain k b s2 where
    D: "dispatch_new (\<lambda>_. False) f 0 h u s1 = Inr ([(k, b)], s2)" "reply_of ?x b" "reply_by f u b (app (rs_srv y)) (app s2)" "procs s2 = procs s1"
    using h(1,5) by auto
  obtain hh v where hv: "unpack_reply_header (unmarshall_pdu b) = (hh, v)" "rp_xid hh = ?x" "u_good v"
    using D(2) by (cases "unpack_reply_header (unmarshall_pdu b)") (auto simp: reply_of_def)
  obtain c2 where E: "call1_end ?x (rpcc_got_pdu b c1) = (decoded b, c2)" "mcount (calls (rpcc_got_pdu b c1)) ?x" "next_xid c2 = ?x + 1"
    using hv by (simp add: rpcc_got_pdu_def call1_end_def c1_def decoded_def mget_def mcount_def)
  obtain ret w where dw: "decoded b = (ret, w)" by fastforce
  from D(3) obtain r where R: "f (app (rs_srv y)) u marshall_new = Some (ret, r, app s2)" "u_ok w" "u_rest w = m_bytes r"
    by (auto simp: reply_by_def dw)
  define y' where "y' = y\<lparr>rs_clt := c2, rs_srv := s2, rs_reqs := rs_reqs y @ [reply_bytes m'], rs_reps := rs_reps y @ [b],
    rs_calls := rs_calls y @ [(?x, p, m_bytes m)], rs_runs := rs_runs y @ [(?x, rq_proc h, u_rest u, b)], rs_rets := rs_rets y @ [(?x, ret, w)]\<rparr>"
  have "sys_call p m y = Inr y'"
    unfolding sys_call_def using A rs_run_append [of "[Call p m, Arrive (length (rs_reqs y)) 0]" "[Finish (length (rs_jobs y)) (\<lambda>_. False),
     Deliver (length (rs_reps y)), Return ?x]" y] D(1) E dw h(1) by (simp add: y'_def del: rs_run.simps(2) rs_step.simps(1,2) add: rs_run.simps)
  moreover have "sys_ok y'"
    using rs_run_ok [OF ok, of "[Call p m, Arrive (length (rs_reqs y)) 0, Finish (length (rs_jobs y)) (\<lambda>_. False), Deliver (length (rs_reps y)), Return ?x]"]
      calculation m f hf by (simp add: sys_call_def served_def del: rs_run.simps)
  ultimately show ?thesis using h(3,4,6) R D(4) E(3) by (intro exI [of _ y'] exI [of _ u] exI [of _ w] exI [of _ ret] exI [of _ r]) (simp add: y'_def)
qed

subsection \<open>At most once\<close>

text \<open>
  C4. At most once, from the caller's arguments to its result and at the level of the bytes sent.  Let the client's threads make any calls, and let
  the network lose, delay, reorder and repeat requests and replies as it likes, as long as no copy of a request outlives its call.  Then the
  server never hits an assertion; every run of a handler belongs to a call and gets exactly that call's procedure and arguments; no call is run
  twice; the server's state and its replies are those of the handlers run one after the other; and every call returns either a timeout or the
  return value and result that its one run gave.
\<close>

theorem rpc_at_most_once:
  assumes "start_ok c s" "list_all (act_ok (procs s)) as"
  shows "\<exists>y. rs_run as (rs_start c s) = Inr y \<and> distinct (map fst (rs_calls y)) \<and> distinct (map fst (rs_runs y))
    \<and> (\<forall>(x, p, a, b) \<in> set (rs_runs y). (x, p, a) \<in> set (rs_calls y))
    \<and> replay (procs s) (app s) (rs_runs y) (app (rs_srv y))
    \<and> (\<forall>(x, ret, u) \<in> set (rs_rets y). ret = timeout_failure \<or> (\<exists>p a b. (x, p, a, b) \<in> set (rs_runs y) \<and> decoded b = (ret, u)))"
proof -
  obtain y where y: "rs_run as (rs_start c s) = Inr y" "sys_ok y"
    using rs_run_ok [OF rs_start_ok [OF assms(1)], of as] assms(2) by (auto simp: rs_start_def)
  have "srv_inv y" "log_inv y" using y(2) by (simp_all add: sys_ok_def)
  then have "distinct (map fst (rs_calls y))" "distinct (map fst (rs_runs y))"
    "\<forall>(x, p, a, b) \<in> set (rs_runs y). reply_of x b \<and> (x, p, a) \<in> set (rs_calls y)"
    "\<forall>(x, ret, u) \<in> set (rs_rets y). ret = timeout_failure \<or> answered (rs_runs y) x (ret, u)"
    by (simp_all add: srv_inv_def log_inv_def)
  moreover have "history s y"
    using rs_run_history [OF rs_start_ok [OF assms(1)] _ y(1), of s] assms(2) by (simp add: history_def rs_start_def)
  ultimately show ?thesis using y(1) by (force simp: answered_def history_def)
qed

definition demo_count :: "nat handler" where
  "demo_count st u m = Some (0, m, st + 1)"

definition demo_clt :: rpcc where
  "demo_clt = (rpcc_new True 7)\<lparr>srv_nonce := 9, bind_done := True, next_xid := 2, xid_rep_window := [1]\<rparr>"

definition demo_srv :: "nat rpcs" where
  "demo_srv = \<lparr>nonce = 9, procs = [(5, demo_count)], reply_window = [(7, [reply_new 1])], conns = [], counting = 0, curr_counts = 0,
     counts = [], refs = (\<lambda>_. 1), app = 0\<rparr>"

lemma demo_call:
  "start_ok demo_clt demo_srv" "handles demo_count a" "mfind (procs demo_srv) 5 = Some demo_count"
proof -
  have "rw_ok [reply_new 1]"
    unfolding rw_ok_def by (rule exI [of _ 1], rule exI [of _ 2]) (simp add: xids_def reply_new_def upt_rec)
  then show "start_ok demo_clt demo_srv"
    by (auto simp: start_ok_def demo_clt_def demo_srv_def rpcc_new_def mget_def mfind_def reply_new_def split: if_splits)
  show "handles demo_count a"
    using m_ok_new by (auto simp: handles_def demo_count_def int32_ok_def marshall_new_def RPC_HEADER_SZ_def)
qed (simp add: demo_srv_def mfind_def)

theorem rpc_at_most_once_witness:
  "\<exists>y. rs_run [Call 5 marshall_new, Arrive 0 0, Finish 0 (\<lambda>_. False), Deliver 0, Return 2] (rs_start demo_clt demo_srv) = Inr y
    \<and> app (rs_srv y) = 1 \<and> map (\<lambda>(x, ret, u). (x, ret)) (rs_rets y) = [(2, 0)]
    \<and> distinct (map fst (rs_runs y)) \<and> (\<forall>(x, p, a, b) \<in> set (rs_runs y). (x, p, a) \<in> set (rs_calls y))"
proof -
  let ?y = "rs_start demo_clt demo_srv"
  let ?as = "[Call 5 marshall_new, Arrive 0 0, Finish 0 (\<lambda>_. False), Deliver 0, Return 2]"
  have m: "m_ok marshall_new" "m_ind marshall_new < 2 ^ 32" using m_ok_new by (simp_all add: marshall_new_def RPC_HEADER_SZ_def)
  have "sys_call 5 marshall_new ?y = rs_run ?as ?y" "next_xid (rs_clt ?y) = 2" "app (rs_srv ?y) = 0" "rs_rets ?y = []"
    by (simp_all add: sys_call_def rs_start_def demo_clt_def demo_srv_def del: rs_run.simps)
  moreover obtain y where "sys_call 5 marshall_new ?y = Inr y" "app (rs_srv y) = app (rs_srv ?y) + 1"
      "map (\<lambda>(x, ret, u). (x, ret)) (rs_rets y) = map (\<lambda>(x, ret, u). (x, ret)) (rs_rets ?y) @ [(next_xid (rs_clt ?y), 0)]"
    using sys_call_result [OF rs_start_ok [OF demo_call(1)] m, of 5 demo_count] demo_call(2,3)
    by (auto simp: rs_start_def demo_clt_def demo_count_def bind_proc_def)
  moreover have "list_all (act_ok (procs demo_srv)) ?as" using demo_call(2,3) m by (simp add: served_def)
  ultimately show ?thesis using rpc_at_most_once [OF demo_call(1), of ?as] by force
qed

end
