(* ===== verification/RpcTest.thy ===== *)
theory RpcTest
  imports RpcSystem StdString
begin

text \<open>
  The RPC library's own test, \<open>rpc/rpctest.cc\<close>: its handlers, the test of marshalling and the calls of \<open>simple_tests\<close> with what they assert,
  made over the system of the theory \<open>RpcSystem\<close>.
\<close>

subsection \<open>The handlers\<close>

definition handle_22 :: "unit \<Rightarrow> string \<Rightarrow> string \<Rightarrow> int \<times> string \<times> unit" where
  "handle_22 st a b = (0, a @ b, st)"

definition handle_fast :: "unit \<Rightarrow> int \<Rightarrow> int \<times> int \<times> unit" where
  "handle_fast st a = (0, a + 1, st)"

definition handle_slow :: "unit \<Rightarrow> int \<Rightarrow> int \<times> int \<times> unit" where
  "handle_slow st a = (0, a + 2, st)"

text \<open>
  A negative length becomes a huge \<open>size_t\<close>.  The string constructor refuses it, like every length beyond \<open>max_size\<close>, with an exception
  that nobody catches.
\<close>

definition handle_bigrep :: "unit \<Rightarrow> int \<Rightarrow> (int \<times> string \<times> unit) option" where
  "handle_bigrep st len = (if len < 0 \<or> int max_str < len then None else Some (0, replicate (nat len) CHR ''x'', st))"

definition bigrep_fn :: "unit handler" where
  "bigrep_fn st args ret =
     (let (a1, args) = get_int args in
      if \<not> okdone args then Some (unmarshal_args_failure, ret, st)
      else do { (b, r, st) \<leftarrow> handle_bigrep st a1; ret \<leftarrow> put_string r ret; Some (b, ret, st) })"

definition startserver :: "u32 \<Rightarrow> unit rpcs option" where
  "startserver rnd = do {
     s \<leftarrow> reg1 22 (h2_fn get_string get_string put_string handle_22) (rpcs_new rnd 0 ());
     s \<leftarrow> reg1 23 (h1_fn get_int put_int handle_fast) s;
     s \<leftarrow> reg1 24 (h1_fn get_int put_int handle_slow) s;
     reg1 25 bigrep_fn s }"

subsection \<open>The tests\<close>

text \<open>\<open>None\<close> stands for a failed assertion.\<close>

definition expect :: "bool \<Rightarrow> 'a \<Rightarrow> 'a option" where
  "expect b x = (if b then Some x else None)"

definition testmarshall :: "unit option" where
  "testmarshall = do {
     let rh = \<lparr>rq_xid = 1, rq_proc = 2, rq_clt_nonce = 3, rq_srv_nonce = 4, rq_xid_rep = 5\<rparr>;
     m \<leftarrow> pack_req_header rh marshall_new;
     m \<leftarrow> expect (m_ind m = RPC_HEADER_SZ) m;
     let (i, l, s) = (12345, 1223344455, ''hallo....'');
     m \<leftarrow> put_all [put_int i, put_u64 l, put_string s] m;
     sz \<leftarrow> expect (m_ind m = RPC_HEADER_SZ + 4 + 8 + length s + 4) (m_ind m);
     let (rh1, un) = unpack_req_header (unmarshall_pdu (reply_bytes m));
     un \<leftarrow> expect (rh1 = rh) un;
     let (i1, un) = get_int un;
     let (l1, un) = get_u64 un;
     let (s1, un) = get_string un;
     expect (okdone un \<and> i1 = i \<and> l1 = l \<and> s1 = s) () }"

definition tcall :: "(unmarshall \<Rightarrow> 'r \<times> unmarshall) \<Rightarrow> u32 \<Rightarrow> (marshall \<Rightarrow> marshall option) list \<Rightarrow> 'h rpc_sys
    \<Rightarrow> ((int \<times> 'r option) \<times> 'h rpc_sys) option" where
  "tcall get p ms y = do {
     m \<leftarrow> put_all ms marshall_new;
     case sys_call p m y of
       Inl e \<Rightarrow> None
     | Inr y \<Rightarrow> (case last (rs_rets y) of (x, ret, u) \<Rightarrow> Some (call_m (\<lambda>_ _. (ret, u)) get p m, y)) }"

text \<open>All calls of \<open>simple_tests\<close> to the server, the last one, to an address nobody listens at, aside.\<close>

definition simple_tests :: "unit rpc_sys \<Rightarrow> unit rpc_sys option" where
  "simple_tests y = do {
     ((intret, rep), y) \<leftarrow> tcall get_string 22 [put_string ''hello'', put_string '' goodbye''] y;
     y \<leftarrow> expect (intret = 0 \<and> rep = Some ''hello goodbye'') y;
     ((intret, rep), y) \<leftarrow> tcall get_string 25 [put_int 70000] y;
     y \<leftarrow> expect (intret = 0 \<and> map_option length rep = Some 70000) y;
     ((intret, rep), y) \<leftarrow> tcall get_string 22 [put_string ''just one''] y;
     y \<leftarrow> expect (intret < 0) y;
     ((intret, rep), y) \<leftarrow> tcall get_string 23 [put_int 1001, put_int 1002] y;
     y \<leftarrow> expect (intret < 0) y;
     ((intret, wrongrep), y) \<leftarrow> tcall get_int 23 [put_string ''hello'', put_string '' goodbye''] y;
     y \<leftarrow> expect (intret < 0) y;
     ((intret, xx), y) \<leftarrow> tcall get_int 23 [put_int 77] y;
     y \<leftarrow> expect (intret = 0 \<and> xx = Some 78) y;
     ((intret, rep), y) \<leftarrow> tcall get_string 22 [put_string (replicate 1000 CHR ''x''), put_string ''x''] y;
     y \<leftarrow> expect (map_option length rep = Some 1001) y;
     ((intret, rep), y) \<leftarrow> tcall get_string 22 [put_string (replicate 1000000 CHR ''x''), put_string ''z''] y;
     expect (map_option length rep = Some 1000001) y }"

text \<open>
  What the threads of \<open>concurrent_test\<close>, \<open>lossy_test\<close> and \<open>failure_test\<close> assert of the value returned and the result: \<open>client1\<close> of its two kinds
  of calls, \<open>client2\<close> and \<open>client3\<close>.
\<close>

definition client1_big :: "int \<Rightarrow> int \<times> string option \<Rightarrow> bool" where
  "client1_big arg r = (case r of (ret, rep) \<Rightarrow> ret = 0 \<and> map_option (\<lambda>s. int (length s)) rep = Some arg)"

definition client1_small :: "bool \<Rightarrow> int \<Rightarrow> int \<times> int option \<Rightarrow> bool" where
  "client1_small which arg r = (case r of (ret, rep) \<Rightarrow> ret = 0 \<and> rep = Some (if which then arg + 1 else arg + 2))"

definition client2_check :: "int \<Rightarrow> int \<times> string option \<Rightarrow> bool" where
  "client2_check arg r = (case r of (ret, rep) \<Rightarrow> map_option (\<lambda>s. int (length s)) rep = Some arg)"

definition client3_check :: "int \<Rightarrow> int \<times> int option \<Rightarrow> bool" where
  "client3_check i r = (case r of (ret, rep) \<Rightarrow> ret = timeout_failure \<or> rep = Some (i + 2))"

text \<open>A call outside a run of the system, over one delivery of its request and reply, and \<open>bind\<close> by such a call.\<close>

definition direct_call :: "u32 \<Rightarrow> marshall \<Rightarrow> rpcc \<Rightarrow> 'h rpcs \<Rightarrow> ((int \<times> unmarshall) \<times> rpcc \<times> 'h rpcs) option" where
  "direct_call p m c s =
     (case call1_begin p m c of
        (None, c) \<Rightarrow> None
      | (Some (Inl e), c) \<Rightarrow> Some ((e, unmarshall_new), c, s)
      | (Some (Inr (x, m')), c) \<Rightarrow>
          (case dispatch (\<lambda>_. False) 0 (reply_bytes m') s of
             Inr ([(k, b)], s) \<Rightarrow> (let (r, c) = call1_end x (rpcc_got_pdu b c) in Some (r, c, s))
           | _ \<Rightarrow> None))"

definition bind_call :: "rpcc \<Rightarrow> 'h rpcs \<Rightarrow> (int \<times> rpcc \<times> 'h rpcs) option" where
  "bind_call c s = do {
     m \<leftarrow> put_int 0 marshall_new;
     (r, c, s) \<leftarrow> direct_call bind_proc m c s;
     let (ret, c) = rpcc_bind (call_m (\<lambda>_ _. r) get_int bind_proc m) c;
     Some (ret, c, s) }"

definition bind_new :: "u32 \<Rightarrow> 'h rpcs \<Rightarrow> (rpcc \<times> 'h rpcs) option" where
  "bind_new rnd s = do { (ret, c, s) \<leftarrow> bind_call (rpcc_new True rnd) s; expect (ret = 0) (c, s) }"

text \<open>\<open>bind\<close> to a server that does not answer, with which \<open>simple_tests\<close> ends and \<open>failure_test\<close> begins: the call ends without a reply.\<close>

definition bind_unanswered :: "u32 \<Rightarrow> rpcc option" where
  "bind_unanswered rnd = do {
     m \<leftarrow> put_int 0 marshall_new;
     case call1_begin bind_proc m (rpcc_new True rnd) of
       (Some (Inr (x, m')), c) \<Rightarrow>
         let (r, c) = call1_end x c; (intret, c) = rpcc_bind (call_m (\<lambda>_ _. r) get_int bind_proc m) c in expect (intret < 0) c
     | _ \<Rightarrow> None }"

text \<open>A new server and a client bound to it, as \<open>failure_test\<close> sets them up for its last threads.\<close>

definition restart :: "u32 \<Rightarrow> u32 \<Rightarrow> (rpcc \<times> unit rpcs) option" where
  "restart n rnd = do { s \<leftarrow> startserver n; bind_new rnd s }"

text \<open>
  \<open>failure_test\<close> from the restart of the server on, up to its threads: the old client is told that its server is gone, a new client binds,
  cannot bind again and is served.  The arguments are the nonces drawn.
\<close>

definition failure_test :: "rpcc \<Rightarrow> u32 \<Rightarrow> u32 \<Rightarrow> unit rpc_sys option" where
  "failure_test old n rnd = do {
     s \<leftarrow> startserver n;
     m \<leftarrow> put_all [put_string ''hello'', put_string '' goodbye''] marshall_new;
     (r, old, s) \<leftarrow> direct_call 22 m old s;
     s \<leftarrow> expect (fst (call_m (\<lambda>_ _. r) get_string 22 m) = oldsrv_failure) s;
     (c, s) \<leftarrow> bind_new rnd s;
     (ret, c, s) \<leftarrow> bind_call c s;
     s \<leftarrow> expect (ret < 0) s;
     ((intret, rep), y) \<leftarrow> tcall get_string 22 [put_string ''hello'', put_string '' goodbye''] (rs_start c s);
     expect (intret = 0 \<and> rep = Some ''hello goodbye'') y }"

lemma pdu_split: "m_ok m \<Longrightarrow> pdu_bytes sz m = enc_u32 sz @ map cell_byte (drop 4 (take RPC_HEADER_SZ (m_buf m))) @ m_bytes m"
proof -
  assume m: "m_ok m"
  then have "take (m_ind m) (m_buf m) = take RPC_HEADER_SZ (m_buf m) @ drop RPC_HEADER_SZ (take (m_ind m) (m_buf m))"
    by (metis append_take_drop_id m_ok_def min_absorb1 take_take)
  moreover have "map cell_byte (drop RPC_HEADER_SZ (take (m_ind m) (m_buf m))) = m_bytes m"
    unfolding m_bytes_def using m by (intro map_cell_byte) (simp add: m_ok_def)
  moreover have "drop 4 (take RPC_HEADER_SZ (m_buf m) @ r) = drop 4 (take RPC_HEADER_SZ (m_buf m)) @ r" for r
    using m by (simp add: m_ok_def RPC_HEADER_SZ_def)
  ultimately show ?thesis unfolding pdu_bytes_def by (metis map_append)
qed

lemma testmarshall_passes: "testmarshall = Some ()"
proof -
  let ?rh = "\<lparr>rq_xid = 1, rq_proc = 2, rq_clt_nonce = 3, rq_srv_nonce = 4, rq_xid_rep = 5\<rparr>"
  let ?a = "enc_int 12345 @ enc_u64 1223344455 @ enc_string ''hallo....''"
  obtain m where m: "pack_req_header ?rh marshall_new = Some m" "m_ok m" "m_bytes m = []" "m_ind m = m_ind marshall_new"
      "pdu_bytes 0 m = enc_u32 0 @ concat (map enc_u32 (req_words ?rh))"
    using req_pdu [OF m_ok_new, of ?rh 0] by auto
  have "emits (put_all [put_int 12345, put_u64 1223344455, put_string ''hallo....'']) ?a"
    using emits_put_Cons [OF emits_int emits_put_two [OF emits_u64 emits_string]] .
  from emitsD [OF this m(2)] obtain m1 where m1: "put_all [put_int 12345, put_u64 1223344455, put_string ''hallo....''] m = Some m1" "m_ok m1"
      "m_bytes m1 = ?a" "take RPC_HEADER_SZ (m_buf m1) = take RPC_HEADER_SZ (m_buf m)" using m(3) by auto
  define b where "b = reply_bytes m1"
  have b: "b = enc_u32 (word_of_nat (m_ind m1)) @ concat (map enc_u32 (req_words ?rh)) @ ?a"
    using pdu_split [OF m1(2)] pdu_split [OF m(2)] m(3,5) m1(3,4) by (simp add: b_def reply_bytes_def)
  define u where "u = (unmarshall_pdu b)\<lparr>u_ind := RPC_HEADER_SZ\<rparr>"
  have h: "unpack_req_header (unmarshall_pdu b) = (?rh, u)" unfolding u_def
    using b by (intro unpack_req_header_enc [of "enc_u32 (word_of_nat (m_ind m1))"]) (simp_all add: unmarshall_pdu_def req_words_def)
  have u: "u_ok u" "u_rest u = ?a"
    using b by (simp_all add: u_def u_ok_def u_rest_def unmarshall_pdu_def RPC_HEADER_SZ_def req_words_def)
  have g: "u_good u" using u(1) by (simp add: u_ok_def)
  have "parses (\<lambda>u. let (i, u) = get_int u in let (l, u) = get_u64 u in let (s, u) = get_string u in ((i, l, s), u))
      (enc_int 12345 @ enc_u64 1223344455 @ enc_string ''hallo....'' @ []) (12345, 1223344455, ''hallo....'')"
    by (rule parses_bind [OF parses_int parses_bind [OF parses_u64 parses_bind [OF parses_string parses_return]]]) (simp_all add: int32_ok_def)
  from parses_all [OF this u(1) g] u(2) obtain u1 u2 u3 where "get_int u = (12345, u1)" "get_u64 u1 = (1223344455, u2)"
      "get_string u2 = (''hallo....'', u3)" "okdone u3"
    by (auto split: prod.splits)
  then show ?thesis
    using m(1,4) m1(1,3) m_ind_bytes [OF m1(2)] h
    by (simp add: testmarshall_def expect_def b_def marshall_new_def RPC_HEADER_SZ_def del: put_all.simps)
qed

subsection \<open>What a test call returns\<close>

lemma tcall_result:
  assumes ok: "sys_ok y" "next_xid (rs_clt y) \<noteq> - 1" "p \<noteq> bind_proc" "mfind (procs (rs_srv y)) p = Some f"
    and a: "emits (put_all ms) a" "length a + 24 < 2 ^ 32"
    and f: "\<And>u st. u_ok u \<Longrightarrow> u_rest u = a \<Longrightarrow> \<exists>m. f st u marshall_new = Some (ret, m, st) \<and> m_ok m \<and> m_bytes m = r"
    and r: "length r + 24 < 2 ^ 32" "0 \<le> ret \<or> ret = unmarshal_args_failure" "int32_ok ret"
  shows "\<exists>v m y'. tcall get p ms y = Some (call_m (\<lambda>_ _. (ret, v)) get p m, y') \<and> u_ok v \<and> u_rest v = r \<and> sys_ok y'
    \<and> procs (rs_srv y') = procs (rs_srv y) \<and> next_xid (rs_clt y') = next_xid (rs_clt y) + 1"
proof -
  obtain m where m: "put_all ms marshall_new = Some m" "m_ok m" "m_bytes m = a"
    using emitsD [OF a(1) m_ok_new] by auto
  have "handles f a"
    unfolding handles_def
  proof (intro allI impI)
    fix st u assume "u_ok u \<and> u_rest u = a"
    then obtain m where "f st u marshall_new = Some (ret, m, st)" "m_ok m" "m_bytes m = r" using f by blast
    then show "\<exists>ret m st'. f st u marshall_new = Some (ret, m, st') \<and> (0 \<le> ret \<or> ret = unmarshal_args_failure) \<and> int32_ok ret \<and> m_ok m \<and> m_ind m < 2 ^ 32"
      using r by (simp add: m_ind_bytes)
  qed
  moreover have "m_ind m < 2 ^ 32" using m a(2) by (simp add: m_ind_bytes)
  ultimately obtain y' u v ret' r' where c: "sys_call p m y = Inr y'" "sys_ok y'" "u_ok u" "u_rest u = a"
      "f (app (rs_srv y)) u marshall_new = Some (ret', r', app (rs_srv y'))" "rs_rets y' = rs_rets y @ [(next_xid (rs_clt y), ret', v)]"
      "u_ok v" "u_rest v = m_bytes r'" "procs (rs_srv y') = procs (rs_srv y)" "next_xid (rs_clt y') = next_xid (rs_clt y) + 1"
    using sys_call_result [OF ok(1) m(2) _ ok(2-4)] m(3) by metis
  then have "ret' = ret" "m_bytes r' = r" using f [OF c(3,4), of "app (rs_srv y)"] by auto
  then show ?thesis using c m(1) by (auto simp: tcall_def)
qed

lemma tcall_good:
  assumes "sys_ok y" "next_xid (rs_clt y) \<noteq> - 1" "p \<noteq> bind_proc" "mfind (procs (rs_srv y)) p = Some f"
    and "emits (put_all ms) a" "length a + 24 < 2 ^ 32"
    and "\<And>u st. u_ok u \<Longrightarrow> u_rest u = a \<Longrightarrow> \<exists>m. f st u marshall_new = Some (0, m, st) \<and> m_ok m \<and> m_bytes m = r"
    and "length r + 24 < 2 ^ 32" "parses get r val"
  shows "\<exists>y'. tcall get p ms y = Some ((0, Some val), y') \<and> sys_ok y'
    \<and> procs (rs_srv y') = procs (rs_srv y) \<and> next_xid (rs_clt y') = next_xid (rs_clt y) + 1"
proof -
  obtain v m y' where v: "tcall get p ms y = Some (call_m (\<lambda>_ _. (0, v)) get p m, y')" "u_ok v" "u_rest v = r" "sys_ok y'"
      "procs (rs_srv y') = procs (rs_srv y)" "next_xid (rs_clt y') = next_xid (rs_clt y) + 1"
    using tcall_result [where get = get, OF assms(1-8)] by (auto simp: int32_ok_def)
  have "u_good v" using v(2) by (simp add: u_ok_def)
  from parses_all [OF assms(9) v(2) this v(3)] show ?thesis using v by (auto simp: call_m_def)
qed

lemma tcall_bad:
  assumes "sys_ok y" "next_xid (rs_clt y) \<noteq> - 1" "p \<noteq> bind_proc" "mfind (procs (rs_srv y)) p = Some f"
    and "emits (put_all ms) a" "length a + 24 < 2 ^ 32"
    and "\<And>u st. u_ok u \<Longrightarrow> u_rest u = a \<Longrightarrow> f st u marshall_new = Some (unmarshal_args_failure, marshall_new, st)"
  shows "\<exists>y'. tcall get p ms y = Some ((unmarshal_args_failure, None), y') \<and> sys_ok y'
    \<and> procs (rs_srv y') = procs (rs_srv y) \<and> next_xid (rs_clt y') = next_xid (rs_clt y) + 1"
proof -
  obtain v m y' where v: "tcall get p ms y = Some (call_m (\<lambda>_ _. (unmarshal_args_failure, v)) get p m, y')" "sys_ok y'"
      "procs (rs_srv y') = procs (rs_srv y)" "next_xid (rs_clt y') = next_xid (rs_clt y) + 1"
    using tcall_result [where get = get and r = "[]" and ret = unmarshal_args_failure, OF assms(1-6)] assms(7)
    by (auto simp: int32_ok_def unmarshal_args_failure_def)
  then show ?thesis by (auto simp: call_m_def unmarshal_args_failure_def)
qed

definition test_procs :: "(u32, unit handler) stdmap \<Rightarrow> bool" where
  "test_procs pr \<longleftrightarrow> mfind pr 22 = Some (h2_fn get_string get_string put_string handle_22)
     \<and> mfind pr 23 = Some (h1_fn get_int put_int handle_fast)
     \<and> mfind pr 24 = Some (h1_fn get_int put_int handle_slow) \<and> mfind pr 25 = Some bigrep_fn"

text \<open>The system after some test calls, with room for \<open>n\<close> more xids.\<close>

definition testing :: "nat \<Rightarrow> unit rpc_sys \<Rightarrow> bool" where
  "testing n y \<longleftrightarrow> sys_ok y \<and> test_procs (procs (rs_srv y)) \<and> unat (next_xid (rs_clt y)) + n < 2 ^ 32"

lemma testing_xid: "testing (Suc n) y \<Longrightarrow> next_xid (rs_clt y) \<noteq> - 1"
  by (auto simp: testing_def unsigned_minus_1_eq_mask mask_eq_exp_minus_1)

lemma testing_next:
  assumes "testing (Suc n) y" "sys_ok y'" "procs (rs_srv y') = procs (rs_srv y)" "next_xid (rs_clt y') = next_xid (rs_clt y) + 1"
  shows "testing n y'" "next_xid (rs_clt y) \<noteq> - 1"
proof -
  show x: "next_xid (rs_clt y) \<noteq> - 1" using testing_xid [OF assms(1)] .
  show "testing n y'" using assms u32_no_wrap [OF x] by (simp add: testing_def)
qed

lemma handle_22_result:
  assumes "str_ok a" "str_ok b" "u_ok u" "u_rest u = enc_string a @ enc_string b"
  shows "\<exists>m. h2_fn get_string get_string put_string handle_22 st u marshall_new = Some (0, m, st) \<and> m_ok m \<and> m_bytes m = enc_string (a @ b)"
proof -
  note 1 = parsesD [OF parses_string [OF assms(1)] assms(3,4)] and u1 = u_advance [OF assms(3,4)]
  have "u_good u" using assms(3) by (simp add: u_ok_def)
  then obtain u' where 2: "get_string (u\<lparr>u_ind := u_ind u + length (enc_string a)\<rparr>) = (b, u')" "okdone u'"
    using parses_all [OF parses_string [OF assms(2)] u1(1) _ u1(2)] by auto
  obtain m where "put_string (a @ b) marshall_new = Some m" "m_ok m" "m_bytes m = enc_string (a @ b)"
    using emitsD [OF emits_string m_ok_new, of "a @ b"] by auto
  then show ?thesis using 1 2 by (simp add: h2_fn_def handle_22_def)
qed

lemma concat_call:
  assumes "testing (Suc n) y" "length a + length b + 40 < 2 ^ 32"
  shows "\<exists>y'. tcall get_string 22 [put_string a, put_string b] y = Some ((0, Some (a @ b)), y') \<and> testing n y'"
proof -
  have y: "sys_ok y" "mfind (procs (rs_srv y)) 22 = Some (h2_fn get_string get_string put_string handle_22)"
    using assms(1) by (auto simp: testing_def test_procs_def)
  have "\<exists>y'. tcall get_string 22 [put_string a, put_string b] y = Some ((0, Some (a @ b)), y') \<and> sys_ok y'
    \<and> procs (rs_srv y') = procs (rs_srv y) \<and> next_xid (rs_clt y') = next_xid (rs_clt y) + 1"
    using assms(2) handle_22_result
    by (intro tcall_good [OF y(1) testing_xid [OF assms(1)] _ y(2) emits_put_two [OF emits_string emits_string], where r = "enc_string (a @ b)"])
      (auto simp: bind_proc_def intro: parses_string)
  then show ?thesis using testing_next [OF assms(1)] by blast
qed

lemma int_method_result:
  assumes "int32_ok a" "u_ok u" "u_rest u = enc_int a" "\<And>st. meth st a = (0, r, st)"
  shows "\<exists>m. h1_fn get_int put_int meth st u marshall_new = Some (0, m, st) \<and> m_ok m \<and> m_bytes m = enc_int r"
proof -
  have "u_good u" using assms(2) by (simp add: u_ok_def)
  from parses_all [OF parses_int [OF assms(1)] assms(2) this assms(3)] obtain u' where "get_int u = (a, u')" "okdone u'" by blast
  moreover obtain m where "put_int r marshall_new = Some m" "m_ok m" "m_bytes m = enc_int r"
    using emitsD [OF emits_int m_ok_new] by auto
  ultimately show ?thesis using assms(4) by (simp add: h1_fn_def)
qed

lemma bigrep_result:
  assumes "int32_ok a" "0 \<le> a \<and> a \<le> int max_str" "u_ok u" "u_rest u = enc_int a"
  shows "\<exists>m. bigrep_fn st u marshall_new = Some (0, m, st) \<and> m_ok m \<and> m_bytes m = enc_string (replicate (nat a) CHR ''x'')"
proof -
  have "u_good u" using assms(3) by (simp add: u_ok_def)
  from parses_all [OF parses_int [OF assms(1)] assms(3) this assms(4)] obtain u' where "get_int u = (a, u')" "okdone u'" by blast
  moreover obtain m where "put_string (replicate (nat a) CHR ''x'') marshall_new = Some m" "m_ok m"
      "m_bytes m = enc_string (replicate (nat a) CHR ''x'')"
    using emitsD [OF emits_string m_ok_new] by auto
  ultimately show ?thesis using assms(2) by (simp add: bigrep_fn_def handle_bigrep_def)
qed

lemma int_call:
  assumes "testing (Suc n) y" "int32_ok a" "int32_ok (a + 1)"
  shows "\<exists>y'. tcall get_int 23 [put_int a] y = Some ((0, Some (a + 1)), y') \<and> testing n y'"
proof -
  have y: "sys_ok y" "mfind (procs (rs_srv y)) 23 = Some (h1_fn get_int put_int handle_fast)"
    using assms(1) by (auto simp: testing_def test_procs_def)
  have "\<exists>m. h1_fn get_int put_int handle_fast st u marshall_new = Some (0, m, st) \<and> m_ok m \<and> m_bytes m = enc_int (a + 1)"
    if "u_ok u" "u_rest u = enc_int a" for u st
    by (rule int_method_result [OF assms(2) that]) (simp add: handle_fast_def)
  then have "\<exists>y'. tcall get_int 23 [put_int a] y = Some ((0, Some (a + 1)), y') \<and> sys_ok y'
    \<and> procs (rs_srv y') = procs (rs_srv y) \<and> next_xid (rs_clt y') = next_xid (rs_clt y) + 1"
    using assms(3) emits_put_Cons [OF emits_int emits_put_Nil, of a]
    by (intro tcall_good [OF y(1) testing_xid [OF assms(1)] _ y(2), where a = "enc_int a" and r = "enc_int (a + 1)"])
      (auto simp: bind_proc_def intro: parses_int)
  then show ?thesis using testing_next [OF assms(1)] by blast
qed

lemma big_call:
  assumes "testing (Suc n) y" "0 \<le> a" "a \<le> int max_str"
  shows "\<exists>y'. tcall get_string 25 [put_int a] y = Some ((0, Some (replicate (nat a) CHR ''x'')), y') \<and> testing n y'"
proof -
  let ?r = "replicate (nat a) CHR ''x''"
  have y: "sys_ok y" "mfind (procs (rs_srv y)) 25 = Some bigrep_fn" and a: "int32_ok a"
    using assms by (auto simp: testing_def test_procs_def int32_ok_def max_str_def)
  have "\<exists>m. bigrep_fn st u marshall_new = Some (0, m, st) \<and> m_ok m \<and> m_bytes m = enc_string ?r"
    if "u_ok u" "u_rest u = enc_int a" for u st
    by (rule bigrep_result [OF a conjI [OF assms(2,3)] that])
  moreover have "nat a < 2 ^ 31" using assms by (simp add: nat_less_iff max_str_def)
  ultimately have "\<exists>y'. tcall get_string 25 [put_int a] y = Some ((0, Some ?r), y') \<and> sys_ok y'
    \<and> procs (rs_srv y') = procs (rs_srv y) \<and> next_xid (rs_clt y') = next_xid (rs_clt y) + 1"
    using emits_put_Cons [OF emits_int emits_put_Nil, of a]
    by (intro tcall_good [OF y(1) testing_xid [OF assms(1)] _ y(2), where a = "enc_int a" and r = "enc_string ?r"])
      (auto simp: bind_proc_def intro: parses_string)
  then show ?thesis using testing_next [OF assms(1)] by blast
qed

text \<open>Arguments that do not fit: one string too few, and anything longer than one int.\<close>

lemma get_string_end: "u_rest u = [] \<Longrightarrow> \<not> u_good (snd (get_string u))"
  by (auto simp: u_rest_def get_string_def get_string_into_def get_u32_def u_rawbyte_def Let_def)

lemma too_few_call:
  assumes "testing (Suc n) y" "length a + 40 < 2 ^ 32"
  shows "\<exists>y'. tcall get_string 22 [put_string a] y = Some ((unmarshal_args_failure, None), y') \<and> testing n y'"
proof -
  have y: "sys_ok y" "mfind (procs (rs_srv y)) 22 = Some (h2_fn get_string get_string put_string handle_22)"
    using assms(1) by (auto simp: testing_def test_procs_def)
  have "h2_fn get_string get_string put_string handle_22 st u marshall_new = Some (unmarshal_args_failure, marshall_new, st)"
    if u: "u_ok u" "u_rest u = enc_string a" for u st
  proof -
    have "get_string u = (a, u\<lparr>u_ind := u_ind u + length (enc_string a)\<rparr>)"
      using parsesD [OF parses_string u(1), of a "[]"] u(2) assms(2) by simp
    moreover have "\<not> u_good (snd (get_string (u\<lparr>u_ind := u_ind u + length (enc_string a)\<rparr>)))"
      using u_advance(2) [OF u(1), of "enc_string a" "[]"] u(2) by (intro get_string_end) simp
    ultimately show ?thesis by (auto simp: h2_fn_def okdone_def split: prod.splits)
  qed
  then have "\<exists>y'. tcall get_string 22 [put_string a] y = Some ((unmarshal_args_failure, None), y') \<and> sys_ok y'
    \<and> procs (rs_srv y') = procs (rs_srv y) \<and> next_xid (rs_clt y') = next_xid (rs_clt y) + 1"
    using assms(2) emits_put_Cons [OF emits_string emits_put_Nil, of a]
    by (intro tcall_bad [OF y(1) testing_xid [OF assms(1)] _ y(2), where a = "enc_string a"]) (auto simp: bind_proc_def)
  then show ?thesis using testing_next [OF assms(1)] by blast
qed

lemma too_long_call:
  assumes "testing (Suc n) y" "emits (put_all ms) (enc_u32 w @ a)" "a \<noteq> []" "length a + 40 < 2 ^ 32"
  shows "\<exists>y'. tcall get 23 ms y = Some ((unmarshal_args_failure, None), y') \<and> testing n y'"
proof -
  have y: "sys_ok y" "mfind (procs (rs_srv y)) 23 = Some (h1_fn get_int put_int handle_fast)"
    using assms(1) by (auto simp: testing_def test_procs_def)
  have "h1_fn get_int put_int handle_fast st u marshall_new = Some (unmarshal_args_failure, marshall_new, st)"
    if u: "u_ok u" "u_rest u = enc_u32 w @ a" for u st
  proof -
    have "get_u32 u = (w, u\<lparr>u_ind := u_ind u + 4\<rparr>)" using parsesD [OF parses_u32 u] by simp
    moreover have "u_rest (u\<lparr>u_ind := u_ind u + 4\<rparr>) = a" using u_advance(2) [OF u] by simp
    ultimately show ?thesis using assms(3) by (auto simp: h1_fn_def get_int_def okdone_def u_rest_def)
  qed
  then have "\<exists>y'. tcall get 23 ms y = Some ((unmarshal_args_failure, None), y') \<and> sys_ok y'
    \<and> procs (rs_srv y') = procs (rs_srv y) \<and> next_xid (rs_clt y') = next_xid (rs_clt y) + 1"
    using assms(4) by (intro tcall_bad [OF y(1) testing_xid [OF assms(1)] _ y(2) assms(2)]) (auto simp: bind_proc_def)
  then show ?thesis using testing_next [OF assms(1)] by blast
qed

lemma simple_tests_ok:
  assumes "testing 8 y"
  shows "\<exists>y'. simple_tests y = Some y' \<and> testing 0 y'"
proof -
  define big where "big = replicate 1000000 CHR ''x''"
  define mid where "mid = replicate 1000 CHR ''x''"
  have len: "length big = 1000000" "length mid = 1000" by (simp_all add: big_def mid_def)
  have n: "8 = Suc 7" "7 = Suc 6" "6 = Suc 5" "5 = Suc 4" "4 = Suc 3" "3 = Suc 2" "2 = Suc 1" "1 = Suc 0" by simp_all
  obtain y1 where 1: "tcall get_string 22 [put_string ''hello'', put_string '' goodbye''] y = Some ((0, Some (''hello'' @ '' goodbye'')), y1)" "testing 7 y1"
    using concat_call [OF assms [unfolded n(1)], of "''hello''" "'' goodbye''"] by auto
  obtain y2 where 2: "tcall get_string 25 [put_int 70000] y1 = Some ((0, Some (replicate (nat 70000) CHR ''x'')), y2)" "testing 6 y2"
    using big_call [OF 1(2) [unfolded n(2)], of 70000] by (auto simp: max_str_def)
  obtain y3 where 3: "tcall get_string 22 [put_string ''just one''] y2 = Some ((unmarshal_args_failure, None), y3)" "testing 5 y3"
    using too_few_call [OF 2(2) [unfolded n(3)], of "''just one''"] by auto
  have "emits (put_all [put_int 1001, put_int 1002]) (enc_u32 (word_of_int 1001) @ enc_int 1002)"
    using emits_put_two [OF emits_int emits_int, of 1001 1002] by (simp only: enc_int_def)
  from too_long_call [OF 3(2) [unfolded n(4)] this, of get_string] obtain y4 where 4: "tcall get_string 23 [put_int 1001, put_int 1002] y3 = Some ((unmarshal_args_failure, None), y4)" "testing 4 y4"
    by (auto simp: enc_int_def enc_u32_def)
  have "emits (put_all [put_string ''hello'', put_string '' goodbye'']) (enc_u32 (word_of_nat (length ''hello'')) @ bytes_of_string ''hello'' @ enc_string '' goodbye'')"
    using emits_put_two [OF emits_string emits_string, of "''hello''" "'' goodbye''"] by (simp only: enc_string_def append_assoc)
  from too_long_call [OF 4(2) [unfolded n(5)] this, of get_int] obtain y5 where 5: "tcall get_int 23 [put_string ''hello'', put_string '' goodbye''] y4 = Some ((unmarshal_args_failure, None), y5)" "testing 3 y5"
    by (auto simp: enc_string_def enc_u32_def)
  obtain y6 where 6: "tcall get_int 23 [put_int 77] y5 = Some ((0, Some (77 + 1)), y6)" "testing 2 y6"
    using int_call [OF 5(2) [unfolded n(6)], of 77] by (auto simp: int32_ok_def)
  obtain y7 where 7: "tcall get_string 22 [put_string mid, put_string ''x''] y6 = Some ((0, Some (mid @ ''x'')), y7)" "testing 1 y7"
    using concat_call [OF 6(2) [unfolded n(7)], of mid "''x''"] len by auto
  obtain y8 where 8: "tcall get_string 22 [put_string big, put_string ''z''] y7 = Some ((0, Some (big @ ''z'')), y8)" "testing 0 y8"
    using concat_call [OF 7(2) [unfolded n(8)], of big "''z''"] len by auto
  have "simple_tests y = Some y8"
    unfolding simple_tests_def big_def [symmetric] mid_def [symmetric]
    by (simp add: 1(1) 2(1) 3(1) 4(1) 5(1) 6(1) 7(1) 8(1) expect_def len unmarshal_args_failure_def)
  then show ?thesis using 8(2) by blast
qed

text \<open>
  The threaded tests, over any interleaving, loss and repetition of messages: what a call that does not time out returns is right.
\<close>

lemma replay_mem:
  "replay pr st rs st' \<Longrightarrow> (x, p, a, b) \<in> set rs \<Longrightarrow> \<exists>f u st1 st2. mfind pr p = Some f \<and> u_ok u \<and> u_rest u = a \<and> reply_by f u b st1 st2"
  by (induction pr st rs st' rule: replay.induct) auto

lemma call_m_good:
  assumes "parses get (u_rest u) val" "u_ok u"
  shows "call_m (\<lambda>_ _. (0, u)) get p m = (0, Some val)"
proof -
  have "u_good u" using assms(2) by (simp add: u_ok_def)
  from parses_all [OF assms this refl] show ?thesis by (auto simp: call_m_def)
qed

lemma returned_reply:
  assumes "start_ok c s" "list_all (act_ok (procs s)) as" "rs_run as (rs_start c s) = Inr y"
    and "(x, ret, u) \<in> set (rs_rets y)" "ret \<noteq> timeout_failure" "(x, p, a) \<in> set (rs_calls y)"
  shows "\<exists>f u' st st' m. mfind (procs s) p = Some f \<and> u_ok u' \<and> u_rest u' = a \<and> f st u' marshall_new = Some (ret, m, st')
    \<and> u_ok u \<and> u_rest u = m_bytes m"
proof -
  have pr: "procs (rs_srv (rs_start c s)) = procs s" by (simp add: rs_start_def)
  have "sys_ok y" using rs_run_ok [OF rs_start_ok [OF assms(1)], of as] assms(2,3) by (simp add: pr)
  moreover have "history s (rs_start c s)" by (simp add: history_def rs_start_def)
  then have "history s y" using rs_run_history [OF rs_start_ok [OF assms(1)] _ assms(3)] assms(2) by (simp add: pr)
  ultimately have ok: "sys_ok y" "history s y" .
  then have log: "log_inv y" by (simp add: sys_ok_def)
  then have "answered (rs_runs y) x (ret, u)" using assms(4,5) by (fastforce simp: log_inv_def)
  then obtain p' a' b where b: "(x, p', a', b) \<in> set (rs_runs y)" "(ret, u) = decoded b" by (auto simp: answered_def)
  then have "(x, p', a') \<in> set (rs_calls y)" using log by (fastforce simp: log_inv_def)
  moreover have "distinct (map fst (rs_calls y))" using log by (simp add: log_inv_def)
  ultimately have "p' = p" "a' = a" using assms(6) by (auto dest: eq_key_imp_eq_value)
  moreover have "replay (procs s) (app s) (rs_runs y) (app (rs_srv y))" using ok(2) by (simp add: history_def)
  ultimately obtain f u' st st' where "mfind (procs s) p = Some f" "u_ok u'" "u_rest u' = a" "reply_by f u' b st st'"
    using replay_mem b(1) by metis
  then show ?thesis using b(2) [symmetric] by (auto simp: reply_by_def)
qed

lemma test_clients_ok:
  assumes "start_ok c s" "test_procs (procs s)" "list_all (act_ok (procs s)) as" "rs_run as (rs_start c s) = Inr y" "(x, ret, u) \<in> set (rs_rets y)"
  shows "(x, 25, enc_int n) \<in> set (rs_calls y) \<Longrightarrow> 0 \<le> n \<Longrightarrow> n \<le> int max_str \<Longrightarrow> ret \<noteq> timeout_failure
      \<Longrightarrow> client1_big n (call_m (\<lambda>_ _. (ret, u)) get_string 25 m) \<and> client2_check n (call_m (\<lambda>_ _. (ret, u)) get_string 25 m)"
    and "(x, if which then 23 else 24, enc_int i) \<in> set (rs_calls y) \<Longrightarrow> int32_ok i \<Longrightarrow> int32_ok (i + 2) \<Longrightarrow> ret \<noteq> timeout_failure
      \<Longrightarrow> client1_small which i (call_m (\<lambda>_ _. (ret, u)) get_int (if which then 23 else 24) m)"
    and "(x, 24, enc_int i) \<in> set (rs_calls y) \<Longrightarrow> int32_ok i \<Longrightarrow> int32_ok (i + 2) \<Longrightarrow> client3_check i (call_m (\<lambda>_ _. (ret, u)) get_int 24 m)"
proof -
  note R = returned_reply [OF assms(1,3-5)]
  show big: "client1_big n (call_m (\<lambda>_ _. (ret, u)) get_string 25 m) \<and> client2_check n (call_m (\<lambda>_ _. (ret, u)) get_string 25 m)"
    if n: "(x, 25, enc_int n) \<in> set (rs_calls y)" "0 \<le> n" "n \<le> int max_str" "ret \<noteq> timeout_failure"
  proof -
    obtain f u' st st' r where f: "mfind (procs s) 25 = Some f" "u_ok u'" "u_rest u' = enc_int n" "f st u' marshall_new = Some (ret, r, st')"
        "u_ok u" "u_rest u = m_bytes r" using R [OF n(4,1)] by blast
    have i: "int32_ok n" using n(2,3) by (simp add: int32_ok_def max_str_def)
    have "ret = 0" "u_rest u = enc_string (replicate (nat n) CHR ''x'')"
      using bigrep_result [OF i conjI [OF n(2,3)] f(2,3), of st] f(1,4,6) assms(2) by (auto simp: test_procs_def)
    moreover have "length (replicate (nat n) CHR ''x'') < 2 ^ 32" using n(2,3) by (simp add: nat_less_iff max_str_def)
    ultimately have "call_m (\<lambda>_ _. (ret, u)) get_string 25 m = (0, Some (replicate (nat n) CHR ''x''))"
      using f(5) call_m_good [where get = get_string, OF _ f(5)] parses_string by metis
    then show ?thesis using n(2) by (simp add: client1_big_def client2_check_def)
  qed
  show small: "client1_small which i (call_m (\<lambda>_ _. (ret, u)) get_int (if which then 23 else 24) m)"
    if i: "(x, if which then 23 else 24, enc_int i) \<in> set (rs_calls y)" "int32_ok i" "int32_ok (i + 2)" "ret \<noteq> timeout_failure" for which
  proof -
    let ?v = "if which then i + 1 else i + 2"
    obtain f u' st st' r where f: "mfind (procs s) (if which then 23 else 24) = Some f" "u_ok u'" "u_rest u' = enc_int i"
        "f st u' marshall_new = Some (ret, r, st')" "u_ok u" "u_rest u = m_bytes r" using R [OF i(4,1)] by blast
    have "f = h1_fn get_int put_int (if which then handle_fast else handle_slow)" using f(1) assms(2) by (auto simp: test_procs_def split: if_splits)
    then have "ret = 0" "u_rest u = enc_int ?v"
      using int_method_result [OF i(2) f(2,3), of "if which then handle_fast else handle_slow" ?v st] f(4,6)
      by (auto simp: handle_fast_def handle_slow_def split: if_splits)
    moreover have "int32_ok ?v" using i(2,3) by (auto simp: int32_ok_def)
    ultimately have "call_m (\<lambda>_ _. (ret, u)) get_int (if which then 23 else 24) m = (0, Some ?v)"
      using call_m_good [where get = get_int, OF _ f(5)] parses_int by metis
    then show ?thesis by (simp add: client1_small_def)
  qed
  show "client3_check i (call_m (\<lambda>_ _. (ret, u)) get_int 24 m)"
    if "(x, 24, enc_int i) \<in> set (rs_calls y)" "int32_ok i" "int32_ok (i + 2)"
    using small [of False] that by (cases "ret = timeout_failure") (auto simp: client1_small_def client3_check_def call_m_def timeout_failure_def)
qed

lemma startserver_result:
  obtains s where "startserver n = Some s" "test_procs (procs s)" "mfind (procs s) bind_proc = Some (bind_handler n)" "nonce s = n" "reply_window s = []"
  by (simp add: startserver_def reg1_def rpcs_new_def bind_proc_def mcount_def test_procs_def mfind_def)

lemma bind_new_result:
  assumes "rnd \<noteq> 0" "test_procs (procs s)" "mfind (procs s) bind_proc = Some (bind_handler (nonce s))" "reply_window s = []"
  obtains c s' where "bind_new rnd s = Some (c, s')" "start_ok c s'" "testing 8 (rs_start c s')" "srv_nonce c = nonce s"
proof -
  have "mget [] (reply_window s) rnd = []" by (simp add: assms(4) mget_def mfind_def)
  from bind_start [OF assms(1,3) this, of "\<lambda>_. False" 0]
  obtain m m' c1 k b s1 r c2 where B: "put_int 0 marshall_new = Some m" "call1_begin bind_proc m (rpcc_new True rnd) = (Some (Inr (1, m')), c1)"
      "dispatch (\<lambda>_. False) 0 (reply_bytes m') s = Inr ([(k, b)], s1)" "call1_end 1 (rpcc_got_pdu b c1) = (r, c2)"
      "call_m (\<lambda>_ _. r) get_int bind_proc m = (0, Some (sint (nonce s)))" "start_ok (snd (rpcc_bind (0, Some (sint (nonce s))) c2)) s1"
      "next_xid c2 = 2" "procs s1 = procs s"
    by blast
  define c where "c = snd (rpcc_bind (0, Some (sint (nonce s))) c2)"
  have "bind_new rnd s = Some (c, s1)"
    using B by (simp add: bind_new_def bind_call_def direct_call_def expect_def c_def rpcc_bind_def)
  moreover have "next_xid c = 2" using B(7) by (simp add: c_def rpcc_bind_def)
  then have "testing 8 (rs_start c s1)"
    using rs_start_ok [OF B(6)] assms(2) B(8) by (simp add: testing_def c_def [symmetric]) (simp add: rs_start_def)
  moreover have "srv_nonce c = nonce s" by (simp add: c_def rpcc_bind_def)
  ultimately show ?thesis using that B(6) by (simp add: c_def)
qed

text \<open>A client bound to an earlier incarnation of the server is told so, and the server does not look at its request.\<close>

lemma old_server_call:
  assumes "bind_done c" "\<not> destroy_wait c" "p \<noteq> bind_proc" "srv_nonce c \<noteq> 0" "srv_nonce c \<noteq> nonce s" "m_ok m" "m_ind m < 2 ^ 32"
  shows "\<exists>v c'. direct_call p m c s = Some ((oldsrv_failure, v), c', s)"
proof -
  let ?x = "next_xid c"
  define h where "h = \<lparr>rq_xid = ?x, rq_proc = p, rq_clt_nonce = clt_nonce c, rq_srv_nonce = srv_nonce c, rq_xid_rep = hd (xid_rep_window c)\<rparr>"
  obtain m' where m': "pack_req_header h m = Some m'" using req_pdu [OF assms(6)] by blast
  obtain u where u: "unpack_req_header (unmarshall_pdu (reply_bytes m')) = (h, u)" "u_good u" using reply_bytes_req [OF assms(6,7) m'] by blast
  obtain r v where r: "pack_reply_header \<lparr>rp_xid = ?x, rp_ret = oldsrv_failure\<rparr> marshall_new = Some r"
      "unpack_reply_header (unmarshall_pdu (reply_bytes r)) = (\<lparr>rp_xid = ?x, rp_ret = oldsrv_failure\<rparr>, v)" "u_good v"
    using reply_bytes_reply [OF m_ok_new, of "\<lparr>rp_xid = ?x, rp_ret = oldsrv_failure\<rparr>"]
    by (auto simp: m_ind_bytes int32_ok_def oldsrv_failure_def)
  have "dispatch (\<lambda>_. False) 0 (reply_bytes m') s = Inr ([(0, reply_bytes r)], s)"
    using u r(1) assms(4,5) by (simp add: dispatch_def dispatch_fail_def h_def)
  moreover have "call1_begin p m c = (Some (Inr (?x, m')), c\<lparr>next_xid := ?x + 1, calls := mput ?x \<lparr>ca_un = unmarshall_new, ca_ret = 0, ca_done = False\<rparr> (calls c)\<rparr>)"
    using assms(1-3) m' by (simp add: call1_begin_def h_def Let_def)
  ultimately show ?thesis
    using r(2,3) by (simp add: direct_call_def rpcc_got_pdu_def call1_end_def mget_def)
qed

lemma failure_test_ok:
  assumes "bind_done old" "\<not> destroy_wait old" "srv_nonce old \<noteq> 0" "srv_nonce old \<noteq> n" "rnd \<noteq> 0"
  shows "\<exists>y. failure_test old n rnd = Some y"
proof -
  obtain s where s: "startserver n = Some s" "test_procs (procs s)" "mfind (procs s) bind_proc = Some (bind_handler n)" "nonce s = n" "reply_window s = []"
    by (rule startserver_result)
  obtain m where m: "put_all [put_string ''hello'', put_string '' goodbye''] marshall_new = Some m" "m_ok m"
      "m_bytes m = m_bytes marshall_new @ enc_string ''hello'' @ enc_string '' goodbye''"
    using emits_put_two [OF emits_string emits_string] by (rule emitsD [OF _ m_ok_new])
  then obtain v old' where o: "direct_call 22 m old s = Some ((oldsrv_failure, v), old', s)"
    using old_server_call [OF assms(1,2) _ assms(3), of 22 s m] assms(4) s(4) by (auto simp: m_ind_bytes bind_proc_def)
  obtain c s' where c: "bind_new rnd s = Some (c, s')" "start_ok c s'" "testing 8 (rs_start c s')"
    using bind_new_result [OF assms(5) s(2)] s(3-5) by metis
  have "call1_begin bind_proc k c = (Some (Inl bind_failure), c)" for k using c(2) by (simp add: call1_begin_def start_ok_def)
  moreover obtain k where "put_int 0 marshall_new = Some k" using emits_int by (rule emitsD [OF _ m_ok_new])
  ultimately have "bind_call c s' = Some (bind_failure, c, s')"
    by (simp add: bind_call_def direct_call_def call_m_def rpcc_bind_def bind_failure_def)
  moreover have e: "(8::nat) = Suc 7" by simp
  moreover obtain y where "tcall get_string 22 [put_string ''hello'', put_string '' goodbye''] (rs_start c s') = Some ((0, Some (''hello'' @ '' goodbye'')), y)"
    using concat_call [OF c(3) [unfolded e], of "''hello''" "'' goodbye''"] by auto
  ultimately have "failure_test old n rnd = Some y"
    using s(1) m(1) o c(1)
    by (simp add: failure_test_def expect_def call_m_def oldsrv_failure_def bind_failure_def del: put_all.simps)
  then show ?thesis by blast
qed

lemma bind_unanswered_ok: "\<exists>c. bind_unanswered rnd = Some c \<and> \<not> bind_done c"
proof -
  obtain m where m: "put_int 0 marshall_new = Some m" "m_ok m" using emits_int by (rule emitsD [OF _ m_ok_new])
  let ?c = "rpcc_new True rnd"
  obtain m' where "pack_req_header \<lparr>rq_xid = next_xid ?c, rq_proc = bind_proc, rq_clt_nonce = clt_nonce ?c, rq_srv_nonce = srv_nonce ?c,
      rq_xid_rep = hd (xid_rep_window ?c)\<rparr> m = Some m'" using req_pdu [OF m(2)] by blast
  then have "call1_begin bind_proc m ?c = (Some (Inr (next_xid ?c, m')),
      ?c\<lparr>next_xid := next_xid ?c + 1, calls := mput (next_xid ?c) \<lparr>ca_un = unmarshall_new, ca_ret = 0, ca_done = False\<rparr> (calls ?c)\<rparr>)"
    by (simp add: call1_begin_def rpcc_new_def Let_def)
  then show ?thesis using m(1)
    by (simp add: bind_unanswered_def call1_end_def mget_def mfind_def call_m_def timeout_failure_def rpcc_bind_def expect_def rpcc_new_def Let_def)
qed

text \<open>
  The sequential tests.  A client that binds to the test server, whatever nonces the two draw, passes \<open>simple_tests\<close>: strings are
  concatenated, up to a million characters long, a small request gets a large reply, and calls with too few arguments, too many or
  arguments of the wrong type are rejected and leave the connection usable.  When the server is then started anew it passes
  \<open>failure_test\<close>: the old client is told that its server is gone, a new one binds once and is served.
\<close>

lemma rpctest_sequential:
  assumes "rnd \<noteq> 0" "rnd' \<noteq> 0" "n \<noteq> 0" "n' \<noteq> n"
  shows "\<exists>s c s' y y'. testmarshall = Some () \<and> startserver n = Some s \<and> bind_new rnd s = Some (c, s') \<and> simple_tests (rs_start c s') = Some y
    \<and> failure_test c n' rnd' = Some y' \<and> start_ok c s' \<and> test_procs (procs s')"
proof -
  obtain s where s: "startserver n = Some s" "test_procs (procs s)" "mfind (procs s) bind_proc = Some (bind_handler n)" "nonce s = n" "reply_window s = []"
    by (rule startserver_result)
  obtain c s' where c: "bind_new rnd s = Some (c, s')" "start_ok c s'" "testing 8 (rs_start c s')" "srv_nonce c = n"
    using bind_new_result [OF assms(1) s(2)] s(3-5) by metis
  then obtain y' where "failure_test c n' rnd' = Some y'"
    using failure_test_ok [of c n' rnd'] c(2) assms by (auto simp: start_ok_def)
  moreover have "test_procs (procs s')" using c(3) by (simp add: testing_def rs_start_def)
  ultimately show ?thesis using simple_tests_ok [OF c(3)] s(1) c(1,2) testmarshall_passes by blast
qed

end
