(* ===== verification/RpcThreads.thy ===== *)
theory RpcThreads
  imports RpcTest
begin

text \<open>
  The threaded parts of \<open>rpc/rpctest.cc\<close>: the functions \<open>client1\<close>, \<open>client2\<close> and \<open>client3\<close> run by threads that share a client, over the system of the
  theory \<open>RpcSystem\<close>, with their assertions checked when a call returns.
\<close>

subsection \<open>The threads\<close>

text \<open>The calls the threads make, and what they assert of the outcome.\<close>

datatype tcall_kind = Big int | Small bool int | Lossy int | Slow int

fun tc_proc :: "tcall_kind \<Rightarrow> u32" where
  "tc_proc (Big a) = 25"
| "tc_proc (Small which a) = (if which then 23 else 24)"
| "tc_proc (Lossy a) = 25"
| "tc_proc (Slow i) = 24"

fun tc_arg :: "tcall_kind \<Rightarrow> int" where
  "tc_arg (Big a) = a"
| "tc_arg (Small which a) = a"
| "tc_arg (Lossy a) = a"
| "tc_arg (Slow i) = i"

fun tc_check :: "tcall_kind \<Rightarrow> int \<times> unmarshall \<Rightarrow> marshall \<Rightarrow> bool" where
  "tc_check (Big a) r m = client1_big a (call_m (\<lambda>_ _. r) get_string 25 m)"
| "tc_check (Small which a) r m = client1_small which a (call_m (\<lambda>_ _. r) get_int (if which then 23 else 24) m)"
| "tc_check (Lossy a) r m = client2_check a (call_m (\<lambda>_ _. r) get_string 25 m)"
| "tc_check (Slow i) r m = client3_check i (call_m (\<lambda>_ _. r) get_int 24 m)"

text \<open>The functions of the threads; the arguments are what \<open>random\<close> returns.  The clock decides how often \<open>client2\<close> goes round.\<close>

definition client1 :: "nat list \<Rightarrow> (nat \<times> nat) list \<Rightarrow> tcall_kind list" where
  "client1 bs ws = map (\<lambda>r. Big (int (r mod 2000))) bs @ map (\<lambda>(w, r). Small (w mod 2 \<noteq> 0) (int (r mod 1000))) ws"

definition client2 :: "nat list \<Rightarrow> tcall_kind list" where
  "client2 bs = map (\<lambda>r. Lossy (int (r mod 2000))) bs"

definition client3 :: "tcall_kind list" where
  "client3 = map Slow [0, 1, 2, 3]"

definition NUM_CL :: nat where "NUM_CL = 2"

text \<open>The threads the tests start, those of client \<open>k\<close>; \<open>bs\<close> and \<open>ws\<close> give the random numbers of each thread.\<close>

definition concurrent_test :: "nat \<Rightarrow> nat \<Rightarrow> (nat \<Rightarrow> nat list) \<Rightarrow> (nat \<Rightarrow> (nat \<times> nat) list) \<Rightarrow> tcall_kind list list" where
  "concurrent_test k nt bs ws = map (\<lambda>i. client1 (bs i) (ws i)) (filter (\<lambda>i. i mod NUM_CL = k) [0 ..< nt])"

definition lossy_test :: "nat \<Rightarrow> (nat \<Rightarrow> nat list) \<Rightarrow> tcall_kind list list" where
  "lossy_test k bs = map (\<lambda>i. client2 (bs i)) (filter (\<lambda>i. i mod NUM_CL = k) [0 ..< 1])"

definition failure_threads :: "tcall_kind list list" where
  "failure_threads = map (\<lambda>i. client3) [0 ..< 10 :: nat]"

subsection \<open>Running them\<close>

text \<open>Each thread has the calls it has still to make and the call it waits for.\<close>

record tt_state =
  tt_sys :: "unit rpc_sys"
  tt_threads :: "(tcall_kind list \<times> (u32 \<times> tcall_kind) option) list"

datatype tt_event = TCall nat | TReturn nat | TNet rs_act

datatype tt_error = AssertFailed tcall_kind | Refused tcall_kind | ServerFailed dispatch_error

definition tc_msg :: "tcall_kind \<Rightarrow> marshall option" where
  "tc_msg k = put_int (tc_arg k) marshall_new"

text \<open>
  A thread enters its next call; its call returns and it checks the result; the network and the server take a step.  An event that is not possible
  changes nothing, and so does a call for which the client has no xid left.
\<close>

fun tt_step :: "tt_event \<Rightarrow> tt_state \<Rightarrow> tt_error + tt_state" where
  "tt_step (TCall t) s =
     (if \<not> t < length (tt_threads s) \<or> next_xid (rs_clt (tt_sys s)) = - 1 then Inr s
      else case tt_threads s ! t of
        (k # ks, None) \<Rightarrow>
          (case tc_msg k of
             None \<Rightarrow> Inl (Refused k)
           | Some m \<Rightarrow>
               (case rs_step (Call (tc_proc k) m) (tt_sys s) of
                  Inl e \<Rightarrow> Inl (ServerFailed e)
                | Inr y \<Rightarrow>
                    if length (rs_calls y) = length (rs_calls (tt_sys s)) then Inl (Refused k)
                    else Inr (s\<lparr>tt_sys := y, tt_threads := (tt_threads s)[t := (ks, Some (next_xid (rs_clt (tt_sys s)), k))]\<rparr>)))
      | _ \<Rightarrow> Inr s)"
| "tt_step (TReturn t) s =
     (if \<not> t < length (tt_threads s) then Inr s
      else case tt_threads s ! t of
        (ks, Some (x, k)) \<Rightarrow>
          if \<not> mcount (calls (rs_clt (tt_sys s))) x then Inr s
          else (case (rs_step (Return x) (tt_sys s), tc_msg k) of
             (Inr y, Some m) \<Rightarrow>
               if tc_check k (snd (last (rs_rets y))) m then Inr (s\<lparr>tt_sys := y, tt_threads := (tt_threads s)[t := (ks, None)]\<rparr>)
               else Inl (AssertFailed k)
           | (Inl e, _) \<Rightarrow> Inl (ServerFailed e)
           | (_, None) \<Rightarrow> Inl (Refused k))
      | _ \<Rightarrow> Inr s)"
| "tt_step (TNet a) s =
     (case a of
        Call p m \<Rightarrow> Inr s
      | Return x \<Rightarrow> Inr s
      | _ \<Rightarrow> (case rs_step a (tt_sys s) of Inl e \<Rightarrow> Inl (ServerFailed e) | Inr y \<Rightarrow> Inr (s\<lparr>tt_sys := y\<rparr>)))"

fun tt_run :: "tt_event list \<Rightarrow> tt_state \<Rightarrow> tt_error + tt_state" where
  "tt_run [] s = Inr s"
| "tt_run (e # es) s = (case tt_step e s of Inl x \<Rightarrow> Inl x | Inr s \<Rightarrow> tt_run es s)"

definition tt_start :: "rpcc \<Rightarrow> unit rpcs \<Rightarrow> tcall_kind list list \<Rightarrow> tt_state" where
  "tt_start c s ps = \<lparr>tt_sys = rs_start c s, tt_threads = map (\<lambda>p. (p, None)) ps\<rparr>"

text \<open>The calls of \<open>client1\<close> and \<open>client2\<close> are not prepared for a time-out.\<close>

fun in_time :: "tt_event \<Rightarrow> tt_state \<Rightarrow> bool" where
  "in_time (TReturn t) s =
     (if \<not> t < length (tt_threads s) then True
      else case snd (tt_threads s ! t) of
             Some (x, Slow i) \<Rightarrow> True
           | Some (x, k) \<Rightarrow> fst (fst (call1_end x (rs_clt (tt_sys s)))) \<noteq> timeout_failure
           | None \<Rightarrow> True)"
| "in_time e s = True"

fun all_in_time :: "tt_event list \<Rightarrow> tt_state \<Rightarrow> bool" where
  "all_in_time [] s = True"
| "all_in_time (e # es) s = (in_time e s \<and> (case tt_step e s of Inl x \<Rightarrow> True | Inr s \<Rightarrow> all_in_time es s))"

subsection \<open>Their assertions hold\<close>

fun tc_ok :: "tcall_kind \<Rightarrow> bool" where
  "tc_ok (Big a) = (0 \<le> a \<and> a < 2000)"
| "tc_ok (Small which a) = (0 \<le> a \<and> a < 2000)"
| "tc_ok (Lossy a) = (0 \<le> a \<and> a < 2000)"
| "tc_ok (Slow i) = (0 \<le> i \<and> i < 2000)"

lemma tc_ok_arg: "tc_ok k \<Longrightarrow> int32_ok (tc_arg k) \<and> int32_ok (tc_arg k + 2) \<and> 0 \<le> tc_arg k \<and> tc_arg k \<le> int max_str"
  by (cases k) (auto simp: int32_ok_def max_str_def)

lemma tc_ok_tests:
  "k \<in> set (client1 bs ws) \<Longrightarrow> tc_ok k" "k \<in> set (client2 bs) \<Longrightarrow> tc_ok k" "k \<in> set client3 \<Longrightarrow> tc_ok k"
  by (auto simp: client1_def client2_def client3_def intro: less_trans [of _ 1000])

definition tt_thread_ok :: "(u32 \<times> u32 \<times> byte list) set \<Rightarrow> tcall_kind list \<times> (u32 \<times> tcall_kind) option \<Rightarrow> bool" where
  "tt_thread_ok cs th \<longleftrightarrow> (\<forall>k \<in> set (fst th). tc_ok k) \<and> (\<forall>x k. snd th = Some (x, k) \<longrightarrow> tc_ok k \<and> (x, tc_proc k, enc_int (tc_arg k)) \<in> cs)"

definition tt_inv :: "rpcc \<Rightarrow> unit rpcs \<Rightarrow> tt_state \<Rightarrow> bool" where
  "tt_inv c s st \<longleftrightarrow> (\<exists>as. list_all (act_ok (procs s)) as \<and> rs_run as (rs_start c s) = Inr (tt_sys st))
     \<and> (\<forall>th \<in> set (tt_threads st). tt_thread_ok (set (rs_calls (tt_sys st))) th)"

lemma tc_msg_ok: "\<exists>m. tc_msg k = Some m \<and> m_ok m \<and> m_bytes m = enc_int (tc_arg k)"
  unfolding tc_msg_def using emitsD [OF emits_int m_ok_new, of "tc_arg k"] by auto

lemma tc_served:
  assumes "test_procs pr" "tc_ok k"
  shows "served pr (tc_proc k) (enc_int (tc_arg k))"
proof -
  note a = tc_ok_arg [OF assms(2)]
  have big: "handles bigrep_fn (enc_int (tc_arg k))"
    unfolding handles_def
  proof (intro allI impI)
    fix st u assume "u_ok u \<and> u_rest u = enc_int (tc_arg k)"
    then obtain m where "bigrep_fn st u marshall_new = Some (0, m, st)" "m_ok m" "m_bytes m = enc_string (replicate (nat (tc_arg k)) CHR ''x'')"
      using bigrep_result [of "tc_arg k" u st] a by blast
    moreover have "tc_arg k < 2000" using assms(2) by (cases k) auto
    ultimately show "\<exists>ret m st'. bigrep_fn st u marshall_new = Some (ret, m, st') \<and> (0 \<le> ret \<or> ret = unmarshal_args_failure) \<and> int32_ok ret \<and> m_ok m \<and> m_ind m < 2 ^ 32"
      by (auto simp: m_ind_bytes int32_ok_def)
  qed
  have small: "handles (h1_fn get_int put_int meth) (enc_int (tc_arg k))" if meth: "\<And>st. meth st (tc_arg k) = (0, r, st)" for meth r
    unfolding handles_def
  proof (intro allI impI)
    fix st u assume "u_ok u \<and> u_rest u = enc_int (tc_arg k)"
    then obtain m where "h1_fn get_int put_int meth st u marshall_new = Some (0, m, st)" "m_ok m" "m_bytes m = enc_int r"
      using int_method_result [of "tc_arg k" u meth r st, OF _ _ _ meth] a by blast
    then show "\<exists>ret m st'. h1_fn get_int put_int meth st u marshall_new = Some (ret, m, st') \<and> (0 \<le> ret \<or> ret = unmarshal_args_failure) \<and> int32_ok ret \<and> m_ok m \<and> m_ind m < 2 ^ 32"
      by (auto simp: m_ind_bytes int32_ok_def)
  qed
  show ?thesis using assms(1) big small [of handle_fast] small [of handle_slow]
    by (cases k) (auto simp: served_def test_procs_def handle_fast_def handle_slow_def)
qed

lemma rs_run_snoc:
  assumes "start_ok c s" "list_all (act_ok (procs s)) as" "rs_run as (rs_start c s) = Inr y" "act_ok (procs s) a"
  shows "\<exists>y'. rs_step a y = Inr y' \<and> list_all (act_ok (procs s)) (as @ [a]) \<and> rs_run (as @ [a]) (rs_start c s) = Inr y'"
proof -
  have pr: "procs (rs_srv (rs_start c s)) = procs s" by (simp add: rs_start_def)
  have "list_all (act_ok (procs s)) (as @ [a])" using assms(2,4) by simp
  moreover obtain y' where "rs_run (as @ [a]) (rs_start c s) = Inr y'"
    using rs_run_ok [OF rs_start_ok [OF assms(1)], of "as @ [a]"] calculation unfolding pr by blast
  ultimately show ?thesis using assms(3) by (auto simp: rs_run_append split: sum.splits)
qed

lemma rs_step_calls: "rs_step a y = Inr y' \<Longrightarrow> set (rs_calls y) \<subseteq> set (rs_calls y')"
  by (cases a) (auto simp: Let_def split: if_splits option.splits sum.splits prod.splits)

lemma rs_call_logged:
  assumes "sys_ok y" "next_xid (rs_clt y) \<noteq> - 1" "p \<noteq> bind_proc" "rs_step (Call p m) y = Inr y'"
  shows "rs_calls y' = rs_calls y @ [(next_xid (rs_clt y), p, m_bytes m)]"
proof -
  have "bind_done (rs_clt y)" "\<not> destroy_wait (rs_clt y)" using assms(1) by (simp_all add: sys_ok_def clt_inv_def)
  then show ?thesis using assms(2-4) by (auto simp: call1_begin_def Let_def split: option.splits)
qed

lemma tt_thread_ok_mono: "tt_thread_ok cs th \<Longrightarrow> cs \<subseteq> cs' \<Longrightarrow> tt_thread_ok cs' th"
  by (auto simp: tt_thread_ok_def)

lemma tt_inv_upd:
  assumes "tt_inv c s st" "rs_step a (tt_sys st) = Inr y" "\<exists>as. list_all (act_ok (procs s)) as \<and> rs_run as (rs_start c s) = Inr y"
  shows "tt_inv c s (st\<lparr>tt_sys := y\<rparr>)"
    and "tt_thread_ok (set (rs_calls y)) th \<Longrightarrow> tt_inv c s (st\<lparr>tt_sys := y, tt_threads := (tt_threads st)[t := th]\<rparr>)"
proof -
  have "\<forall>th \<in> set (tt_threads st). tt_thread_ok (set (rs_calls y)) th"
    using assms(1) tt_thread_ok_mono [OF _ rs_step_calls [OF assms(2)]] by (simp add: tt_inv_def)
  then show "tt_inv c s (st\<lparr>tt_sys := y\<rparr>)" "tt_thread_ok (set (rs_calls y)) th \<Longrightarrow> tt_inv c s (st\<lparr>tt_sys := y, tt_threads := (tt_threads st)[t := th]\<rparr>)"
    using assms(3) set_update_subset_insert [of "tt_threads st" t th] unfolding tt_inv_def by auto
qed

lemma tc_check_ok:
  assumes "start_ok c s" "test_procs (procs s)" "list_all (act_ok (procs s)) as" "rs_run as (rs_start c s) = Inr y" "(x, ret, u) \<in> set (rs_rets y)"
    and "(x, tc_proc k, enc_int (tc_arg k)) \<in> set (rs_calls y)" "tc_ok k" "(\<exists>i. k = Slow i) \<or> ret \<noteq> timeout_failure"
  shows "tc_check k (ret, u) m"
proof -
  note T = test_clients_ok [OF assms(1-5)] and a = tc_ok_arg [OF assms(7)]
  show ?thesis
  proof (cases k)
    case (Big n) then show ?thesis using T(1) [of n m] assms(6,8) a by auto
  next
    case (Small which i) then show ?thesis using T(2) [of which i m] assms(6,8) a by auto
  next
    case (Lossy n) then show ?thesis using T(1) [of n m] assms(6,8) a by auto
  next
    case (Slow i) then show ?thesis using T(3) [of i m] assms(6) a by auto
  qed
qed

lemma tt_step_ok:
  assumes so: "start_ok c s" and tp: "test_procs (procs s)" and inv: "tt_inv c s st" and it: "in_time e st"
  shows "\<exists>st'. tt_step e st = Inr st' \<and> tt_inv c s st'"
proof -
  let ?y = "tt_sys st"
  obtain as where as: "list_all (act_ok (procs s)) as" "rs_run as (rs_start c s) = Inr ?y" using inv by (auto simp: tt_inv_def)
  have pr: "procs (rs_srv (rs_start c s)) = procs s" by (simp add: rs_start_def)
  have ok: "sys_ok ?y" using rs_run_ok [OF rs_start_ok [OF so], of as] as by (simp add: pr)
  have th: "tt_thread_ok (set (rs_calls ?y)) (tt_threads st ! t)" if "t < length (tt_threads st)" for t
    using inv nth_mem [OF that] by (simp add: tt_inv_def)
  show ?thesis
  proof (cases e)
    case (TNet a)
    show ?thesis
    proof (cases "\<exists>p m x. a = Call p m \<or> a = Return x")
      case True then show ?thesis using inv TNet by auto
    next
      case False
      then have "act_ok (procs s) a" by (cases a) auto
      then obtain y where y: "rs_step a ?y = Inr y" "\<exists>as. list_all (act_ok (procs s)) as \<and> rs_run as (rs_start c s) = Inr y"
        using rs_run_snoc [OF so as] by blast
      then show ?thesis using TNet False tt_inv_upd(1) [OF inv y] by (cases a) auto
    qed
  next
    case (TCall t)
    show ?thesis
    proof (cases "t < length (tt_threads st) \<and> next_xid (rs_clt ?y) \<noteq> - 1 \<and> (\<exists>k ks. tt_threads st ! t = (k # ks, None))")
      case False then show ?thesis using inv TCall by (auto split: prod.splits list.splits option.splits)
    next
      case True
      then obtain k ks where t: "t < length (tt_threads st)" "next_xid (rs_clt ?y) \<noteq> - 1" "tt_threads st ! t = (k # ks, None)" by blast
      have k: "tc_ok k" "\<forall>k \<in> set ks. tc_ok k" using th [OF t(1)] t(3) by (simp_all add: tt_thread_ok_def)
      obtain m where m: "tc_msg k = Some m" "m_ok m" "m_bytes m = enc_int (tc_arg k)" using tc_msg_ok by blast
      have "act_ok (procs s) (Call (tc_proc k) m)" using tc_served [OF tp k(1)] m by (simp add: m_ind_bytes)
      then obtain y where y: "rs_step (Call (tc_proc k) m) ?y = Inr y" "\<exists>as. list_all (act_ok (procs s)) as \<and> rs_run as (rs_start c s) = Inr y"
        using rs_run_snoc [OF so as] by blast
      have "tc_proc k \<noteq> bind_proc" by (cases k) (auto simp: bind_proc_def)
      then have l: "rs_calls y = rs_calls ?y @ [(next_xid (rs_clt ?y), tc_proc k, enc_int (tc_arg k))]"
        using rs_call_logged [OF ok t(2) _ y(1)] m(3) by simp
      have "tt_inv c s (st\<lparr>tt_sys := y, tt_threads := (tt_threads st)[t := (ks, Some (next_xid (rs_clt ?y), k))]\<rparr>)"
        by (rule tt_inv_upd(2) [OF inv y]) (use k l in \<open>simp add: tt_thread_ok_def\<close>)
      then show ?thesis using TCall t m(1) y(1) l by (simp del: rs_step.simps)
    qed
  next
    case (TReturn t)
    show ?thesis
    proof (cases "t < length (tt_threads st) \<and> (\<exists>ks x k. tt_threads st ! t = (ks, Some (x, k)) \<and> mcount (calls (rs_clt ?y)) x)")
      case False then show ?thesis using inv TReturn by (auto split: prod.splits option.splits)
    next
      case True
      then obtain ks x k where t: "t < length (tt_threads st)" "tt_threads st ! t = (ks, Some (x, k))" "mcount (calls (rs_clt ?y)) x" by blast
      have k: "tc_ok k" "(x, tc_proc k, enc_int (tc_arg k)) \<in> set (rs_calls ?y)" "\<forall>k \<in> set ks. tc_ok k" using th [OF t(1)] t(2) by (simp_all add: tt_thread_ok_def)
      obtain m where m: "tc_msg k = Some m" using tc_msg_ok by blast
      obtain y as' where y: "rs_step (Return x) ?y = Inr y" "list_all (act_ok (procs s)) as'" "rs_run as' (rs_start c s) = Inr y"
        using rs_run_snoc [OF so as, of "Return x"] unfolding act_ok.simps by blast
      obtain ret u c' where r: "call1_end x (rs_clt ?y) = ((ret, u), c')" by (metis prod.collapse)
      then have ys: "rs_rets y = rs_rets ?y @ [(x, ret, u)]" "rs_calls y = rs_calls ?y" using y(1) t(3) by auto
      have "(\<exists>i. k = Slow i) \<or> ret \<noteq> timeout_failure" using it TReturn t r by (cases k) auto
      then have "tc_check k (ret, u) m" using tc_check_ok [OF so tp y(2,3), of x ret u k m] k ys by simp
      moreover have "tt_inv c s (st\<lparr>tt_sys := y, tt_threads := (tt_threads st)[t := (ks, None)]\<rparr>)"
        by (rule tt_inv_upd(2) [OF inv y(1)]) (use k(3) y(2,3) in \<open>auto simp: tt_thread_ok_def\<close>)
      ultimately show ?thesis using TReturn t m y(1) ys(1) by (simp del: rs_step.simps)
    qed
  qed
qed

lemma tt_run_ok:
  "start_ok c s \<Longrightarrow> test_procs (procs s) \<Longrightarrow> tt_inv c s st \<Longrightarrow> all_in_time es st \<Longrightarrow> \<exists>st'. tt_run es st = Inr st'"
proof (induction es arbitrary: st)
  case (Cons e es)
  obtain st1 where "tt_step e st = Inr st1" "tt_inv c s st1" using tt_step_ok [OF Cons.prems(1-3), of e] Cons.prems(4) by auto
  then show ?case using Cons.IH [OF Cons.prems(1,2), of st1] Cons.prems(4) by (simp del: tt_step.simps)
qed simp

definition test_threads :: "tcall_kind list list \<Rightarrow> bool" where
  "test_threads ps \<longleftrightarrow> (\<exists>k nt bs ws. ps = concurrent_test k nt bs ws) \<or> (\<exists>k bs. ps = lossy_test k bs) \<or> ps = failure_threads"

lemma test_threads_ok: "test_threads ps \<Longrightarrow> p \<in> set ps \<Longrightarrow> k \<in> set p \<Longrightarrow> tc_ok k"
  using tc_ok_tests by (auto simp: test_threads_def concurrent_test_def lossy_test_def failure_threads_def)

lemma tt_start_inv: "start_ok c s \<Longrightarrow> test_threads ps \<Longrightarrow> tt_inv c s (tt_start c s ps)"
  using test_threads_ok unfolding tt_inv_def tt_start_def by (auto simp: tt_thread_ok_def intro: exI [of _ "[]"])



end
