(* ===== verification/LockServerCache.thy ===== *)
theory LockServerCache
  imports Protocols
begin

text \<open>
  The caching lock server, \<open>lock_server_cache.cc\<close>: \<open>subscribe\<close>, \<open>acquire\<close>, \<open>release\<close>, \<open>stat\<close>, one turn of the \<open>revoker\<close> and of the
  \<open>retryer\<close> thread, \<open>findFreeLocks\<close>, \<open>marshal_state\<close> and \<open>unmarshal_state\<close>.  A handler returns \<open>None\<close> when one of its assertions
  fails.  A client's \<open>rpcc\<close> is represented by the host it is bound to.
\<close>

definition FREE :: int where "FREE = 0"
definition LOCKED :: int where "LOCKED = 1"
definition REVOKING :: int where "REVOKING = 2"

lemmas lock_status_defs = FREE_def LOCKED_def REVOKING_def

datatype lock_status = LOK | LRETRY | LRPCERR

record revoke_info =
  ri_lid :: u64
  ri_clid :: int
  ri_seqid :: u64

record lock_server_cache =
  m_lock_status :: "(u64, int) stdmap"
  m_clid_rpcc :: "(int, string) stdmap"
  m_clid_host :: "(int, string) stdmap"
  m_lock_clid :: "(u64, int) stdmap"
  m_lock_retrylist :: "(u64, int list) stdmap"
  l_revoke :: "revoke_info list"
  m_lock_clid_count :: "(u64, (int, int) stdmap) stdmap"
  m_lock_seqid :: "(u64, u64) stdmap"

definition lsc_new :: lock_server_cache where
  "lsc_new = \<lparr>m_lock_status = [], m_clid_rpcc = [], m_clid_host = [], m_lock_clid = [], m_lock_retrylist = [],
     l_revoke = [], m_lock_clid_count = [], m_lock_seqid = []\<rparr>"

text \<open>\<open>bound\<close>: whether binding the new \<open>rpcc\<close> to the client succeeds; otherwise the server exits.\<close>

definition lsc_subscribe :: "bool \<Rightarrow> int \<Rightarrow> string \<Rightarrow> lock_server_cache \<Rightarrow> (lock_status \<times> lock_server_cache) option" where
  "lsc_subscribe bound clid host s =
     (let s = s\<lparr>m_clid_host := mput clid host (m_clid_host s)\<rparr> in
      if \<not> bound then None else Some (LOK, s\<lparr>m_clid_rpcc := mput clid host (m_clid_rpcc s)\<rparr>))"

text \<open>\<open>l_revoke.push_back(info)\<close> for the current holder, unless a revoke is already under way.\<close>

definition queue_revoke :: "u64 \<Rightarrow> lock_server_cache \<Rightarrow> lock_server_cache" where
  "queue_revoke lid s =
     (if mget 0 (m_lock_status s) lid \<noteq> REVOKING
      then s\<lparr>m_lock_status := mput lid REVOKING (m_lock_status s),
             l_revoke := l_revoke s @ [\<lparr>ri_lid = lid, ri_clid = mget 0 (m_lock_clid s) lid, ri_seqid = mget 0 (m_lock_seqid s) lid\<rparr>]\<rparr>
      else s)"

definition count_acquire :: "int \<Rightarrow> u64 \<Rightarrow> lock_server_cache \<Rightarrow> lock_server_cache" where
  "count_acquire clid lid s =
     (let m = mget [] (m_lock_clid_count s) lid
      in s\<lparr>m_lock_clid_count := mput lid (if \<not> mcount m clid then mput clid 1 m else mput clid (mget 0 m clid + 1) m)
             (m_lock_clid_count s)\<rparr>)"

definition create_lock :: "u64 \<Rightarrow> lock_server_cache \<Rightarrow> lock_server_cache" where
  "create_lock lid s =
     (if \<not> mcount (m_lock_status s) lid
      then s\<lparr>m_lock_status := mput lid FREE (m_lock_status s), m_lock_retrylist := mput lid [] (m_lock_retrylist s),
             m_lock_seqid := mput lid (- 1) (m_lock_seqid s), m_lock_clid := mput lid (- 1) (m_lock_clid s)\<rparr>
      else s)"

definition lsc_acquire :: "int \<Rightarrow> u64 \<Rightarrow> u64 \<Rightarrow> lock_server_cache \<Rightarrow> (lock_status \<times> lock_server_cache) option" where
  "lsc_acquire clid lid seqid s =
     (let s = create_lock lid s in
      if \<not> mcount (m_clid_rpcc s) clid then None
      else if \<not> mcount (m_clid_rpcc s) clid then Some (LRPCERR, s)
      else if mget 0 (m_lock_status s) lid = FREE
      then let s = s\<lparr>m_lock_clid := mput lid clid (m_lock_clid s), m_lock_seqid := mput lid seqid (m_lock_seqid s),
                     m_lock_status := mput lid LOCKED (m_lock_status s)\<rparr>;
               s = count_acquire clid lid s
           in Some (LOK, if mget [] (m_lock_retrylist s) lid \<noteq> [] then queue_revoke lid s else s)
      else let s = queue_revoke lid s
           in Some (LRETRY, s\<lparr>m_lock_retrylist := mput lid (mget [] (m_lock_retrylist s) lid @ [clid]) (m_lock_retrylist s)\<rparr>))"

definition lsc_release :: "int \<Rightarrow> u64 \<Rightarrow> int \<Rightarrow> lock_server_cache \<Rightarrow> (lock_status \<times> lock_server_cache) option" where
  "lsc_release clid lid retry s =
     (if \<not> mcount (m_clid_rpcc s) clid then None
      else if \<not> mcount (m_clid_rpcc s) clid then Some (LRPCERR, s)
      else if mget 0 (m_lock_clid s) lid \<noteq> clid then Some (LRPCERR, s\<lparr>m_lock_clid := mindex 0 lid (m_lock_clid s)\<rparr>)
      else let s = s\<lparr>m_lock_clid := mput lid (- 1) (m_lock_clid s), m_lock_seqid := mput lid (- 1) (m_lock_seqid s),
                     m_lock_status := mput lid FREE (m_lock_status s)\<rparr>
           in Some (LOK, if retry = 1
                then s\<lparr>m_lock_retrylist := mput lid (mget [] (m_lock_retrylist s) lid @ [clid]) (m_lock_retrylist s)\<rparr>
                else s))"

definition lsc_stat :: "int \<Rightarrow> u64 \<Rightarrow> lock_server_cache \<Rightarrow> (int \<times> lock_server_cache) option" where
  "lsc_stat clid lid s =
     (if \<not> mcount (m_clid_rpcc s) clid then None
      else let s = s\<lparr>m_lock_clid_count := mindex [] lid (m_lock_clid_count s)\<rparr>; m = mget [] (m_lock_clid_count s) lid
           in Some (if \<not> mcount m clid then 0 else mget 0 m clid, s))"

text \<open>
  One turn of \<open>revoker\<close> with a nonempty queue: the revoke RPC \<open>(clid, lid, seqid)\<close> it makes, if any.  The first test
  compares the holding client with the constant \<open>FREE\<close>, which is a lock status.
\<close>

definition revoker_turn :: "bool \<Rightarrow> lock_server_cache \<Rightarrow> (int \<times> u64 \<times> u64) option \<times> lock_server_cache" where
  "revoker_turn amiprimary s =
     (case l_revoke s of
        [] \<Rightarrow> (None, s)
      | info # rest \<Rightarrow>
          let lid = ri_lid info; clid = ri_clid info; seqid = ri_seqid info; s = s\<lparr>l_revoke := rest\<rparr>;
              s = s\<lparr>m_lock_clid := mindex 0 lid (m_lock_clid s)\<rparr>
          in if mget 0 (m_lock_clid s) lid = FREE then (None, s)
             else if mget 0 (m_lock_clid s) lid \<noteq> clid then (None, s)
             else let s = s\<lparr>m_lock_seqid := mindex 0 lid (m_lock_seqid s)\<rparr>
               in if mget 0 (m_lock_seqid s) lid \<noteq> seqid then (None, s)
                  else (if amiprimary then Some (clid, lid, seqid) else None, s))"

definition findFreeLocks :: "lock_server_cache \<Rightarrow> u64 list" where
  "findFreeLocks s = map fst (filter (\<lambda>(lid, st). st = FREE) (m_lock_status s))"

fun retry_pick :: "u64 list \<Rightarrow> lock_server_cache \<Rightarrow> (u64, int) stdmap \<Rightarrow> (u64, int) stdmap \<times> lock_server_cache" where
  "retry_pick [] s m = (m, s)"
| "retry_pick (lid # lids) s m =
     (case mget [] (m_lock_retrylist s) lid of
        [] \<Rightarrow> retry_pick lids (s\<lparr>m_lock_retrylist := mindex [] lid (m_lock_retrylist s)\<rparr>) m
      | c # cs \<Rightarrow> retry_pick lids (s\<lparr>m_lock_retrylist := mput lid cs (m_lock_retrylist s)\<rparr>) (mput lid c m))"

text \<open>One turn of \<open>retryer\<close>: the retry RPCs \<open>(clid, lid)\<close> it makes.\<close>

definition retryer_turn :: "bool \<Rightarrow> lock_server_cache \<Rightarrow> (int \<times> u64) list \<times> lock_server_cache" where
  "retryer_turn amiprimary s =
     (let (m, s) = retry_pick (findFreeLocks s) s []
      in (if amiprimary then map (\<lambda>(lid, clid). (clid, lid)) m else [], s))"

subsection \<open>The lock service it implements\<close>

text \<open>
  The contract of a lock service: who holds a lock, and acquiring and releasing that succeed exactly when they may.
  Everything a client may conclude about exclusion follows from it.
\<close>

datatype lock_op = Acq int u64 u64 | Rel int u64 int

locale lock_service =
  fixes inv :: "'s \<Rightarrow> bool"
    and holder :: "'s \<Rightarrow> u64 \<Rightarrow> int option"
    and client :: "'s \<Rightarrow> int \<Rightarrow> bool"
    and acquire :: "int \<Rightarrow> u64 \<Rightarrow> u64 \<Rightarrow> 's \<Rightarrow> (bool \<times> 's) option"
    and release :: "int \<Rightarrow> u64 \<Rightarrow> int \<Rightarrow> 's \<Rightarrow> (bool \<times> 's) option"
  assumes acquire_free: "inv s \<Longrightarrow> client s c \<Longrightarrow> holder s l = None \<Longrightarrow>
      \<exists>s'. acquire c l q s = Some (True, s') \<and> inv s' \<and> holder s' = (holder s)(l := Some c) \<and> client s' = client s"
    and acquire_held: "inv s \<Longrightarrow> client s c \<Longrightarrow> holder s l \<noteq> None \<Longrightarrow>
      \<exists>s'. acquire c l q s = Some (False, s') \<and> inv s' \<and> holder s' = holder s \<and> client s' = client s"
    and release_held: "inv s \<Longrightarrow> client s c \<Longrightarrow> holder s l = Some c \<Longrightarrow>
      \<exists>s'. release c l r s = Some (True, s') \<and> inv s' \<and> holder s' = (holder s)(l := None) \<and> client s' = client s"
    and release_other: "inv s \<Longrightarrow> client s c \<Longrightarrow> holder s l \<noteq> Some c \<Longrightarrow>
      \<exists>s'. release c l r s = Some (False, s') \<and> inv s' \<and> holder s' = holder s \<and> client s' = client s"
begin

lemma acquire_iff:
  assumes "inv s" "client s c"
  obtains s' where "acquire c l q s = Some (holder s l = None, s')" "inv s'" "client s' = client s"
    "holder s' = (if holder s l = None then (holder s)(l := Some c) else holder s)"
  using acquire_free [OF assms, of l q] acquire_held [OF assms, of l q] by (cases "holder s l = None") auto

lemma release_iff:
  assumes "inv s" "client s c"
  obtains s' where "release c l r s = Some (holder s l = Some c, s')" "inv s'" "client s' = client s"
    "holder s' = (if holder s l = Some c then (holder s)(l := None) else holder s)"
  using release_held [OF assms, of l r] release_other [OF assms, of l r] by (cases "holder s l = Some c") auto

end

text \<open>
  The history a set of clients sees: each operation with whether it succeeded.  \<open>exclusive\<close> replays it against the
  owners the successes imply: an acquire succeeds only on an unowned lock, a release only for the owner.
\<close>

fun exclusive :: "(u64 \<Rightarrow> int option) \<Rightarrow> (lock_op \<times> bool) list \<Rightarrow> bool" where
  "exclusive own [] = True"
| "exclusive own ((Acq c l q, ok) # h) = (ok = (own l = None) \<and> exclusive (if ok then own(l := Some c) else own) h)"
| "exclusive own ((Rel c l r, ok) # h) = (ok = (own l = Some c) \<and> exclusive (if ok then own(l := None) else own) h)"

fun lock_run :: "(int \<Rightarrow> u64 \<Rightarrow> u64 \<Rightarrow> 's \<Rightarrow> (bool \<times> 's) option) \<Rightarrow> (int \<Rightarrow> u64 \<Rightarrow> int \<Rightarrow> 's \<Rightarrow> (bool \<times> 's) option)
    \<Rightarrow> lock_op list \<Rightarrow> 's \<Rightarrow> (lock_op \<times> bool) list option" where
  "lock_run acq rel [] s = Some []"
| "lock_run acq rel (Acq c l q # ops) s = (case acq c l q s of None \<Rightarrow> None
     | Some (ok, s) \<Rightarrow> map_option (\<lambda>h. (Acq c l q, ok) # h) (lock_run acq rel ops s))"
| "lock_run acq rel (Rel c l r # ops) s = (case rel c l r s of None \<Rightarrow> None
     | Some (ok, s) \<Rightarrow> map_option (\<lambda>h. (Rel c l r, ok) # h) (lock_run acq rel ops s))"

fun op_client :: "lock_op \<Rightarrow> int" where
  "op_client (Acq c l q) = c"
| "op_client (Rel c l r) = c"

context lock_service
begin

lemma run_exclusive:
  "inv s \<Longrightarrow> \<forall>op \<in> set ops. client s (op_client op) \<Longrightarrow>
     \<exists>h. lock_run acquire release ops s = Some h \<and> map fst h = ops \<and> exclusive (holder s) h"
proof (induction ops arbitrary: s)
  case (Cons op ops)
  show ?case
  proof (cases op)
    case (Acq c l q)
    obtain s' where s': "acquire c l q s = Some (holder s l = None, s')" "inv s'" "client s' = client s"
        "holder s' = (if holder s l = None then (holder s)(l := Some c) else holder s)"
      using acquire_iff [of s c l q] Cons.prems Acq by auto
    moreover obtain h where "lock_run acquire release ops s' = Some h" "map fst h = ops" "exclusive (holder s') h"
      using Cons.IH [OF s'(2)] Cons.prems(2) s'(3) by auto
    ultimately show ?thesis using Acq by auto
  next
    case (Rel c l r)
    obtain s' where s': "release c l r s = Some (holder s l = Some c, s')" "inv s'" "client s' = client s"
        "holder s' = (if holder s l = Some c then (holder s)(l := None) else holder s)"
      using release_iff [of s c l r] Cons.prems Rel by auto
    moreover obtain h where "lock_run acquire release ops s' = Some h" "map fst h = ops" "exclusive (holder s') h"
      using Cons.IH [OF s'(2)] Cons.prems(2) s'(3) by auto
    ultimately show ?thesis using Rel by auto
  qed
qed simp

end

subsection \<open>The caching server implements it\<close>

text \<open>All that the operations do to a lock shows in its view: status, holder and waiters.\<close>

type_synonym lock_view = "int option \<times> int \<times> int list"

definition lview :: "lock_server_cache \<Rightarrow> u64 \<Rightarrow> lock_view" where
  "lview s lid = (mfind (m_lock_status s) lid, mget 0 (m_lock_clid s) lid, mget [] (m_lock_retrylist s) lid)"

fun v_create :: "lock_view \<Rightarrow> lock_view" where
  "v_create (None, c, ws) = (Some FREE, - 1, [])"
| "v_create (Some st, c, ws) = (Some st, c, ws)"

fun v_acquire :: "int \<Rightarrow> lock_view \<Rightarrow> lock_status \<times> lock_view" where
  "v_acquire clid (None, c, ws) = (LRETRY, (None, c, ws))"
| "v_acquire clid (Some st, c, ws) =
     (if st = FREE then (LOK, (Some (if ws = [] then LOCKED else REVOKING), clid, ws))
      else (LRETRY, (Some REVOKING, c, ws @ [clid])))"

fun v_release :: "int \<Rightarrow> int \<Rightarrow> lock_view \<Rightarrow> lock_status \<times> lock_view" where
  "v_release clid retry (st, c, ws) =
     (if c \<noteq> clid then (LRPCERR, (st, c, ws)) else (LOK, (Some FREE, - 1, if retry = 1 then ws @ [clid] else ws)))"

lemma lview_create: "lview (create_lock lid s) = (lview s)(lid := v_create (lview s lid))"
  by (auto simp: lview_def create_lock_def fun_eq_iff stdmap_simps mcount_def split: option.splits)

lemma lview_create_Some: "\<exists>st. fst (lview (create_lock lid s) lid) = Some st"
  unfolding lview_create by (cases "lview s lid"; cases "fst (lview s lid)") auto

lemma create_lock_rpcc [simp]: "m_clid_rpcc (create_lock lid s) = m_clid_rpcc s"
  by (simp add: create_lock_def)

lemma lview_queue_revoke:
  "mfind (m_lock_status s) lid = Some st \<Longrightarrow>
     lview (queue_revoke lid s) = (lview s)(lid := (Some REVOKING, snd (lview s lid)))"
  by (auto simp: lview_def queue_revoke_def fun_eq_iff mget_def)

lemma queue_revoke_keeps [simp]:
  "m_clid_rpcc (queue_revoke lid s) = m_clid_rpcc s" "m_lock_retrylist (queue_revoke lid s) = m_lock_retrylist s"
  "m_lock_clid (queue_revoke lid s) = m_lock_clid s"
  by (simp_all add: queue_revoke_def)

lemma acquire_view:
  assumes "mcount (m_clid_rpcc s) clid"
  shows "\<exists>st s'. lsc_acquire clid lid q s = Some (st, s') \<and> m_clid_rpcc s' = m_clid_rpcc s
     \<and> v_acquire clid (v_create (lview s lid)) = (st, lview s' lid) \<and> (\<forall>l. l \<noteq> lid \<longrightarrow> lview s' l = lview s l)"
proof -
  define s1 where "s1 = create_lock lid s"
  obtain st where st: "mfind (m_lock_status s1) lid = Some st"
    using lview_create_Some [of lid s] by (auto simp: lview_def s1_def)
  have v1: "lview s1 = (lview s)(lid := v_create (lview s lid))" unfolding s1_def by (rule lview_create)
  have c: "mcount (m_clid_rpcc s1) clid" using assms by (simp add: s1_def)
  have v: "v_create (lview s lid) = (Some st, mget 0 (m_lock_clid s1) lid, mget [] (m_lock_retrylist s1) lid)"
    using v1 st by (metis fun_upd_same lview_def)
  have eq: "lview s1 l = lview s l" if "l \<noteq> lid" for l using v1 that by simp
  show ?thesis
  proof (cases "st = FREE")
    case True
    define s2 where "s2 = count_acquire clid lid (s1\<lparr>m_lock_clid := mput lid clid (m_lock_clid s1),
       m_lock_seqid := mput lid q (m_lock_seqid s1), m_lock_status := mput lid LOCKED (m_lock_status s1)\<rparr>)"
    have l2: "lview s2 = (lview s1)(lid := (Some LOCKED, clid, mget [] (m_lock_retrylist s1) lid))"
      "m_lock_retrylist s2 = m_lock_retrylist s1" "m_clid_rpcc s2 = m_clid_rpcc s1" "mfind (m_lock_status s2) lid = Some LOCKED"
      by (auto simp: s2_def count_acquire_def Let_def lview_def fun_eq_iff stdmap_simps)
    have "lsc_acquire clid lid q s = Some (LOK, if mget [] (m_lock_retrylist s2) lid \<noteq> [] then queue_revoke lid s2 else s2)"
      using c st True by (simp add: lsc_acquire_def s1_def [symmetric] s2_def [symmetric] mget_def)
    then show ?thesis
      using v True l2 eq lview_queue_revoke [OF l2(4)] by (simp add: s1_def)
  next
    case False
    let ?s = "(queue_revoke lid s1)\<lparr>m_lock_retrylist := mput lid (mget [] (m_lock_retrylist s1) lid @ [clid]) (m_lock_retrylist s1)\<rparr>"
    have "lsc_acquire clid lid q s = Some (LRETRY, ?s)"
      using c st False by (simp add: lsc_acquire_def s1_def [symmetric] mget_def)
    moreover have "lview ?s = (lview (queue_revoke lid s1))(lid := (Some REVOKING, mget 0 (m_lock_clid s1) lid, mget [] (m_lock_retrylist s1) lid @ [clid]))"
      using st by (auto simp: lview_def queue_revoke_def fun_eq_iff stdmap_simps mget_def)
    ultimately show ?thesis
      using v False eq lview_queue_revoke [OF st] by (simp add: s1_def)
  qed
qed

lemma release_view:
  assumes "mcount (m_clid_rpcc s) clid"
  shows "\<exists>st s'. lsc_release clid lid retry s = Some (st, s') \<and> m_clid_rpcc s' = m_clid_rpcc s
     \<and> v_release clid retry (lview s lid) = (st, lview s' lid) \<and> (\<forall>l. l \<noteq> lid \<longrightarrow> lview s' l = lview s l)"
  using assms by (auto simp: lsc_release_def lview_def stdmap_simps Let_def)

text \<open>
  A lock is held while its status is not \<open>FREE\<close>.  The invariant: a free lock has the holder \<open>-1\<close> (so that no client can
  release it), a held one a client, and a lock somebody waits for is never simply \<open>LOCKED\<close>.
\<close>

fun v_holder :: "lock_view \<Rightarrow> int option" where
  "v_holder (st, c, ws) = (if st = None \<or> st = Some FREE then None else Some c)"

fun v_ok :: "lock_view \<Rightarrow> bool" where
  "v_ok (None, c, ws) = (c \<le> 0 \<and> ws = [])"
| "v_ok (Some st, c, ws) = ((st = FREE \<and> c = - 1) \<or> (st = LOCKED \<and> 0 < c \<and> ws = []) \<or> (st = REVOKING \<and> 0 < c))"

definition lsc_inv :: "lock_server_cache \<Rightarrow> bool" where
  "lsc_inv s \<longleftrightarrow> (\<forall>lid. v_ok (lview s lid))"

definition lsc_holder :: "lock_server_cache \<Rightarrow> u64 \<Rightarrow> int option" where
  "lsc_holder s lid = v_holder (lview s lid)"

definition lsc_client :: "lock_server_cache \<Rightarrow> int \<Rightarrow> bool" where
  "lsc_client s c \<longleftrightarrow> 0 < c \<and> mcount (m_clid_rpcc s) c"

definition lsc_acq :: "int \<Rightarrow> u64 \<Rightarrow> u64 \<Rightarrow> lock_server_cache \<Rightarrow> (bool \<times> lock_server_cache) option" where
  "lsc_acq c l q s = map_option (\<lambda>(r, s). (r = LOK, s)) (lsc_acquire c l q s)"

definition lsc_rel :: "int \<Rightarrow> u64 \<Rightarrow> int \<Rightarrow> lock_server_cache \<Rightarrow> (bool \<times> lock_server_cache) option" where
  "lsc_rel c l r s = map_option (\<lambda>(r, s). (r = LOK, s)) (lsc_release c l r s)"

lemma v_acquire_ok:
  assumes "v_ok v" "0 < c" "v_acquire c (v_create v) = (st, v')"
  shows "v_ok v'" "st = LOK \<longleftrightarrow> v_holder v = None" "v_holder v' = (if v_holder v = None then Some c else v_holder v)"
  using assms by (cases "(c, v)" rule: v_acquire.cases; auto simp: lock_status_defs split: if_splits)+

lemma v_release_ok:
  assumes "v_ok v" "0 < c" "v_release c r v = (st, v')"
  shows "v_ok v'" "st = LOK \<longleftrightarrow> v_holder v = Some c" "v_holder v' = (if v_holder v = Some c then None else v_holder v)"
  using assms by (cases v rule: v_ok.cases; auto simp: lock_status_defs split: if_splits)+

lemma lsc_inv_new: "lsc_inv lsc_new"
  by (simp add: lsc_inv_def lview_def lsc_new_def mget_def)

lemma lsc_acquire_lemma:
  assumes "lsc_inv s" "lsc_client s c"
  shows "\<exists>s'. lsc_acq c l q s = Some (lsc_holder s l = None, s') \<and> lsc_inv s' \<and> lsc_client s' = lsc_client s
    \<and> lsc_holder s' = (if lsc_holder s l = None then (lsc_holder s)(l := Some c) else lsc_holder s)"
proof -
  obtain st s' where s': "lsc_acquire c l q s = Some (st, s')" "m_clid_rpcc s' = m_clid_rpcc s"
      "v_acquire c (v_create (lview s l)) = (st, lview s' l)" "\<forall>l'. l' \<noteq> l \<longrightarrow> lview s' l' = lview s l'"
    using acquire_view [of s c l q] assms(2) by (auto simp: lsc_client_def)
  have v: "v_ok (lview s l)" "0 < c" using assms by (auto simp: lsc_inv_def lsc_client_def)
  note ok = v_acquire_ok [OF v s'(3)]
  have "v_ok (lview s' l')" for l'
    using assms(1) s'(4) ok(1) by (cases "l' = l") (auto simp: lsc_inv_def)
  moreover have "lsc_holder s' = (lsc_holder s)(l := v_holder (lview s' l))"
    using s'(4) by (auto simp: lsc_holder_def)
  then have "lsc_holder s' = (if lsc_holder s l = None then (lsc_holder s)(l := Some c) else lsc_holder s)"
    using ok(3) by (auto simp: lsc_holder_def)
  ultimately show ?thesis
    using s'(1,2) ok(2) by (auto simp: lsc_acq_def lsc_inv_def lsc_client_def lsc_holder_def fun_eq_iff)
qed

lemma lsc_release_lemma:
  assumes "lsc_inv s" "lsc_client s c"
  shows "\<exists>s'. lsc_rel c l r s = Some (lsc_holder s l = Some c, s') \<and> lsc_inv s' \<and> lsc_client s' = lsc_client s
    \<and> lsc_holder s' = (if lsc_holder s l = Some c then (lsc_holder s)(l := None) else lsc_holder s)"
proof -
  obtain st s' where s': "lsc_release c l r s = Some (st, s')" "m_clid_rpcc s' = m_clid_rpcc s"
      "v_release c r (lview s l) = (st, lview s' l)" "\<forall>l'. l' \<noteq> l \<longrightarrow> lview s' l' = lview s l'"
    using release_view [of s c l r] assms(2) by (auto simp: lsc_client_def)
  have v: "v_ok (lview s l)" "0 < c" using assms by (auto simp: lsc_inv_def lsc_client_def)
  note ok = v_release_ok [OF v s'(3)]
  have "v_ok (lview s' l')" for l'
    using assms(1) s'(4) ok(1) by (cases "l' = l") (auto simp: lsc_inv_def)
  moreover have "lsc_holder s' = (lsc_holder s)(l := v_holder (lview s' l))"
    using s'(4) by (auto simp: lsc_holder_def)
  then have "lsc_holder s' = (if lsc_holder s l = Some c then (lsc_holder s)(l := None) else lsc_holder s)"
    using ok(3) by (auto simp: lsc_holder_def)
  ultimately show ?thesis
    using s'(1,2) ok(2) by (auto simp: lsc_rel_def lsc_inv_def lsc_client_def lsc_holder_def fun_eq_iff)
qed

interpretation lsc: lock_service lsc_inv lsc_holder lsc_client lsc_acq lsc_rel
proof
  fix s c l q r assume i: "lsc_inv s" "lsc_client s c"
  note a = lsc_acquire_lemma [OF i, of l q] and r = lsc_release_lemma [OF i, of l r]
  show "lsc_holder s l = None \<Longrightarrow>
      \<exists>s'. lsc_acq c l q s = Some (True, s') \<and> lsc_inv s' \<and> lsc_holder s' = (lsc_holder s)(l := Some c) \<and> lsc_client s' = lsc_client s"
    using a by auto
  show "lsc_holder s l \<noteq> None \<Longrightarrow>
      \<exists>s'. lsc_acq c l q s = Some (False, s') \<and> lsc_inv s' \<and> lsc_holder s' = lsc_holder s \<and> lsc_client s' = lsc_client s"
    using a by auto
  show "lsc_holder s l = Some c \<Longrightarrow>
      \<exists>s'. lsc_rel c l r s = Some (True, s') \<and> lsc_inv s' \<and> lsc_holder s' = (lsc_holder s)(l := None) \<and> lsc_client s' = lsc_client s"
    using r by auto
  show "lsc_holder s l \<noteq> Some c \<Longrightarrow>
      \<exists>s'. lsc_rel c l r s = Some (False, s') \<and> lsc_inv s' \<and> lsc_holder s' = lsc_holder s \<and> lsc_client s' = lsc_client s"
    using r by auto
qed

subsection \<open>Nobody who waits is forgotten\<close>

text \<open>
  The server at work: requests, turns of its two threads, and beside the state the revoke RPCs it has made.  \<open>p\<close> tells
  whether this replica is the primary.
\<close>

datatype lsc_event = EvSubscribe int string | EvAcquire int u64 u64 | EvRelease int u64 int | EvStat int u64 | EvRevoke | EvRetry

type_synonym lsc_sent = "(int \<times> u64 \<times> u64) list"

fun lsc_step :: "bool \<Rightarrow> lsc_event \<Rightarrow> lsc_sent \<times> lock_server_cache \<Rightarrow> (lsc_sent \<times> lock_server_cache) option" where
  "lsc_step p (EvSubscribe c h) (sent, s) = map_option (\<lambda>(r, s). (sent, s)) (lsc_subscribe True c h s)"
| "lsc_step p (EvAcquire c l q) (sent, s) = map_option (\<lambda>(r, s). (sent, s)) (lsc_acquire c l q s)"
| "lsc_step p (EvRelease c l r) (sent, s) = map_option (\<lambda>(r, s). (sent, s)) (lsc_release c l r s)"
| "lsc_step p (EvStat c l) (sent, s) = map_option (\<lambda>(r, s). (sent, s)) (lsc_stat c l s)"
| "lsc_step p EvRevoke (sent, s) = (let (r, s) = revoker_turn p s in Some (case r of None \<Rightarrow> sent | Some m \<Rightarrow> m # sent, s))"
| "lsc_step p EvRetry (sent, s) = Some (sent, snd (retryer_turn p s))"

fun lsc_run :: "bool \<Rightarrow> lsc_event list \<Rightarrow> lsc_sent \<times> lock_server_cache \<Rightarrow> (lsc_sent \<times> lock_server_cache) option" where
  "lsc_run p [] x = Some x"
| "lsc_run p (e # es) x = (case lsc_step p e x of None \<Rightarrow> None | Some x \<Rightarrow> lsc_run p es x)"

fun event_client :: "lsc_event \<Rightarrow> int option" where
  "event_client (EvSubscribe c h) = Some c"
| "event_client (EvAcquire c l q) = Some c"
| "event_client (EvRelease c l r) = Some c"
| "event_client (EvStat c l) = Some c"
| "event_client _ = None"

text \<open>\<open>revoke_under_way\<close>: the revoke RPC for the present holder of the lock is queued or has been made.\<close>

definition revoke_under_way :: "lsc_sent \<Rightarrow> lock_server_cache \<Rightarrow> u64 \<Rightarrow> bool" where
  "revoke_under_way sent s lid \<longleftrightarrow>
     (mget 0 (m_lock_clid s) lid, lid, mget 0 (m_lock_seqid s) lid)
       \<in> set (map (\<lambda>i. (ri_clid i, ri_lid i, ri_seqid i)) (l_revoke s)) \<union> set sent"

definition revoking_ok :: "lsc_sent \<Rightarrow> lock_server_cache \<Rightarrow> bool" where
  "revoking_ok sent s \<longleftrightarrow> (\<forall>lid. mfind (m_lock_status s) lid = Some REVOKING \<longrightarrow> revoke_under_way sent s lid)"

lemma revoking_ok_upd:
  assumes "revoking_ok sent s" "set (l_revoke s) \<subseteq> set (l_revoke s')"
    and "\<And>lid. mfind (m_lock_status s') lid = Some REVOKING \<Longrightarrow> mfind (m_lock_status s) lid = Some REVOKING
       \<and> mget 0 (m_lock_clid s') lid = mget 0 (m_lock_clid s) lid \<and> mget 0 (m_lock_seqid s') lid = mget 0 (m_lock_seqid s) lid"
  shows "revoking_ok sent s'"
  unfolding revoking_ok_def
proof (intro allI impI)
  fix lid assume "mfind (m_lock_status s') lid = Some REVOKING"
  note a = assms(3) [OF this]
  then have "revoke_under_way sent s lid" using assms(1) by (auto simp: revoking_ok_def)
  then show "revoke_under_way sent s' lid" using a assms(2) by (auto simp: revoke_under_way_def)
qed

lemma revoking_queue:
  assumes "revoking_ok sent s"
  shows "revoking_ok sent (queue_revoke lid s)"
  unfolding revoking_ok_def
proof (intro allI impI)
  fix l assume l: "mfind (m_lock_status (queue_revoke lid s)) l = Some REVOKING"
  show "revoke_under_way sent (queue_revoke lid s) l"
  proof (cases "mget 0 (m_lock_status s) lid = REVOKING \<or> l \<noteq> lid")
    case True
    then have "revoke_under_way sent s l"
      using assms l by (auto simp: revoking_ok_def queue_revoke_def split: if_splits)
    then show ?thesis by (auto simp: revoke_under_way_def queue_revoke_def)
  qed (simp add: revoke_under_way_def queue_revoke_def)
qed

lemma revoking_acquire:
  assumes "revoking_ok sent s" "lsc_acquire c l q s = Some (r, s')"
  shows "revoking_ok sent s'"
proof -
  have 1: "revoking_ok sent (create_lock l s)"
    by (rule revoking_ok_upd [OF assms(1)]) (auto simp: create_lock_def stdmap_simps lock_status_defs split: if_splits)
  have 2: "revoking_ok sent (count_acquire c l (t\<lparr>m_lock_clid := mput l c (m_lock_clid t), m_lock_seqid := mput l q (m_lock_seqid t),
      m_lock_status := mput l LOCKED (m_lock_status t)\<rparr>))" if "revoking_ok sent t" for t
    by (rule revoking_ok_upd [OF that]) (auto simp: count_acquire_def Let_def stdmap_simps lock_status_defs split: if_splits)
  have 3: "revoking_ok sent (t\<lparr>m_lock_retrylist := m\<rparr>)" if "revoking_ok sent t" for t m
    by (rule revoking_ok_upd [OF that]) auto
  show ?thesis
    using assms(2) 1 2 3 revoking_queue by (auto simp: lsc_acquire_def Let_def split: if_splits)
qed

lemma revoking_release:
  assumes "revoking_ok sent s" "lsc_release c l r s = Some (r', s')"
  shows "revoking_ok sent s'"
  by (rule revoking_ok_upd [OF assms(1)])
    (use assms(2) in \<open>auto simp: lsc_release_def Let_def stdmap_simps lock_status_defs split: if_splits\<close>)

lemma revoking_revoker:
  assumes "revoking_ok sent s" "lsc_inv s" "revoker_turn True s = (r, s')"
  shows "revoking_ok (case r of None \<Rightarrow> sent | Some m \<Rightarrow> m # sent) s'"
  unfolding revoking_ok_def
proof (intro allI impI)
  fix l assume l: "mfind (m_lock_status s') l = Some REVOKING"
  have st: "m_lock_status s' = m_lock_status s" "mget 0 (m_lock_clid s') = mget 0 (m_lock_clid s)"
      "mget 0 (m_lock_seqid s') = mget 0 (m_lock_seqid s)"
    using assms(3) by (auto simp: revoker_turn_def Let_def split: list.splits if_splits)
  have u: "revoke_under_way sent s l" using assms(1) l st by (simp add: revoking_ok_def)
  have "mget 0 (m_lock_clid s) l \<noteq> FREE"
    using assms(2) l st by (force simp: lsc_inv_def lview_def lock_status_defs dest: spec [of _ l])
  then show "revoke_under_way (case r of None \<Rightarrow> sent | Some m \<Rightarrow> m # sent) s' l"
    using u assms(3) by (auto simp: revoke_under_way_def revoker_turn_def Let_def split: list.splits if_splits)
qed

lemma retry_pick_keeps:
  assumes "retry_pick lids s m = (m', s')"
  shows "m_lock_status s' = m_lock_status s" "m_lock_clid s' = m_lock_clid s" "m_lock_seqid s' = m_lock_seqid s"
    "l_revoke s' = l_revoke s" "m_clid_rpcc s' = m_clid_rpcc s"
  using assms by (induction lids s m rule: retry_pick.induct) (auto split: list.splits)

lemma retry_pick_Nil:
  "retry_pick lids s m = (m', s') \<Longrightarrow> mget [] (m_lock_retrylist s) l = [] \<Longrightarrow> mget [] (m_lock_retrylist s') l = []"
proof (induction lids s m rule: retry_pick.induct)
  case (2 lid lids s m)
  then show ?case by (cases "l = lid") (auto simp: stdmap_simps split: list.splits)
qed simp

lemma retry_pick_other:
  "retry_pick lids s m = (m', s') \<Longrightarrow> l \<notin> set lids \<Longrightarrow> mfind m' l = mfind m l"
  by (induction lids s m rule: retry_pick.induct) (auto split: list.splits)

lemma retry_pick_first:
  "retry_pick lids s m = (m', s') \<Longrightarrow> distinct lids \<Longrightarrow> l \<in> set lids \<Longrightarrow> mget [] (m_lock_retrylist s) l = c # cs
     \<Longrightarrow> mfind m' l = Some c"
proof (induction lids s m rule: retry_pick.induct)
  case (2 lid lids s m)
  show ?case
  proof (cases "l = lid")
    case True
    then show ?thesis using 2 retry_pick_other by fastforce
  next
    case False
    then show ?thesis using 2 by (auto simp: stdmap_simps split: list.splits)
  qed
qed simp

definition lsc_state_ok :: "lsc_sent \<times> lock_server_cache \<Rightarrow> bool" where
  "lsc_state_ok = (\<lambda>(sent, s). lsc_inv s \<and> revoking_ok sent s \<and> sm_ok (m_lock_status s))"

lemma sm_ok_status:
  "sm_ok (m_lock_status s) \<Longrightarrow> sm_ok (m_lock_status (create_lock l s))"
  "sm_ok (m_lock_status s) \<Longrightarrow> sm_ok (m_lock_status (queue_revoke l s))"
  "m_lock_status (count_acquire c l s) = m_lock_status s"
  by (auto simp: create_lock_def queue_revoke_def count_acquire_def Let_def)

lemma lsc_step_ok:
  assumes "lsc_state_ok (sent, s)" "lsc_step True e (sent, s) = Some (sent', s')" "\<And>c. event_client e = Some c \<Longrightarrow> 0 < c"
  shows "lsc_state_ok (sent', s')"
proof (cases e)
  case (EvSubscribe c h)
  then show ?thesis using assms
    by (auto simp: lsc_state_ok_def lsc_subscribe_def Let_def lsc_inv_def lview_def revoking_ok_def revoke_under_way_def)
next
  case (EvAcquire c l q)
  then obtain r where r: "lsc_acquire c l q s = Some (r, s')" "sent' = sent" using assms(2) by auto
  then have "mcount (m_clid_rpcc s) c" by (auto simp: lsc_acquire_def Let_def split: if_splits)
  then have "lsc_inv s'"
    using lsc_acquire_lemma [of s c l q] assms(1,3) r EvAcquire by (auto simp: lsc_state_ok_def lsc_acq_def lsc_client_def)
  moreover have "sm_ok (m_lock_status s')"
    using r assms(1) by (auto simp: lsc_state_ok_def lsc_acquire_def Let_def sm_ok_status mput_sorted split: if_splits)
  ultimately show ?thesis
    using revoking_acquire r assms(1) by (auto simp: lsc_state_ok_def)
next
  case (EvRelease c l q)
  then obtain r where r: "lsc_release c l q s = Some (r, s')" "sent' = sent" using assms(2) by auto
  then have "mcount (m_clid_rpcc s) c" by (auto simp: lsc_release_def Let_def split: if_splits)
  then have "lsc_inv s'"
    using lsc_release_lemma [of s c l q] assms(1,3) r EvRelease by (auto simp: lsc_state_ok_def lsc_rel_def lsc_client_def)
  moreover have "sm_ok (m_lock_status s')"
    using r assms(1) by (auto simp: lsc_state_ok_def lsc_release_def Let_def mput_sorted split: if_splits)
  ultimately show ?thesis
    using revoking_release r assms(1) by (auto simp: lsc_state_ok_def)
next
  case (EvStat c l)
  then show ?thesis using assms
    by (auto simp: lsc_state_ok_def lsc_stat_def Let_def lsc_inv_def lview_def revoking_ok_def revoke_under_way_def split: if_splits)
next
  case EvRevoke
  then obtain r where r: "revoker_turn True s = (r, s')" "sent' = (case r of None \<Rightarrow> sent | Some m \<Rightarrow> m # sent)"
    using assms(2) by (auto split: prod.splits)
  then have "lview s' = lview s" "m_lock_status s' = m_lock_status s"
    by (auto simp: revoker_turn_def Let_def lview_def fun_eq_iff split: list.splits if_splits)
  then show ?thesis using revoking_revoker [of sent s r s'] r assms(1) by (auto simp: lsc_state_ok_def lsc_inv_def)
next
  case EvRetry
  then obtain m where m: "retry_pick (findFreeLocks s) s [] = (m, s')" "sent' = sent"
    using assms(2) by (auto simp: retryer_turn_def split: prod.splits)
  note k = retry_pick_keeps [OF m(1)]
  have "v_ok (lview s l) \<Longrightarrow> v_ok (lview s' l)" for l
    using retry_pick_Nil [OF m(1), of l] by (cases "mfind (m_lock_status s) l") (auto simp: lview_def k)
  then show ?thesis using m k assms(1) by (auto simp: lsc_state_ok_def lsc_inv_def intro: revoking_ok_upd [of sent s])
qed

lemma lsc_run_ok:
  "lsc_run True es x = Some y \<Longrightarrow> lsc_state_ok x \<Longrightarrow> \<forall>e \<in> set es. \<forall>c. event_client e = Some c \<longrightarrow> 0 < c \<Longrightarrow> lsc_state_ok y"
proof (induction es arbitrary: x)
  case (Cons e es)
  obtain sent s where x: "x = (sent, s)" by (cases x)
  with Cons.prems obtain sent' s' where s': "lsc_step True e (sent, s) = Some (sent', s')" "lsc_run True es (sent', s') = Some y"
    by (auto split: option.splits)
  have "lsc_state_ok (sent', s')"
    by (rule lsc_step_ok [OF _ s'(1)]) (use Cons.prems x in auto)
  then show ?case using Cons.IH [OF s'(2)] Cons.prems(3) by simp
qed simp

lemma lsc_state_ok_new: "lsc_state_ok ([], lsc_new)"
  by (auto simp: lsc_state_ok_def lsc_inv_new revoking_ok_def) (simp_all add: lsc_new_def sm_ok_def)

lemma retryer_calls:
  assumes "sm_ok (m_lock_status s)" "mfind (m_lock_status s) l = Some FREE" "mget [] (m_lock_retrylist s) l = c # cs"
  shows "(c, l) \<in> set (fst (retryer_turn True s))"
proof -
  obtain m s' where m: "retry_pick (findFreeLocks s) s [] = (m, s')" by (cases "retry_pick (findFreeLocks s) s []")
  have "distinct (map fst (m_lock_status s))"
    using assms(1) by (simp add: sm_ok_def strict_sorted_iff)
  then have "distinct (findFreeLocks s)" by (simp add: findFreeLocks_def distinct_map_filter)
  moreover have "l \<in> set (findFreeLocks s)"
    using assms(2) by (force simp: findFreeLocks_def mfind_def dest: map_of_SomeD)
  ultimately have "mfind m l = Some c" using retry_pick_first [OF m] assms(3) by simp
  then have "(l, c) \<in> set m" by (auto simp: mfind_def dest: map_of_SomeD)
  then show ?thesis by (force simp: retryer_turn_def m)
qed

text \<open>
  Mutual exclusion.  Whatever sequence of acquire and release requests subscribed clients send to the caching lock
  server, it answers all of them, and the answers are those of exclusive locks: an acquire is granted exactly when the
  grants and releases before it leave the lock with nobody, a release accepted exactly from the client it was granted to.
\<close>

lemma lock_history_exclusive:
  assumes "lsc_run True es ([], lsc_new) = Some (sent, s)"
    and "\<forall>e \<in> set es. \<forall>c. event_client e = Some c \<longrightarrow> 0 < c"
    and "\<forall>op \<in> set ops. 0 < op_client op \<and> mcount (m_clid_rpcc s) (op_client op)"
  shows "\<exists>h. lock_run lsc_acq lsc_rel ops s = Some h \<and> map fst h = ops \<and> exclusive (lsc_holder s) h"
proof (rule lsc.run_exclusive)
  show "lsc_inv s" using lsc_run_ok [OF assms(1) lsc_state_ok_new assms(2)] by (simp add: lsc_state_ok_def)
  show "\<forall>op \<in> set ops. lsc_client s (op_client op)" using assms(3) by (simp add: lsc_client_def)
qed



text \<open>
  A revoker turn on a replica that is not the primary takes the request off the queue and makes no RPC.  From then on nothing
  queues the revoke again, because the status stays \<open>REVOKING\<close>.
\<close>

definition revoke_gone :: "lock_server_cache \<Rightarrow> u64 \<Rightarrow> int \<Rightarrow> bool" where
  "revoke_gone s lid c \<longleftrightarrow> mfind (m_lock_status s) lid = Some REVOKING \<and> mget 0 (m_lock_clid s) lid = c
     \<and> lid \<notin> ri_lid ` set (l_revoke s)"

lemma revoke_gone_acquire:
  assumes "revoke_gone s lid c" "lsc_acquire c' l q s = Some (r, s')"
  shows "revoke_gone s' lid c"
proof (cases "l = lid")
  case True
  then have "create_lock l s = s" "mget 0 (m_lock_status s) l = REVOKING"
    using assms(1) by (auto simp: revoke_gone_def create_lock_def mcount_def mget_def)
  then show ?thesis
    using assms by (auto simp: lsc_acquire_def Let_def queue_revoke_def lock_status_defs revoke_gone_def split: if_splits)
next
  case False
  have 1: "revoke_gone (create_lock l s) lid c"
    using assms(1) False by (auto simp: revoke_gone_def create_lock_def stdmap_simps)
  have 2: "revoke_gone (queue_revoke l t) lid c" if "revoke_gone t lid c" for t
    using that False by (auto simp: revoke_gone_def queue_revoke_def)
  have 3: "revoke_gone (count_acquire c' l (t\<lparr>m_lock_clid := mput l c' (m_lock_clid t), m_lock_seqid := mput l q (m_lock_seqid t),
      m_lock_status := mput l LOCKED (m_lock_status t)\<rparr>)) lid c" if "revoke_gone t lid c" for t
    using that False by (auto simp: revoke_gone_def count_acquire_def Let_def stdmap_simps)
  have 4: "revoke_gone (t\<lparr>m_lock_retrylist := m\<rparr>) lid c" if "revoke_gone t lid c" for t m
    using that by (auto simp: revoke_gone_def)
  show ?thesis using assms(2) 1 2 3 4 by (auto simp: lsc_acquire_def Let_def split: if_splits)
qed

lemma revoke_gone_step:
  assumes "revoke_gone s lid c" "lsc_step p e (sent, s) = Some (sent', s')" "\<forall>r. e \<noteq> EvRelease c lid r"
  shows "revoke_gone s' lid c \<and> (\<forall>m \<in> set sent' - set sent. fst (snd m) \<noteq> lid)"
proof (cases e)
  case (EvAcquire c' l q)
  then show ?thesis using assms revoke_gone_acquire by auto
next
  case EvRetry
  then obtain m where m: "retry_pick (findFreeLocks s) s [] = (m, s')" "sent' = sent"
    using assms(2) by (auto simp: retryer_turn_def split: prod.splits)
  then show ?thesis using retry_pick_keeps [OF m(1)] assms(1) by (simp add: revoke_gone_def)
next
  case EvRevoke
  then show ?thesis using assms(1,2)
    by (auto simp: revoke_gone_def revoker_turn_def Let_def split: list.splits if_splits)
next
  case (EvRelease c' l r)
  then show ?thesis using assms
    by (auto simp: revoke_gone_def lsc_release_def Let_def stdmap_simps split: if_splits)
qed (use assms in \<open>auto simp: revoke_gone_def lsc_subscribe_def lsc_stat_def Let_def split: if_splits\<close>)

lemma revoke_gone_run:
  "lsc_run p es (sent, s) = Some (sent', s') \<Longrightarrow> revoke_gone s lid c \<Longrightarrow> \<forall>r. EvRelease c lid r \<notin> set es
     \<Longrightarrow> revoke_gone s' lid c \<and> (\<forall>m \<in> set sent' - set sent. fst (snd m) \<noteq> lid)"
proof (induction es arbitrary: sent s)
  case (Cons e es)
  then obtain sent1 s1 where 1: "lsc_step p e (sent, s) = Some (sent1, s1)" "lsc_run p es (sent1, s1) = Some (sent', s')"
    by (auto split: option.splits)
  have "\<forall>r. e \<noteq> EvRelease c lid r" "\<forall>r. EvRelease c lid r \<notin> set es" using Cons.prems(3) by auto
  then show ?case using revoke_gone_step [OF Cons.prems(2) 1(1)] Cons.IH [OF 1(2)] by blast
qed simp

text \<open>
  C36. A revoke request does not survive a change of primary.  If a backup's revoker thread has taken the revoke of a held lock
  off its queue, then once that backup is the primary it makes no revoke RPC for the lock, whatever requests arrive and
  however often its threads run, until the holder gives the lock back on its own accord.
\<close>

theorem revoke_lost_after_failover:
  assumes "lsc_run False (es @ [EvRevoke]) ([], lsc_new) = Some (sent, s)"
    and "mfind (m_lock_status s) lid = Some REVOKING" "mget 0 (m_lock_clid s) lid = c" "l_revoke s = []"
    and "lsc_run True es' (sent, s) = Some (sent', s')" "\<forall>r. EvRelease c lid r \<notin> set es'"
  shows "lsc_holder s' lid = Some c \<and> (\<forall>m \<in> set sent' - set sent. fst (snd m) \<noteq> lid)"
  using revoke_gone_run [OF assms(5) _ assms(6)] assms(2-4)
  by (auto simp: revoke_gone_def lsc_holder_def lview_def lock_status_defs)

theorem revoke_lost_after_failover_witness:
  "\<exists>s s' sent'. lsc_run False [EvSubscribe 7 ''a'', EvSubscribe 9 ''b'', EvAcquire 7 1 1, EvAcquire 9 1 1, EvRevoke] ([], lsc_new) = Some ([], s)
     \<and> mget [] (m_lock_retrylist s) 1 = [9]
     \<and> lsc_run True [EvRevoke, EvRetry, EvAcquire 9 1 1, EvRevoke] ([], s) = Some (sent', s')
     \<and> lsc_holder s' 1 = Some 7 \<and> (\<forall>m \<in> set sent'. fst (snd m) \<noteq> 1)"
proof -
  let ?es = "[EvSubscribe 7 ''a'', EvSubscribe 9 ''b'', EvAcquire 7 1 1, EvAcquire 9 1 1]"
  let ?es' = "[EvRevoke, EvRetry, EvAcquire 9 1 1, EvRevoke]"
  have "map_option (\<lambda>(sent, s). (sent, mget [] (m_lock_retrylist s) 1, mfind (m_lock_status s) 1, mget 0 (m_lock_clid s) 1,
      l_revoke s, lsc_run True ?es' (sent, s) = None)) (lsc_run False (?es @ [EvRevoke]) ([], lsc_new))
    = Some ([], [9], Some REVOKING, 7, [], False)"
    by code_simp
  then obtain s s' sent' where s: "lsc_run False (?es @ [EvRevoke]) ([], lsc_new) = Some ([], s)" "mget [] (m_lock_retrylist s) 1 = [9]"
      "mfind (m_lock_status s) 1 = Some REVOKING" "mget 0 (m_lock_clid s) 1 = 7" "l_revoke s = []"
      "lsc_run True ?es' ([], s) = Some (sent', s')"
    by fastforce
  show ?thesis using revoke_lost_after_failover [OF s(1,3,4,5,6)] s by simp
qed

end
