(* ===== verification/LockClientCache.thy ===== *)
theory LockClientCache
  imports LockServerCache
begin

text \<open>
  The caching lock client, \<open>lock_client_cache.cc\<close>.  Every region of the code between taking \<open>map_lock\<close> and giving it up (or
  waiting on a condition, which gives it up too) is one operation on the client's state; the remote calls lie between the
  operations.  An operation returns \<open>None\<close> when it cannot run: an assertion fails, a null pointer is followed, or the mutex
  is never free again because an earlier operation returned without unlocking it.
\<close>

subsection \<open>State\<close>

datatype lcc_status = NONE | CFREE | CLOCKED | RETRYING | ACQUIRING | RELEASING

fun status_num :: "lcc_status \<Rightarrow> nat" where
  "status_num NONE = 0" | "status_num CFREE = 1" | "status_num CLOCKED = 2"
| "status_num RETRYING = 3" | "status_num ACQUIRING = 4" | "status_num RELEASING = 5"

text \<open>
  A condition variable is an address, numbered by \<open>lc_conds\<close>; \<open>lc_signalled\<close> holds those signalled whose waiter has not resumed.
  A thread is a \<open>pthread_t\<close>.  \<open>lc_mutex\<close>: some operation has returned with \<open>map_lock\<close> taken.
\<close>

record lock_client_cache =
  lc_status :: "(u64, lcc_status) stdmap"
  lc_seq :: u64
  lc_seqid :: "(u64, u64) stdmap"
  lc_waiting_revoke :: "(u64, u64) stdmap"
  lc_thread :: "(u64, u32) stdmap"
  lc_waitlist :: "(u64, nat list) stdmap"
  lc_retry :: "(u64, bool) stdmap"
  lc_cond_waiting :: "(nat, bool) stdmap"
  lc_revoke :: "u64 list"
  lc_released :: "u64 list"
  lc_conds :: nat
  lc_signalled :: "nat list"
  lc_mutex :: bool

definition lcc_new :: lock_client_cache where
  "lcc_new = \<lparr>lc_status = [], lc_seq = 1, lc_seqid = [], lc_waiting_revoke = [], lc_thread = [], lc_waitlist = [], lc_retry = [],
     lc_cond_waiting = [], lc_revoke = [], lc_released = [], lc_conds = 0, lc_signalled = [], lc_mutex = False\<rparr>"

abbreviation stat :: "lock_client_cache \<Rightarrow> u64 \<Rightarrow> lcc_status" where
  "stat s \<equiv> mget NONE (lc_status s)"

definition set_status :: "u64 \<Rightarrow> lcc_status \<Rightarrow> lock_client_cache \<Rightarrow> lock_client_cache" where
  "set_status lid x s = s\<lparr>lc_status := mput lid x (lc_status s)\<rparr>"

definition new_cond :: "lock_client_cache \<Rightarrow> nat \<times> lock_client_cache" where
  "new_cond s = (lc_conds s, s\<lparr>lc_conds := lc_conds s + 1\<rparr>)"

definition cond_signal :: "nat \<Rightarrow> lock_client_cache \<Rightarrow> lock_client_cache" where
  "cond_signal c s = s\<lparr>lc_signalled := c # lc_signalled s\<rparr>"

subsection \<open>Acquiring\<close>

definition init_lock :: "u64 \<Rightarrow> lock_client_cache \<Rightarrow> lock_client_cache" where
  "init_lock lid s =
     (if \<not> mcount (lc_status s) lid
      then s\<lparr>lc_status := mput lid NONE (lc_status s), lc_seqid := mput lid (- 1) (lc_seqid s),
             lc_waiting_revoke := mput lid (- 1) (lc_waiting_revoke s), lc_thread := mput lid (- 1) (lc_thread s),
             lc_waitlist := mput lid [] (lc_waitlist s), lc_retry := mput lid False (lc_retry s)\<rparr>
      else s)"

text \<open>What \<open>acquire\<close> does next: it returns, goes on to the acquire RPC, or waits on the condition until it is signalled.\<close>

datatype acq_next = AcqReturned | DoCall nat | WaitTurn nat | WaitRetry nat

text \<open>From the label \<open>acqu\<close>.\<close>

definition acqu :: "u64 \<Rightarrow> u32 \<Rightarrow> lock_client_cache \<Rightarrow> (acq_next \<times> lock_client_cache) option" where
  "acqu lid self s =
     (if stat s lid = NONE
      then let s = s\<lparr>lc_seq := lc_seq s + 1\<rparr>; (cond, s) = new_cond s;
               s = s\<lparr>lc_cond_waiting := mput cond False (lc_cond_waiting s)\<rparr>
           in Some (DoCall cond, set_status lid ACQUIRING s)
      else if mget 0 (lc_thread s) lid = self then Some (AcqReturned, s)
      else if stat s lid = CFREE
      then Some (AcqReturned, (set_status lid CLOCKED s)\<lparr>lc_thread := mput lid self (lc_thread s)\<rparr>)
      else if status_num (stat s lid) > 1
      then let (cond, s) = new_cond s in
           case mfind (lc_waitlist s) lid of
             None \<Rightarrow> None
           | Some wl \<Rightarrow> Some (WaitTurn cond, s\<lparr>lc_waitlist := mput lid (wl @ [cond]) (lc_waitlist s),
                                 lc_cond_waiting := mput cond True (lc_cond_waiting s)\<rparr>)
      else None)"

definition lcc_acquire :: "u64 \<Rightarrow> u32 \<Rightarrow> lock_client_cache \<Rightarrow> (acq_next \<times> lock_client_cache) option" where
  "lcc_acquire lid self s = (if lc_mutex s then None else acqu lid self (init_lock lid s))"

text \<open>The reply of the acquire RPC.  The sequence number recorded for the lock is the current value of the shared counter.\<close>

definition acquire_granted :: "u64 \<Rightarrow> u32 \<Rightarrow> nat \<Rightarrow> lock_client_cache \<Rightarrow> lock_client_cache option" where
  "acquire_granted lid self cond s =
     (if lc_mutex s then None
      else let s = s\<lparr>lc_cond_waiting := merase cond (lc_cond_waiting s)\<rparr>;
               s = set_status lid CLOCKED s;
               s = s\<lparr>lc_thread := mput lid self (lc_thread s), lc_seqid := mput lid (lc_seq s) (lc_seqid s)\<rparr>
           in Some (if mget 0 (lc_waiting_revoke s) lid = lc_seq s
                then s\<lparr>lc_revoke := lc_revoke s @ [lid], lc_waiting_revoke := mput lid (- 1) (lc_waiting_revoke s)\<rparr>
                else s\<lparr>lc_waiting_revoke := mindex 0 lid (lc_waiting_revoke s)\<rparr>))"

definition acquire_refused :: "u64 \<Rightarrow> nat \<Rightarrow> lock_client_cache \<Rightarrow> (acq_next \<times> lock_client_cache) option" where
  "acquire_refused lid cond s =
     (if lc_mutex s then None
      else if mget False (lc_retry s) lid
      then Some (DoCall cond, set_status lid ACQUIRING (s\<lparr>lc_retry := mput lid False (lc_retry s)\<rparr>))
      else case mfind (lc_waitlist s) lid of
             None \<Rightarrow> None
           | Some wl \<Rightarrow> Some (WaitRetry cond, set_status lid RETRYING
               (s\<lparr>lc_retry := mindex False lid (lc_retry s), lc_waitlist := mput lid (cond # wl) (lc_waitlist s),
                  lc_cond_waiting := mput cond True (lc_cond_waiting s)\<rparr>)))"

text \<open>A signalled thread resumes, in the retry loop or behind the wait for its turn.\<close>

definition resume :: "nat \<Rightarrow> lock_client_cache \<Rightarrow> lock_client_cache option" where
  "resume cond s =
     (if lc_mutex s \<or> cond \<notin> set (lc_signalled s) then None
      else Some (s\<lparr>lc_signalled := removeAll cond (lc_signalled s)\<rparr>))"

definition wake_retry :: "u64 \<Rightarrow> nat \<Rightarrow> lock_client_cache \<Rightarrow> (acq_next \<times> lock_client_cache) option" where
  "wake_retry lid cond s = map_option (\<lambda>s. (DoCall cond, set_status lid ACQUIRING s)) (resume cond s)"

definition wake_turn :: "u64 \<Rightarrow> u32 \<Rightarrow> nat \<Rightarrow> lock_client_cache \<Rightarrow> (acq_next \<times> lock_client_cache) option" where
  "wake_turn lid self cond s =
     (case resume cond s of
        None \<Rightarrow> None
      | Some s \<Rightarrow> acqu lid self (s\<lparr>lc_cond_waiting := merase cond (lc_cond_waiting s)\<rparr>))"

subsection \<open>Releasing\<close>

definition listContains :: "'a list \<Rightarrow> 'a \<Rightarrow> bool" where
  "listContains l v \<longleftrightarrow> list_ex (\<lambda>x. x = v) l"

definition lcc_release :: "u64 \<Rightarrow> u32 \<Rightarrow> lock_client_cache \<Rightarrow> lock_client_cache option" where
  "lcc_release lid self s =
     (if lc_mutex s then None
      else if mget 0 (lc_thread s) lid \<noteq> self then Some (s\<lparr>lc_thread := mindex 0 lid (lc_thread s)\<rparr>)
      else let s = s\<lparr>lc_thread := mput lid (- 1) (lc_thread s), lc_retry := mput lid False (lc_retry s)\<rparr>
           in if listContains (lc_revoke s) lid
              then Some ((set_status lid RELEASING s)\<lparr>lc_waiting_revoke := mput lid (- 1) (lc_waiting_revoke s),
                     lc_seqid := mput lid (- 1) (lc_seqid s), lc_released := lc_released s @ [lid],
                     lc_revoke := removeAll lid (lc_revoke s)\<rparr>)
              else let s = set_status lid CFREE s in
                case mfind (lc_waitlist s) lid of
                  None \<Rightarrow> None
                | Some [] \<Rightarrow> Some s
                | Some (c # wl) \<Rightarrow> Some (cond_signal c (s\<lparr>lc_waitlist := mput lid wl (lc_waitlist s)\<rparr>)))"

text \<open>One round of \<open>releaser\<close> up to the release RPC: the lock to give back, and whether this client wants it again.\<close>

definition releaser_take :: "lock_client_cache \<Rightarrow> ((u64 \<times> int) \<times> lock_client_cache) option" where
  "releaser_take s =
     (if lc_mutex s then None
      else case lc_released s of
          [] \<Rightarrow> None
        | lid # rest \<Rightarrow>
            if stat s lid \<noteq> RELEASING then None
            else case mfind (lc_waitlist s) lid of
                None \<Rightarrow> None
              | Some wl \<Rightarrow> Some ((lid, if wl = [] then 0 else 1), set_status lid NONE (s\<lparr>lc_released := rest\<rparr>)))"

subsection \<open>Messages from the server\<close>

text \<open>
  \<open>revoke\<close> waits while an acquire is under way.  When the lock is not held, or on its way back, it returns without
  unlocking \<open>map_lock\<close>.
\<close>

definition lcc_revoke :: "u64 \<Rightarrow> u64 \<Rightarrow> lock_client_cache \<Rightarrow> lock_client_cache option" where
  "lcc_revoke lid seqid s =
     (if lc_mutex s then None
      else if stat s lid = ACQUIRING then None
      else let s = s\<lparr>lc_status := mindex NONE lid (lc_status s)\<rparr> in
           if stat s lid = NONE \<or> stat s lid = RELEASING then Some (s\<lparr>lc_mutex := True\<rparr>)
           else let s = s\<lparr>lc_seqid := mindex 0 lid (lc_seqid s)\<rparr>;
                    s = (if mget 0 (lc_seqid s) lid = seqid
                         then if stat s lid = CFREE
                              then (set_status lid RELEASING s)\<lparr>lc_released := lc_released s @ [lid]\<rparr>
                              else s\<lparr>lc_revoke := lc_revoke s @ [lid]\<rparr>
                         else s)
                in if mget 0 (lc_seqid s) lid < seqid then None else Some s)"

definition lcc_retry :: "u64 \<Rightarrow> lock_client_cache \<Rightarrow> lock_client_cache option" where
  "lcc_retry lid s =
     (if lc_mutex s then None
      else case mfind (lc_waitlist s) lid of
          None \<Rightarrow> None
        | Some wl \<Rightarrow>
            if wl = [] \<or> stat s lid = ACQUIRING then Some (s\<lparr>lc_retry := mput lid True (lc_retry s)\<rparr>)
            else let s = s\<lparr>lc_waitlist := mput lid (tl wl) (lc_waitlist s)\<rparr>
                 in if \<not> mget False (lc_cond_waiting s) (hd wl) then None else Some (cond_signal (hd wl) s))"

subsection \<open>The client's threads\<close>

text \<open>
  Where a thread is in \<open>acquire\<close>: between the unlock and reading \<open>seqid\<close> for the call, waiting for the server to serve the
  call, with the reply on its way (granted or not), or waiting on a condition.  \<open>cl_held\<close> records the locks each thread
  has acquired and not yet released, as the callers see it; \<open>cl_rel\<close> the release call the releaser thread is making.
\<close>

datatype pc = Idle | Sending u64 nat | Sent u64 nat u64 | Replied u64 nat bool | RetryWait u64 nat | TurnWait u64 nat

record lock_client =
  cl_lcc :: lock_client_cache
  cl_pc :: "u32 \<Rightarrow> pc"
  cl_rel :: "(u64 \<times> int) option"
  cl_held :: "(u64 \<times> u32) list"

definition client_new :: lock_client where
  "client_new = \<lparr>cl_lcc = lcc_new, cl_pc = (\<lambda>_. Idle), cl_rel = None, cl_held = []\<rparr>"

fun acq_go :: "u64 \<Rightarrow> u32 \<Rightarrow> lock_client \<Rightarrow> acq_next \<times> lock_client_cache \<Rightarrow> lock_client" where
  "acq_go lid t k (AcqReturned, s) = k\<lparr>cl_lcc := s, cl_pc := (cl_pc k)(t := Idle), cl_held := (lid, t) # cl_held k\<rparr>"
| "acq_go lid t k (DoCall c, s) = k\<lparr>cl_lcc := s, cl_pc := (cl_pc k)(t := Sending lid c)\<rparr>"
| "acq_go lid t k (WaitTurn c, s) = k\<lparr>cl_lcc := s, cl_pc := (cl_pc k)(t := TurnWait lid c)\<rparr>"
| "acq_go lid t k (WaitRetry c, s) = k\<lparr>cl_lcc := s, cl_pc := (cl_pc k)(t := RetryWait lid c)\<rparr>"

datatype client_act = CAcquire u32 u64 | CSend u32 | CReply u32 | CWake u32 | CRelease u32 u64 | CRevoke u64 u64 | CRetry u64 | CRelTake

definition thread_ok :: "u32 \<Rightarrow> bool" where
  "thread_ok t \<longleftrightarrow> t \<noteq> 0 \<and> t \<noteq> - 1"

fun client_step :: "client_act \<Rightarrow> lock_client \<Rightarrow> lock_client option" where
  "client_step (CAcquire t lid) k =
     (if \<not> thread_ok t \<or> cl_pc k t \<noteq> Idle then None else map_option (acq_go lid t k) (lcc_acquire lid t (cl_lcc k)))"
| "client_step (CSend t) k =
     (case cl_pc k t of Sending lid c \<Rightarrow> Some (k\<lparr>cl_pc := (cl_pc k)(t := Sent lid c (lc_seq (cl_lcc k)))\<rparr>) | _ \<Rightarrow> None)"
| "client_step (CReply t) k =
     (case cl_pc k t of
        Replied lid c True \<Rightarrow> map_option (\<lambda>s. acq_go lid t k (AcqReturned, s)) (acquire_granted lid t c (cl_lcc k))
      | Replied lid c False \<Rightarrow> map_option (acq_go lid t k) (acquire_refused lid c (cl_lcc k))
      | _ \<Rightarrow> None)"
| "client_step (CWake t) k =
     (case cl_pc k t of
        RetryWait lid c \<Rightarrow> map_option (acq_go lid t k) (wake_retry lid c (cl_lcc k))
      | TurnWait lid c \<Rightarrow> map_option (acq_go lid t k) (wake_turn lid t c (cl_lcc k))
      | _ \<Rightarrow> None)"
| "client_step (CRelease t lid) k =
     (if \<not> thread_ok t \<or> cl_pc k t \<noteq> Idle then None
      else map_option (\<lambda>s. k\<lparr>cl_lcc := s, cl_held := removeAll (lid, t) (cl_held k)\<rparr>) (lcc_release lid t (cl_lcc k)))"
| "client_step (CRevoke lid q) k = map_option (\<lambda>s. k\<lparr>cl_lcc := s\<rparr>) (lcc_revoke lid q (cl_lcc k))"
| "client_step (CRetry lid) k = map_option (\<lambda>s. k\<lparr>cl_lcc := s\<rparr>) (lcc_retry lid (cl_lcc k))"
| "client_step CRelTake k =
     (if cl_rel k \<noteq> None then None
      else map_option (\<lambda>(r, s). k\<lparr>cl_lcc := s, cl_rel := Some r\<rparr>) (releaser_take (cl_lcc k)))"

subsection \<open>What the client keeps invariant\<close>

definition owner :: "lock_client_cache \<Rightarrow> u64 \<Rightarrow> u32 option" where
  "owner s = (\<lambda>lid. let t = mget 0 (lc_thread s) lid in if thread_ok t then Some t else None)"

fun acquiring :: "pc \<Rightarrow> u64 option" where
  "acquiring (Sending l c) = Some l" | "acquiring (Sent l c q) = Some l" | "acquiring (Replied l c g) = Some l"
| "acquiring (RetryWait l c) = Some l" | "acquiring _ = None"

fun pc_status :: "pc \<Rightarrow> lcc_status" where
  "pc_status (RetryWait l c) = RETRYING"
| "pc_status _ = ACQUIRING"

fun granted :: "pc \<Rightarrow> u64 option" where
  "granted (Replied l c True) = Some l"
| "granted _ = None"

definition has_lock :: "lcc_status \<Rightarrow> bool" where
  "has_lock x \<longleftrightarrow> x = CFREE \<or> x = CLOCKED \<or> x = RELEASING"

text \<open>
  The part of the state exclusion depends on.  \<open>cl_owns\<close>: the lock is with this client, as far as the client or a message
  on its way to or from it knows.
\<close>

definition threads_inv :: "(u64 \<Rightarrow> lcc_status) \<Rightarrow> (u32 \<Rightarrow> pc) \<Rightarrow> bool" where
  "threads_inv st pc \<longleftrightarrow> (\<forall>t l. acquiring (pc t) = Some l \<longrightarrow> st l = pc_status (pc t)
     \<and> (\<forall>t'. acquiring (pc t') = Some l \<longrightarrow> t' = t)) \<and> (\<forall>t. pc t \<noteq> Idle \<longrightarrow> thread_ok t)"

definition owner_inv :: "(u64 \<Rightarrow> lcc_status) \<Rightarrow> (u64 \<Rightarrow> u32 option) \<Rightarrow> (u64 \<times> u32) list \<Rightarrow> bool" where
  "owner_inv st ow held \<longleftrightarrow> (\<forall>l. ow l \<noteq> None \<longrightarrow> st l = CLOCKED) \<and> (\<forall>l t. (l, t) \<in> set held \<longrightarrow> ow l = Some t)"

definition released_inv :: "(u64 \<Rightarrow> lcc_status) \<Rightarrow> u64 list \<Rightarrow> bool" where
  "released_inv st rel \<longleftrightarrow> distinct rel \<and> (\<forall>l \<in> set rel. st l = RELEASING)"

definition returning_inv :: "(u64 \<Rightarrow> lcc_status) \<Rightarrow> (u32 \<Rightarrow> pc) \<Rightarrow> (u64 \<times> int) option \<Rightarrow> bool" where
  "returning_inv st pc rel \<longleftrightarrow> (\<forall>l r. rel = Some (l, r) \<longrightarrow> \<not> has_lock (st l) \<and> (\<forall>t. granted (pc t) \<noteq> Some l))"

definition client_inv :: "lock_client \<Rightarrow> bool" where
  "client_inv k \<longleftrightarrow> threads_inv (stat (cl_lcc k)) (cl_pc k) \<and> owner_inv (stat (cl_lcc k)) (owner (cl_lcc k)) (cl_held k)
     \<and> released_inv (stat (cl_lcc k)) (lc_released (cl_lcc k)) \<and> returning_inv (stat (cl_lcc k)) (cl_pc k) (cl_rel k)"

definition cl_owns :: "lock_client \<Rightarrow> u64 \<Rightarrow> bool" where
  "cl_owns k l \<longleftrightarrow> has_lock (stat (cl_lcc k) l) \<or> (\<exists>t. granted (cl_pc k t) = Some l) \<or> (\<exists>r. cl_rel k = Some (l, r))"

lemma client_inv_new: "client_inv client_new"
  by (simp add: client_inv_def client_new_def lcc_new_def threads_inv_def owner_inv_def released_inv_def returning_inv_def
      owner_def mget_def thread_ok_def)

lemma held_owner: "client_inv k \<Longrightarrow> (l, t) \<in> set (cl_held k) \<Longrightarrow> owner (cl_lcc k) l = Some t"
  by (auto simp: client_inv_def owner_inv_def)

lemma held_unique: "client_inv k \<Longrightarrow> (l, t) \<in> set (cl_held k) \<Longrightarrow> (l, t') \<in> set (cl_held k) \<Longrightarrow> t = t'"
  using held_owner [of k l t] held_owner [of k l t'] by simp

lemma held_owns: "client_inv k \<Longrightarrow> (l, t) \<in> set (cl_held k) \<Longrightarrow> cl_owns k l"
  by (auto simp: client_inv_def owner_inv_def cl_owns_def has_lock_def)

lemma threads_inv_idle: "threads_inv st pc \<Longrightarrow> acquiring p = None \<Longrightarrow> p \<noteq> Idle \<longrightarrow> thread_ok t \<Longrightarrow> threads_inv st (pc(t := p))"
  by (simp add: threads_inv_def)

lemma threads_inv_acq:
  "threads_inv st pc \<Longrightarrow> acquiring p = Some l \<Longrightarrow> \<forall>t'. t' \<noteq> t \<longrightarrow> acquiring (pc t') \<noteq> Some l \<Longrightarrow> x = pc_status p
     \<Longrightarrow> thread_ok t \<Longrightarrow> threads_inv (st(l := x)) (pc(t := p))"
  by (auto simp: threads_inv_def)

lemma threads_inv_st: "threads_inv st pc \<Longrightarrow> \<forall>t. acquiring (pc t) \<noteq> Some l \<Longrightarrow> threads_inv (st(l := x)) pc"
  by (auto simp: threads_inv_def)

lemma threads_inv_none:
  "threads_inv st pc \<Longrightarrow> st l \<noteq> ACQUIRING \<Longrightarrow> st l \<noteq> RETRYING \<Longrightarrow> acquiring (pc t) \<noteq> Some l"
proof
  assume a: "threads_inv st pc" "st l \<noteq> ACQUIRING" "st l \<noteq> RETRYING" "acquiring (pc t) = Some l"
  then have "st l = pc_status (pc t)" by (simp add: threads_inv_def)
  then show False using a(2,3) by (cases "pc t") auto
qed

lemma owner_inv_claim:
  "owner_inv st ow held \<Longrightarrow> st l \<noteq> CLOCKED \<Longrightarrow> owner_inv (st(l := CLOCKED)) (ow(l \<mapsto> t)) ((l, t) # held)"
  by (auto simp: owner_inv_def)

lemma owner_inv_drop:
  "owner_inv st ow held \<Longrightarrow> ow l = Some t \<Longrightarrow> owner_inv (st(l := x)) (ow(l := None)) (removeAll (l, t) held)"
  by (auto simp: owner_inv_def)

lemma owner_inv_st: "owner_inv st ow held \<Longrightarrow> st l \<noteq> CLOCKED \<Longrightarrow> owner_inv (st(l := x)) ow held"
  by (auto simp: owner_inv_def)

lemma acquiring_granted: "granted p = Some l \<Longrightarrow> acquiring p = Some l"
  by (cases p rule: granted.cases) auto

text \<open>The steps a client can take, seen through the part of its state the invariant is about.\<close>

type_synonym cview = "(u64 \<Rightarrow> lcc_status) \<times> (u64 \<Rightarrow> u32 option) \<times> u64 list \<times> (u32 \<Rightarrow> pc) \<times> (u64 \<times> int) option \<times> (u64 \<times> u32) list"

definition cview :: "lock_client \<Rightarrow> cview" where
  "cview k = (stat (cl_lcc k), owner (cl_lcc k), lc_released (cl_lcc k), cl_pc k, cl_rel k, cl_held k)"

inductive cview_step :: "cview \<Rightarrow> cview \<Rightarrow> bool" where
  stay: "cview_step v v"
| move: "acquiring p = None \<Longrightarrow> p \<noteq> Idle \<longrightarrow> thread_ok t \<Longrightarrow> set held' \<subseteq> set held \<union> {(l, t) |l t. ow l = Some t}
     \<Longrightarrow> cview_step (st, ow, rel, pc, cr, held) (st, ow, rel, pc(t := p), cr, held')"
| start: "acquiring (pc t) = None \<Longrightarrow> thread_ok t \<Longrightarrow> st l = NONE
     \<Longrightarrow> cview_step (st, ow, rel, pc, cr, held) (st(l := ACQUIRING), ow, rel, pc(t := Sending l c), cr, held)"
| go_on: "acquiring (pc t) = Some l \<Longrightarrow> acquiring p = Some l \<Longrightarrow> granted p = None \<Longrightarrow> granted (pc t) = None
     \<Longrightarrow> cview_step (st, ow, rel, pc, cr, held) (st(l := pc_status p), ow, rel, pc(t := p), cr, held)"
| win: "granted (pc t) = Some l
     \<Longrightarrow> cview_step (st, ow, rel, pc, cr, held) (st(l := CLOCKED), ow(l \<mapsto> t), rel, pc(t := Idle), cr, (l, t) # held)"
| take_free: "acquiring (pc t) = None \<Longrightarrow> st l = CFREE
     \<Longrightarrow> cview_step (st, ow, rel, pc, cr, held) (st(l := CLOCKED), ow(l \<mapsto> t), rel, pc(t := Idle), cr, (l, t) # held)"
| free: "ow l = Some t
     \<Longrightarrow> cview_step (st, ow, rel, pc, cr, held) (st(l := CFREE), ow(l := None), rel, pc, cr, removeAll (l, t) held)"
| give_back: "ow l = Some t
     \<Longrightarrow> cview_step (st, ow, rel, pc, cr, held) (st(l := RELEASING), ow(l := None), rel @ [l], pc, cr, removeAll (l, t) held)"
| revoked: "st l = CFREE \<Longrightarrow> cview_step (st, ow, rel, pc, cr, held) (st(l := RELEASING), ow, rel @ [l], pc, cr, held)"
| take_rel: "rel = l # rel' \<Longrightarrow> cview_step (st, ow, rel, pc, None, held) (st(l := NONE), ow, rel', pc, Some (l, r), held)"

fun cview_inv :: "cview \<Rightarrow> bool" where
  "cview_inv (st, ow, rel, pc, cr, held) \<longleftrightarrow>
     threads_inv st pc \<and> owner_inv st ow held \<and> released_inv st rel \<and> returning_inv st pc cr"

fun cview_owns :: "cview \<Rightarrow> u64 \<Rightarrow> bool" where
  "cview_owns (st, ow, rel, pc, cr, held) l \<longleftrightarrow> has_lock (st l) \<or> (\<exists>t. granted (pc t) = Some l) \<or> (\<exists>r. cr = Some (l, r))"

lemma client_inv_cview: "client_inv k \<longleftrightarrow> cview_inv (cview k)" and cl_owns_cview: "cl_owns k l \<longleftrightarrow> cview_owns (cview k) l"
  by (simp_all add: client_inv_def cl_owns_def cview_def)

lemma cview_step_owns: "cview_step v v' \<Longrightarrow> cview_inv v \<Longrightarrow> cview_owns v' l \<Longrightarrow> cview_owns v l"
proof (induction rule: cview_step.induct)
  case (move p t held' held ow st rel pc cr)
  then show ?case by (auto split: if_splits dest: acquiring_granted)
next
  case (free ow l' t st rel pc cr held)
  then show ?case by (auto simp: owner_inv_def has_lock_def split: if_splits)
next
  case (give_back ow l' t st rel pc cr held)
  then show ?case by (auto simp: owner_inv_def has_lock_def split: if_splits)
next
  case (take_rel rel l' rel' st ow pc held r)
  then show ?case by (auto simp: released_inv_def has_lock_def split: if_splits)
next
  case (go_on pc t l' p st ow rel cr held)
  then have "\<not> has_lock (pc_status p)" by (cases p) (auto simp: has_lock_def)
  with go_on show ?case by (auto split: if_splits)
qed (auto simp: has_lock_def split: if_splits)

lemma cview_step_inv: "cview_step v v' \<Longrightarrow> cview_inv v \<Longrightarrow> cview_inv v'"
proof (induction rule: cview_step.induct)
  case (move p t held' held ow st rel pc cr)
  then show ?case
    by (auto simp: threads_inv_idle owner_inv_def returning_inv_def dest: acquiring_granted)
next
  case (start pc t st l ow rel cr held c)
  have "\<forall>t'. acquiring (pc t') \<noteq> Some l" using threads_inv_none [of st pc l] start by auto
  then show ?case using start
    by (auto simp: owner_inv_def released_inv_def returning_inv_def has_lock_def intro!: threads_inv_acq)
next
  case (go_on pc t l p st ow rel cr held)
  have u: "\<forall>t'. t' \<noteq> t \<longrightarrow> acquiring (pc t') \<noteq> Some l" and s: "st l = pc_status (pc t)" and t: "thread_ok t"
    using go_on by (auto simp: threads_inv_def) (metis acquiring.simps(5) option.distinct(1))
  have n: "pc_status q \<noteq> CLOCKED" "pc_status q \<noteq> RELEASING" "\<not> has_lock (pc_status q)" for q
    by (cases q; simp add: has_lock_def)+
  have "threads_inv (st(l := pc_status p)) (pc(t := p))" using go_on u t by (intro threads_inv_acq) auto
  moreover have "\<forall>l' \<in> set rel. l' \<noteq> l" using go_on s n [of "pc t"] by (auto simp: released_inv_def)
  ultimately show ?case using go_on s n [of p] n [of "pc t"]
    by (auto simp: owner_inv_st released_inv_def returning_inv_def)
next
  case (win pc t l st ow rel cr held)
  have a: "acquiring (pc t) = Some l" "st l = pc_status (pc t)" "pc_status (pc t) = ACQUIRING"
    using win acquiring_granted [OF win(1)] by (auto simp: threads_inv_def) (cases "pc t" rule: granted.cases; simp)
  have "\<forall>t'. acquiring ((pc(t := Idle)) t') \<noteq> Some l" using win a by (auto simp: threads_inv_def)
  then have "threads_inv (st(l := CLOCKED)) (pc(t := Idle))"
    using win by (intro threads_inv_st threads_inv_idle) auto
  moreover have "owner_inv (st(l := CLOCKED)) (ow(l \<mapsto> t)) ((l, t) # held)" using win a by (intro owner_inv_claim) auto
  moreover have "\<forall>r. cr \<noteq> Some (l, r)" using win by (auto simp: returning_inv_def)
  ultimately show ?case using win a by (auto simp: released_inv_def returning_inv_def)
next
  case (take_free pc t st l ow rel cr held)
  have "\<forall>t'. acquiring ((pc(t := Idle)) t') \<noteq> Some l" using threads_inv_none [of st pc l] take_free by auto
  then have "threads_inv (st(l := CLOCKED)) (pc(t := Idle))"
    using take_free by (intro threads_inv_st threads_inv_idle) auto
  moreover have "owner_inv (st(l := CLOCKED)) (ow(l \<mapsto> t)) ((l, t) # held)" using take_free by (intro owner_inv_claim) auto
  ultimately show ?case using take_free
    by (auto simp: released_inv_def returning_inv_def has_lock_def)
next
  case (free ow l t st rel pc cr held)
  then have "st l = CLOCKED" by (auto simp: owner_inv_def)
  moreover from this have "\<forall>t'. acquiring (pc t') \<noteq> Some l" using threads_inv_none [of st pc l] free by auto
  ultimately show ?case using free
    by (auto simp: threads_inv_st owner_inv_drop released_inv_def returning_inv_def has_lock_def)
next
  case (give_back ow l t st rel pc cr held)
  then have "st l = CLOCKED" by (auto simp: owner_inv_def)
  moreover from this have "\<forall>t'. acquiring (pc t') \<noteq> Some l" using threads_inv_none [of st pc l] give_back by auto
  ultimately show ?case using give_back
    by (auto simp: threads_inv_st owner_inv_drop released_inv_def returning_inv_def has_lock_def)
next
  case (revoked st l ow rel pc cr held)
  then have "\<forall>t'. acquiring (pc t') \<noteq> Some l" using threads_inv_none [of st pc l] by auto
  then show ?case using revoked
    by (auto simp: threads_inv_st owner_inv_st released_inv_def returning_inv_def has_lock_def)
next
  case (take_rel rel l rel' st ow pc held r)
  then have "st l = RELEASING" by (auto simp: released_inv_def)
  moreover from this have "\<forall>t'. acquiring (pc t') \<noteq> Some l" using threads_inv_none [of st pc l] take_rel by auto
  ultimately show ?case using take_rel
    by (auto simp: threads_inv_st owner_inv_st released_inv_def returning_inv_def has_lock_def dest: acquiring_granted)
qed

subsection \<open>Every client operation is such a step\<close>

lemma cview_simps:
  "stat (set_status l x s) = (stat s)(l := x)" "owner (set_status l x s) = owner s" "lc_released (set_status l x s) = lc_released s"
  "stat (cond_signal c s) = stat s" "owner (cond_signal c s) = owner s" "lc_released (cond_signal c s) = lc_released s"
  "owner (s\<lparr>lc_thread := mput l t (lc_thread s)\<rparr>) = (owner s)(l := (if thread_ok t then Some t else None))"
  "owner (s\<lparr>lc_thread := mindex 0 l (lc_thread s)\<rparr>) = owner s"
  by (auto simp: set_status_def cond_signal_def owner_def mget_mput_fun Let_def fun_eq_iff stdmap_simps)

lemma owner_cong: "lc_thread s = lc_thread s' \<Longrightarrow> owner s = owner s'"
  by (simp add: owner_def fun_eq_iff)

lemma init_lock_view:
  assumes "owner_inv (stat s) (owner s) held"
  shows "stat (init_lock lid s) = stat s" "owner (init_lock lid s) = owner s" "lc_released (init_lock lid s) = lc_released s"
proof -
  have "stat s lid = NONE" "owner s lid = None" if "\<not> mcount (lc_status s) lid"
  proof -
    show "stat s lid = NONE" using that by (simp add: mget_def mcount_def)
    then show "owner s lid = None" using assms by (auto simp: owner_inv_def)
  qed
  then show "stat (init_lock lid s) = stat s" "owner (init_lock lid s) = owner s" "lc_released (init_lock lid s) = lc_released s"
    by (auto simp: init_lock_def mget_mput_fun owner_def thread_ok_def Let_def fun_eq_iff split: if_splits)
qed

lemma acqu_view:
  assumes "acqu lid t s = Some (n, s')" "thread_ok t"
  shows "(\<exists>c. n = DoCall c \<and> stat s lid = NONE \<and> stat s' = (stat s)(lid := ACQUIRING) \<and> owner s' = owner s \<and> lc_released s' = lc_released s)
    \<or> (n = AcqReturned \<and> owner s lid = Some t \<and> s' = s)
    \<or> (n = AcqReturned \<and> stat s lid = CFREE \<and> stat s' = (stat s)(lid := CLOCKED) \<and> owner s' = (owner s)(lid \<mapsto> t) \<and> lc_released s' = lc_released s)
    \<or> (\<exists>c. n = WaitTurn c \<and> stat s' = stat s \<and> owner s' = owner s \<and> lc_released s' = lc_released s)"
proof -
  consider "stat s lid = NONE" | "stat s lid \<noteq> NONE" "mget 0 (lc_thread s) lid = t"
    | "stat s lid = CFREE" "mget 0 (lc_thread s) lid \<noteq> t"
    | "stat s lid \<noteq> NONE" "stat s lid \<noteq> CFREE" "mget 0 (lc_thread s) lid \<noteq> t" by blast
  then show ?thesis
  proof cases
    case 1
    then show ?thesis using assms(1) by (auto simp: acqu_def new_cond_def set_status_def mget_mput_fun owner_def)
  next
    case 2
    then show ?thesis using assms by (auto simp: acqu_def owner_def)
  next
    case 3
    then show ?thesis using assms by (auto simp: acqu_def set_status_def mget_mput_fun owner_def fun_eq_iff)
  next
    case 4
    then show ?thesis using assms by (auto simp: acqu_def new_cond_def owner_def split: if_splits option.splits)
  qed
qed

lemma acq_go_view:
  assumes "acqu lid t s = Some x" "thread_ok t" "acquiring (cl_pc k t) = None"
    and "stat s = stat (cl_lcc k)" "owner s = owner (cl_lcc k)" "lc_released s = lc_released (cl_lcc k)"
  shows "cview_step (cview k) (cview (acq_go lid t k x))"
proof -
  obtain n s' where x: "x = (n, s')" by (cases x)
  from acqu_view [OF assms(1) [unfolded x] assms(2)] show ?thesis
  proof (elim disjE exE conjE)
    fix c assume "n = DoCall c" "stat s lid = NONE" "stat s' = (stat s)(lid := ACQUIRING)" "owner s' = owner s" "lc_released s' = lc_released s"
    then show ?thesis using assms by (simp add: x cview_def cview_step.start)
  next
    assume "n = AcqReturned" "owner s lid = Some t" "s' = s"
    then show ?thesis using assms by (auto simp: x cview_def intro!: cview_step.move)
  next
    assume "n = AcqReturned" "stat s lid = CFREE" "stat s' = (stat s)(lid := CLOCKED)" "owner s' = (owner s)(lid \<mapsto> t)" "lc_released s' = lc_released s"
    then show ?thesis using assms by (simp add: x cview_def cview_step.take_free)
  next
    fix c assume "n = WaitTurn c" "stat s' = stat s" "owner s' = owner s" "lc_released s' = lc_released s"
    then show ?thesis using assms by (simp add: x cview_def cview_step.move)
  qed
qed

lemma reply_view:
  assumes "client_step (CReply t) k = Some k'" "client_inv k"
  shows "cview_step (cview k) (cview k')"
proof -
  obtain lid c g where p: "cl_pc k t = Replied lid c g" using assms(1) by (auto split: pc.splits)
  then have t: "thread_ok t" using assms(2) by (auto simp: client_inv_def threads_inv_def)
  show ?thesis
  proof (cases g)
    case True
    then obtain s where s: "acquire_granted lid t c (cl_lcc k) = Some s" "k' = acq_go lid t k (AcqReturned, s)"
      using assms(1) p by auto
    have "stat s = (stat (cl_lcc k))(lid := CLOCKED)" "owner s = (owner (cl_lcc k))(lid \<mapsto> t)" "lc_released s = lc_released (cl_lcc k)"
      using s(1) t by (auto simp: acquire_granted_def set_status_def owner_def mget_mput_fun fun_eq_iff Let_def split: if_splits)
    then show ?thesis using cview_step.win [of "cl_pc k" t lid] p True by (simp add: s(2) cview_def)
  next
    case False
    then obtain n s where s: "acquire_refused lid c (cl_lcc k) = Some (n, s)" "k' = acq_go lid t k (n, s)"
      using assms(1) p by auto
    then consider "n = DoCall c" "stat s = (stat (cl_lcc k))(lid := pc_status (Sending lid c))" "owner s = owner (cl_lcc k)" "lc_released s = lc_released (cl_lcc k)"
      | "n = WaitRetry c" "stat s = (stat (cl_lcc k))(lid := pc_status (RetryWait lid c))" "owner s = owner (cl_lcc k)" "lc_released s = lc_released (cl_lcc k)"
      by (auto simp: acquire_refused_def set_status_def owner_def mget_mput_fun split: if_splits option.splits)
    then show ?thesis
      using cview_step.go_on [of "cl_pc k" t lid "Sending lid c"] cview_step.go_on [of "cl_pc k" t lid "RetryWait lid c"] p False
      by cases (simp_all add: s(2) cview_def)
  qed
qed

lemma wake_view:
  assumes "client_step (CWake t) k = Some k'" "client_inv k"
  shows "cview_step (cview k) (cview k')"
proof -
  have t: "thread_ok t" using assms by (auto simp: client_inv_def threads_inv_def split: pc.splits)
  from assms(1) consider lid c where "cl_pc k t = RetryWait lid c" | lid c where "cl_pc k t = TurnWait lid c"
    by (auto split: pc.splits)
  then show ?thesis
  proof cases
    case 1
    then obtain s where s: "resume c (cl_lcc k) = Some s" "k' = acq_go lid t k (DoCall c, set_status lid ACQUIRING s)"
      using assms(1) by (auto simp: wake_retry_def)
    then have "stat s = stat (cl_lcc k)" "owner s = owner (cl_lcc k)" "lc_released s = lc_released (cl_lcc k)"
      by (auto simp: resume_def owner_def split: if_splits)
    then show ?thesis using cview_step.go_on [of "cl_pc k" t lid "Sending lid c"] 1 by (simp add: s(2) cview_def cview_simps)
  next
    case 2
    then obtain s x where s: "resume c (cl_lcc k) = Some s" "acqu lid t (s\<lparr>lc_cond_waiting := merase c (lc_cond_waiting s)\<rparr>) = Some x" "k' = acq_go lid t k x"
      using assms(1) by (auto simp: wake_turn_def split: option.splits)
    then show ?thesis
      unfolding s(3) using 2 by (intro acq_go_view [OF s(2) t]) (auto simp: resume_def owner_def split: if_splits)
  qed
qed

lemma lcc_release_view:
  assumes "client_step (CRelease t lid) k = Some k'"
  shows "cview_step (cview k) (cview k')"
proof -
  obtain s where s: "lcc_release lid t (cl_lcc k) = Some s" "k' = k\<lparr>cl_lcc := s, cl_held := removeAll (lid, t) (cl_held k)\<rparr>" "thread_ok t"
      "cl_pc k t = Idle"
    using assms(1) by (auto split: if_splits)
  show ?thesis
  proof (cases "owner (cl_lcc k) lid = Some t")
    case False
    then have "s = (cl_lcc k)\<lparr>lc_thread := mindex 0 lid (lc_thread (cl_lcc k))\<rparr>"
      using s by (auto simp: lcc_release_def owner_def Let_def split: if_splits)
    moreover have "(cl_pc k)(t := Idle) = cl_pc k" using s(4) by auto
    ultimately show ?thesis
      using s cview_step.move [of Idle t "removeAll (lid, t) (cl_held k)" "cl_held k" "owner (cl_lcc k)" _ _ "cl_pc k"]
      by (simp add: cview_def cview_simps) blast
  next
    case True
    then have "mget 0 (lc_thread (cl_lcc k)) lid = t" by (auto simp: owner_def Let_def split: if_splits)
    then consider "stat s = (stat (cl_lcc k))(lid := RELEASING)" "owner s = (owner (cl_lcc k))(lid := None)" "lc_released s = lc_released (cl_lcc k) @ [lid]"
      | "stat s = (stat (cl_lcc k))(lid := CFREE)" "owner s = (owner (cl_lcc k))(lid := None)" "lc_released s = lc_released (cl_lcc k)"
      using s(1) by (auto simp: lcc_release_def set_status_def cond_signal_def owner_def mget_mput_fun thread_ok_def Let_def fun_eq_iff
          split: if_splits option.splits list.splits)
    then show ?thesis
      using cview_step.free [of "owner (cl_lcc k)" lid t] cview_step.give_back [of "owner (cl_lcc k)" lid t] True
      by cases (simp_all add: s(2) cview_def)
  qed
qed

lemma message_view:
  "lcc_revoke lid q s = Some s' \<Longrightarrow> (stat s' = stat s \<and> owner s' = owner s \<and> lc_released s' = lc_released s)
     \<or> (stat s lid = CFREE \<and> stat s' = (stat s)(lid := RELEASING) \<and> owner s' = owner s \<and> lc_released s' = lc_released s @ [lid])"
  "lcc_retry lid s = Some s' \<Longrightarrow> stat s' = stat s \<and> owner s' = owner s \<and> lc_released s' = lc_released s"
  by (auto simp: lcc_revoke_def lcc_retry_def set_status_def cond_signal_def owner_def mget_mput_fun Let_def split: if_splits option.splits)

lemma client_step_view:
  assumes "client_step a k = Some k'" "client_inv k"
  shows "cview_step (cview k) (cview k')"
proof (cases a)
  case (CAcquire t lid)
  then obtain x where x: "acqu lid t (init_lock lid (cl_lcc k)) = Some x" "k' = acq_go lid t k x" "thread_ok t" "cl_pc k t = Idle"
    using assms(1) by (auto simp: lcc_acquire_def split: if_splits)
  show ?thesis
    unfolding x(2) using init_lock_view [of "cl_lcc k" "cl_held k" lid] assms(2) x
    by (intro acq_go_view [OF x(1,3)]) (auto simp: client_inv_def)
next
  case (CSend t)
  then obtain lid c where x: "cl_pc k t = Sending lid c" "k' = k\<lparr>cl_pc := (cl_pc k)(t := Sent lid c (lc_seq (cl_lcc k)))\<rparr>"
    using assms(1) by (auto split: pc.splits)
  have "stat (cl_lcc k) lid = ACQUIRING" using assms(2) x(1) by (auto simp: client_inv_def threads_inv_def dest: spec [of _ t])
  then have "(stat (cl_lcc k))(lid := pc_status (Sent lid c q)) = stat (cl_lcc k)" for q by (simp add: fun_upd_idem)
  then show ?thesis
    using cview_step.go_on [of "cl_pc k" t lid "Sent lid c (lc_seq (cl_lcc k))" "stat (cl_lcc k)"] x by (simp add: cview_def)
next
  case (CRevoke lid q)
  then obtain s where s: "lcc_revoke lid q (cl_lcc k) = Some s" "k' = k\<lparr>cl_lcc := s\<rparr>" using assms(1) by auto
  then show ?thesis
    using message_view(1) [OF s(1)] cview_step.revoked [of "stat (cl_lcc k)" lid] cview_step.stay [of "cview k"]
    by (auto simp: cview_def)
next
  case (CRetry lid)
  then obtain s where s: "lcc_retry lid (cl_lcc k) = Some s" "k' = k\<lparr>cl_lcc := s\<rparr>" using assms(1) by auto
  then show ?thesis using message_view(2) [OF s(1)] cview_step.stay [of "cview k"] by (auto simp: cview_def)
next
  case CRelTake
  then obtain lid r s where s: "releaser_take (cl_lcc k) = Some ((lid, r), s)" "k' = k\<lparr>cl_lcc := s, cl_rel := Some (lid, r)\<rparr>" "cl_rel k = None"
    using assms(1) by (cases "cl_rel k") auto
  then obtain rest where "lc_released (cl_lcc k) = lid # rest" "stat s = (stat (cl_lcc k))(lid := NONE)" "owner s = owner (cl_lcc k)" "lc_released s = rest"
    by (auto simp: releaser_take_def set_status_def owner_def mget_mput_fun split: if_splits list.splits option.splits)
  then show ?thesis using s by (simp add: cview_def cview_step.take_rel)
qed (use assms reply_view wake_view lcc_release_view in blast)+

lemma client_step_inv:
  assumes "client_step a k = Some k'" "client_inv k"
  shows "client_inv k'" "cl_owns k' l \<Longrightarrow> cl_owns k l"
  using cview_step_inv [OF client_step_view [OF assms]] cview_step_owns [OF client_step_view [OF assms]] assms(2)
  by (simp_all add: client_inv_cview cl_owns_cview)

end
