(* ===== verification/LockServerState.thy ===== *)
theory LockServerState
  imports LockServerCache
begin

text \<open>
  The state transfer of the caching lock server, \<open>marshal_state\<close> and \<open>unmarshal_state\<close> of \<open>lock_server_cache.cc\<close>, on the
  bytes the marshalling library produces.
\<close>

text \<open>The loops over \<open>m_lock_retrylist\<close> and \<open>m_lock_clid_count\<close> write what \<open>rep << map\<close> would: the size, then each entry.\<close>

definition put_revoke :: "revoke_info \<Rightarrow> marshall \<Rightarrow> marshall option" where
  "put_revoke i = put_all [put_u64 (ri_lid i), put_int (ri_clid i), put_u64 (ri_seqid i)]"

definition put_lsc :: "lock_server_cache \<Rightarrow> marshall \<Rightarrow> marshall option" where
  "put_lsc s =
     put_all [put_map put_u64 put_int (m_lock_status s),
              put_map put_int put_string (m_clid_host s),
              put_map put_u64 put_int (m_lock_clid s),
              put_map put_u64 (put_vector put_int) (m_lock_retrylist s),
              put_vector put_revoke (l_revoke s),
              put_map put_u64 (put_map put_int put_int) (m_lock_clid_count s),
              put_map put_u64 put_u64 (m_lock_seqid s)]"

definition lsc_marshal_state :: "lock_server_cache \<Rightarrow> string option" where
  "lsc_marshal_state s = put_lsc s marshall_new \<bind> m_str"

definition get_revoke :: "unmarshall \<Rightarrow> revoke_info \<times> unmarshall" where
  "get_revoke u =
     (let (lid, u) = get_u64 u; (clid, u) = get_int u; (seqid, u) = get_u64 u
      in (\<lparr>ri_lid = lid, ri_clid = clid, ri_seqid = seqid\<rparr>, u))"

text \<open>Everything \<open>unmarshal_state\<close> reads, in its order; entries of the maps it fills by hand come as lists.\<close>

record lsc_parts =
  pt_status :: "(u64, int) stdmap"
  pt_host :: "(int, string) stdmap"
  pt_clid :: "(u64, int) stdmap"
  pt_retry :: "(u64 \<times> int list) list"
  pt_revoke :: "revoke_info list"
  pt_count :: "(u64 \<times> (int, int) stdmap) list"
  pt_seqid :: "(u64, u64) stdmap"

definition get_parts :: "unmarshall \<Rightarrow> lsc_parts \<times> unmarshall" where
  "get_parts u =
     (let (a, u) = get_map get_u64 get_int u; (b, u) = get_map get_int get_string u; (c, u) = get_map get_u64 get_int u;
          (d, u) = get_vector_into (get_pair get_u64 (get_vector_into get_int [])) [] u;
          (e, u) = get_vector_into get_revoke [] u;
          (f, u) = get_vector_into (get_pair get_u64 (get_map get_int get_int)) [] u;
          (g, u) = get_map get_u64 get_u64 u
      in (\<lparr>pt_status = a, pt_host = b, pt_clid = c, pt_retry = d, pt_revoke = e, pt_count = f, pt_seqid = g\<rparr>, u))"

text \<open>
  \<open>bound h\<close>: binding an \<open>rpcc\<close> to the host succeeds; otherwise the server exits.  The maps read with \<open>>>\<close> replace the old
  content; the waiting lists, the revoke queue and the counters are added to what is there.
\<close>

definition lsc_unmarshal_state :: "(string \<Rightarrow> bool) \<Rightarrow> string \<Rightarrow> lock_server_cache \<Rightarrow> lock_server_cache option" where
  "lsc_unmarshal_state bound state s =
     (let (p, u) = get_parts (unmarshall_string state) in
      if \<not> list_all (\<lambda>(c, h). bound h) (pt_host p) then None
      else Some (s\<lparr>m_lock_status := pt_status p, m_clid_host := pt_host p,
                   m_clid_rpcc := fold (\<lambda>(c, h). mput c h) (pt_host p) (m_clid_rpcc s),
                   m_lock_clid := pt_clid p,
                   m_lock_retrylist := fold (\<lambda>(l, v). mput l v) (pt_retry p) (m_lock_retrylist s),
                   l_revoke := l_revoke s @ pt_revoke p,
                   m_lock_clid_count := fold (\<lambda>(l, m). mput l m) (pt_count p) (m_lock_clid_count s),
                   m_lock_seqid := pt_seqid p\<rparr>))"

subsection \<open>The state survives the transfer\<close>

definition enc_revoke :: "revoke_info \<Rightarrow> byte list" where
  "enc_revoke i = enc_u64 (ri_lid i) @ enc_int (ri_clid i) @ enc_u64 (ri_seqid i)"

interpretation c_revoke: codec "\<lambda>i. int32_ok (ri_clid i)" put_revoke get_revoke enc_revoke
proof
  fix i :: revoke_info assume i: "int32_ok (ri_clid i)"
  show "emits (put_revoke i) (enc_revoke i)"
    unfolding put_revoke_def enc_revoke_def
    by (rule emits_conv, (rule codec_intros emits_prims)+) simp
  from i show "parses get_revoke (enc_revoke i) i"
    unfolding get_revoke_def enc_revoke_def
    by - (rule parses_conv, (rule codec_intros parses_prims, assumption?)+, simp, simp)
qed

interpretation u64_int: codec_pair "\<lambda>_. True" put_u64 get_u64 enc_u64 int32_ok put_int get_int enc_int ..

interpretation int_str: codec_pair int32_ok put_int get_int enc_int str_ok put_string get_string enc_string ..

interpretation u64_u64: codec_pair "\<lambda>_. True" put_u64 get_u64 enc_u64 "\<lambda>_. True" put_u64 get_u64 enc_u64 ..

interpretation int_int: codec_pair int32_ok put_int get_int enc_int int32_ok put_int get_int enc_int ..

interpretation c_ints: codec "\<lambda>v. length v < 2 ^ 32 \<and> (\<forall>x \<in> set v. int32_ok x)" "put_vector put_int"
  "get_vector_into get_int []" "enc_vector enc_int"
  by (rule c_int.vector_codec)

interpretation c_counts: codec "\<lambda>d. sm_ok d \<and> length d < 2 ^ 32 \<and> (\<forall>(x, y) \<in> set d. int32_ok x \<and> int32_ok y)"
  "put_map put_int put_int" "get_map get_int get_int" "enc_vector (enc_pair enc_int enc_int)"
  by (rule int_int.map_codec)

interpretation u64_ints: codec_pair "\<lambda>_. True" put_u64 get_u64 enc_u64
  "\<lambda>v. length v < 2 ^ 32 \<and> (\<forall>x \<in> set v. int32_ok x)" "put_vector put_int" "get_vector_into get_int []" "enc_vector enc_int" ..

interpretation u64_counts: codec_pair "\<lambda>_. True" put_u64 get_u64 enc_u64
  "\<lambda>d. sm_ok d \<and> length d < 2 ^ 32 \<and> (\<forall>(x, y) \<in> set d. int32_ok x \<and> int32_ok y)"
  "put_map put_int put_int" "get_map get_int get_int" "enc_vector (enc_pair enc_int enc_int)" ..

definition map_wf :: "('a::linorder \<Rightarrow> bool) \<Rightarrow> ('b \<Rightarrow> bool) \<Rightarrow> ('a, 'b) stdmap \<Rightarrow> bool" where
  "map_wf p q d \<longleftrightarrow> sm_ok d \<and> length d < 2 ^ 32 \<and> (\<forall>(x, y) \<in> set d. p x \<and> q y)"

definition vec_wf :: "('a \<Rightarrow> bool) \<Rightarrow> 'a list \<Rightarrow> bool" where
  "vec_wf p v \<longleftrightarrow> length v < 2 ^ 32 \<and> (\<forall>x \<in> set v. p x)"

definition lsc_wf :: "lock_server_cache \<Rightarrow> bool" where
  "lsc_wf s \<longleftrightarrow> map_wf (\<lambda>_. True) int32_ok (m_lock_status s) \<and> map_wf int32_ok str_ok (m_clid_host s)
     \<and> map_wf (\<lambda>_. True) int32_ok (m_lock_clid s) \<and> map_wf (\<lambda>_. True) (vec_wf int32_ok) (m_lock_retrylist s)
     \<and> vec_wf (\<lambda>i. int32_ok (ri_clid i)) (l_revoke s)
     \<and> map_wf (\<lambda>_. True) (map_wf int32_ok int32_ok) (m_lock_clid_count s) \<and> map_wf (\<lambda>_. True) (\<lambda>_. True) (m_lock_seqid s)"

definition enc_lsc :: "lock_server_cache \<Rightarrow> byte list" where
  "enc_lsc s = enc_vector (enc_pair enc_u64 enc_int) (m_lock_status s) @ enc_vector (enc_pair enc_int enc_string) (m_clid_host s)
     @ enc_vector (enc_pair enc_u64 enc_int) (m_lock_clid s) @ enc_vector (enc_pair enc_u64 (enc_vector enc_int)) (m_lock_retrylist s)
     @ enc_vector enc_revoke (l_revoke s) @ enc_vector (enc_pair enc_u64 (enc_vector (enc_pair enc_int enc_int))) (m_lock_clid_count s)
     @ enc_vector (enc_pair enc_u64 enc_u64) (m_lock_seqid s)"

definition lsc_parts_of :: "lock_server_cache \<Rightarrow> lsc_parts" where
  "lsc_parts_of s = \<lparr>pt_status = m_lock_status s, pt_host = m_clid_host s, pt_clid = m_lock_clid s, pt_retry = m_lock_retrylist s,
     pt_revoke = l_revoke s, pt_count = m_lock_clid_count s, pt_seqid = m_lock_seqid s\<rparr>"

lemma emits_lsc:
  assumes "lsc_wf s"
  shows "emits (put_lsc s) (enc_lsc s)"
proof -
  have "emits (put_map put_u64 put_int (m_lock_status s)) (enc_vector (enc_pair enc_u64 enc_int) (m_lock_status s))"
    "emits (put_map put_u64 put_int (m_lock_clid s)) (enc_vector (enc_pair enc_u64 enc_int) (m_lock_clid s))"
    using codec.put_emits [OF u64_int.map_codec] assms by (simp_all add: lsc_wf_def map_wf_def)
  moreover have "emits (put_map put_int put_string (m_clid_host s)) (enc_vector (enc_pair enc_int enc_string) (m_clid_host s))"
    using codec.put_emits [OF int_str.map_codec] assms by (simp add: lsc_wf_def map_wf_def)
  moreover have "emits (put_map put_u64 (put_vector put_int) (m_lock_retrylist s)) (enc_vector (enc_pair enc_u64 (enc_vector enc_int)) (m_lock_retrylist s))"
    using codec.put_emits [OF u64_ints.map_codec] assms by (simp add: lsc_wf_def map_wf_def vec_wf_def)
  moreover have "emits (put_vector put_revoke (l_revoke s)) (enc_vector enc_revoke (l_revoke s))"
    using codec.put_emits [OF c_revoke.vector_codec] assms by (simp add: lsc_wf_def vec_wf_def)
  moreover have "emits (put_map put_u64 (put_map put_int put_int) (m_lock_clid_count s))
      (enc_vector (enc_pair enc_u64 (enc_vector (enc_pair enc_int enc_int))) (m_lock_clid_count s))"
    using codec.put_emits [OF u64_counts.map_codec] assms by (simp add: lsc_wf_def map_wf_def)
  moreover have "emits (put_map put_u64 put_u64 (m_lock_seqid s)) (enc_vector (enc_pair enc_u64 enc_u64) (m_lock_seqid s))"
    using codec.put_emits [OF u64_u64.map_codec] assms by (simp add: lsc_wf_def map_wf_def)
  ultimately show ?thesis
    unfolding put_lsc_def enc_lsc_def by - (rule emits_conv, (rule codec_intros, assumption?)+, simp)
qed

lemma parses_lsc:
  assumes "lsc_wf s"
  shows "parses get_parts (enc_lsc s) (lsc_parts_of s)"
proof -
  have 1: "parses (get_map get_u64 get_int) (enc_vector (enc_pair enc_u64 enc_int) (m_lock_status s)) (m_lock_status s)"
    "parses (get_map get_u64 get_int) (enc_vector (enc_pair enc_u64 enc_int) (m_lock_clid s)) (m_lock_clid s)"
    using codec.get_parses [OF u64_int.map_codec] assms by (simp_all add: lsc_wf_def map_wf_def)
  have 2: "parses (get_map get_int get_string) (enc_vector (enc_pair enc_int enc_string) (m_clid_host s)) (m_clid_host s)"
    using codec.get_parses [OF int_str.map_codec] assms by (simp add: lsc_wf_def map_wf_def)
  have 3: "parses (get_vector_into (get_pair get_u64 (get_vector_into get_int [])) [])
      (enc_vector (enc_pair enc_u64 (enc_vector enc_int)) (m_lock_retrylist s)) (m_lock_retrylist s)"
    using codec.get_parses [OF codec.vector_codec [OF u64_ints.pair_codec]] assms by (simp add: lsc_wf_def map_wf_def vec_wf_def case_prod_beta)
  have 4: "parses (get_vector_into get_revoke []) (enc_vector enc_revoke (l_revoke s)) (l_revoke s)"
    using codec.get_parses [OF c_revoke.vector_codec] assms by (simp add: lsc_wf_def vec_wf_def)
  have 5: "parses (get_vector_into (get_pair get_u64 (get_map get_int get_int)) [])
      (enc_vector (enc_pair enc_u64 (enc_vector (enc_pair enc_int enc_int))) (m_lock_clid_count s)) (m_lock_clid_count s)"
    using codec.get_parses [OF codec.vector_codec [OF u64_counts.pair_codec]] assms by (simp add: lsc_wf_def map_wf_def case_prod_beta)
  have 6: "parses (get_map get_u64 get_u64) (enc_vector (enc_pair enc_u64 enc_u64) (m_lock_seqid s)) (m_lock_seqid s)"
    using codec.get_parses [OF u64_u64.map_codec] assms by (simp add: lsc_wf_def map_wf_def)
  show ?thesis
    unfolding get_parts_def enc_lsc_def
    by (rule parses_conv, (rule codec_intros 1 2 3 4 5 6)+) (simp, simp add: lsc_parts_of_def)
qed

lemma marshal_lsc:
  assumes "lsc_wf s" "length (enc_lsc s) + RPC_HEADER_SZ < 2 ^ 32"
  shows "\<exists>st u. lsc_marshal_state s = Some st \<and> get_parts (unmarshall_string st) = (lsc_parts_of s, u)"
proof -
  obtain m where m: "put_lsc s marshall_new = Some m" "m_ok m" "m_bytes m = enc_lsc s"
    using emitsD [OF emits_lsc [OF assms(1)] m_ok_new] by auto
  define u where "u = unmarshall_string (string_of_bytes (enc_lsc s))"
  have "u_ok u" "u_rest u = enc_lsc s @ []"
    using assms(2) by (simp_all add: u_ok_def u_rest_def u_def unmarshall_string_def)
  from parsesD [OF parses_lsc [OF assms(1)] this] show ?thesis
    using m by (simp add: lsc_marshal_state_def m_str_bytes u_def)
qed

lemma transfer_lemma:
  assumes "lsc_wf s" "length (enc_lsc s) + RPC_HEADER_SZ < 2 ^ 32" "list_all (\<lambda>(c, h). bound h) (m_clid_host s)"
  shows "\<exists>st. lsc_marshal_state s = Some st \<and> lsc_unmarshal_state bound st t =
      Some (s\<lparr>m_clid_rpcc := fold (\<lambda>(c, h). mput c h) (m_clid_host s) (m_clid_rpcc t),
              m_lock_retrylist := fold (\<lambda>(l, v). mput l v) (m_lock_retrylist s) (m_lock_retrylist t),
              l_revoke := l_revoke t @ l_revoke s,
              m_lock_clid_count := fold (\<lambda>(l, m). mput l m) (m_lock_clid_count s) (m_lock_clid_count t)\<rparr>)"
  using marshal_lsc [OF assms(1,2)] assms(3) by (auto simp: lsc_unmarshal_state_def lsc_parts_of_def)

lemma transfer_fresh:
  assumes "lsc_wf s" "length (enc_lsc s) + RPC_HEADER_SZ < 2 ^ 32" "list_all (\<lambda>(c, h). bound h) (m_clid_host s)"
    and "m_clid_rpcc s = m_clid_host s"
  shows "\<exists>st. lsc_marshal_state s = Some st \<and> lsc_unmarshal_state bound st lsc_new = Some s"
proof -
  have "sm_ok (m_clid_host s)" "sm_ok (m_lock_retrylist s)" "sm_ok (m_lock_clid_count s)"
    using assms(1) by (auto simp: lsc_wf_def map_wf_def)
  note f = this [THEN fold_mput_self]
  show ?thesis
    using transfer_lemma [OF assms(1-3), of lsc_new] assms(4) f by (auto simp: lsc_new_def)
qed

text \<open>
  State transfer to a fresh replica is exact.  The caching lock server's \<open>marshal_state\<close> produces a string from any
  well-formed state without writing outside its buffer, and \<open>unmarshal_state\<close> on a new server that can reach every
  subscribed client reproduces that state: locks, holders, waiting lists, revoke queue, counters and connections.
\<close>

lemma state_transfer_exact:
  assumes "lsc_wf s" "length (enc_lsc s) + RPC_HEADER_SZ < 2 ^ 32" "list_all (\<lambda>(c, h). bound h) (m_clid_host s)"
    and "m_clid_rpcc s = m_clid_host s"
  shows "\<exists>st. lsc_marshal_state s = Some st \<and> lsc_unmarshal_state bound st lsc_new = Some s"
  using assms by (rule transfer_fresh)

text \<open>
  State transfer to a replica that already has state does not replace it.  Revoke requests still queued at the receiver
  stay queued in front of the sender's, and the waiting lists of locks the sender does not mention survive, so the receiver
  ends up in a state the sender is not in.
\<close>

lemma state_transfer_merges:
  assumes "lsc_wf s" "length (enc_lsc s) + RPC_HEADER_SZ < 2 ^ 32" "list_all (\<lambda>(c, h). bound h) (m_clid_host s)"
  shows "\<exists>st t'. lsc_marshal_state s = Some st \<and> lsc_unmarshal_state bound st t = Some t'
     \<and> m_lock_status t' = m_lock_status s \<and> m_lock_clid t' = m_lock_clid s
     \<and> l_revoke t' = l_revoke t @ l_revoke s \<and> mfind (m_lock_retrylist t') = mfind (m_lock_retrylist t) ++ mfind (m_lock_retrylist s)
     \<and> (l_revoke t \<noteq> [] \<longrightarrow> t' \<noteq> s)"
proof -
  have "distinct (map fst (m_lock_retrylist s))"
    using assms(1) by (simp add: lsc_wf_def map_wf_def sm_ok_def strict_sorted_iff)
  then have "map_of (rev (m_lock_retrylist s)) = mfind (m_lock_retrylist s)"
    unfolding mfind_def by (subst map_of_inject_set) (simp_all flip: rev_map)
  moreover have "l_revoke t \<noteq> [] \<Longrightarrow> s\<lparr>m_clid_rpcc := a, m_lock_retrylist := b, l_revoke := l_revoke t @ l_revoke s, m_lock_clid_count := c\<rparr> \<noteq> s" for a b c
    by (rule notI, drule arg_cong [where f = l_revoke]) simp
  ultimately show ?thesis
    using transfer_lemma [OF assms(1-3), of t] by (auto simp: fold_mput_lookup)
qed

end
