(* ===== verification/LockSystem.thy ===== *)
theory LockSystem
  imports LockClientCache LockServerState
begin

text \<open>
  The lock service as a whole: one caching server and any number of caching clients with their threads.  A remote call is
  served by the server at some moment between the client's sending and receiving; revoke and retry messages may reach a
  client at any time, in any order, with any content, and may get lost.
\<close>

record lock_sys =
  sy_server :: lock_server_cache
  sy_client :: "int \<Rightarrow> lock_client"

definition sys_new :: lock_sys where
  "sys_new = \<lparr>sy_server = lsc_new, sy_client = (\<lambda>_. client_new)\<rparr>"

datatype sys_act = SSubscribe int string | SClient int client_act | SServe int u32 | SRelease int | SRevoker | SRetryer

definition with_client :: "int \<Rightarrow> lock_client \<Rightarrow> lock_sys \<Rightarrow> lock_sys" where
  "with_client a k y = y\<lparr>sy_client := (sy_client y)(a := k)\<rparr>"

text \<open>\<open>releaser\<close> asserts that the server accepts the release.\<close>

fun sys_step :: "sys_act \<Rightarrow> lock_sys \<Rightarrow> lock_sys option" where
  "sys_step (SSubscribe a h) y =
     (if a \<le> 0 then None else map_option (\<lambda>(r, s). y\<lparr>sy_server := s\<rparr>) (lsc_subscribe True a h (sy_server y)))"
| "sys_step (SClient a act) y = map_option (\<lambda>k. with_client a k y) (client_step act (sy_client y a))"
| "sys_step (SServe a t) y =
     (case cl_pc (sy_client y a) t of
        Sent lid c q \<Rightarrow>
          map_option (\<lambda>(r, s). with_client a ((sy_client y a)\<lparr>cl_pc := (cl_pc (sy_client y a))(t := Replied lid c (r = LOK))\<rparr>)
              (y\<lparr>sy_server := s\<rparr>)) (lsc_acquire a lid q (sy_server y))
      | _ \<Rightarrow> None)"
| "sys_step (SRelease a) y =
     (case cl_rel (sy_client y a) of
        None \<Rightarrow> None
      | Some (lid, retry) \<Rightarrow>
          case lsc_release a lid retry (sy_server y) of
            Some (LOK, s) \<Rightarrow> Some (with_client a ((sy_client y a)\<lparr>cl_rel := None\<rparr>) (y\<lparr>sy_server := s\<rparr>))
          | _ \<Rightarrow> None)"
| "sys_step SRevoker y = Some (y\<lparr>sy_server := snd (revoker_turn True (sy_server y))\<rparr>)"
| "sys_step SRetryer y = Some (y\<lparr>sy_server := snd (retryer_turn True (sy_server y))\<rparr>)"

fun sys_run :: "sys_act list \<Rightarrow> lock_sys \<Rightarrow> lock_sys option" where
  "sys_run [] y = Some y"
| "sys_run (a # as) y = (case sys_step a y of None \<Rightarrow> None | Some y \<Rightarrow> sys_run as y)"

text \<open>A lock that is with a client is granted to it at the server.\<close>

definition sys_inv :: "lock_sys \<Rightarrow> bool" where
  "sys_inv y \<longleftrightarrow> lsc_inv (sy_server y) \<and> (\<forall>c. mcount (m_clid_rpcc (sy_server y)) c \<longrightarrow> 0 < c)
     \<and> (\<forall>a. client_inv (sy_client y a)) \<and> (\<forall>a l. cl_owns (sy_client y a) l \<longrightarrow> lsc_holder (sy_server y) l = Some a)"

lemma sys_inv_new: "sys_inv sys_new"
  by (simp add: sys_inv_def sys_new_def lsc_inv_new client_inv_new)
    (simp add: client_new_def lcc_new_def cl_owns_def has_lock_def lsc_new_def mcount_def mget_def)

lemma serve_client:
  assumes "client_inv k" "cl_pc k t = Sent lid c q" "g \<Longrightarrow> \<not> cl_owns k lid"
  shows "client_inv (k\<lparr>cl_pc := (cl_pc k)(t := Replied lid c g)\<rparr>)"
    "cl_owns (k\<lparr>cl_pc := (cl_pc k)(t := Replied lid c g)\<rparr>) l \<longleftrightarrow> cl_owns k l \<or> g \<and> l = lid"
proof -
  let ?p = "(cl_pc k)(t := Replied lid c g)"
  have st: "stat (cl_lcc k) lid = ACQUIRING" "thread_ok t" "\<forall>t'. t' \<noteq> t \<longrightarrow> acquiring (cl_pc k t') \<noteq> Some lid"
    using assms(1,2) by (auto simp: client_inv_def threads_inv_def dest: spec [of _ t])
  then have "threads_inv ((stat (cl_lcc k))(lid := ACQUIRING)) ?p"
    using assms(1) by (intro threads_inv_acq) (auto simp: client_inv_def)
  then have "threads_inv (stat (cl_lcc k)) ?p" using st(1) by (simp add: fun_upd_idem)
  moreover have "returning_inv (stat (cl_lcc k)) ?p (cl_rel k)"
    using assms by (cases g) (auto simp: client_inv_def returning_inv_def cl_owns_def)
  ultimately show "client_inv (k\<lparr>cl_pc := ?p\<rparr>)" using assms(1) by (simp add: client_inv_def)
  show "cl_owns (k\<lparr>cl_pc := ?p\<rparr>) l \<longleftrightarrow> cl_owns k l \<or> g \<and> l = lid"
    using assms(2) by (cases g) (auto simp: cl_owns_def split: if_splits, (metis granted.simps option.distinct(1))+)
qed

lemma sys_inv_client:
  assumes "sys_inv y" "client_inv k" "\<And>l. cl_owns k l \<Longrightarrow> cl_owns (sy_client y a) l"
  shows "sys_inv (with_client a k y)"
  using assms by (auto simp: sys_inv_def with_client_def)

lemma sys_inv_server:
  assumes "sys_inv y" "lsc_inv s" "lsc_holder s = lsc_holder (sy_server y)" "\<And>c. mcount (m_clid_rpcc s) c \<Longrightarrow> 0 < c"
  shows "sys_inv (y\<lparr>sy_server := s\<rparr>)"
  using assms by (auto simp: sys_inv_def)

lemma turns_view:
  assumes "lsc_inv s" "s' = snd (revoker_turn p s) \<or> s' = snd (retryer_turn p s)"
  shows "lsc_inv s'" "lsc_holder s' = lsc_holder s" "m_clid_rpcc s' = m_clid_rpcc s"
proof -
  obtain m s2 where m: "retry_pick (findFreeLocks s) s [] = (m, s2)" by (cases "retry_pick (findFreeLocks s) s []")
  note k = retry_pick_keeps [OF m] and n = retry_pick_Nil [OF m]
  obtain r s1 where r: "revoker_turn p s = (r, s1)" by (cases "revoker_turn p s")
  have "lview s1 = lview s" "m_clid_rpcc s1 = m_clid_rpcc s"
    using r by (auto simp: revoker_turn_def Let_def lview_def fun_eq_iff split: list.splits if_splits)
  moreover have "v_ok (lview s l) \<Longrightarrow> v_ok (lview s2 l)" for l
    using n [of l] by (cases "mfind (m_lock_status s) l") (auto simp: lview_def k)
  moreover have "v_holder (lview s2 l) = v_holder (lview s l)" for l by (simp add: lview_def k)
  ultimately show "lsc_inv s'" "lsc_holder s' = lsc_holder s" "m_clid_rpcc s' = m_clid_rpcc s"
    using assms r m k(5) by (auto simp: lsc_inv_def lsc_holder_def fun_eq_iff retryer_turn_def)
qed

text \<open>What a served call and a release call do at the server.\<close>

lemma serve_view:
  assumes "sys_step (SServe a t) y = Some y'" "sys_inv y"
  obtains lid c q r s where "cl_pc (sy_client y a) t = Sent lid c q"
    "y' = with_client a ((sy_client y a)\<lparr>cl_pc := (cl_pc (sy_client y a))(t := Replied lid c (r = LOK))\<rparr>) (y\<lparr>sy_server := s\<rparr>)"
    "(r = LOK) = (lsc_holder (sy_server y) lid = None)" "lsc_inv s" "m_clid_rpcc s = m_clid_rpcc (sy_server y)"
    "lsc_holder s = (if r = LOK then (lsc_holder (sy_server y))(lid := Some a) else lsc_holder (sy_server y))"
proof -
  let ?k = "sy_client y a"
  obtain lid c q r s where s: "cl_pc ?k t = Sent lid c q" "lsc_acquire a lid q (sy_server y) = Some (r, s)"
      "y' = with_client a (?k\<lparr>cl_pc := (cl_pc ?k)(t := Replied lid c (r = LOK))\<rparr>) (y\<lparr>sy_server := s\<rparr>)"
    using assms(1) by (auto split: pc.splits)
  have "mcount (m_clid_rpcc (sy_server y)) a"
    using s(2) by (auto simp: lsc_acquire_def Let_def split: if_splits)
  then have c: "lsc_inv (sy_server y)" "lsc_client (sy_server y) a" using assms(2) by (auto simp: sys_inv_def lsc_client_def)
  have "(r = LOK) = (lsc_holder (sy_server y) lid = None)" "lsc_inv s"
      "lsc_holder s = (if r = LOK then (lsc_holder (sy_server y))(lid := Some a) else lsc_holder (sy_server y))"
    using lsc_acquire_lemma [OF c, of lid q] s(2) by (auto simp: lsc_acq_def)
  moreover have "m_clid_rpcc s = m_clid_rpcc (sy_server y)"
    using acquire_view [of "sy_server y" a lid q] c(2) s(2) by (auto simp: lsc_client_def)
  ultimately show thesis by (intro that [OF s(1,3)])
qed

lemma release_call_view:
  assumes "sys_step (SRelease a) y = Some y'" "sys_inv y"
  obtains lid retry s where "cl_rel (sy_client y a) = Some (lid, retry)"
    "y' = with_client a ((sy_client y a)\<lparr>cl_rel := None\<rparr>) (y\<lparr>sy_server := s\<rparr>)" "lsc_holder (sy_server y) lid = Some a"
    "lsc_inv s" "m_clid_rpcc s = m_clid_rpcc (sy_server y)" "lsc_holder s = (lsc_holder (sy_server y))(lid := None)"
proof -
  let ?k = "sy_client y a"
  obtain lid retry s where s: "cl_rel ?k = Some (lid, retry)" "lsc_release a lid retry (sy_server y) = Some (LOK, s)"
      "y' = with_client a (?k\<lparr>cl_rel := None\<rparr>) (y\<lparr>sy_server := s\<rparr>)"
    using assms(1) by (auto split: option.splits prod.splits lock_status.splits)
  have "mcount (m_clid_rpcc (sy_server y)) a"
    using s(2) by (auto simp: lsc_release_def Let_def split: if_splits)
  then have c: "lsc_inv (sy_server y)" "lsc_client (sy_server y) a" using assms(2) by (auto simp: sys_inv_def lsc_client_def)
  have hold: "lsc_holder (sy_server y) lid = Some a" using assms(2) s(1) by (auto simp: sys_inv_def cl_owns_def)
  have "lsc_inv s" "lsc_holder s = (lsc_holder (sy_server y))(lid := None)"
    using lsc_release_lemma [OF c, of lid retry] s(2) hold by (auto simp: lsc_rel_def)
  moreover have "m_clid_rpcc s = m_clid_rpcc (sy_server y)"
    using release_view [of "sy_server y" a lid retry] c(2) s(2) by (auto simp: lsc_client_def)
  ultimately show thesis using that s(1,3) hold by blast
qed

lemma serve_inv:
  assumes "sys_step (SServe a t) y = Some y'" "sys_inv y"
  shows "sys_inv y'"
  using assms
proof (rule serve_view)
  let ?k = "sy_client y a"
  fix lid c q r s
  assume s: "cl_pc ?k t = Sent lid c q" "y' = with_client a (?k\<lparr>cl_pc := (cl_pc ?k)(t := Replied lid c (r = LOK))\<rparr>) (y\<lparr>sy_server := s\<rparr>)"
    and h: "(r = LOK) = (lsc_holder (sy_server y) lid = None)" "lsc_inv s" "m_clid_rpcc s = m_clid_rpcc (sy_server y)"
      "lsc_holder s = (if r = LOK then (lsc_holder (sy_server y))(lid := Some a) else lsc_holder (sy_server y))"
  have n: "r = LOK \<Longrightarrow> \<not> cl_owns (sy_client y b) lid" for b using assms(2) h(1) by (auto simp: sys_inv_def)
  note k = serve_client [of ?k t lid c q "r = LOK", OF _ s(1) n]
  have ci: "client_inv ?k" using assms(2) by (simp add: sys_inv_def)
  show ?thesis
    unfolding sys_inv_def s(2) with_client_def using assms(2) h(2-4) k(1) [OF ci] k(2) [OF ci] n
    by (auto simp: sys_inv_def split: if_splits)
qed

lemma release_inv:
  assumes "sys_step (SRelease a) y = Some y'" "sys_inv y"
  shows "sys_inv y'"
  using assms
proof (rule release_call_view)
  let ?k = "sy_client y a"
  fix lid retry s
  assume s: "cl_rel ?k = Some (lid, retry)" "y' = with_client a (?k\<lparr>cl_rel := None\<rparr>) (y\<lparr>sy_server := s\<rparr>)"
    and hold: "lsc_holder (sy_server y) lid = Some a"
    and h: "lsc_inv s" "m_clid_rpcc s = m_clid_rpcc (sy_server y)" "lsc_holder s = (lsc_holder (sy_server y))(lid := None)"
  have k: "client_inv (?k\<lparr>cl_rel := None\<rparr>)" "cl_owns (?k\<lparr>cl_rel := None\<rparr>) l \<longleftrightarrow> cl_owns ?k l \<and> l \<noteq> lid" for l
    using assms(2) s(1) by (auto simp: sys_inv_def client_inv_def returning_inv_def cl_owns_def)
  have "\<not> cl_owns (sy_client y b) lid" if "b \<noteq> a" for b using assms(2) hold that by (auto simp: sys_inv_def)
  then show ?thesis
    unfolding sys_inv_def s(2) with_client_def using assms(2) h k by (auto simp: sys_inv_def)
qed

lemma subscribe_view:
  assumes "sys_step (SSubscribe a h) y = Some y'"
  obtains s where "y' = y\<lparr>sy_server := s\<rparr>" "m_clid_rpcc s = mput a h (m_clid_rpcc (sy_server y))" "lview s = lview (sy_server y)" "0 < a"
  using assms by (auto simp: lsc_subscribe_def Let_def lview_def fun_eq_iff split: if_splits)

lemma sys_step_inv:
  assumes "sys_step act y = Some y'" "sys_inv y"
  shows "sys_inv y'"
proof (cases act)
  case (SSubscribe a h)
  obtain s where s: "y' = y\<lparr>sy_server := s\<rparr>" "m_clid_rpcc s = mput a h (m_clid_rpcc (sy_server y))" "lview s = lview (sy_server y)" "0 < a"
    using subscribe_view assms(1) unfolding SSubscribe by blast
  then show ?thesis unfolding s(1) using assms(2)
    by (intro sys_inv_server) (auto simp: sys_inv_def lsc_inv_def lsc_holder_def fun_eq_iff stdmap_simps)
next
  case (SClient a c)
  then obtain k where k: "client_step c (sy_client y a) = Some k" "y' = with_client a k y" using assms(1) by auto
  have "client_inv (sy_client y a)" using assms(2) by (simp add: sys_inv_def)
  then show ?thesis using client_step_inv [OF k(1)] assms(2) unfolding k(2) by (intro sys_inv_client) auto
next
  case SRevoker
  then show ?thesis using assms turns_view [of "sy_server y" _ True]
    by (auto simp: sys_inv_def)
next
  case SRetryer
  then show ?thesis using assms turns_view [of "sy_server y" _ True]
    by (auto simp: sys_inv_def)
qed (use assms serve_inv release_inv in blast)+

lemma sys_run_inv: "sys_run acts y = Some y' \<Longrightarrow> sys_inv y \<Longrightarrow> sys_inv y'"
  by (induction acts arbitrary: y) (auto split: option.splits intro: sys_step_inv)

subsection \<open>What the lock service guarantees\<close>

lemma held_exclusive:
  assumes inv: "sys_inv y" and h: "(l, t) \<in> set (cl_held (sy_client y a))" "(l, t') \<in> set (cl_held (sy_client y b))"
  shows "a = b \<and> t = t'"
proof -
  have ci: "client_inv (sy_client y c)" for c using inv by (simp add: sys_inv_def)
  have "lsc_holder (sy_server y) l = Some c" if "cl_owns (sy_client y c) l" for c
    using inv that by (simp add: sys_inv_def)
  from this [OF held_owns [OF ci h(1)]] this [OF held_owns [OF ci h(2)]] have "a = b" by simp
  then show ?thesis using held_unique [OF ci h(1)] h(2) by blast
qed

text \<open>
  C2. Mutual exclusion across machines.  However the threads of all clients, the server, its revoker and retryer and the
  clients' releaser threads interleave, and whatever revoke and retry messages reach the clients, two threads never hold
  the same lock at the same time, neither in one client nor in two.
\<close>

theorem distributed_mutual_exclusion:
  assumes "sys_run acts sys_new = Some y"
    and "(l, t) \<in> set (cl_held (sy_client y a))" "(l, t') \<in> set (cl_held (sy_client y b))"
  shows "a = b \<and> t = t'"
  using held_exclusive [OF sys_run_inv [OF assms(1) sys_inv_new] assms(2,3)] .

text \<open>The lock travels from client 7 to client 9: acquire, refused acquire, revoke, release, retry, acquire.\<close>

definition handover :: "sys_act list" where
  "handover = [SSubscribe 7 ''a'', SSubscribe 9 ''b'',
     SClient 7 (CAcquire 1 5), SClient 7 (CSend 1), SServe 7 1, SClient 7 (CReply 1),
     SClient 9 (CAcquire 1 5), SClient 9 (CSend 1), SServe 9 1, SClient 9 (CReply 1),
     SRevoker, SClient 7 (CRevoke 5 2), SClient 7 (CRelease 1 5), SClient 7 CRelTake, SRelease 7,
     SRetryer, SClient 9 (CRetry 5), SClient 9 (CWake 1), SClient 9 (CSend 1), SServe 9 1, SClient 9 (CReply 1)]"

theorem distributed_mutual_exclusion_witness:
  "\<exists>y. sys_run handover sys_new = Some y \<and> (5, 1) \<in> set (cl_held (sy_client y 9))
     \<and> (\<forall>b t'. (5, t') \<in> set (cl_held (sy_client y b)) \<longrightarrow> 9 = b \<and> 1 = t')"
proof -
  have "map_option (\<lambda>y. cl_held (sy_client y 9)) (sys_run handover sys_new) = Some [(5, 1)]" by code_simp
  then obtain y where y: "sys_run handover sys_new = Some y" "(5, 1) \<in> set (cl_held (sy_client y 9))" by auto
  show ?thesis using distributed_mutual_exclusion [OF y] y by blast
qed




text \<open>
  A revoke for a lock the client does not hold, or is giving back, freezes the client.  The handler returns with
  \<open>map_lock\<close> taken, so from then on no acquire, release, retry, revoke or releaser round of this client completes.
\<close>

lemma stray_revoke_freezes_client:
  assumes "client_step (CRevoke lid q) k = Some k'" "stat (cl_lcc k) lid = NONE \<or> stat (cl_lcc k) lid = RELEASING"
    and "client_step act k' = Some k''"
  shows "\<exists>t. act = CSend t \<and> cl_lcc k'' = cl_lcc k' \<and> cl_held k'' = cl_held k"
proof -
  have "lc_mutex (cl_lcc k')" "cl_held k' = cl_held k"
    using assms(1,2) by (auto simp: lcc_revoke_def Let_def split: if_splits)
  then show ?thesis using assms(3)
    by (cases act) (auto simp: lcc_acquire_def acquire_granted_def acquire_refused_def wake_retry_def wake_turn_def resume_def
        lcc_release_def lcc_revoke_def lcc_retry_def releaser_take_def split: pc.splits if_splits bool.splits option.splits)
qed

end
