(* ===== verification/DistributedFiles.thy ===== *)
theory DistributedFiles
  imports LockSystem FileSharing
begin

text \<open>
  Lock service and file cache together: on every machine the threads of a client take locks through the caching lock client and read and
  write files through the caching extent client, and the lock client's releaser flushes a file before it gives the file's lock back to the
  server.  \<open>FileSharing\<close> assumed the lock discipline; here the lock protocol of \<open>LockSystem\<close> provides it.
\<close>

record dfs =
  df_locks :: lock_sys
  df_es :: extent_server
  df_ec :: "int \<Rightarrow> extent_client"
  df_flushed :: "int \<Rightarrow> bool"

definition dfs_new :: "extent_server \<Rightarrow> dfs" where
  "dfs_new s = \<lparr>df_locks = sys_new, df_es = s, df_ec = (\<lambda>_. ec_new), df_flushed = (\<lambda>_. False)\<rparr>"

text \<open>
  A step of the lock service; the releaser of a client between taking a lock off its list and the release call, where it runs \<open>dorelease\<close>; and
  a read or write by a thread that holds the file's lock.  \<open>df_flushed\<close> tells whether the releaser is past \<open>dorelease\<close>.
\<close>

datatype dfs_act = DLock sys_act | DFlush int | DRead int u32 u64 int u32 | DWrite int u32 u64 int string

fun flush_mark :: "sys_act \<Rightarrow> (int \<Rightarrow> bool) \<Rightarrow> int \<Rightarrow> bool" where
  "flush_mark (SClient a CRelTake) fl = fl(a := False)"
| "flush_mark _ fl = fl"

fun release_waits :: "sys_act \<Rightarrow> (int \<Rightarrow> bool) \<Rightarrow> bool" where
  "release_waits (SRelease a) fl = (\<not> fl a)"
| "release_waits _ fl = False"

definition holds :: "lock_sys \<Rightarrow> int \<Rightarrow> u32 \<Rightarrow> u64 \<Rightarrow> bool" where
  "holds y a t i \<longleftrightarrow> (i, t) \<in> set (cl_held (sy_client y a))"

definition with_files :: "int \<Rightarrow> extent_client \<times> extent_server \<Rightarrow> dfs \<Rightarrow> dfs" where
  "with_files a = (\<lambda>(c, s) y. y\<lparr>df_es := s, df_ec := (df_ec y)(a := c)\<rparr>)"

fun dfs_step :: "xenv \<times> dfs_act \<Rightarrow> dfs \<Rightarrow> (string option \<times> dfs) option" where
  "dfs_step (E, DLock act) y =
     (if release_waits act (df_flushed y) then None
      else map_option (\<lambda>l. (None, y\<lparr>df_locks := l, df_flushed := flush_mark act (df_flushed y)\<rparr>)) (sys_step act (df_locks y)))"
| "dfs_step (E, DFlush a) y =
     (case cl_rel (sy_client (df_locks y) a) of
        None \<Rightarrow> None
      | Some (i, retry) \<Rightarrow>
          if df_flushed y a then None
          else map_option (\<lambda>cs. (None, (with_files a cs y)\<lparr>df_flushed := (df_flushed y)(a := True)\<rparr>)) (ec_flush E i (df_ec y a, df_es y)))"
| "dfs_step (E, DRead a t i off n) y =
     (if \<not> holds (df_locks y) a t i then None
      else case ec_read E i off n (df_ec y a, df_es y) of
             Some (XOK, buf, cs) \<Rightarrow> Some (Some buf, with_files a cs y) | _ \<Rightarrow> None)"
| "dfs_step (E, DWrite a t i off buf) y =
     (if \<not> holds (df_locks y) a t i then None
      else case ec_write E i off (word_of_nat (length buf)) buf (df_ec y a, df_es y) of
             Some (XOK, cs) \<Rightarrow> Some (None, with_files a cs y) | _ \<Rightarrow> None)"

text \<open>The specification: the same lock protocol in front of one copy of every file, and nothing to flush.\<close>

type_synonym dfs_spec = "lock_sys \<times> (int \<Rightarrow> bool) \<times> (u64 \<Rightarrow> string option)"

fun spec_step :: "dfs_act \<Rightarrow> dfs_spec \<Rightarrow> (string option \<times> dfs_spec) option" where
  "spec_step (DLock act) (l, fl, st) =
     (if release_waits act fl then None else map_option (\<lambda>l. (None, l, flush_mark act fl, st)) (sys_step act l))"
| "spec_step (DFlush a) (l, fl, st) = (if cl_rel (sy_client l a) = None \<or> fl a then None else Some (None, l, fl(a := True), st))"
| "spec_step (DRead a t i off n) (l, fl, st) =
     (case st i of
        Some b \<Rightarrow> if holds l a t i \<and> 0 \<le> off \<and> nat off \<le> length b then Some (Some (take (unat n) (drop (nat off) b)), l, fl, st) else None
      | None \<Rightarrow> None)"
| "spec_step (DWrite a t i off buf) (l, fl, st) =
     (case st i of
        Some b \<Rightarrow> if holds l a t i \<and> 0 \<le> off \<and> nat off + length buf \<le> max_str then Some (None, l, fl, st(i \<mapsto> splice (nat off) buf b)) else None
      | None \<Rightarrow> None)"

subsection \<open>The lock protocol gives the lock discipline\<close>

text \<open>A client owns a file while the server has the lock granted to it, until its releaser has flushed the file.\<close>

definition giving :: "lock_client \<Rightarrow> u64 \<Rightarrow> bool" where
  "giving k i \<longleftrightarrow> (\<exists>r. cl_rel k = Some (i, r))"

definition downer :: "lock_sys \<Rightarrow> (int \<Rightarrow> bool) \<Rightarrow> u64 \<Rightarrow> int option" where
  "downer l fl i = (case lsc_holder (sy_server l) i of None \<Rightarrow> None | Some a \<Rightarrow> if fl a \<and> giving (sy_client l a) i then None else Some a)"

definition files_of :: "dfs \<Rightarrow> fs_sys" where
  "files_of y = \<lparr>fs_es = df_es y, fs_ec = df_ec y, fs_owner = downer (df_locks y) (df_flushed y)\<rparr>"

definition dfs_abs :: "dfs \<Rightarrow> dfs_spec" where
  "dfs_abs y = (df_locks y, df_flushed y, fs_content (files_of y))"

definition dfs_inv :: "dfs \<Rightarrow> bool" where
  "dfs_inv y \<longleftrightarrow> sys_inv (df_locks y) \<and> fs_inv (files_of y)"

text \<open>A thread that holds a lock is on the owning machine, and the releaser is not giving that lock away.\<close>

lemma holds_owner:
  assumes "sys_inv l" "holds l a t i"
  shows "downer l fl i = Some a"
proof -
  let ?k = "sy_client l a"
  have k: "client_inv ?k" "(i, t) \<in> set (cl_held ?k)" using assms by (auto simp: sys_inv_def holds_def)
  have "lsc_holder (sy_server l) i = Some a" using held_owns [OF k] assms(1) by (auto simp: sys_inv_def)
  moreover have "stat (cl_lcc ?k) i = CLOCKED" using held_owner [OF k] k(1) by (auto simp: client_inv_def owner_inv_def)
  then have "\<not> giving ?k i" using k(1) by (auto simp: giving_def client_inv_def returning_inv_def has_lock_def)
  ultimately show ?thesis by (simp add: downer_def)
qed

lemma client_step_rel:
  assumes "client_step c k = Some k'" "c \<noteq> CRelTake"
  shows "cl_rel k' = cl_rel k"
proof -
  have go: "cl_rel (acq_go lid t k x) = cl_rel k" for lid t x by (cases x; cases "fst x") auto
  show ?thesis using assms by (cases c) (auto simp: go split: pc.splits if_splits bool.splits)
qed

lemma downer_client:
  assumes "client_step c (sy_client l a) = Some k"
  shows "downer (with_client a k l) (flush_mark (SClient a c) fl) = downer l fl"
proof (cases "c = CRelTake")
  case True
  then have "cl_rel (sy_client l a) = None" using assms by (cases "cl_rel (sy_client l a)") auto
  then show ?thesis using True by (auto simp: downer_def with_client_def giving_def fun_eq_iff split: option.splits)
next
  case False
  then have "flush_mark (SClient a c) fl = fl" "giving k = giving (sy_client l a)"
    using client_step_rel [OF assms] by (cases c; simp add: giving_def fun_eq_iff)+
  then show ?thesis by (auto simp: downer_def with_client_def fun_eq_iff split: option.splits)
qed

lemma downer_cong:
  assumes "lsc_holder (sy_server l') i = lsc_holder (sy_server l) i" "\<And>a. giving (sy_client l' a) i = giving (sy_client l a) i"
  shows "downer l' fl i = downer l fl i"
  using assms by (auto simp: downer_def split: option.split)

text \<open>A step of the lock service leaves every owner in place, or gives a free lock to a client.\<close>

lemma downer_step:
  assumes "sys_step act l = Some l'" "sys_inv l" "\<not> release_waits act fl"
  shows "downer l' (flush_mark act fl) = downer l fl
    \<or> (\<exists>a i. downer l fl i = None \<and> downer l' (flush_mark act fl) = (downer l fl)(i \<mapsto> a))"
proof (cases act)
  case (SSubscribe a h)
  obtain s where "l' = l\<lparr>sy_server := s\<rparr>" "lview s = lview (sy_server l)" using subscribe_view assms(1) unfolding SSubscribe by blast
  then have "downer l' fl = downer l fl" by (intro ext downer_cong) (simp_all add: lsc_holder_def)
  then show ?thesis using SSubscribe by simp
next
  case (SClient a c)
  then show ?thesis using assms(1) downer_client [of c l a _ fl] by auto
next
  case (SServe a t)
  obtain lid c q r s where
      s: "l' = with_client a ((sy_client l a)\<lparr>cl_pc := (cl_pc (sy_client l a))(t := Replied lid c (r = LOK))\<rparr>) (l\<lparr>sy_server := s\<rparr>)"
    and h: "(r = LOK) = (lsc_holder (sy_server l) lid = None)"
      "lsc_holder s = (if r = LOK then (lsc_holder (sy_server l))(lid := Some a) else lsc_holder (sy_server l))"
    using assms(1) [unfolded SServe] assms(2) by (rule serve_view)
  have g: "giving (sy_client l' b) = giving (sy_client l b)" for b by (simp add: s with_client_def giving_def fun_eq_iff)
  have srv: "sy_server l' = s" by (simp add: s with_client_def)
  show ?thesis
  proof (cases "r = LOK")
    case True
    then have n: "lsc_holder (sy_server l) lid = None" using h(1) by simp
    then have "\<not> giving (sy_client l a) lid" using assms(2) unfolding sys_inv_def giving_def cl_owns_def by (metis option.distinct(1))
    then have o: "downer l' fl lid = Some a" "downer l fl lid = None" using True h(2) n g by (simp_all add: downer_def srv)
    have "downer l' fl i = ((downer l fl)(lid \<mapsto> a)) i" for i
      using o(1) downer_cong [of l' i l fl] True h(2) g by (simp add: srv)
    then have "downer l' fl = (downer l fl)(lid \<mapsto> a)" by blast
    then show ?thesis using SServe o(2) by auto
  next
    case False
    then have "downer l' fl = downer l fl" using h(2) g by (intro ext downer_cong) (simp_all add: srv)
    then show ?thesis using SServe by simp
  qed
next
  case (SRelease a)
  obtain lid retry s where s: "cl_rel (sy_client l a) = Some (lid, retry)" "l' = with_client a ((sy_client l a)\<lparr>cl_rel := None\<rparr>) (l\<lparr>sy_server := s\<rparr>)"
    and h: "lsc_holder (sy_server l) lid = Some a" "lsc_holder s = (lsc_holder (sy_server l))(lid := None)"
    using assms(1) [unfolded SRelease] assms(2) by (rule release_call_view)
  have "fl a" using assms(3) SRelease by simp
  then have "downer l' fl = downer l fl"
    using s h by (auto simp: downer_def with_client_def giving_def fun_eq_iff split: option.splits)
  then show ?thesis using SRelease by simp
next
  case SRevoker
  then have "downer l' fl = downer l fl"
    using assms(1,2) turns_view(2) [of "sy_server l" _ True] by (intro ext downer_cong) (auto simp: sys_inv_def)
  then show ?thesis using SRevoker by simp
next
  case SRetryer
  then have "downer l' fl = downer l fl"
    using assms(1,2) turns_view(2) [of "sy_server l" _ True] by (intro ext downer_cong) (auto simp: sys_inv_def)
  then show ?thesis using SRetryer by simp
qed

subsection \<open>Simulation\<close>

lemma files_simps [simp]: "fs_es (files_of y) = df_es y" "fs_ec (files_of y) = df_ec y" "fs_owner (files_of y) = downer (df_locks y) (df_flushed y)"
  by (simp_all add: files_of_def)

lemma files_with [simp]: "files_of (with_files a cs y) = with_ec a cs (files_of y)" "df_locks (with_files a cs y) = df_locks y"
    "df_flushed (with_files a cs y) = df_flushed y"
  by (cases cs; simp add: files_of_def with_files_def with_ec_def)+

lemma dfs_lock:
  assumes "dfs_inv y" "sys_step act (df_locks y) = Some l" "\<not> release_waits act (df_flushed y)"
  defines "y' \<equiv> y\<lparr>df_locks := l, df_flushed := flush_mark act (df_flushed y)\<rparr>"
  shows "dfs_inv y'" "fs_content (files_of y') = fs_content (files_of y)"
proof -
  have i: "sys_inv (df_locks y)" "fs_inv (files_of y)" using assms(1) by (simp_all add: dfs_inv_def)
  let ?ow = "downer (df_locks y) (df_flushed y)"
  have f: "files_of y' = (files_of y)\<lparr>fs_owner := downer l (flush_mark act (df_flushed y))\<rparr>" by (simp add: files_of_def y'_def)
  consider "downer l (flush_mark act (df_flushed y)) = ?ow"
    | a j where "?ow j = None" "downer l (flush_mark act (df_flushed y)) = ?ow(j \<mapsto> a)"
    using downer_step [OF assms(2) i(1) assms(3)] by blast
  then have "fs_inv (files_of y') \<and> fs_content (files_of y') = fs_content (files_of y)"
  proof cases
    case 1
    then have "files_of y' = files_of y" by (simp add: files_of_def y'_def)
    then show ?thesis using i(2) by simp
  next
    case 2
    then show ?thesis using sim_acquire [OF i(2), of j a] by (simp add: f)
  qed
  then show "dfs_inv y'" "fs_content (files_of y') = fs_content (files_of y)"
    using sys_step_inv [OF assms(2) i(1)] by (simp_all add: dfs_inv_def y'_def)
qed

lemma dfs_flush:
  assumes "dfs_inv y" "cl_rel (sy_client (df_locks y) a) = Some (i, r)" "\<not> df_flushed y a"
  shows "\<exists>cs. ec_flush E i (df_ec y a, df_es y) = Some cs \<and> dfs_inv ((with_files a cs y)\<lparr>df_flushed := (df_flushed y)(a := True)\<rparr>)
    \<and> fs_content (files_of ((with_files a cs y)\<lparr>df_flushed := (df_flushed y)(a := True)\<rparr>)) = fs_content (files_of y)"
proof -
  let ?l = "df_locks y" and ?fl = "(df_flushed y)(a := True)"
  have inv: "sys_inv ?l" "fs_inv (files_of y)" using assms(1) by (simp_all add: dfs_inv_def)
  have h: "lsc_holder (sy_server ?l) i = Some a" using inv(1) assms(2) by (auto simp: sys_inv_def cl_owns_def)
  have o: "fs_owner (files_of y) i = Some a" using h assms(3) by (simp add: downer_def)
  have o': "downer ?l ?fl = (downer ?l (df_flushed y))(i := None)"
    using h assms(2,3) by (auto simp: downer_def giving_def fun_eq_iff split: option.splits)
  obtain cs where c: "ec_flush E i (df_ec y a, df_es y) = Some cs"
      "fs_inv ((with_ec a cs (files_of y))\<lparr>fs_owner := (fs_owner (files_of y))(i := None)\<rparr>)"
      "fs_content ((with_ec a cs (files_of y))\<lparr>fs_owner := (fs_owner (files_of y))(i := None)\<rparr>) = fs_content (files_of y)"
    using sim_release [OF inv(2) o, of E] by auto
  have "files_of ((with_files a cs y)\<lparr>df_flushed := ?fl\<rparr>) = (with_ec a cs (files_of y))\<lparr>fs_owner := (fs_owner (files_of y))(i := None)\<rparr>"
    by (cases cs) (simp add: files_of_def with_files_def with_ec_def o')
  then show ?thesis using c inv(1) by (auto simp: dfs_inv_def)
qed

lemma dfs_simulates:
  assumes "dfs_inv y" "spec_step act (dfs_abs y) = Some (x, t)"
  shows "\<exists>y'. dfs_step (E, act) y = Some (x, y') \<and> dfs_inv y' \<and> dfs_abs y' = t"
proof (cases act)
  case (DLock sact)
  then show ?thesis using assms dfs_lock [OF assms(1), of sact] by (auto simp: dfs_abs_def split: if_splits)
next
  case (DFlush a)
  then obtain i r where r: "cl_rel (sy_client (df_locks y) a) = Some (i, r)" "\<not> df_flushed y a"
      "x = None" "t = (df_locks y, (df_flushed y)(a := True), fs_content (files_of y))"
    using assms(2) by (auto simp: dfs_abs_def split: if_splits)
  then show ?thesis using DFlush dfs_flush [OF assms(1) r(1,2), of E] by (auto simp: dfs_abs_def)
next
  case (DRead a th i off n)
  then obtain b where b: "fs_content (files_of y) i = Some b" "holds (df_locks y) a th i" "0 \<le> off" "nat off \<le> length b"
      "x = Some (take (unat n) (drop (nat off) b))" "t = dfs_abs y"
    using assms(2) by (auto simp: dfs_abs_def split: option.splits if_splits)
  have inv: "sys_inv (df_locks y)" "fs_inv (files_of y)" using assms(1) by (simp_all add: dfs_inv_def)
  have "fs_owner (files_of y) i = Some a" using holds_owner [OF inv(1) b(2)] by simp
  then show ?thesis using DRead sim_read [OF inv(2) _ b(1,3,4), of a E n] b inv(1) by (auto simp: dfs_abs_def dfs_inv_def)
next
  case (DWrite a th i off buf)
  then obtain b where b: "fs_content (files_of y) i = Some b" "holds (df_locks y) a th i" "0 \<le> off" "nat off + length buf \<le> max_str"
      "x = None" "t = (df_locks y, df_flushed y, (fs_content (files_of y))(i \<mapsto> splice (nat off) buf b))"
    using assms(2) by (auto simp: dfs_abs_def split: option.splits if_splits)
  have inv: "sys_inv (df_locks y)" "fs_inv (files_of y)" using assms(1) by (simp_all add: dfs_inv_def)
  have "fs_owner (files_of y) i = Some a" using holds_owner [OF inv(1) b(2)] by simp
  then show ?thesis using DWrite sim_write [OF inv(2) _ b(1,3,4), of a E] b inv(1) by (auto simp: dfs_abs_def dfs_inv_def)
qed

interpretation distributed: simulation dfs_step spec_step snd dfs_inv dfs_abs
  by unfold_locales (use dfs_simulates in \<open>metis prod.collapse\<close>)

lemma dfs_new_inv:
  assumes "srv_inv s"
  shows "dfs_inv (dfs_new s)" "dfs_abs (dfs_new s) = (sys_new, (\<lambda>_. False), mfind (fileid_content_m s))"
proof -
  have "lsc_holder (sy_server sys_new) i = None" for i by (simp add: sys_new_def lsc_new_def lsc_holder_def lview_def mget_def)
  then have o: "downer sys_new fl = (\<lambda>_. None)" for fl by (simp add: downer_def fun_eq_iff)
  show "dfs_inv (dfs_new s)"
    using assms sys_inv_new by (simp add: dfs_inv_def fs_inv_def dfs_new_def o cached_def ec_new_def mcount_def)
  show "dfs_abs (dfs_new s) = (sys_new, (\<lambda>_. False), mfind (fileid_content_m s))"
    by (simp add: dfs_abs_def dfs_new_def fs_content_def o fun_eq_iff)
qed

text \<open>
  C6. The whole file service behaves as one store.  Let threads on any number of machines take and return locks through the caching lock protocol,
  with every interleaving, revoke and retry it allows, and read and write files only while they hold the file's lock, all through their machines'
  caches, which are flushed when a lock is given back.  Whatever the same lock protocol in front of a single copy of every file answers to such a
  sequence, the distributed system answers too: a read on one machine gives the bytes last written on any machine, and no assertion fails.
\<close>

theorem distributed_files_coherent:
  assumes "srv_inv s" "run_steps spec_step (map snd as) (sys_new, (\<lambda>_. False), mfind (fileid_content_m s)) = Some (outs, l, fl, st)"
  shows "\<exists>y. run_steps dfs_step as (dfs_new s) = Some (outs, y) \<and> df_locks y = l \<and> fs_content (files_of y) = st"
  using distributed.run_simulates [OF dfs_new_inv(1) [OF assms(1)]] assms(2) dfs_new_inv(2) [OF assms(1)]
  by (fastforce simp: dfs_abs_def)

text \<open>Machine 7 writes to a file under lock 5, machine 9 asks for the lock, and reads what was written after the lock has travelled.\<close>

definition demo_server :: extent_server where
  "demo_server = \<lparr>fileid_open_m = [], fileid_content_m = [(5, ''abc'')], fileid_name_m = [], fileid_dir_m = [],
     fileid_attr_m = [(5, attr_at 1 3)], dirid_fmap_m = [], fileid_mode_m = [(5, 0)]\<rparr>"

definition demo_travel :: "dfs_act list" where
  "demo_travel = map DLock (take 6 handover) @ [DRead 7 1 5 0 3, DWrite 7 1 5 1 ''XYZ''] @ map DLock (take 8 (drop 6 handover)) @ [DFlush 7]
     @ map DLock (drop 14 handover) @ [DRead 9 1 5 0 9]"

lemma below_max_str [code_unfold]: "n \<le> max_str \<longleftrightarrow> int n \<le> 1073741820"
  by (simp add: max_str_def)

theorem distributed_files_coherent_witness:
  "\<exists>outs y. run_steps dfs_step (map (Pair demo_env) demo_travel) (dfs_new demo_server) = Some (outs, y)
     \<and> filter (\<lambda>x. x \<noteq> None) outs = [Some ''abc'', Some ''aXYZ'']"
proof -
  have i: "srv_inv demo_server"
    by (auto simp: demo_server_def srv_on_def srv_ok_def mfind_def mcount_def attr_at_def max_str_def split: if_splits)
  have "map_option (\<lambda>(outs, _). filter (\<lambda>x. x \<noteq> None) outs)
      (run_steps spec_step demo_travel (sys_new, (\<lambda>_. False), mfind (fileid_content_m demo_server))) = Some [Some ''abc'', Some ''aXYZ'']"
    by code_simp
  then obtain outs l fl st where o: "filter (\<lambda>x. x \<noteq> None) outs = [Some ''abc'', Some ''aXYZ'']"
      "run_steps spec_step demo_travel (sys_new, (\<lambda>_. False), mfind (fileid_content_m demo_server)) = Some (outs, l, fl, st)"
    by auto
  moreover have "map snd (map (Pair demo_env) demo_travel) = demo_travel" by (simp add: comp_def)
  ultimately show ?thesis using distributed_files_coherent [OF i, of "map (Pair demo_env) demo_travel" outs l fl st] by auto
qed

end
