(* ===== verification/LockTester.thy ===== *)
theory LockTester
  imports LockSystem
begin

text \<open>
  The repository's test of the lock service, \<open>lock_tester.cc\<close>, run against the model of the service: threads that acquire and release locks through
  caching clients, and counters that are to notice a lock granted twice.
\<close>

unbundle bit_operations_syntax

subsection \<open>The checks\<close>

definition lock_a :: u64 where "lock_a = 1"
definition lock_b :: u64 where "lock_b = 2"

definition nt :: nat where "nt = 10"

datatype tester_error = GrantedTwice u64 | ReleasedUnheld u64

definition check_grant :: "u64 \<Rightarrow> (u64 \<Rightarrow> int) \<Rightarrow> tester_error + (u64 \<Rightarrow> int)" where
  "check_grant lid ct = (let x = lid AND 255 in if ct x \<noteq> 0 then Inl (GrantedTwice lid) else Inr (ct(x := ct x + 1)))"

definition check_release :: "u64 \<Rightarrow> (u64 \<Rightarrow> int) \<Rightarrow> tester_error + (u64 \<Rightarrow> int)" where
  "check_release lid ct = (let x = lid AND 255 in if ct x \<noteq> 1 then Inl (ReleasedUnheld lid) else Inr (ct(x := ct x - 1)))"

subsection \<open>The programs of the threads\<close>

text \<open>\<open>Await\<close> is the rest of \<open>acquire\<close> once it has been called.\<close>

datatype cmd = Acquire u64 | Await u64 | CheckGrant u64 | CheckRelease u64 | Release u64

definition test1 :: "cmd list" where
  "test1 = [Acquire lock_a, CheckGrant lock_a, Release lock_a, CheckRelease lock_a,
     Acquire lock_a, CheckGrant lock_a, Release lock_a, CheckRelease lock_a,
     Acquire lock_a, CheckGrant lock_a, Acquire lock_b, CheckGrant lock_b,
     Release lock_b, CheckRelease lock_b, Release lock_a, CheckRelease lock_a]"

definition test2 :: "cmd list" where
  "test2 = [Acquire lock_a, CheckGrant lock_a, CheckRelease lock_a, Release lock_a]"

definition test3 :: "cmd list" where
  "test3 = concat (replicate 10 [Acquire lock_a, CheckGrant lock_a, CheckRelease lock_a, Release lock_a])"

definition test4 :: "cmd list" where
  "test4 = concat (replicate 10 [Acquire lock_a, CheckGrant lock_a, CheckRelease lock_a, Release lock_a])"

text \<open>In \<open>test5\<close> the first five threads share client 0, the others client 1.\<close>

definition test5_client :: "nat \<Rightarrow> nat" where
  "test5_client i = (if i < 5 then 0 else 1)"

definition test5 :: "cmd list" where
  "test5 = concat (replicate 10 [Acquire lock_a, CheckGrant lock_a, CheckRelease lock_a, Release lock_a])"

text \<open>A thread: the client it uses, its identity there and what it has still to do.  \<open>main\<close> starts the threads of a test and joins them.\<close>

type_synonym tthread = "nat \<times> u32 \<times> cmd list"

definition threads :: "nat \<Rightarrow> (nat \<Rightarrow> nat) \<Rightarrow> cmd list \<Rightarrow> tthread list" where
  "threads n client p = map (\<lambda>i. (client i, word_of_nat (i + 1), p)) [0 ..< n]"

definition tester_main :: "int option \<Rightarrow> tthread list list option" where
  "tester_main arg =
     (let test = (case arg of None \<Rightarrow> 0 | Some n \<Rightarrow> n) in
      if arg \<noteq> None \<and> (test < 1 \<or> test > 5) then None
      else Some ((if test = 0 \<or> test = 1 then [threads 1 (\<lambda>_. 0) test1] else [])
               @ (if test = 0 \<or> test = 2 then [threads nt (\<lambda>i. i) test2] else [])
               @ (if test = 0 \<or> test = 3 then [threads nt (\<lambda>i. i) test3] else [])
               @ (if test = 0 \<or> test = 4 then [threads 2 (\<lambda>_. 0) test4] else [])
               @ (if test = 0 \<or> test = 5 then [threads nt test5_client test5] else [])))"

subsection \<open>Running them\<close>

record tester =
  tt_sys :: lock_sys
  tt_ct :: "u64 \<Rightarrow> int"
  tt_threads :: "tthread list"
  tt_todo :: "tthread list list"

definition tester_new :: "tthread list list \<Rightarrow> tester" where
  "tester_new ph = \<lparr>tt_sys = sys_new, tt_ct = (\<lambda>_. 0), tt_threads = [], tt_todo = ph\<rparr>"

text \<open>
  \<open>cid\<close> gives the identifier a client has at the server.  A thread that cannot go on, because its \<open>acquire\<close> has not returned, stays where it is.
\<close>

definition sys_try :: "sys_act \<Rightarrow> lock_sys \<Rightarrow> lock_sys" where
  "sys_try act y = (case sys_step act y of None \<Rightarrow> y | Some y \<Rightarrow> y)"

fun exec :: "(nat \<Rightarrow> int) \<Rightarrow> tthread \<Rightarrow> lock_sys \<times> (u64 \<Rightarrow> int) \<Rightarrow> tester_error + cmd list \<times> lock_sys \<times> (u64 \<Rightarrow> int)" where
  "exec cid (i, t, []) (y, ct) = Inr ([], y, ct)"
| "exec cid (i, t, Acquire l # p) (y, ct) =
     (case sys_step (SClient (cid i) (CAcquire t l)) y of None \<Rightarrow> Inr (Acquire l # p, y, ct) | Some y \<Rightarrow> Inr (Await l # p, y, ct))"
| "exec cid (i, t, Await l # p) (y, ct) = Inr (if (l, t) \<in> set (cl_held (sy_client y (cid i))) then p else Await l # p, y, ct)"
| "exec cid (i, t, CheckGrant l # p) (y, ct) = map_sum id (\<lambda>ct. (p, y, ct)) (check_grant l ct)"
| "exec cid (i, t, CheckRelease l # p) (y, ct) = map_sum id (\<lambda>ct. (p, y, ct)) (check_release l ct)"
| "exec cid (i, t, Release l # p) (y, ct) =
     (case sys_step (SClient (cid i) (CRelease t l)) y of None \<Rightarrow> Inr (Release l # p, y, ct) | Some y \<Rightarrow> Inr (p, y, ct))"

text \<open>A thread goes on; the lock service does something, other than through calls of the application; \<open>main\<close> starts the next test.\<close>

datatype tt_act = TThread nat | TSys sys_act | TNext

fun app_call :: "sys_act \<Rightarrow> bool" where
  "app_call (SClient a (CAcquire t l)) = True"
| "app_call (SClient a (CRelease t l)) = True"
| "app_call _ = False"

fun tester_step :: "(nat \<Rightarrow> int) \<Rightarrow> tt_act \<Rightarrow> tester \<Rightarrow> tester_error + tester" where
  "tester_step cid (TThread n) s =
     (if n < length (tt_threads s)
      then case tt_threads s ! n of (i, t, p) \<Rightarrow>
        map_sum id (\<lambda>(p, y, ct). s\<lparr>tt_sys := y, tt_ct := ct, tt_threads := (tt_threads s)[n := (i, t, p)]\<rparr>)
          (exec cid (i, t, p) (tt_sys s, tt_ct s))
      else Inr s)"
| "tester_step cid (TSys act) s = Inr (if app_call act then s else s\<lparr>tt_sys := sys_try act (tt_sys s)\<rparr>)"
| "tester_step cid TNext s =
     Inr (if list_all (\<lambda>(i, t, p). p = []) (tt_threads s)
          then case tt_todo s of [] \<Rightarrow> s | ph # r \<Rightarrow> s\<lparr>tt_threads := ph, tt_todo := r\<rparr>
          else s)"

fun tester_run :: "(nat \<Rightarrow> int) \<Rightarrow> tt_act list \<Rightarrow> tester \<Rightarrow> tester_error + tester" where
  "tester_run cid [] s = Inr s"
| "tester_run cid (a # as) s = (case tester_step cid a s of Inl e \<Rightarrow> Inl e | Inr s \<Rightarrow> tester_run cid as s)"

subsection \<open>What a program holds\<close>

text \<open>
  Read off what is left of a program: a lock is held if it is released before it is acquired again, and counted if it is uncounted first.
\<close>

fun held_in :: "u64 \<Rightarrow> cmd list \<Rightarrow> bool" where
  "held_in l [] = False"
| "held_in l (Acquire k # p) = (l \<noteq> k \<and> held_in l p)"
| "held_in l (Await k # p) = (l \<noteq> k \<and> held_in l p)"
| "held_in l (Release k # p) = (l = k \<or> held_in l p)"
| "held_in l (_ # p) = held_in l p"

fun counted_in :: "u64 \<Rightarrow> cmd list \<Rightarrow> bool" where
  "counted_in l [] = False"
| "counted_in l (CheckGrant k # p) = (l \<noteq> k \<and> counted_in l p)"
| "counted_in l (CheckRelease k # p) = (l = k \<or> counted_in l p)"
| "counted_in l (_ # p) = counted_in l p"

fun balanced :: "cmd list \<Rightarrow> bool" where
  "balanced [] = True"
| "balanced (Acquire l # p) = balanced p"
| "balanced (Await l # p) = balanced p"
| "balanced (Release l # p) = (\<not> held_in l p \<and> balanced p)"
| "balanced (CheckGrant l # p) = (l \<in> {lock_a, lock_b} \<and> counted_in l p \<and> balanced p)"
| "balanced (CheckRelease l # p) = (l \<in> {lock_a, lock_b} \<and> \<not> counted_in l p \<and> balanced p)"

text \<open>Programs that count a lock only while they hold it can run side by side.\<close>

fun guarded :: "cmd list \<Rightarrow> bool" where
  "guarded [] = True"
| "guarded (c # p) = (list_all (\<lambda>l. counted_in l (c # p) \<longrightarrow> held_in l (c # p)) [lock_a, lock_b] 
     \<and> (\<forall>l. c = CheckGrant l \<longrightarrow> held_in l p) \<and> guarded p)"

definition phase_ok :: "tthread list \<Rightarrow> bool" where
  "phase_ok ph \<longleftrightarrow> distinct (map (\<lambda>(i, t, p). t) ph) \<and> list_all (\<lambda>(i, t, p). balanced p) ph
     \<and> (length ph = 1 \<or> list_all (\<lambda>(i, t, p). guarded p) ph)"

subsection \<open>No test reports an error\<close>

lemma client_keeps_held:
  "client_step act k = Some k' \<Longrightarrow> (l, t) \<in> set (cl_held k) \<Longrightarrow> act \<noteq> CRelease t l \<Longrightarrow> (l, t) \<in> set (cl_held k')"
proof -
  have go: "(l, t) \<in> set (cl_held (acq_go lid u k r))" if "(l, t) \<in> set (cl_held k)" for lid u k r
    using that by (cases "(lid, u, k, r)" rule: acq_go.cases) auto
  show "client_step act k = Some k' \<Longrightarrow> (l, t) \<in> set (cl_held k) \<Longrightarrow> act \<noteq> CRelease t l \<Longrightarrow> (l, t) \<in> set (cl_held k')"
    by (cases "(act, k)" rule: client_step.cases) (auto split: if_splits pc.splits bool.splits intro: go)
qed

lemma sys_keeps_held:
  assumes "sys_step act y = Some y'" "(l, t) \<in> set (cl_held (sy_client y a))" "act \<noteq> SClient a (CRelease t l)"
  shows "(l, t) \<in> set (cl_held (sy_client y' a))"
proof (cases act)
  case (SClient b c)
  then obtain k where "client_step c (sy_client y b) = Some k" "y' = with_client b k y" using assms(1) by auto
  then show ?thesis using assms(2,3) SClient client_keeps_held by (cases "a = b") (auto simp: with_client_def)
qed (use assms in \<open>auto simp: with_client_def split: pc.splits option.splits prod.splits if_splits lock_status.splits\<close>)

definition owns_held :: "(nat \<Rightarrow> int) \<Rightarrow> lock_sys \<Rightarrow> tthread list \<Rightarrow> bool" where
  "owns_held cid y ths \<longleftrightarrow> (\<forall>(i, t, p) \<in> set ths. \<forall>l. held_in l p \<longrightarrow> (l, t) \<in> set (cl_held (sy_client y (cid i))))"

definition counts_ok :: "(u64 \<Rightarrow> int) \<Rightarrow> tthread list \<Rightarrow> bool" where
  "counts_ok ct ths \<longleftrightarrow> (\<forall>l \<in> {lock_a, lock_b}. ct (l AND 255) = int (length (filter (\<lambda>(i, t, p). counted_in l p) ths)))"

definition fresh :: "tthread list \<Rightarrow> bool" where
  "fresh ph \<longleftrightarrow> list_all (\<lambda>(i, t, p). \<forall>l. \<not> held_in l p \<and> \<not> counted_in l p) ph"

definition tests_ok :: "(nat \<Rightarrow> int) \<Rightarrow> lock_sys \<Rightarrow> (u64 \<Rightarrow> int) \<Rightarrow> tthread list \<Rightarrow> bool" where
  "tests_ok cid y ct ths \<longleftrightarrow> sys_inv y \<and> phase_ok ths \<and> owns_held cid y ths \<and> counts_ok ct ths"

definition tester_inv :: "(nat \<Rightarrow> int) \<Rightarrow> tester \<Rightarrow> bool" where
  "tester_inv cid s \<longleftrightarrow> tests_ok cid (tt_sys s) (tt_ct s) (tt_threads s) \<and> list_all (\<lambda>ph. phase_ok ph \<and> fresh ph) (tt_todo s)"

lemma guarded_head: "guarded p \<Longrightarrow> balanced p \<Longrightarrow> counted_in l p \<Longrightarrow> held_in l p"
proof -
  assume a: "guarded p" "balanced p" "counted_in l p"
  have "l \<in> {lock_a, lock_b}" using a(2,3) by (induction l p rule: counted_in.induct) auto
  then show ?thesis using a by (cases p) auto
qed

text \<open>A thread about to count a lock, or that has counted it, is the only one.\<close>

lemma alone:
  assumes "sys_inv y" "phase_ok ths" "owns_held cid y ths" "n < length ths" "ths ! n = (i, t, p)"
    and "m < length ths" "m \<noteq> n" "ths ! m = (j, u, q)" "length ths \<noteq> 1 \<Longrightarrow> held_in l p"
  shows "\<not> counted_in l q"
proof
  assume c: "counted_in l q"
  have len: "length ths \<noteq> 1" using assms(4,6,7) by linarith
  have mem: "(i, t, p) \<in> set ths" "(j, u, q) \<in> set ths" using assms(4-6,8) nth_mem by metis+
  then have "guarded q" "balanced q" using assms(2) len by (auto simp: phase_ok_def list_all_iff)
  then have "held_in l q" using c guarded_head by blast
  then have "(l, u) \<in> set (cl_held (sy_client y (cid j)))" "(l, t) \<in> set (cl_held (sy_client y (cid i)))"
    using assms(3,9) len mem by (auto simp: owns_held_def)
  then have "u = t" using held_exclusive [OF assms(1)] by blast
  moreover have "map (\<lambda>(i, t, p). t) ths ! n = t" "map (\<lambda>(i, t, p). t) ths ! m = u" using assms(4-6,8) by simp_all
  ultimately show False using assms(2,4,6,7) by (simp add: phase_ok_def distinct_conv_nth) metis
qed

lemma filter_update:
  assumes "n < length xs"
  shows "int (length (filter P (xs[n := x]))) = int (length (filter P xs)) - (if P (xs ! n) then 1 else 0) + (if P x then 1 else 0)"
proof -
  have l: "int (length (filter P (a @ y # b))) = int (length (filter P (a @ b))) + (if P y then 1 else 0)" for a y b by simp
  show ?thesis
    using l [of "take n xs" "xs ! n" "drop (Suc n) xs"] l [of "take n xs" x "drop (Suc n) xs"]
    unfolding id_take_nth_drop [OF assms, symmetric] upd_conv_take_nth_drop [OF assms] by simp
qed

lemma count_one:
  assumes "n < length xs" "\<And>m. m < length xs \<Longrightarrow> m \<noteq> n \<Longrightarrow> \<not> P (xs ! m)"
  shows "length (filter P xs) = (if P (xs ! n) then 1 else 0)"
proof -
  have "filter P xs = map ((!) xs) (filter (\<lambda>m. P (xs ! m)) [0 ..< length xs])"
    by (metis (no_types, lifting) filter_cong filter_map map_nth comp_def)
  moreover have "filter (\<lambda>m. P (xs ! m)) [0 ..< length xs] = filter (\<lambda>m. m = n \<and> P (xs ! n)) [0 ..< length xs]"
    using assms(2) by (intro filter_cong) auto
  moreover have "filter (\<lambda>m. m = n) [0 ..< k] = (if n < k then [n] else [])" for k by (induction k) auto
  ultimately show ?thesis using assms(1) by (cases "P (xs ! n)") auto
qed

lemma counts_update:
  assumes "counts_ok ct ths" "n < length ths" "ths ! n = (i, t, p)"
    and "\<And>l. l \<in> {lock_a, lock_b} \<Longrightarrow> ct' (l AND 255) = ct (l AND 255) - (if counted_in l p then 1 else 0) + (if counted_in l q then 1 else 0)"
  shows "counts_ok ct' (ths[n := (i, t, q)])"
  unfolding counts_ok_def using assms(1) filter_update [OF assms(2)] assms(3,4) by (simp add: counts_ok_def)

lemma owns_update:
  assumes "owns_held cid y ths" "n < length ths" "ths ! n = (i, t, p)" "distinct (map (\<lambda>(i, t, p). t) ths)"
    and "\<And>l a u. (l, u) \<in> set (cl_held (sy_client y a)) \<Longrightarrow> u \<noteq> t \<Longrightarrow> (l, u) \<in> set (cl_held (sy_client y' a))"
    and "\<And>l. held_in l q \<Longrightarrow> (l, t) \<in> set (cl_held (sy_client y' (cid i)))"
  shows "owns_held cid y' (ths[n := (i, t, q)])"
  unfolding owns_held_def
proof (clarify)
  fix j u r l assume a: "(j, u, r) \<in> set (ths[n := (i, t, q)])" "held_in l r"
  then obtain m where m: "m < length ths" "ths[n := (i, t, q)] ! m = (j, u, r)" by (metis in_set_conv_nth length_list_update)
  show "(l, u) \<in> set (cl_held (sy_client y' (cid j)))"
  proof (cases "m = n")
    case False
    then have mm: "ths ! m = (j, u, r)" using m by simp
    have "u \<noteq> t" using nth_eq_iff_index_eq [OF assms(4), of m n] False m(1) assms(2,3) mm by auto
    then show ?thesis using assms(1,5) a(2) nth_mem [OF m(1)] mm by (fastforce simp: owns_held_def)
  qed (use m assms(2,6) a(2) in auto)
qed

lemma phase_update:
  assumes "phase_ok ths" "n < length ths" "ths ! n = (i, t, p)" "balanced p \<Longrightarrow> balanced q" "guarded p \<Longrightarrow> guarded q"
  shows "phase_ok (ths[n := (i, t, q)])"
proof -
  have "map (\<lambda>(i, t, p). t) (ths[n := (i, t, q)]) = map (\<lambda>(i, t, p). t) ths"
    using assms(2,3) by (simp add: map_update list_update_same_conv)
  moreover have "list_all (\<lambda>(i, t, p). P p) (ths[n := (i, t, q)])" if "list_all (\<lambda>(i, t, p). P p) ths" "P p \<Longrightarrow> P q" for P
  proof -
    have "P p" using that(1) nth_mem [OF assms(2)] assms(3) by (auto simp: list_all_iff)
    then show ?thesis using that set_update_subset_insert [of ths n "(i, t, q)"] by (auto simp: list_all_iff)
  qed
  ultimately show ?thesis using assms by (auto simp: phase_ok_def)
qed

lemma distinct_bytes: "lock_a AND 255 \<noteq> lock_b AND 255"
  by (simp add: lock_a_def lock_b_def)

text \<open>One thread goes on to the rest \<open>q\<close> of its program.\<close>

lemma advance:
  assumes "tests_ok cid y ct ths" "n < length ths" "ths ! n = (i, t, p)" "balanced p \<Longrightarrow> balanced q" "guarded p \<Longrightarrow> guarded q" "sys_inv y'"
    and "\<And>l a u. (l, u) \<in> set (cl_held (sy_client y a)) \<Longrightarrow> u \<noteq> t \<Longrightarrow> (l, u) \<in> set (cl_held (sy_client y' a))"
    and "\<And>l. held_in l q \<Longrightarrow> (l, t) \<in> set (cl_held (sy_client y' (cid i)))"
    and "\<And>l. l \<in> {lock_a, lock_b} \<Longrightarrow> ct' (l AND 255) = ct (l AND 255) - (if counted_in l p then 1 else 0) + (if counted_in l q then 1 else 0)"
  shows "tests_ok cid y' ct' (ths[n := (i, t, q)])"
  using assms phase_update [of ths n i t p q] owns_update [of cid y ths n i t p y' q] counts_update [of ct ths n i t p ct' q]
  by (simp add: tests_ok_def phase_ok_def)

lemma thread_facts:
  assumes "tests_ok cid y ct ths" "n < length ths" "ths ! n = (i, t, p)"
  shows "balanced p" "length ths \<noteq> 1 \<Longrightarrow> guarded p" "held_in l p \<Longrightarrow> (l, t) \<in> set (cl_held (sy_client y (cid i)))"
    and "l \<in> {lock_a, lock_b} \<Longrightarrow> (length ths \<noteq> 1 \<Longrightarrow> held_in l p) \<Longrightarrow> ct (l AND 255) = (if counted_in l p then 1 else 0)"
proof -
  have inv: "sys_inv y" "phase_ok ths" "owns_held cid y ths" "counts_ok ct ths" using assms(1) by (simp_all add: tests_ok_def)
  have mem: "(i, t, p) \<in> set ths" using nth_mem [OF assms(2)] assms(3) by simp
  show "balanced p" "length ths \<noteq> 1 \<Longrightarrow> guarded p" using inv(2) mem by (auto simp: phase_ok_def list_all_iff)
  show "held_in l p \<Longrightarrow> (l, t) \<in> set (cl_held (sy_client y (cid i)))" using inv(3) mem by (auto simp: owns_held_def)
  assume l: "l \<in> {lock_a, lock_b}" "length ths \<noteq> 1 \<Longrightarrow> held_in l p"
  have "\<not> (case ths ! m of (i, t, p) \<Rightarrow> counted_in l p)" if "m < length ths" "m \<noteq> n" for m
    using alone [OF inv(1-3) assms(2,3) that] l(2) by (cases "ths ! m") auto
  from count_one [where P = "\<lambda>(i, t, p). counted_in l p", OF assms(2) this] show "ct (l AND 255) = (if counted_in l p then 1 else 0)"
    using inv(4) l(1) assms(3) by (auto simp: counts_ok_def)
qed

lemma exec_call_ok:
  assumes ok: "tests_ok cid y ct ths" and n: "n < length ths" "ths ! n = (i, t, c # r)" and c: "c \<in> {Acquire l, Await l, Release l}"
  shows "\<exists>q y'. exec cid (i, t, c # r) (y, ct) = Inr (q, y', ct) \<and> tests_ok cid y' ct (ths[n := (i, t, q)])"
proof -
  note F = thread_facts [OF ok n]
  have inv: "sys_inv y" using ok by (simp add: tests_ok_def)
  have same: "tests_ok cid y ct (ths[n := (i, t, c # r)])" using ok n by (metis list_update_id)
  note A = advance [OF ok n]
  consider "c = Acquire l" | "c = Await l" | "c = Release l" using c by blast
  then show ?thesis
  proof cases
    case 1
    have "tests_ok cid y' ct (ths[n := (i, t, Await l # r)])" if s: "sys_step (SClient (cid i) (CAcquire t l)) y = Some y'" for y'
      using sys_keeps_held [OF s] sys_step_inv [OF s inv] F(3) by (intro A) (auto simp: 1 simp del: sys_step.simps)
    then show ?thesis using same by (auto simp: 1 simp del: sys_step.simps split: option.split)
  next
    case 2
    have "tests_ok cid y ct (ths[n := (i, t, r)])" if h: "(l, t) \<in> set (cl_held (sy_client y (cid i)))"
    proof -
      have "(k, t) \<in> set (cl_held (sy_client y (cid i)))" if "held_in k r" for k using h F(3) [of k] that by (cases "k = l") (auto simp: 2)
      then show ?thesis using inv by (intro A) (auto simp: 2)
    qed
    then show ?thesis using same by (auto simp: 2)
  next
    case 3
    have "tests_ok cid y' ct (ths[n := (i, t, r)])" if s: "sys_step (SClient (cid i) (CRelease t l)) y = Some y'" for y'
    proof -
      have "(k, t) \<in> set (cl_held (sy_client y' (cid i)))" if "held_in k r" for k
        using F(1) F(3) [of k] that sys_keeps_held [OF s] by (cases "k = l") (auto simp: 3 simp del: sys_step.simps)
      then show ?thesis using sys_keeps_held [OF s] sys_step_inv [OF s inv] by (intro A) (auto simp: 3 simp del: sys_step.simps)
    qed
    then show ?thesis using same by (auto simp: 3 simp del: sys_step.simps split: option.split)
  qed
qed

lemma exec_check_ok:
  assumes ok: "tests_ok cid y ct ths" and n: "n < length ths" "ths ! n = (i, t, c # r)" and c: "c \<in> {CheckGrant l, CheckRelease l}"
  shows "\<exists>ct'. exec cid (i, t, c # r) (y, ct) = Inr (r, y, ct') \<and> tests_ok cid y ct' (ths[n := (i, t, r)])"
proof -
  note F = thread_facts [OF ok n]
  have inv: "sys_inv y" using ok by (simp add: tests_ok_def)
  note A = advance [OF ok n]
  consider "c = CheckGrant l" | "c = CheckRelease l" using c by blast
  then show ?thesis
  proof cases
    case 1
    have l: "l \<in> {lock_a, lock_b}" "counted_in l r" using F(1) by (auto simp: 1)
    have z: "ct (l AND 255) = 0" using F(4) [OF l(1)] F(2) by (simp add: 1)
    have "tests_ok cid y (ct(l AND 255 := ct (l AND 255) + 1)) (ths[n := (i, t, r)])"
      using l distinct_bytes inv F(3) by (intro A) (auto simp: 1)
    then show ?thesis using z by (simp add: 1 check_grant_def)
  next
    case 2
    have l: "l \<in> {lock_a, lock_b}" "\<not> counted_in l r" using F(1) by (auto simp: 2)
    have z: "ct (l AND 255) = 1" using F(4) [OF l(1)] guarded_head [OF F(2) F(1)] by (simp add: 2)
    have "tests_ok cid y (ct(l AND 255 := ct (l AND 255) - 1)) (ths[n := (i, t, r)])"
      using l distinct_bytes inv F(3) by (intro A) (auto simp: 2)
    then show ?thesis using z by (simp add: 2 check_release_def)
  qed
qed

lemma exec_ok:
  assumes "tests_ok cid y ct ths" "n < length ths" "ths ! n = (i, t, p)"
  shows "\<exists>q y' ct'. exec cid (i, t, p) (y, ct) = Inr (q, y', ct') \<and> tests_ok cid y' ct' (ths[n := (i, t, q)])"
proof (cases p)
  case Nil
  then show ?thesis using assms by (metis exec.simps(1) list_update_id)
next
  case (Cons c r)
  then show ?thesis
    using exec_call_ok [OF assms(1,2), of i t c r] exec_check_ok [OF assms(1,2), of i t c r] assms(3) by (cases c) (fastforce simp del: exec.simps)+
qed

lemma finished_counts: "list_all (\<lambda>(i, t, p). p = []) ths \<Longrightarrow> counts_ok ct ths \<Longrightarrow> fresh ph \<Longrightarrow> counts_ok ct ph"
proof -
  assume a: "list_all (\<lambda>(i, t, p). p = []) ths" "counts_ok ct ths" "fresh ph"
  have "filter (\<lambda>(i, t, p). counted_in l p) ths = []" "filter (\<lambda>(i, t, p). counted_in l p) ph = []" for l
    using a(1,3) by (auto simp: filter_empty_conv list_all_iff fresh_def)
  then show ?thesis using a(2) by (simp add: counts_ok_def)
qed

lemma tester_step_ok: "tester_inv cid s \<Longrightarrow> \<exists>s'. tester_step cid a s = Inr s' \<and> tester_inv cid s'"
proof (cases a)
  case (TThread n)
  assume I: "tester_inv cid s"
  show ?thesis
  proof (cases "n < length (tt_threads s)")
    case True
    obtain i t p where p: "tt_threads s ! n = (i, t, p)" by (metis prod_cases3)
    then obtain q y' ct' where "exec cid (i, t, p) (tt_sys s, tt_ct s) = Inr (q, y', ct')" "tests_ok cid y' ct' ((tt_threads s)[n := (i, t, q)])"
      using exec_ok [OF _ True p] I unfolding tester_inv_def by blast
    then show ?thesis using TThread True p I by (simp add: tester_inv_def)
  qed (use TThread I in simp)
next
  case (TSys act)
  assume I: "tester_inv cid s"
  have "tests_ok cid (sys_try act (tt_sys s)) (tt_ct s) (tt_threads s)" if na: "\<not> app_call act"
  proof (cases "sys_step act (tt_sys s)")
    case (Some y')
    have "act \<noteq> SClient a (CRelease t l)" for a t l using na by auto
    then have "owns_held cid y' (tt_threads s)"
      using I sys_keeps_held [OF Some] unfolding tester_inv_def tests_ok_def owns_held_def by blast
    then show ?thesis using I sys_step_inv [OF Some] Some by (simp add: sys_try_def tester_inv_def tests_ok_def)
  qed (use I in \<open>simp add: sys_try_def tester_inv_def\<close>)
  then show ?thesis using I TSys by (simp add: tester_inv_def)
next
  case TNext
  assume I: "tester_inv cid s"
  have "tests_ok cid (tt_sys s) (tt_ct s) ph" if "list_all (\<lambda>(i, t, p). p = []) (tt_threads s)" "phase_ok ph" "fresh ph" for ph
    using I that finished_counts by (auto simp: tester_inv_def tests_ok_def owns_held_def fresh_def list_all_iff)
  then show ?thesis using I TNext by (auto simp: tester_inv_def split: list.split)
qed

lemma tester_run_ok: "tester_inv cid s \<Longrightarrow> \<exists>s'. tester_run cid as s = Inr s'"
proof (induction as arbitrary: s)
  case (Cons a as)
  then show ?case using tester_step_ok [OF Cons.prems, of a] by auto
qed simp

text \<open>The programs of the tests.\<close>

definition prog_ok :: "cmd list \<Rightarrow> bool" where
  "prog_ok p \<longleftrightarrow> balanced p \<and> (\<forall>l. \<not> held_in l p \<and> \<not> counted_in l p)"

lemma word_distinct: "n < 2 ^ 32 \<Longrightarrow> distinct (map (\<lambda>i. word_of_nat (i + 1) :: u32) [0 ..< n])"
  by (auto simp: distinct_map inj_on_def word_of_nat_eq_iff take_bit_nat_eq_self)

lemma threads_ok:
  assumes "prog_ok p" "n < 2 ^ 32" "n = 1 \<or> guarded p"
  shows "phase_ok (threads n client p) \<and> fresh (threads n client p)"
proof -
  have "map (\<lambda>(i, t, p). t) (threads n client p) = map (\<lambda>i. word_of_nat (i + 1)) [0 ..< n]" by (simp add: threads_def)
  then show ?thesis using assms word_distinct [OF assms(2)]
    by (auto simp: phase_ok_def fresh_def threads_def list_all_iff prog_ok_def comp_def)
qed

lemma tests_prog_ok: "prog_ok test1" "prog_ok test2" "guarded test2" "prog_ok test3" "guarded test3"
  by (auto simp: prog_ok_def test1_def test2_def test3_def lock_a_def lock_b_def numeral_eq_Suc)

lemma tests_same: "test4 = test3" "test5 = test3"
  by (simp_all add: test3_def test4_def test5_def)

text \<open>
  C26. The tester's verdict.  Run against the lock service, whichever tests are selected and however the tester's threads, the clients, the server
  and the messages between them interleave, the tester never reports that a lock was granted twice or released without being held.
\<close>

theorem lock_tester_passes:
  assumes "tester_main arg = Some ph"
  shows "\<exists>s. tester_run cid as (tester_new ph) = Inr s"
proof -
  have t: "phase_ok (threads 1 (\<lambda>_. 0) test1) \<and> fresh (threads 1 (\<lambda>_. 0) test1)"
    "phase_ok (threads nt (\<lambda>i. i) test2) \<and> fresh (threads nt (\<lambda>i. i) test2)"
    "phase_ok (threads nt (\<lambda>i. i) test3) \<and> fresh (threads nt (\<lambda>i. i) test3)"
    "phase_ok (threads 2 (\<lambda>_. 0) test4) \<and> fresh (threads 2 (\<lambda>_. 0) test4)"
    "phase_ok (threads nt test5_client test5) \<and> fresh (threads nt test5_client test5)"
    by (intro threads_ok; simp add: tests_prog_ok tests_same nt_def)+
  then have "list_all (\<lambda>ph. phase_ok ph \<and> fresh ph) ph"
    using assms by (auto simp: tester_main_def Let_def split: if_splits)
  then have "tester_inv cid (tester_new ph)"
    using sys_inv_new by (simp add: tester_inv_def tests_ok_def tester_new_def phase_ok_def owns_held_def counts_ok_def)
  then show ?thesis by (rule tester_run_ok)
qed

definition test1_schedule :: "tt_act list" where
  "test1_schedule = [TSys (SSubscribe 7 ''a''), TNext]
     @ concat (replicate 20 [TThread 0, TSys (SClient 7 (CSend 1)), TSys (SServe 7 1), TSys (SClient 7 (CReply 1))])"

theorem lock_tester_passes_witness:
  "\<exists>ph s. tester_main (Some 1) = Some ph \<and> tester_run (\<lambda>i. 7 + int i) test1_schedule (tester_new ph) = Inr s \<and> tt_threads s = [(0, 1, [])]"
proof -
  obtain ph where ph: "tester_main (Some 1) = Some ph" by (simp add: tester_main_def Let_def)
  have "map_option (\<lambda>ph. map_sum id tt_threads (tester_run (\<lambda>i. 7 + int i) test1_schedule (tester_new ph))) (tester_main (Some 1)) = Some (Inr [(0, 1, [])])"
    by code_simp
  then show ?thesis using lock_tester_passes [OF ph, of "\<lambda>i. 7 + int i" test1_schedule] ph by auto
qed

end
