(* ===== verification/PaxosCluster.thy ===== *)
theory PaxosCluster
  imports Proposer Rpc
begin

text \<open>
  \<open>proposer::run\<close> as a whole, with the RPC layer of theory \<open>Proposer\<close> filled by the model's acceptors: a call
  to a node that is up runs its handler, a call to any other node fails.
\<close>

definition cluster :: "(string \<Rightarrow> bool) \<Rightarrow> string \<Rightarrow> (string \<Rightarrow> acceptor) net" where
  "cluster up me = \<lparr>
     net_up = (\<lambda>q s. up q),
     net_prepare = (\<lambda>src q arg s. case preparereq src arg res0 (s q) of (st, res, a) \<Rightarrow> (Some res, s(q := a))),
     net_accept = (\<lambda>src q arg s. case acceptreq src arg (s q) of (st, a) \<Rightarrow> (st = POK, s(q := a))),
     net_decide = (\<lambda>src q arg s. case decidereq src arg (s q) of (st, a, ups) \<Rightarrow> s(q := a)),
     net_commit = (\<lambda>i v s. s(me := fst (acc_commit i v (s me)))),
     net_n_h = (\<lambda>s. n_h (s me))\<rparr>"

lemma cluster_simps [simp]:
  "net_up (cluster up me) q s = up q" "net_n_h (cluster up me) s = n_h (s me)"
  by (simp_all add: cluster_def)

lemma preparereq_fresh:
  assumes "instance_h a < i" "n_h a < n"
  obtains res where "preparereq src \<lparr>pa_instance = i, pa_n = n, pa_v = v\<rparr> res0 a
      = (POK, res, a\<lparr>n_h := n, log_file := loghigh n (log_file a)\<rparr>)"
    "oldinstance res = 0" "accept res = 1" "pn (n_a a) = 0 \<Longrightarrow> res_v_a res = []"
proof -
  have "\<not> i \<le> instance_h a" using assms(1) by simp
  then show thesis using assms(2) that by (cases "pn (n_a a) = 0") (simp_all add: preparereq_def res0_def Let_def)
qed

lemma prepare_one_accept:
  assumes "oldinstance res = 0" "accept res = 1"
  obtains st1 where "prepare_one q res st = Cont st1" "pr_accepts st1 = pr_accepts st @ [q]"
    "res_v_a res = [] \<Longrightarrow> pr_v st1 = pr_v st"
  using assms that by (cases "res_v_a res \<noteq> [] \<and> pr_h st < res_n_a res") (auto simp: prepare_one_def)

lemma prepare_uncontended:
  assumes "distinct qs" "\<forall>q \<in> set qs. up q \<longrightarrow> instance_h (s q) < i \<and> n_h (s q) < my_n p"
  shows "\<exists>st' s'. prepare (cluster up me) p i qs st s = (Some st', s')
     \<and> pr_accepts st' = pr_accepts st @ filter up qs
     \<and> ((\<forall>q \<in> set qs. up q \<longrightarrow> pn (n_a (s q)) = 0) \<longrightarrow> pr_v st' = pr_v st)
     \<and> (\<forall>q. instance_h (s' q) = instance_h (s q) \<and> n_h (s' q) = (if up q \<and> q \<in> set qs then my_n p else n_h (s q)))"
  using assms
proof (induction qs arbitrary: st s)
  case (Cons q qs)
  show ?case
  proof (cases "up q")
    case True
    define a where "a = (s q)\<lparr>n_h := my_n p, log_file := loghigh (my_n p) (log_file (s q))\<rparr>"
    define s1 where "s1 = s(q := a)"
    obtain res where r: "preparereq (p_me p) \<lparr>pa_instance = i, pa_n = my_n p, pa_v = pr_v st\<rparr> res0 (s q) = (POK, res, a)"
        "oldinstance res = 0" "accept res = 1" "pn (n_a (s q)) = 0 \<Longrightarrow> res_v_a res = []"
      using Cons.prems(2) True preparereq_fresh [of "s q" i "my_n p" "p_me p" "pr_v st"] unfolding a_def by auto
    obtain st1 where st1: "prepare_one q res st = Cont st1" "pr_accepts st1 = pr_accepts st @ [q]"
        "res_v_a res = [] \<Longrightarrow> pr_v st1 = pr_v st"
      using prepare_one_accept [OF r(2,3), of q st] by blast
    have s1: "instance_h (s1 q') = instance_h (s q')" "n_a (s1 q') = n_a (s q')" "n_h (s1 q') = (if q' = q then my_n p else n_h (s q'))" for q'
      by (simp_all add: s1_def a_def)
    have step: "prepare (cluster up me) p i (q # qs) st s = prepare (cluster up me) p i qs st1 s1"
      using True r(1) st1(1) by (simp add: cluster_def s1_def)
    have "\<forall>q' \<in> set qs. up q' \<longrightarrow> instance_h (s1 q') < i \<and> n_h (s1 q') < my_n p"
      using Cons.prems by (auto simp: s1)
    then obtain st' s' where ih: "prepare (cluster up me) p i qs st1 s1 = (Some st', s')"
      "pr_accepts st' = pr_accepts st1 @ filter up qs"
      "(\<forall>q \<in> set qs. up q \<longrightarrow> pn (n_a (s1 q)) = 0) \<longrightarrow> pr_v st' = pr_v st1"
      "\<forall>q. instance_h (s' q) = instance_h (s1 q) \<and> n_h (s' q) = (if up q \<and> q \<in> set qs then my_n p else n_h (s1 q))"
      using Cons.IH [of s1 st1] Cons.prems(1) by auto
    then show ?thesis
      unfolding step using True r(4) st1(2,3) by (intro exI [of _ st'] exI [of _ s']) (auto simp: s1)
  next
    case False
    then show ?thesis using Cons.IH [of s st] Cons.prems by auto
  qed
qed simp

lemma accept_uncontended:
  assumes "distinct qs" "\<forall>q \<in> set qs. up q \<and> n_h (s q) = my_n p"
  shows "\<exists>s'. accept_phase (cluster up me) p i v qs ks s = (ks @ qs, s') \<and> (\<forall>q. instance_h (s' q) = instance_h (s q))"
  using assms
proof (induction qs arbitrary: ks s)
  case (Cons q qs)
  obtain a where a: "acceptreq (p_me p) \<lparr>aa_instance = i, aa_n = my_n p, aa_v = v\<rparr> (s q) = (POK, a)" "instance_h a = instance_h (s q)"
    using Cons.prems(2) by (auto simp: acceptreq_def Let_def)
  define s1 where "s1 = s(q := a)"
  have "\<forall>q' \<in> set qs. up q' \<and> n_h (s1 q') = my_n p" using Cons.prems by (auto simp: s1_def)
  moreover have "accept_phase (cluster up me) p i v (q # qs) ks s = accept_phase (cluster up me) p i v qs (ks @ [q]) s1"
    using a Cons.prems by (simp add: cluster_def s1_def)
  moreover have "instance_h (s1 q') = instance_h (s q')" for q' using a by (simp add: s1_def)
  ultimately show ?case using Cons.IH [of s1 "ks @ [q]"] Cons.prems(1) by auto
qed simp

lemma decide_uncontended:
  assumes "distinct qs" "\<forall>q \<in> set qs. up q \<and> instance_h (s q) < i"
  shows "(\<forall>q \<in> set qs. instance_h (decide (cluster up me) p i v qs s q) = i
     \<and> mget [] (acc_values (decide (cluster up me) p i v qs s q)) i = v)
     \<and> (\<forall>q. q \<notin> set qs \<longrightarrow> decide (cluster up me) p i v qs s q = s q)"
  using assms
proof (induction qs arbitrary: s)
  case (Cons q qs)
  define s1 where "s1 = s(q := fst (commit_wo i v (s q)))"
  have "\<not> i \<le> instance_h (s q)" using Cons.prems by (simp add: not_le)
  then have "decide (cluster up me) p i v (q # qs) s = decide (cluster up me) p i v qs s1"
    using Cons.prems by (simp add: cluster_def decidereq_def s1_def split: prod.splits)
  moreover have "instance_h (s1 q) = i \<and> mget [] (acc_values (s1 q)) i = v"
    using Cons.prems by (auto simp: s1_def commit_wo_def stdmap_simps)
  moreover have s1: "s1 q' = s q'" if "q' \<noteq> q" for q' using that by (simp add: s1_def)
  moreover have "\<forall>q' \<in> set qs. up q' \<and> instance_h (s1 q') < i" 
    using Cons.prems s1 by (metis distinct.simps(2) list.set_intros(2))
  ultimately show ?case using Cons.IH [of s1] Cons.prems(1) by auto
qed simp

lemma uncontended_run_lemma:
  assumes "stable p" "\<not> break1 p" "\<not> break2 p" "distinct nodes" "majority nodes (filter up nodes)"
    and "n = my_n (setn (n_h (s me)) p)"
    and "\<forall>q \<in> set nodes. up q \<longrightarrow> instance_h (s q) < i \<and> n_h (s q) < n"
  shows "\<exists>p' s' v. proposer_run (cluster up me) i nodes newv p s = (Returned True, p', s')
     \<and> (\<forall>q \<in> set nodes. up q \<longrightarrow> instance_h (s' q) = i \<and> mget [] (acc_values (s' q)) i = v)
     \<and> (\<forall>q. \<not> (q \<in> set nodes \<and> up q) \<longrightarrow> instance_h (s' q) = instance_h (s q))
     \<and> ((\<forall>q \<in> set nodes. up q \<longrightarrow> pn (n_a (s q)) = 0) \<longrightarrow> v = newv)"
proof -
  define p1 where "p1 = setn (n_h (s me)) (p\<lparr>c_nodes := nodes, c_v := newv\<rparr>)"
  have p1: "my_n p1 = n" "c_nodes p1 = nodes" "c_v p1 = newv" "break1 p1 = break1 p" "break2 p1 = break2 p"
    using assms(6) by (simp_all add: p1_def) (simp add: setn_def)
  have pre: "\<forall>q \<in> set nodes. up q \<longrightarrow> instance_h (s q) < i \<and> n_h (s q) < my_n p1" using assms(7) p1(1) by simp
  have init: "pr_accepts prep_init = []" "pr_v prep_init = []" by (simp_all add: prep_init_def)
  obtain st s1 where prep: "prepare (cluster up me) p1 i nodes prep_init s = (Some st, s1)"
    "pr_accepts st = filter up nodes"
    "(\<forall>q \<in> set nodes. up q \<longrightarrow> pn (n_a (s q)) = 0) \<longrightarrow> pr_v st = []"
    "\<forall>q. instance_h (s1 q) = instance_h (s q) \<and> n_h (s1 q) = (if up q \<and> q \<in> set nodes then n else n_h (s q))"
    using prepare_uncontended [OF assms(4) pre, of me prep_init] unfolding p1(1) init by fastforce
  define v where "v = choose_v newv st"
  obtain s2 where acc: "accept_phase (cluster up me) p1 i v (filter up nodes) [] s1 = (filter up nodes, s2)"
    "\<forall>q. instance_h (s2 q) = instance_h (s q)"
    using accept_uncontended [of "filter up nodes" up s1 p1 me i v "[]"] prep(4) assms(4) p1(1) by fastforce
  have dec: "(\<forall>q \<in> set (filter up nodes). instance_h (decide (cluster up me) p1 i v (filter up nodes) s2 q) = i
      \<and> mget [] (acc_values (decide (cluster up me) p1 i v (filter up nodes) s2 q)) i = v)
     \<and> (\<forall>q. q \<notin> set (filter up nodes) \<longrightarrow> decide (cluster up me) p1 i v (filter up nodes) s2 q = s2 q)"
    by (rule decide_uncontended) (use assms(4,7) acc(2) in auto)
  have "proposer_run (cluster up me) i nodes newv p s
      = (Returned True, p1\<lparr>stable := True\<rparr>, decide (cluster up me) p1 i v (filter up nodes) s2)"
    using assms(1-3,5) prep(1,2) acc(1) p1 by (simp add: proposer_run_def p1_def [symmetric] v_def [symmetric])
  moreover have "(\<forall>q \<in> set nodes. up q \<longrightarrow> pn (n_a (s q)) = 0) \<longrightarrow> v = newv"
    using prep(3) by (auto simp: v_def choose_v_def)
  ultimately show ?thesis
    using dec acc(2) by (intro exI conjI) (assumption | auto)+
qed

text \<open>
  C13.  Progress without contention: if a majority of the members is up, the members that are up have
  not decided the instance and have promised nothing above the number the proposer picks, then \<open>run\<close> returns
  true, every member that is up commits one and the same value, no other node is touched, and the
  value is the proposer's own if none of them had accepted anything before.
\<close>

theorem uncontended_run_decides:
  assumes "stable p" "\<not> break1 p" "\<not> break2 p" "distinct nodes" "majority nodes (filter up nodes)"
    and "n = my_n (setn (n_h (s me)) p)"
    and "\<forall>q \<in> set nodes. up q \<longrightarrow> instance_h (s q) < i \<and> n_h (s q) < n"
  shows "\<exists>p' s' v. proposer_run (cluster up me) i nodes newv p s = (Returned True, p', s')
     \<and> (\<forall>q \<in> set nodes. up q \<longrightarrow> instance_h (s' q) = i \<and> mget [] (acc_values (s' q)) i = v)
     \<and> (\<forall>q. \<not> (q \<in> set nodes \<and> up q) \<longrightarrow> instance_h (s' q) = instance_h (s q))
     \<and> ((\<forall>q \<in> set nodes. up q \<longrightarrow> pn (n_a (s q)) = 0) \<longrightarrow> v = newv)"
  by (rule uncontended_run_lemma [OF assms])

theorem uncontended_run_decides_witness:
  "\<exists>p' s'. proposer_run (cluster (\<lambda>q. q \<noteq> ''c'') ''a'') 1 [''a'', ''b'', ''c''] ''v'' (proposer_new ''a'' 0)
       (\<lambda>q. acceptor_init True q []) = (Returned True, p', s')
     \<and> mget [] (acc_values (s' ''a'')) 1 = ''v'' \<and> mget [] (acc_values (s' ''b'')) 1 = ''v'' \<and> instance_h (s' ''c'') = 0"
proof -
  let ?s = "\<lambda>q. acceptor_init True q []"
  have n: "my_n (setn (n_h (?s ''a'')) (proposer_new ''a'' 0)) = Prop 1 ''a''"
    by (simp add: setn_def proposer_new_def acceptor_init_def)
  have "\<forall>q \<in> set [''a'', ''b'', ''c'']. q \<noteq> ''c'' \<longrightarrow> instance_h (?s q) < 1 \<and> n_h (?s q) < Prop 1 ''a''"
    by (simp add: acceptor_init_def less_prop_t_def)
  moreover have "stable (proposer_new ''a'' 0)" "\<not> break1 (proposer_new ''a'' 0)" "\<not> break2 (proposer_new ''a'' 0)"
    by (simp_all add: proposer_new_def)
  moreover have "majority [''a'', ''b'', ''c''] (filter (\<lambda>q. q \<noteq> ''c'') [''a'', ''b'', ''c''])" by (simp add: majority_def)
  ultimately obtain p' s' v where r: "proposer_run (cluster (\<lambda>q. q \<noteq> ''c'') ''a'') 1 [''a'', ''b'', ''c''] ''v'' (proposer_new ''a'' 0) ?s
      = (Returned True, p', s')"
    "\<forall>q \<in> set [''a'', ''b'', ''c'']. q \<noteq> ''c'' \<longrightarrow> instance_h (s' q) = 1 \<and> mget [] (acc_values (s' q)) 1 = v"
    "\<forall>q. \<not> (q \<in> set [''a'', ''b'', ''c''] \<and> q \<noteq> ''c'') \<longrightarrow> instance_h (s' q) = instance_h (?s q)"
    "(\<forall>q \<in> set [''a'', ''b'', ''c'']. q \<noteq> ''c'' \<longrightarrow> pn (n_a (?s q)) = 0) \<longrightarrow> v = ''v''"
    using uncontended_run_decides [of "proposer_new ''a'' 0" "[''a'', ''b'', ''c'']" "\<lambda>q. q \<noteq> ''c''" "Prop 1 ''a''" ?s "''a''" 1 "''v''"]
      n by auto
  then show ?thesis by (auto simp: acceptor_init_def)
qed

subsection \<open>The prepare RPC on the wire\<close>

text \<open>
  \<open>pxs->reg(paxos_protocol::preparereq, this, &acceptor::preparereq)\<close> and the matching
  \<open>h.get_rpcc()->call(paxos_protocol::preparereq, me, arg, res)\<close>.
\<close>

definition preparereq_proc :: u32 where
  "preparereq_proc = 0x11001"

definition status_int :: "paxos_status \<Rightarrow> int" where
  "status_int st = (case st of POK \<Rightarrow> 0 | PERR \<Rightarrow> 1)"

definition preparereq_meth :: "acceptor \<Rightarrow> string \<Rightarrow> preparearg \<Rightarrow> int \<times> prepareres \<times> acceptor" where
  "preparereq_meth a src arg = (case preparereq src arg res0 a of (st, res, a') \<Rightarrow> (status_int st, res, a'))"

definition preparereq_handler :: "acceptor handler" where
  "preparereq_handler = h2_fn get_string get_preparearg put_prepareres preparereq_meth"

definition put_prepare_args :: "string \<times> preparearg \<Rightarrow> marshall \<Rightarrow> marshall option" where
  "put_prepare_args = (\<lambda>(src, arg). put_all [put_string src, put_preparearg arg])"

interpretation string_preparearg: codec_pair str_ok put_string get_string enc_string
  "\<lambda>a. str_ok (pm (pa_n a)) \<and> str_ok (pa_v a)" put_preparearg get_preparearg enc_preparearg
  by unfold_locales

interpretation prepare_rpc: rpc_method
  "\<lambda>(src, arg). str_ok src \<and> str_ok (pm (pa_n arg)) \<and> str_ok (pa_v arg)"
  put_prepare_args "get_pair get_string get_preparearg" "enc_pair enc_string enc_preparearg"
  "\<lambda>r. int32_ok (oldinstance r) \<and> int32_ok (accept r) \<and> str_ok (pm (res_n_a r)) \<and> str_ok (res_v_a r)"
  put_prepareres get_prepareres enc_prepareres
proof unfold_locales
  fix x :: "string \<times> preparearg"
  assume x: "case x of (src, arg) \<Rightarrow> str_ok src \<and> str_ok (pm (pa_n arg)) \<and> str_ok (pa_v arg)"
  then show "emits (put_prepare_args x) (enc_pair enc_string enc_preparearg x)"
    by (auto simp: put_prepare_args_def enc_pair_def intro!: emits_put_two c_preparearg.put_emits emits_string)
  from x show "parses (get_pair get_string get_preparearg) (enc_pair enc_string enc_preparearg x) x"
    by (cases x) (auto intro: string_preparearg.pair_parses)
qed

lemma preparereq_handler_eq:
  "preparereq_handler = h1_fn (get_pair get_string get_preparearg) put_prepareres (\<lambda>a (src, arg). preparereq_meth a src arg)"
  by (simp add: preparereq_handler_def h2_fn_pair)

text \<open>
  C18.  A prepare request crosses the RPC layer unharmed.  The bytes the proposer's stub sends make the acceptor's server run
  \<open>preparereq\<close> on exactly the arguments the proposer passed, and the bytes of the reply decode at the proposer to exactly the
  result struct the acceptor filled in, with the status it returned.
\<close>

theorem prepare_rpc_end_to_end:
  assumes "bind_done c" "\<not> destroy_wait c" "clt_nonce c \<noteq> 0" "hd (xid_rep_window c) < next_xid c"
    and "srv_nonce c = nonce s" "mfind (procs s) preparereq_proc = Some preparereq_handler" "counting s = 0"
    and "rw_ok (mget [] (reply_window s) (clt_nonce c))" "\<not> dead conn"
    and "reply_state (mget [] (reply_window s) (clt_nonce c)) (next_xid c) = NEW"
    and "put_prepare_args (src, arg) marshall_new = Some m"
    and "str_ok src" "str_ok (pm (pa_n arg))" "str_ok (pa_v arg)" "length (enc_pair enc_string enc_preparearg (src, arg)) + 24 < 2 ^ 32"
    and "preparereq src arg res0 (app s) = (st, res, a')"
    and "str_ok (pm (res_n_a res))" "str_ok (res_v_a res)" "length (enc_prepareres res) + 24 < 2 ^ 32"
  shows "\<exists>m' c' b s'. call1_begin preparereq_proc m c = (Some (Inr (next_xid c, m')), c')
     \<and> dispatch dead conn (reply_bytes m') s = Inr ([(conn, b)], s') \<and> app s' = a'
     \<and> call_m (\<lambda>_ _. fst (call1_end (next_xid c) (rpcc_got_pdu b c'))) get_prepareres preparereq_proc m
       = (status_int st, Some res)"
proof -
  have "oldinstance res \<in> {0, 1}" "accept res \<in> {0, 1}"
    using assms(16) by (auto simp: preparereq_def res0_def Let_def split: if_splits)
  then have "int32_ok (oldinstance res)" "int32_ok (accept res)" by (auto simp: int32_ok_def)
  moreover have "0 \<le> status_int st" "int32_ok (status_int st)" by (cases st; simp add: status_int_def int32_ok_def)+
  moreover have "preparereq_proc \<noteq> bind_proc" by (simp add: preparereq_proc_def bind_proc_def)
  ultimately show ?thesis
    using assms prepare_rpc.call_end_to_end [where meth = "\<lambda>a (src, arg). preparereq_meth a src arg" and x = "(src, arg)"
        and ret = "status_int st" and r = res and st' = a' and c = c and s = s and conn = conn and dead = dead
        and p = preparereq_proc and m = m]
    by (simp add: preparereq_handler_eq preparereq_meth_def)
qed

definition demo_client :: rpcc where
  "demo_client = (rpcc_new True 5)\<lparr>bind_done := True, srv_nonce := 9\<rparr>"

definition demo_server :: "acceptor rpcs" where
  "demo_server = \<lparr>nonce = 9, procs = [(preparereq_proc, preparereq_handler)], reply_window = [], conns = [], counting = 0,
     curr_counts = 0, counts = [], refs = (\<lambda>_. 1), app = acceptor_init True ''q'' []\<rparr>"

theorem prepare_rpc_end_to_end_witness:
  "\<exists>m m' c' b s'. put_prepare_args (''p'', \<lparr>pa_instance = 1, pa_n = Prop 1 ''p'', pa_v = []\<rparr>) marshall_new = Some m
     \<and> call1_begin preparereq_proc m demo_client = (Some (Inr (1, m')), c')
     \<and> dispatch (\<lambda>_. False) 0 (reply_bytes m') demo_server = Inr ([(0, b)], s') \<and> n_h (app s') = Prop 1 ''p''
     \<and> call_m (\<lambda>_ _. fst (call1_end 1 (rpcc_got_pdu b c'))) get_prepareres preparereq_proc m = (0, Some (res0\<lparr>accept := 1\<rparr>))"
proof -
  let ?arg = "\<lparr>pa_instance = 1, pa_n = Prop 1 ''p'', pa_v = []\<rparr>"
  obtain m where m: "put_prepare_args (''p'', ?arg) marshall_new = Some m"
    using emitsD [OF prepare_rpc.a.put_emits m_ok_new, of "(''p'', ?arg)"] by auto
  have res: "preparereq ''p'' ?arg res0 (app demo_server)
      = (POK, res0\<lparr>accept := 1\<rparr>, (app demo_server)\<lparr>n_h := Prop 1 ''p'', log_file := loghigh (Prop 1 ''p'') []\<rparr>)"
    by (simp add: preparereq_def demo_server_def acceptor_init_def res0_def less_prop_t_def)
  have len: "length (enc_pair enc_string enc_preparearg (''p'', ?arg)) + 24 < 2 ^ 32"
    "length (enc_prepareres (res0\<lparr>accept := 1\<rparr>)) + 24 < 2 ^ 32"
    by (simp_all add: enc_pair_def enc_preparearg_def enc_prepareres_def enc_prop_def enc_string_def res0_def)
  have "\<exists>m' c' b s'. call1_begin preparereq_proc m demo_client = (Some (Inr (next_xid demo_client, m')), c')
     \<and> dispatch (\<lambda>_. False) 0 (reply_bytes m') demo_server = Inr ([(0, b)], s')
     \<and> app s' = (app demo_server)\<lparr>n_h := Prop 1 ''p'', log_file := loghigh (Prop 1 ''p'') []\<rparr>
     \<and> call_m (\<lambda>_ _. fst (call1_end (next_xid demo_client) (rpcc_got_pdu b c'))) get_prepareres preparereq_proc m
       = (status_int POK, Some (res0\<lparr>accept := 1\<rparr>))"
    by (rule prepare_rpc_end_to_end [OF _ _ _ _ _ _ _ _ _ _ m _ _ _ len(1) res _ _ len(2)])
      (simp_all add: demo_client_def demo_server_def rpcc_new_def window_init_def rw_ok_Nil mget_def mfind_def res0_def)
  moreover have "next_xid demo_client = 1" by (simp add: demo_client_def rpcc_new_def)
  ultimately show ?thesis using m by (fastforce simp: status_int_def)
qed

end
