(* ===== verification/ConfigView.thy ===== *)
theory ConfigView
  imports PaxosCluster
begin

text \<open>
  The config module, \<open>config.cc\<close>: views as Paxos values, the upcall \<open>paxos_commit\<close>, adding and removing members, the
  heartbeat protocol.  A node's \<open>config\<close> contains its acceptor and its proposer, as in the code.
\<close>

subsection \<open>Views as strings\<close>

function members :: "string \<Rightarrow> string list" where
  "members v = (case rd_word v of None \<Rightarrow> [] | Some (m, rest) \<Rightarrow> m # members rest)"
  by pat_completeness auto
termination by (relation "measure length") (auto dest: rd_word_shorter)

declare members.simps [simp del]

definition cfg_value :: "string list \<Rightarrow> string" where
  "cfg_value m = concat (map (\<lambda>x. x @ '' '') m)"

lemma members_space: "isspace c \<Longrightarrow> members (c # s) = members s"
  by (simp add: members.simps [of "c # s"] members.simps [of s] rd_word_space)

lemma members_cons:
  assumes "name_ok m"
  shows "members (m @ '' '' @ s) = m # members s"
proof -
  have "rd_word (m @ '' '' @ s) = Some (m, '' '' @ s)" using assms by (intro rd_word_name) (auto simp: isspace_def)
  then show ?thesis by (simp add: members.simps [of "m @ _"] members_space isspace_def)
qed

lemma members_value_lemma: "\<forall>x \<in> set m. name_ok x \<Longrightarrow> members (cfg_value m) = m"
proof (induction m)
  case (Cons x m)
  then show ?case using members_cons [of x "cfg_value m"] by (simp add: cfg_value_def)
qed (simp add: cfg_value_def members.simps rd_word_def)

lemma members_name: "name_ok m \<Longrightarrow> members m = [m]"
proof -
  assume "name_ok m"
  then have "rd_word (m @ []) = Some (m, [])" by (intro rd_word_name) auto
  then show ?thesis by (simp add: members.simps [of m]) (simp add: members.simps rd_word_def)
qed

subsection \<open>State\<close>

record config =
  cf_acc :: acceptor
  cf_pro :: proposer
  cf_myvid :: u32
  cf_first :: string
  cf_me :: string
  cf_mems :: "string list"

definition get_view :: "u32 \<Rightarrow> config \<Rightarrow> string list \<times> config" where
  "get_view i c = (let (v, a) = acc_value i (cf_acc c) in (members v, c\<lparr>cf_acc := a\<rparr>))"

definition reconstruct :: "config \<Rightarrow> config" where
  "reconstruct c =
     (if instance_h (cf_acc c) > 0
      then let c = c\<lparr>cf_myvid := instance_h (cf_acc c)\<rparr>; (m, c) = get_view (cf_myvid c) c in c\<lparr>cf_mems := m\<rparr>
      else c)"

text \<open>\<open>file\<close>: the log file found on disk; \<open>n\<close>: the content of the proposer's uninitialised number.\<close>

definition config_new :: "string \<Rightarrow> string \<Rightarrow> string \<Rightarrow> u32 \<Rightarrow> log_error + config" where
  "config_new first me file n =
     (case acceptor_new True (me = first) me me file of
        Inl e \<Rightarrow> Inl e
      | Inr a \<Rightarrow> Inr (reconstruct \<lparr>cf_acc = a, cf_pro = proposer_new me n, cf_myvid = 0, cf_first = first, cf_me = me, cf_mems = []\<rparr>))"

definition cfg_restore :: "string \<Rightarrow> config \<Rightarrow> log_error + config" where
  "cfg_restore s c =
     (case acc_restore s (cf_acc c) of Inl e \<Rightarrow> Inl e | Inr a \<Rightarrow> Inr (reconstruct (c\<lparr>cf_acc := a\<rparr>)))"

definition cfg_dump :: "config \<Rightarrow> string" where
  "cfg_dump c = acc_dump (cf_acc c)"

text \<open>The upcall of the acceptor; the result names the members whose handles it deletes.\<close>

definition paxos_commit :: "u32 \<Rightarrow> string \<Rightarrow> config \<Rightarrow> string list \<times> config" where
  "paxos_commit i value c =
     (let newmem = members value
      in (filter (\<lambda>m. \<not> isamember m newmem \<and> cf_me c \<noteq> m) (cf_mems c), c\<lparr>cf_mems := newmem, cf_myvid := i\<rparr>))"

definition cfg_ismember :: "string \<Rightarrow> config \<Rightarrow> bool" where
  "cfg_ismember m c = isamember m (cf_mems c)"

definition get_curview :: "config \<Rightarrow> string list \<times> config" where
  "get_curview c = get_view (cf_myvid c) c"

definition get_prevview :: "config \<Rightarrow> string list \<times> config" where
  "get_prevview c = get_view (cf_myvid c - 1) c"

definition print_curview :: "config \<Rightarrow> string" where
  "print_curview c = print_members (cf_mems c)"

definition cfg_breakpoint :: "int \<Rightarrow> config \<Rightarrow> config" where
  "cfg_breakpoint b c = c\<lparr>cf_pro := breakpoint b (cf_pro c)\<rparr>"

subsection \<open>Changing the view\<close>

text \<open>\<open>N\<close> is the RPC layer the proposer runs on.\<close>

definition cfg_add :: "'s net \<Rightarrow> string \<Rightarrow> config \<Rightarrow> 's \<Rightarrow> run_result \<times> proposer \<times> 's" where
  "cfg_add N new_m c s =
     (let m = cf_mems c @ [new_m]; v = cfg_value m in proposer_run N (cf_myvid c + 1) (cf_mems c) v (cf_pro c) s)"

definition cfg_remove_wo :: "'s net \<Rightarrow> string \<Rightarrow> config \<Rightarrow> 's \<Rightarrow> run_result \<times> proposer \<times> 's" where
  "cfg_remove_wo N m c s =
     (let n = filter (\<lambda>x. x \<noteq> m) (cf_mems c); v = cfg_value n in proposer_run N (cf_myvid c + 1) (cf_mems c) v (cf_pro c) s)"

subsection \<open>Heartbeats\<close>

datatype heartbeat_t = HB_OK | VIEWERR | FAILURE

text \<open>The RPC handler; \<open>None\<close> is the failing assertion.\<close>

definition heartbeat :: "string \<Rightarrow> u32 \<Rightarrow> config \<Rightarrow> (paxos_status \<times> int) option" where
  "heartbeat m v c =
     (let r = sint (cf_myvid c) in
      if v = cf_myvid c then Some (POK, r)
      else if isrunning (cf_pro c)
      then if v = cf_myvid c + 1 \<or> v + 1 = cf_myvid c then Some (POK, r) else None
      else Some (PERR, r))"

text \<open>
  What \<open>doheartbeat\<close> makes of the RPC's return value (\<open>timeout_failure\<close> when there is no connection): its result, and
  whether it deletes the handle.
\<close>

definition doheartbeat :: "int option \<Rightarrow> heartbeat_t \<times> bool" where
  "doheartbeat call =
     (let ret = (case call of None \<Rightarrow> timeout_failure | Some r \<Rightarrow> r) in
      if ret \<noteq> 0
      then if ret = atmostonce_failure \<or> ret = oldsrv_failure then (HB_OK, True)
           else (if ret < 0 then FAILURE else VIEWERR, False)
      else (HB_OK, False))"

text \<open>One round of \<open>heartbeater\<close>: the member it removes, given how each member answers.\<close>

definition smallest :: "string \<Rightarrow> string list \<Rightarrow> string" where
  "smallest me mems = foldl (\<lambda>m x. if m > x then x else m) me mems"

definition heartbeater_round :: "(string \<Rightarrow> heartbeat_t) \<Rightarrow> config \<Rightarrow> string option" where
  "heartbeater_round answer c =
     (if \<not> isamember (cf_me c) (cf_mems c) then None
      else let m = smallest (cf_me c) (cf_mems c) in
        if m = cf_me c then find (\<lambda>x. x \<noteq> cf_me c \<and> answer x \<noteq> HB_OK) (cf_mems c)
        else if answer m \<noteq> HB_OK then Some m else None)"

subsection \<open>Properties\<close>

text \<open>
  A view survives its trip through Paxos.  For member names without white space, \<open>members\<close> reads back from the
  string \<open>value\<close> builds exactly the list of members, in order; the first view, which is the bare name of the first
  node, reads as that one member.
\<close>

lemma members_value:
  assumes "\<forall>x \<in> set m. name_ok x"
  shows "members (cfg_value m) = m \<and> (\<forall>x \<in> set m. members x = [x])"
  using members_value_lemma [OF assms] members_name assms by blast

lemma smallest_Min: "smallest me mems = Min (set (me # mems))"
proof -
  have "(\<lambda>x m. if m > x then x else m) = (min :: string \<Rightarrow> string \<Rightarrow> string)" by (auto simp: fun_eq_iff min_def)
  then show ?thesis unfolding smallest_def foldl_conv_fold Min.set_eq_fold by simp
qed

text \<open>
  The heartbeat removes only silent members.  The node a heartbeat round proposes to remove is a member other than the
  node itself that did not answer OK, and it is proposed either by the smallest member or it is the smallest member;
  the smallest member proposes a removal whenever some other member does not answer OK.
\<close>

lemma heartbeater_removes_silent:
  assumes "cf_me c \<in> set (cf_mems c)"
  shows "(\<forall>x. heartbeater_round answer c = Some x \<longrightarrow> x \<in> set (cf_mems c) \<and> x \<noteq> cf_me c \<and> answer x \<noteq> HB_OK
      \<and> (cf_me c = Min (set (cf_mems c)) \<or> x = Min (set (cf_mems c))))
    \<and> (cf_me c = Min (set (cf_mems c)) \<longrightarrow>
      heartbeater_round answer c = None \<longleftrightarrow> (\<forall>x \<in> set (cf_mems c). x \<noteq> cf_me c \<longrightarrow> answer x = HB_OK))"
proof -
  have m: "smallest (cf_me c) (cf_mems c) = Min (set (cf_mems c))"
    using assms by (simp add: smallest_Min insert_absorb)
  moreover have "Min (set (cf_mems c)) \<in> set (cf_mems c)" using assms by (intro Min_in) auto
  ultimately show ?thesis
    using assms by (auto simp: heartbeater_round_def Let_def find_Some_iff find_None_iff split: if_splits)
qed

definition demo_config :: "string \<Rightarrow> config" where
  "demo_config me = \<lparr>cf_acc = acceptor_init True me [], cf_pro = proposer_new me 0, cf_myvid = 0, cf_first = ''a'', cf_me = me,
     cf_mems = [''b'', ''a'', ''c'']\<rparr>"

subsection \<open>A cluster of configs\<close>

text \<open>
  The RPC layer over the nodes' configs: a request runs the node's acceptor, and a commit there makes the upcall.  The
  proposer of node \<open>me\<close> commits locally through its own acceptor.
\<close>

definition acc_done :: "acceptor \<times> (u32 \<times> string) list \<Rightarrow> config \<Rightarrow> config" where
  "acc_done = (\<lambda>(a, ups) c. fold (\<lambda>(i, v) c. snd (paxos_commit i v c)) ups (c\<lparr>cf_acc := a\<rparr>))"

definition cfg_cluster :: "(string \<Rightarrow> bool) \<Rightarrow> string \<Rightarrow> (string \<Rightarrow> config) net" where
  "cfg_cluster up me = \<lparr>
     net_up = (\<lambda>q s. up q),
     net_prepare = (\<lambda>src q arg s. case preparereq src arg res0 (cf_acc (s q)) of
        (st, res, a) \<Rightarrow> (Some res, s(q := acc_done (a, []) (s q)))),
     net_accept = (\<lambda>src q arg s. case acceptreq src arg (cf_acc (s q)) of (st, a) \<Rightarrow> (st = POK, s(q := acc_done (a, []) (s q)))),
     net_decide = (\<lambda>src q arg s. case decidereq src arg (cf_acc (s q)) of (st, aups) \<Rightarrow> s(q := acc_done aups (s q))),
     net_commit = (\<lambda>i v s. s(me := acc_done (acc_commit i v (cf_acc (s me))) (s me))),
     net_n_h = (\<lambda>s. n_h (cf_acc (s me)))\<rparr>"

lemma acc_done_acc [simp]: "cf_acc (acc_done aups c) = fst aups"
proof -
  have "cf_acc (fold (\<lambda>(i, v) c. snd (paxos_commit i v c)) ups c) = cf_acc c" for ups c
    by (induction ups arbitrary: c) (auto simp: paxos_commit_def Let_def)
  then show ?thesis by (cases aups) (simp add: acc_done_def)
qed

interpretation cfg_abs: net_abs "cfg_cluster up me" "cluster up me" "\<lambda>s q. cf_acc (s q)"
  by unfold_locales (auto simp: cfg_cluster_def cluster_def fun_eq_iff split: prod.splits)

text \<open>A config knows the view its acceptor has last committed.\<close>

definition cfg_ok :: "config \<Rightarrow> bool" where
  "cfg_ok c \<longleftrightarrow> acc_cfg (cf_acc c) \<and> cf_myvid c = instance_h (cf_acc c)
     \<and> (instance_h (cf_acc c) > 0 \<longrightarrow> cf_mems c = members (mget [] (acc_values (cf_acc c)) (instance_h (cf_acc c))))"

lemma acc_done_Nil: "acc_done (a, []) c = c\<lparr>cf_acc := a\<rparr>"
  by (simp add: acc_done_def)

lemma cfg_ok_commit:
  assumes "cfg_ok c"
  shows "cfg_ok (acc_done (commit_wo i v (cf_acc c)) c)"
proof (cases "i > instance_h (cf_acc c)")
  case True
  then have "i > 0" by (metis word_gt_0_no word_not_simps(1) le_less_trans not_less word_zero_le)
  with True assms show ?thesis
    by (simp add: cfg_ok_def commit_wo_def acc_done_def paxos_commit_def Let_def stdmap_simps)
next
  case False
  then show ?thesis using assms by (simp add: commit_wo_def acc_done_Nil)
qed

lemma cfg_ok_prepare: "cfg_ok c \<Longrightarrow> preparereq src arg r (cf_acc c) = (st, res, a) \<Longrightarrow> cfg_ok (acc_done (a, []) c)"
  by (auto simp: cfg_ok_def preparereq_def acc_done_Nil Let_def stdmap_simps split: if_splits)

lemma cfg_ok_accept: "cfg_ok c \<Longrightarrow> acceptreq src arg (cf_acc c) = (st, a) \<Longrightarrow> cfg_ok (acc_done (a, []) c)"
  by (auto simp: cfg_ok_def acceptreq_def acc_done_Nil Let_def split: if_splits)

lemma cfg_ok_decide: "cfg_ok c \<Longrightarrow> decidereq src arg (cf_acc c) = (st, aups) \<Longrightarrow> cfg_ok (acc_done aups c)"
  using cfg_ok_commit [of c "da_instance arg" "da_v arg"] by (auto simp: decidereq_def acc_done_Nil split: if_splits)

interpretation cfg_inv: net_inv "cfg_cluster up me" "\<lambda>s. \<forall>q. cfg_ok (s q)"
  by unfold_locales
    (auto simp: cfg_cluster_def acc_commit_def cfg_ok_commit split: prod.splits intro: cfg_ok_prepare cfg_ok_accept cfg_ok_decide)

lemma propose_view:
  assumes "\<forall>q. cfg_ok (s q)" "stable p" "\<not> break1 p" "\<not> break2 p" "distinct nodes" "majority nodes (filter up nodes)"
    and "vw \<noteq> - 1" "\<forall>q \<in> set nodes. up q \<longrightarrow> cf_myvid (s q) = vw \<and> pn (n_a (cf_acc (s q))) = 0
        \<and> n_h (cf_acc (s q)) < my_n (setn (n_h (cf_acc (s me))) p)"
    and "\<forall>x \<in> set ms. name_ok x"
  shows "\<exists>p' s'. proposer_run (cfg_cluster up me) (vw + 1) nodes (cfg_value ms) p s = (Returned True, p', s')
    \<and> (\<forall>q \<in> set nodes. up q \<longrightarrow> cf_myvid (s' q) = vw + 1 \<and> cf_mems (s' q) = ms)
    \<and> (\<forall>q. \<not> (q \<in> set nodes \<and> up q) \<longrightarrow> cf_myvid (s' q) = cf_myvid (s q))"
proof -
  obtain r p' s' where run: "proposer_run (cfg_cluster up me) (vw + 1) nodes (cfg_value ms) p s = (r, p', s')"
    by (cases "proposer_run (cfg_cluster up me) (vw + 1) nodes (cfg_value ms) p s")
  let ?a = "\<lambda>q. cf_acc (s q)"
  have lt: "vw < vw + 1" using assms(7) by (simp add: word_less_nat_alt u32_no_wrap)
  have ok': "\<forall>q. cfg_ok (s' q)" using cfg_inv.run_inv [OF assms(1) run] .
  have abs: "proposer_run (cluster up me) (vw + 1) nodes (cfg_value ms) p ?a = (r, p', \<lambda>q. cf_acc (s' q))"
    using cfg_abs.run_abs [of up me "vw + 1" nodes "cfg_value ms" p s] run by simp
  have pre: "\<forall>q \<in> set nodes. up q \<longrightarrow> instance_h (?a q) < vw + 1 \<and> n_h (?a q) < my_n (setn (n_h (?a me)) p)"
    using assms(1,8) lt by (auto simp: cfg_ok_def)
  have *: "r = Returned True \<and> (\<forall>q \<in> set nodes. up q \<longrightarrow> instance_h (cf_acc (s' q)) = vw + 1
      \<and> mget [] (acc_values (cf_acc (s' q))) (vw + 1) = cfg_value ms)
      \<and> (\<forall>q. \<not> (q \<in> set nodes \<and> up q) \<longrightarrow> instance_h (cf_acc (s' q)) = instance_h (?a q))"
    using uncontended_run_lemma [OF assms(2-6) refl pre, of "cfg_value ms"] abs assms(8) by fastforce
  have "vw + 1 > 0" using lt by (metis word_neq_0_conv less_irrefl word_not_simps(1) not_less_iff_gr_or_eq)
  then have "cf_myvid (s' q) = vw + 1 \<and> cf_mems (s' q) = ms" if "q \<in> set nodes" "up q" for q
    using * ok' that members_value_lemma [OF assms(9)] by (metis cfg_ok_def)
  moreover have "cf_myvid (s' q) = cf_myvid (s q)" if "\<not> (q \<in> set nodes \<and> up q)" for q
    using * ok' assms(1) that by (metis cfg_ok_def)
  ultimately show ?thesis using * run by blast
qed


definition demo_view :: "string \<Rightarrow> config" where
  "demo_view q = (demo_config q)\<lparr>cf_acc := (acceptor_init True q [])\<lparr>instance_h := 1, acc_values := [(1, cfg_value [''a'', ''b''])]\<rparr>,
     cf_myvid := 1, cf_mems := [''a'', ''b'']\<rparr>"


end
