(* ===== verification/Rsm.thy ===== *)
theory Rsm
  imports ConfigView
begin

text \<open>
  The replicated state machine, \<open>rsm.cc\<close> and \<open>rsm.h\<close>: registration and execution of requests, the primary's \<open>client_invoke\<close> and the
  backups' \<open>invoke\<close>, primary selection, state transfer, joining and recovery.  The replicated service is a state \<open>'s\<close> with the
  handlers registered for it.  \<open>None\<close> is a failed assertion or a call that never returns because \<open>rsm_mutex\<close> was left locked.
\<close>

subsection \<open>Handlers\<close>

text \<open>
  The classes the \<open>reg\<close> templates of \<open>rsm.h\<close> create; unlike those of the RPC library they assert that the arguments decode.
  The one for five arguments never reads the fifth, which stays what the uninitialised variable contained, \<open>a5\<close>.
\<close>

definition rsm_h1_fn :: "(unmarshall \<Rightarrow> 'a \<times> unmarshall) \<Rightarrow> ('r \<Rightarrow> marshall \<Rightarrow> marshall option)
    \<Rightarrow> ('h \<Rightarrow> 'a \<Rightarrow> (int \<times> 'r \<times> 'h) option) \<Rightarrow> 'h handler" where
  "rsm_h1_fn g1 put meth st args ret =
     (let (a1, args) = g1 args in
      if \<not> okdone args then None
      else do { (b, r, st) \<leftarrow> meth st a1; ret \<leftarrow> put r ret; Some (b, ret, st) })"

definition rsm_h2_fn where
  "rsm_h2_fn g1 g2 put meth st args ret =
     (let (a1, args) = g1 args; (a2, args) = g2 args in
      if \<not> okdone args then None
      else do { (b, r, st) \<leftarrow> meth st a1 a2; ret \<leftarrow> put r ret; Some (b, ret, st) })"

definition rsm_h3_fn where
  "rsm_h3_fn g1 g2 g3 put meth st args ret =
     (let (a1, args) = g1 args; (a2, args) = g2 args; (a3, args) = g3 args in
      if \<not> okdone args then None
      else do { (b, r, st) \<leftarrow> meth st a1 a2 a3; ret \<leftarrow> put r ret; Some (b, ret, st) })"

definition rsm_h4_fn where
  "rsm_h4_fn g1 g2 g3 g4 put meth st args ret =
     (let (a1, args) = g1 args; (a2, args) = g2 args; (a3, args) = g3 args; (a4, args) = g4 args in
      if \<not> okdone args then None
      else do { (b, r, st) \<leftarrow> meth st a1 a2 a3 a4; ret \<leftarrow> put r ret; Some (b, ret, st) })"

definition rsm_h5_fn where
  "rsm_h5_fn g1 g2 g3 g4 a5 put meth st args ret =
     (let (a1, args) = g1 args; (a2, args) = g2 args; (a3, args) = g3 args; (a4, args) = g4 args in
      if \<not> okdone args then None
      else do { (b, r, st) \<leftarrow> meth st a1 a2 a3 a4 a5; ret \<leftarrow> put r ret; Some (b, ret, st) })"

subsection \<open>State\<close>

record 's rsm_state_transfer =
  marshal_state :: "'s \<Rightarrow> string option"
  unmarshal_state :: "string \<Rightarrow> 's \<Rightarrow> 's option"

record 's rsm =
  rs_procs :: "(int, 's handler) stdmap"
  rs_cfg :: config
  rs_stf :: "'s rsm_state_transfer option"
  rs_app :: 's
  rs_myvs :: viewstamp
  rs_last_myvs :: viewstamp
  rs_primary :: string
  rs_insync :: bool
  rs_inviewchange :: bool
  rs_nbackup :: u32
  rs_partitioned :: bool
  rs_dopartition :: bool
  rs_break1 :: bool
  rs_break2 :: bool
  rs_waiting :: "string list"
  rs_mutex :: bool

definition rsm_OK :: int where "rsm_OK = 0"
definition rsm_ERR :: int where "rsm_ERR = 1"
definition rsm_NOTPRIMARY :: int where "rsm_NOTPRIMARY = 2"
definition rsm_BUSY :: int where "rsm_BUSY = 3"

lemmas rsm_status_defs = rsm_OK_def rsm_ERR_def rsm_NOTPRIMARY_def rsm_BUSY_def

abbreviation rs_me :: "'s rsm \<Rightarrow> string" where
  "rs_me s \<equiv> cf_me (rs_cfg s)"

definition rsm_new :: "string \<Rightarrow> string \<Rightarrow> string \<Rightarrow> u32 \<Rightarrow> 's \<Rightarrow> log_error + 's rsm" where
  "rsm_new first me file n a =
     (case config_new first me file n of
        Inl e \<Rightarrow> Inl e
      | Inr cfg \<Rightarrow> Inr \<lparr>rs_procs = [], rs_cfg = cfg, rs_stf = None, rs_app = a, rs_myvs = Viewstamp 0 1,
          rs_last_myvs = Viewstamp (cf_myvid cfg) 0, rs_primary = first, rs_insync = False, rs_inviewchange = False, rs_nbackup = 0,
          rs_partitioned = False, rs_dopartition = False, rs_break1 = False, rs_break2 = False, rs_waiting = [], rs_mutex = False\<rparr>)"

definition set_state_transfer :: "'s rsm_state_transfer \<Rightarrow> 's rsm \<Rightarrow> 's rsm" where
  "set_state_transfer t s = s\<lparr>rs_stf := Some t\<rparr>"

definition rsm_reg1 :: "int \<Rightarrow> 's handler \<Rightarrow> 's rsm \<Rightarrow> 's rsm option" where
  "rsm_reg1 p h s = (if rs_mutex s then None else Some (s\<lparr>rs_procs := mput p h (rs_procs s)\<rparr>))"

subsection \<open>Executing requests\<close>

definition rsm_execute :: "int \<Rightarrow> string \<Rightarrow> 's rsm \<Rightarrow> (string \<times> 's rsm) option" where
  "rsm_execute procno req s =
     (case mfind (rs_procs s) procno of
        None \<Rightarrow> None
      | Some h \<Rightarrow> do {
          (ret, rep, a) \<leftarrow> h (rs_app s) (unmarshall_string req) marshall_new;
          reps \<leftarrow> m_str rep;
          rep1 \<leftarrow> put_all [put_int ret, put_string reps] marshall_new;
          r \<leftarrow> m_str rep1;
          Some (r, s\<lparr>rs_app := a\<rparr>) })"

definition amiprimary_wo :: "'s rsm \<Rightarrow> bool" where
  "amiprimary_wo s \<longleftrightarrow> rs_primary s = rs_me s \<and> \<not> rs_inviewchange s"

definition amiprimary :: "'s rsm \<Rightarrow> bool option" where
  "amiprimary s = (if rs_mutex s then None else Some (amiprimary_wo s))"

text \<open>The status returned is the service's own, read back from the reply.\<close>

definition rsm_invoke :: "int \<Rightarrow> viewstamp \<Rightarrow> string \<Rightarrow> 's rsm \<Rightarrow> (int \<times> 's rsm) option" where
  "rsm_invoke proc vs req s =
     (if rs_mutex s then None
      else if vid (rs_myvs s) \<noteq> vid vs \<or> seqno (rs_myvs s) \<noteq> seqno vs - 1 \<or> \<not> cfg_ismember (rs_me s) (rs_cfg s)
      then Some (rsm_ERR, s)
      else do {
        (rep, s) \<leftarrow> rsm_execute proc req s;
        let ret = fst (get_int (unmarshall_string rep));
        Some (ret, s\<lparr>rs_last_myvs := rs_myvs s, rs_myvs := vs\<rparr>) })"

text \<open>
  The replicas are a function from names.  A call to a replica that is up runs its handler and returns the status; otherwise,
  or when the handler does not return, the call fails after its timeout.
\<close>

type_synonym 's replicas = "string \<Rightarrow> 's rsm"

fun forward :: "(string \<Rightarrow> bool) \<Rightarrow> string \<Rightarrow> int \<Rightarrow> viewstamp \<Rightarrow> string \<Rightarrow> string list \<Rightarrow> 's replicas \<Rightarrow> bool \<times> 's replicas" where
  "forward up me procno vs req [] y = (True, y)"
| "forward up me procno vs req (m # ms) y =
     (if m = me then forward up me procno vs req ms y
      else if \<not> up m then (False, y)
      else (case rsm_invoke procno vs req (y m) of
              None \<Rightarrow> (False, y)
            | Some (ret, s) \<Rightarrow> if ret < 0 then (False, y(m := s)) else forward up me procno vs req ms (y(m := s))))"

definition client_invoke :: "(string \<Rightarrow> bool) \<Rightarrow> string \<Rightarrow> int \<Rightarrow> string \<Rightarrow> 's replicas \<Rightarrow> (int \<times> string \<times> 's replicas) option" where
  "client_invoke up me procno req y =
     (if rs_inviewchange (y me) then Some (rsm_BUSY, [], y)
      else do {
        prim \<leftarrow> amiprimary (y me);
        if \<not> prim then Some (rsm_NOTPRIMARY, [], y)
        else do {
          let s = y me;
          let new_vs = Viewstamp (vid (rs_myvs s)) (seqno (rs_myvs s) + 1);
          let (mems, cfg) = get_curview (rs_cfg s);
          let (ok, y) = forward up me procno new_vs req mems (y(me := s\<lparr>rs_cfg := cfg\<rparr>));
          if \<not> ok then Some (rsm_BUSY, [], y)
          else do {
            (r, s) \<leftarrow> rsm_execute procno req (y me);
            Some (rsm_OK, r, y(me := s\<lparr>rs_last_myvs := rs_myvs s, rs_myvs := new_vs\<rparr>)) } } })"

definition client_members :: "'s rsm \<Rightarrow> (int \<times> string list \<times> 's rsm) option" where
  "client_members s =
     (if rs_mutex s then None
      else let (m, cfg) = get_curview (rs_cfg s) in Some (rsm_OK, m @ [rs_primary s], s\<lparr>rs_cfg := cfg\<rparr>))"

subsection \<open>View changes\<close>

definition choose_primary :: "string \<Rightarrow> string list \<Rightarrow> string list \<Rightarrow> string option" where
  "choose_primary primary c p =
     (if c = [] then None
      else if isamember primary c then Some primary
      else if p = [] then None
      else find (\<lambda>x. isamember x c) p)"

definition set_primary :: "'s rsm \<Rightarrow> 's rsm option" where
  "set_primary s =
     (let (c, cfg) = get_curview (rs_cfg s); (p, cfg) = get_prevview cfg
      in map_option (\<lambda>m. s\<lparr>rs_cfg := cfg, rs_primary := m\<rparr>) (choose_primary (rs_primary s) c p))"

definition commit_change_wo :: "'s rsm \<Rightarrow> 's rsm option" where
  "commit_change_wo s = do {
     s \<leftarrow> set_primary (s\<lparr>rs_inviewchange := True\<rparr>);
     let s = s\<lparr>rs_last_myvs := rs_myvs s\<rparr>;
     Some (s\<lparr>rs_myvs := Viewstamp (cf_myvid (rs_cfg s)) (seqno (rs_myvs s))\<rparr>) }"

definition commit_change :: "'s rsm \<Rightarrow> 's rsm option" where
  "commit_change s = (if rs_mutex s then None else commit_change_wo s)"

subsection \<open>State transfer and joining\<close>

definition transferreq :: "string \<Rightarrow> viewstamp \<Rightarrow> 's rsm \<Rightarrow> (int \<times> transferres) option" where
  "transferreq src lastvs s =
     (if rs_mutex s then None
      else case rs_stf s of
          Some t \<Rightarrow> if lastvs \<noteq> rs_myvs s
            then map_option (\<lambda>st. (rsm_OK, \<lparr>tr_state = st, tr_last = rs_myvs s\<rparr>)) (marshal_state t (rs_app s))
            else Some (rsm_OK, \<lparr>tr_state = [], tr_last = rs_myvs s\<rparr>)
        | None \<Rightarrow> Some (rsm_OK, \<lparr>tr_state = [], tr_last = rs_myvs s\<rparr>))"

text \<open>The early return for a node that is not in a view change leaves \<open>rsm_mutex\<close> locked.\<close>

definition transferdonereq :: "string \<Rightarrow> 's rsm \<Rightarrow> (int \<times> 's rsm) option" where
  "transferdonereq m s =
     (if rs_mutex s then None
      else if \<not> rs_inviewchange s then Some (rsm_ERR, s\<lparr>rs_mutex := True\<rparr>)
      else let s = (if rs_waiting s = [] then let (w, cfg) = get_curview (rs_cfg s) in s\<lparr>rs_cfg := cfg, rs_waiting := w\<rparr> else s)
           in Some (rsm_OK, s\<lparr>rs_waiting := remove1 m (rs_waiting s)\<rparr>))"

text \<open>\<open>call\<close>: the reply of the remote call, if it was made and returned OK.\<close>

definition statetransfer :: "transferres option \<Rightarrow> 's rsm \<Rightarrow> (bool \<times> 's rsm) option" where
  "statetransfer call s =
     (case call of
        None \<Rightarrow> Some (False, s)
      | Some r \<Rightarrow> do {
          s \<leftarrow> (case rs_stf s of
                 Some t \<Rightarrow> if rs_myvs s \<noteq> tr_last r
                   then map_option (\<lambda>a. s\<lparr>rs_app := a\<rparr>) (unmarshal_state t (tr_state r) (rs_app s)) else Some s
               | None \<Rightarrow> Some s);
          Some (True, s\<lparr>rs_last_myvs := rs_myvs s, rs_myvs := tr_last r\<rparr>) })"

definition statetransferdone :: "int option \<Rightarrow> bool" where
  "statetransferdone call = (case call of None \<Rightarrow> False | Some ret \<Rightarrow> ret = rsm_OK)"

definition join :: "joinres option \<Rightarrow> 's rsm \<Rightarrow> log_error + bool \<times> 's rsm" where
  "join call s =
     (case call of
        None \<Rightarrow> Inr (False, s)
      | Some r \<Rightarrow> (case cfg_restore (jr_log r) (rs_cfg s) of
          Inl e \<Rightarrow> Inl e
        | Inr cfg \<Rightarrow> Inr (True, s\<lparr>rs_cfg := cfg, rs_inviewchange := True\<rparr>)))"

text \<open>\<open>add\<close> is the call \<open>cfg->add(m)\<close>, with the upcalls it leads to.\<close>

definition joinreq :: "(string \<Rightarrow> 's rsm \<Rightarrow> bool \<times> 's rsm) \<Rightarrow> string \<Rightarrow> viewstamp \<Rightarrow> 's rsm \<Rightarrow> (int \<times> joinres option \<times> 's rsm) option" where
  "joinreq add m lastvs s =
     (if rs_mutex s then None
      else if cfg_ismember m (rs_cfg s) then Some (rsm_OK, Some \<lparr>jr_log = cfg_dump (rs_cfg s)\<rparr>, s)
      else if rs_me s \<noteq> rs_primary s then Some (rsm_NOTPRIMARY, None, s)
      else case add m s of
          (True, s) \<Rightarrow> Some (rsm_OK, Some \<lparr>jr_log = cfg_dump (rs_cfg s)\<rparr>, s)
        | (False, s) \<Rightarrow> Some (rsm_ERR, None, s))"

text \<open>
  What the recovery thread does between two waits once the node is a member.  A backup transfers the state (\<open>xfer\<close>) and reports
  that (\<open>fin\<close>); the primary has to wait, \<open>None\<close>, until all but itself have reported.  \<open>r\<close> keeps its value from the round before.
\<close>

definition recovery_round :: "transferres option \<Rightarrow> int option \<Rightarrow> bool \<Rightarrow> 's rsm \<Rightarrow> (bool \<times> 's rsm) option" where
  "recovery_round xfer fin r s = do {
     (r, s) \<leftarrow> (if rs_inviewchange s \<and> rs_primary s \<noteq> rs_me s
               then do { (r, s) \<leftarrow> statetransfer xfer s; Some (if r then statetransferdone fin else False, s) }
               else Some (r, s));
     (r, s) \<leftarrow> (if rs_inviewchange s \<and> rs_primary s = rs_me s
               then if length (rs_waiting s) \<noteq> 1 then None else Some (True, s\<lparr>rs_waiting := []\<rparr>)
               else Some (r, s));
     Some (r, if r then s\<lparr>rs_inviewchange := False\<rparr> else s) }"

definition sync_with_backups :: bool where "sync_with_backups = True"
definition sync_with_primary :: bool where "sync_with_primary = True"

subsection \<open>Test hooks\<close>

text \<open>The result names the nodes whose connections change their reachability.\<close>

definition net_repair_wo :: "bool \<Rightarrow> 's rsm \<Rightarrow> (string \<times> bool) list \<times> 's rsm" where
  "net_repair_wo heal s =
     (let (m, cfg) = get_curview (rs_cfg s)
      in (map (\<lambda>x. (x, heal)) (filter (\<lambda>x. x \<noteq> rs_me s) m), s\<lparr>rs_cfg := cfg\<rparr>))"

definition test_net_repairreq :: "int \<Rightarrow> 's rsm \<Rightarrow> (int \<times> (string \<times> bool) list \<times> 's rsm) option" where
  "test_net_repairreq heal s =
     (if rs_mutex s then None
      else if heal \<noteq> 0 then (let (l, s) = net_repair_wo True s in Some (rsm_OK, l, s\<lparr>rs_partitioned := False\<rparr>))
      else Some (rsm_OK, [], s\<lparr>rs_dopartition := True, rs_partitioned := False\<rparr>))"

text \<open>\<open>None\<close>: the process exits.\<close>

definition breakpoint1 :: "'s rsm \<Rightarrow> 's rsm option" where
  "breakpoint1 s = (if rs_break1 s then None else Some s)"

definition breakpoint2 :: "'s rsm \<Rightarrow> 's rsm option" where
  "breakpoint2 s = (if rs_break2 s then None else Some s)"

definition partition1 :: "'s rsm \<Rightarrow> (string \<times> bool) list \<times> 's rsm" where
  "partition1 s =
     (if rs_dopartition s
      then let (l, s) = net_repair_wo False s in (l, s\<lparr>rs_dopartition := False, rs_partitioned := True\<rparr>) else ([], s))"

definition breakpointreq :: "int \<Rightarrow> 's rsm \<Rightarrow> (int \<times> 's rsm) option" where
  "breakpointreq b s =
     (if rs_mutex s then None
      else if b = 1 then Some (rsm_OK, s\<lparr>rs_break1 := True\<rparr>)
      else if b = 2 then Some (rsm_OK, s\<lparr>rs_break2 := True\<rparr>)
      else if b = 3 \<or> b = 4 then Some (rsm_OK, s\<lparr>rs_cfg := cfg_breakpoint b (rs_cfg s)\<rparr>)
      else Some (rsm_ERR, s))"

subsection \<open>Replication\<close>

text \<open>One copy of the service: what a request does to it, and the reply.\<close>

definition app_exec :: "(int, 's handler) stdmap \<Rightarrow> int \<Rightarrow> string \<Rightarrow> 's \<Rightarrow> (int \<times> string \<times> 's) option" where
  "app_exec ps procno req a =
     (case mfind ps procno of
        None \<Rightarrow> None
      | Some h \<Rightarrow> do { (ret, rep, a) \<leftarrow> h a (unmarshall_string req) marshall_new; reps \<leftarrow> m_str rep; Some (ret, reps, a) })"

definition enc_reply :: "int \<Rightarrow> string \<Rightarrow> string" where
  "enc_reply ret reps = string_of_bytes (enc_int ret @ enc_string reps)"

lemma put_reply:
  "put_all [put_int ret, put_string reps] marshall_new \<bind> (\<lambda>rep1. m_str rep1 \<bind> k) = k (enc_reply ret reps)"
proof -
  have "emits (put_all [put_int ret, put_string reps]) (enc_int ret @ enc_string reps)"
    by (rule emits_put_two [OF emits_int emits_string])
  then obtain m where m: "put_all [put_int ret, put_string reps] marshall_new = Some m" "m_ok m"
      "m_bytes m = m_bytes marshall_new @ enc_int ret @ enc_string reps"
    by (rule emitsD [OF _ m_ok_new])
  then have "m_str m = Some (enc_reply ret reps)" by (simp add: enc_reply_def m_str_bytes)
  then show ?thesis using m(1) by (simp del: put_all.simps)
qed

lemma execute_app:
  "rsm_execute procno req s = map_option (\<lambda>(ret, reps, a). (enc_reply ret reps, s\<lparr>rs_app := a\<rparr>)) (app_exec (rs_procs s) procno req (rs_app s))"
proof (cases "mfind (rs_procs s) procno")
  case (Some h)
  show ?thesis
  proof (cases "h (rs_app s) (unmarshall_string req) marshall_new")
    case (Some x)
    then show ?thesis using \<open>mfind _ _ = Some h\<close>
      by (cases x; cases "m_str (fst (snd x))") (simp_all add: rsm_execute_def app_exec_def put_reply del: put_all.simps)
  qed (use Some in \<open>simp add: rsm_execute_def app_exec_def\<close>)
qed (simp add: rsm_execute_def app_exec_def)

lemma get_int_reply:
  assumes "int32_ok ret" "length reps < 2 ^ 31"
  shows "fst (get_int (unmarshall_string (enc_reply ret reps))) = ret"
proof -
  define u where "u = unmarshall_string (enc_reply ret reps)"
  have "u_ok u" "u_rest u = enc_int ret @ enc_string reps"
    using assms(2) by (simp_all add: u_ok_def u_rest_def u_def unmarshall_string_def enc_reply_def enc_string_def RPC_HEADER_SZ_def enc_int_def)
  from parsesD [OF parses_int this] assms(1) show ?thesis by (simp add: u_def)
qed

definition advance :: "viewstamp \<Rightarrow> 's \<Rightarrow> 's rsm \<Rightarrow> 's rsm" where
  "advance vs a s = s\<lparr>rs_app := a, rs_last_myvs := rs_myvs s, rs_myvs := vs\<rparr>"

definition next_vs :: "viewstamp \<Rightarrow> viewstamp" where
  "next_vs vs = Viewstamp (vid vs) (seqno vs + 1)"

text \<open>A replica in step: it has executed exactly the requests up to \<open>vs\<close> and is in the state \<open>a\<close>.\<close>

definition in_step :: "(int, 's handler) stdmap \<Rightarrow> viewstamp \<Rightarrow> 's \<Rightarrow> string \<Rightarrow> 's rsm \<Rightarrow> bool" where
  "in_step ps vs a m s \<longleftrightarrow> rs_procs s = ps \<and> rs_myvs s = vs \<and> rs_app s = a \<and> \<not> rs_mutex s \<and> rs_me s = m \<and> cfg_ismember m (rs_cfg s)"

definition exec_ok :: "(int, 's handler) stdmap \<Rightarrow> int \<Rightarrow> string \<Rightarrow> 's \<Rightarrow> int \<Rightarrow> string \<Rightarrow> 's \<Rightarrow> bool" where
  "exec_ok ps p req a ret reps a' \<longleftrightarrow> app_exec ps p req a = Some (ret, reps, a') \<and> 0 \<le> ret \<and> int32_ok ret \<and> length reps < 2 ^ 31"

lemma invoke_in_step:
  assumes "in_step ps vs a m s" "exec_ok ps p req a ret reps a'"
  shows "rsm_invoke p (next_vs vs) req s = Some (ret, advance (next_vs vs) a' s)"
  using assms get_int_reply [of ret reps]
  by (simp add: rsm_invoke_def in_step_def exec_ok_def next_vs_def execute_app advance_def)

lemma in_step_advance: "in_step ps vs a m s \<Longrightarrow> in_step ps vs' a' m (advance vs' a' s)"
  by (simp add: in_step_def advance_def)

lemma forward_in_step:
  assumes "distinct ms" "\<forall>m \<in> set ms. m \<noteq> me \<longrightarrow> up m \<and> in_step ps vs a m (y m)" "exec_ok ps p req a ret reps a'"
  shows "forward up me p (next_vs vs) req ms y
    = (True, \<lambda>m. if m \<in> set ms \<and> m \<noteq> me then advance (next_vs vs) a' (y m) else y m)"
  using assms(1,2)
proof (induction ms arbitrary: y)
  case (Cons m ms)
  show ?case
  proof (cases "m = me")
    case True
    then show ?thesis using Cons by (auto simp: fun_eq_iff)
  next
    case False
    then have i: "rsm_invoke p (next_vs vs) req (y m) = Some (ret, advance (next_vs vs) a' (y m))"
      using Cons.prems invoke_in_step [OF _ assms(3)] by auto
    define y1 where "y1 = y(m := advance (next_vs vs) a' (y m))"
    have "forward up me p (next_vs vs) req (m # ms) y = forward up me p (next_vs vs) req ms y1"
      using False i Cons.prems assms(3) by (auto simp: y1_def exec_ok_def)
    also have "\<dots> = (True, \<lambda>m. if m \<in> set ms \<and> m \<noteq> me then advance (next_vs vs) a' (y1 m) else y1 m)"
      using Cons.prems by (intro Cons.IH) (auto simp: y1_def)
    finally show ?thesis using Cons.prems(1) False by (auto simp: y1_def fun_eq_iff)
  qed
qed simp

text \<open>The replicas of a view at rest: all in step, with \<open>me\<close> as their primary.\<close>

definition at_rest :: "(string \<Rightarrow> bool) \<Rightarrow> string list \<Rightarrow> string \<Rightarrow> (int, 's handler) stdmap \<Rightarrow> viewstamp \<Rightarrow> 's \<Rightarrow> 's replicas \<Rightarrow> bool" where
  "at_rest up ms me ps vs a y \<longleftrightarrow> distinct ms \<and> me \<in> set ms \<and> (\<forall>m \<in> set ms. up m \<and> in_step ps vs a m (y m))
     \<and> rs_primary (y me) = me \<and> \<not> rs_inviewchange (y me) \<and> fst (get_curview (rs_cfg (y me))) = ms"

lemma get_curview_again: "get_curview c = (m, c') \<Longrightarrow> fst (get_curview c') = m \<and> cf_me c' = cf_me c \<and> cf_mems c' = cf_mems c"
  by (auto simp: get_curview_def get_view_def acc_value_def)

lemma invoke_at_rest:
  assumes "at_rest up ms me ps vs a y" "exec_ok ps p req a ret reps a'"
  shows "\<exists>y'. client_invoke up me p req y = Some (rsm_OK, enc_reply ret reps, y') \<and> at_rest up ms me ps (next_vs vs) a' y'"
proof -
  obtain cfg where cfg: "get_curview (rs_cfg (y me)) = (ms, cfg)" using assms(1) by (cases "get_curview (rs_cfg (y me))") (auto simp: at_rest_def)
  define y1 where "y1 = y(me := (y me)\<lparr>rs_cfg := cfg\<rparr>)"
  have me: "me \<in> set ms" "in_step ps vs a me (y me)" "rs_primary (y me) = me" "\<not> rs_inviewchange (y me)"
    using assms(1) by (auto simp: at_rest_def)
  have s1: "in_step ps vs a m (y1 m)" if "m \<in> set ms" for m
    using assms(1) that get_curview_again [OF cfg] by (auto simp: at_rest_def in_step_def y1_def cfg_ismember_def)
  define y2 where "y2 = (\<lambda>m. if m \<in> set ms \<and> m \<noteq> me then advance (next_vs vs) a' (y1 m) else y1 m)"
  have f: "forward up me p (next_vs vs) req ms y1 = (True, y2)"
    unfolding y2_def using assms s1 by (intro forward_in_step [OF _ _ assms(2)]) (auto simp: at_rest_def)
  have e: "rsm_execute p req (y2 me) = Some (enc_reply ret reps, (y1 me)\<lparr>rs_app := a'\<rparr>)"
    using assms(2) s1 [OF me(1)] by (simp add: execute_app y2_def exec_ok_def in_step_def)
  have v: "Viewstamp (vid (rs_myvs (y me))) (seqno (rs_myvs (y me)) + 1) = next_vs vs"
    using me(2) by (simp add: next_vs_def in_step_def)
  have p: "amiprimary (y me) = Some True" using me by (auto simp: amiprimary_def amiprimary_wo_def in_step_def)
  have "client_invoke up me p req y = Some (rsm_OK, enc_reply ret reps, y2(me := advance (next_vs vs) a' (y1 me)))"
    using me(4) p cfg f e v by (simp add: client_invoke_def y1_def [symmetric] advance_def)
  moreover have "in_step ps (next_vs vs) a' m ((y2(me := advance (next_vs vs) a' (y1 me))) m)" if "m \<in> set ms" for m
    using in_step_advance [OF s1 [OF that]] that by (cases "m = me") (simp_all add: y2_def)
  then have "at_rest up ms me ps (next_vs vs) a' (y2(me := advance (next_vs vs) a' (y1 me)))"
    using assms(1) get_curview_again [OF cfg] by (simp add: at_rest_def advance_def y1_def)
  ultimately show ?thesis by blast
qed

text \<open>A client session on the replicas, and the same session on one copy of the service.\<close>

fun rsm_session :: "(string \<Rightarrow> bool) \<Rightarrow> string \<Rightarrow> (int \<times> string) list \<Rightarrow> 's replicas \<Rightarrow> (int \<times> string) list \<times> 's replicas" where
  "rsm_session up me [] y = ([], y)"
| "rsm_session up me ((p, req) # rs) y =
     (case client_invoke up me p req y of
        None \<Rightarrow> ([], y)
      | Some (st, r, y) \<Rightarrow> let (out, y) = rsm_session up me rs y in ((st, r) # out, y))"

fun app_session :: "(int, 's handler) stdmap \<Rightarrow> (int \<times> string) list \<Rightarrow> 's \<Rightarrow> ((int \<times> string) list \<times> 's) option" where
  "app_session ps [] a = Some ([], a)"
| "app_session ps ((p, req) # rs) a = do {
     (ret, reps, a) \<leftarrow> app_exec ps p req a;
     (out, a) \<leftarrow> app_session ps rs a;
     if 0 \<le> ret \<and> int32_ok ret \<and> length reps < 2 ^ 31 then Some ((rsm_OK, enc_reply ret reps) # out, a) else None }"

lemma session_lemma:
  "at_rest up ms me ps vs a y \<Longrightarrow> app_session ps rs a = Some (out, a') \<Longrightarrow>
     \<exists>y'. rsm_session up me rs y = (out, y') \<and> at_rest up ms me ps ((next_vs ^^ length rs) vs) a' y'"
proof (induction rs arbitrary: vs a y out)
  case (Cons r rs)
  obtain p req where r: "r = (p, req)" by (cases r)
  obtain ret reps a1 out1 where 1: "exec_ok ps p req a ret reps a1" "app_session ps rs a1 = Some (out1, a')" "out = (rsm_OK, enc_reply ret reps) # out1"
    using Cons.prems(2) by (auto simp: r exec_ok_def split: bind_splits if_splits)
  obtain y1 where y1: "client_invoke up me p req y = Some (rsm_OK, enc_reply ret reps, y1)" "at_rest up ms me ps (next_vs vs) a1 y1"
    using invoke_at_rest [OF Cons.prems(1) 1(1)] by blast
  obtain y' where "rsm_session up me rs y1 = (out1, y')" "at_rest up ms me ps ((next_vs ^^ length rs) (next_vs vs)) a' y'"
    using Cons.IH [OF y1(2) 1(2)] by blast
  then show ?case using y1(1) by (simp add: r 1(3) funpow_swap1)
qed simp

text \<open>
  C8. Replication is transparent while no member fails.  Starting from replicas of one view that are in step, any sequence of
  client requests sent to the primary is answered OK with exactly the replies one copy of the service would give, and
  afterwards every member of the view is in that copy's state, with the same viewstamp, advanced by one per request.
\<close>

theorem replication_transparent:
  assumes "at_rest up ms me ps vs a y" "app_session ps rs a = Some (out, a')"
  shows "\<exists>y'. rsm_session up me rs y = (out, y')
     \<and> (\<forall>m \<in> set ms. rs_app (y' m) = a' \<and> rs_myvs (y' m) = Viewstamp (vid vs) (seqno vs + word_of_nat (length rs)))"
proof -
  have "(next_vs ^^ n) vs = Viewstamp (vid vs) (seqno vs + word_of_nat n)" for n
    by (induction n) (auto simp: next_vs_def algebra_simps)
  then show ?thesis using session_lemma [OF assms] by (auto simp: at_rest_def in_step_def)
qed

text \<open>A small replicated service for the examples: a list that request 1 extends by 1 and request 2 by 2.\<close>

definition demo_procs :: "(int, int list handler) stdmap" where
  "demo_procs = [(1, \<lambda>a args ret. Some (0, ret, a @ [1])), (2, \<lambda>a args ret. Some (0, ret, a @ [2]))]"

definition replica_at :: "(int, 's handler) stdmap \<Rightarrow> 's \<Rightarrow> string list \<Rightarrow> string \<Rightarrow> 's rsm" where
  "replica_at ps a ms m = \<lparr>rs_procs = ps,
     rs_cfg = (demo_config m)\<lparr>cf_acc := (acceptor_init True m [])\<lparr>instance_h := 1, acc_values := [(1, cfg_value ms)]\<rparr>,
       cf_myvid := 1, cf_mems := ms\<rparr>,
     rs_stf = None, rs_app = a, rs_myvs = Viewstamp 1 1, rs_last_myvs = Viewstamp 0 1, rs_primary = ''a'', rs_insync = False,
     rs_inviewchange = False, rs_nbackup = 0, rs_partitioned = False, rs_dopartition = False, rs_break1 = False, rs_break2 = False,
     rs_waiting = [], rs_mutex = False\<rparr>"

definition demo_replica :: "string list \<Rightarrow> string \<Rightarrow> int list rsm" where
  "demo_replica = replica_at demo_procs []"

lemma replicas_at_rest:
  assumes "distinct ms" "''a'' \<in> set ms" "\<forall>m \<in> set ms. name_ok m"
  shows "at_rest (\<lambda>_. True) ms ''a'' ps (Viewstamp 1 1) a (replica_at ps a ms)"
  using assms members_value_lemma [OF assms(3)]
  by (simp add: at_rest_def in_step_def replica_at_def demo_config_def cfg_ismember_def get_curview_def get_view_def acc_value_def mget_def mfind_def)

lemma m_str_new: "m_str marshall_new = Some []"
  using m_str_bytes [OF m_ok_new] by (simp add: string_of_bytes_def)

lemma demo_exec:
  "exec_ok demo_procs 1 req a 0 [] (a @ [1])" "exec_ok demo_procs 2 req a 0 [] (a @ [2])"
  by (simp_all add: exec_ok_def app_exec_def demo_procs_def mfind_def m_str_new int32_ok_def)

lemma demo_at_rest:
  assumes "distinct ms" "''a'' \<in> set ms" "\<forall>m \<in> set ms. name_ok m"
  shows "at_rest (\<lambda>_. True) ms ''a'' demo_procs (Viewstamp 1 1) [] (demo_replica ms)"
  unfolding demo_replica_def using assms by (rule replicas_at_rest)

theorem replication_transparent_witness:
  "\<exists>y'. rsm_session (\<lambda>_. True) ''a'' [(1, []), (2, [])] (demo_replica [''a'', ''b'']) = ([(rsm_OK, enc_reply 0 []), (rsm_OK, enc_reply 0 [])], y')
     \<and> rs_app (y' ''a'') = [1, 2] \<and> rs_app (y' ''b'') = [1, 2] \<and> rs_myvs (y' ''b'') = Viewstamp 1 3"
proof -
  have r: "at_rest (\<lambda>_. True) [''a'', ''b''] ''a'' demo_procs (Viewstamp 1 1) [] (demo_replica [''a'', ''b''])"
    by (rule demo_at_rest) (simp_all add: name_ok_def isspace_def)
  have s: "app_session demo_procs [(1, []), (2, [])] [] = Some ([(rsm_OK, enc_reply 0 []), (rsm_OK, enc_reply 0 [])], [1, 2])"
    using demo_exec(1) [of "[]" "[]"] demo_exec(2) [of "[]" "[1]"] by (simp add: exec_ok_def)
  show ?thesis using replication_transparent [OF r s] by auto
qed

lemma invoke_repeated:
  assumes "in_step ps vs a m s"
  shows "rsm_invoke p vs req s = Some (rsm_ERR, s)"
  using assms by (simp add: rsm_invoke_def in_step_def)

lemma primary_forwards:
  assumes "in_step ps vs a me (y me)" "rs_primary (y me) = me" "\<not> rs_inviewchange (y me)" "get_curview (rs_cfg (y me)) = (ms, cfg)"
    and "forward up me p (next_vs vs) req ms (y(me := (y me)\<lparr>rs_cfg := cfg\<rparr>)) = (ok, y')"
  shows "client_invoke up me p req y = (if \<not> ok then Some (rsm_BUSY, [], y')
     else do { (r, s) \<leftarrow> rsm_execute p req (y' me); Some (rsm_OK, r, y'(me := s\<lparr>rs_last_myvs := rs_myvs s, rs_myvs := next_vs vs\<rparr>)) })"
proof -
  have "Viewstamp (vid (rs_myvs (y me))) (seqno (rs_myvs (y me)) + 1) = next_vs vs" "amiprimary (y me) = Some True"
    using assms(1-3) by (auto simp: next_vs_def in_step_def amiprimary_def amiprimary_wo_def)
  then show ?thesis using assms(3-5) by (simp add: client_invoke_def)
qed

text \<open>
  C35. A request that fails half-way makes replicas diverge for good.  If a backup is unreachable while the primary forwards a
  request, the backups before it in the view have already executed the request when the client is told BUSY.  The next
  request reuses the same viewstamp: those backups refuse it, the primary takes the refusal for success, and afterwards
  they carry the same viewstamp as the primary with a different state, so that a state transfer believes them up to date.
\<close>

theorem failed_request_diverges:
  assumes "at_rest up [me, b, c] me ps vs a y" "exec_ok ps p1 req1 a ret1 reps1 a1" "exec_ok ps p2 req2 a ret2 reps2 a2"
  shows "\<exists>y1 y2 r s. client_invoke (up(c := False)) me p1 req1 y = Some (rsm_BUSY, [], y1)
     \<and> client_invoke up me p2 req2 y1 = Some (rsm_OK, enc_reply ret2 reps2, y2)
     \<and> rs_app (y2 me) = a2 \<and> rs_app (y2 c) = a2 \<and> rs_app (y2 b) = a1 \<and> rs_myvs (y2 b) = rs_myvs (y2 me)
     \<and> transferreq b (rs_myvs (y2 b)) (y2 me) = Some (rsm_OK, r) \<and> statetransfer (Some r) (y2 b) = Some (True, s) \<and> rs_app s = a1"
proof -
  obtain cfg where cfg: "get_curview (rs_cfg (y me)) = ([me, b, c], cfg)"
    using assms(1) by (cases "get_curview (rs_cfg (y me))") (auto simp: at_rest_def)
  obtain cfg' where cfg': "get_curview cfg = ([me, b, c], cfg')"
    using get_curview_again [OF cfg] by (cases "get_curview cfg") auto
  have ms: "b \<noteq> me" "c \<noteq> me" "b \<noteq> c" "up b" "up c" and st: "in_step ps vs a me (y me)" "in_step ps vs a b (y b)" "in_step ps vs a c (y c)"
    and pr: "rs_primary (y me) = me" "\<not> rs_inviewchange (y me)"
    using assms(1) by (auto simp: at_rest_def)
  define sb where "sb = advance (next_vs vs) a1 (y b)"
  define y1 where "y1 = y(me := (y me)\<lparr>rs_cfg := cfg\<rparr>, b := sb)"
  have stb: "in_step ps (next_vs vs) a1 b sb" using in_step_advance [OF st(2)] by (simp add: sb_def)
  have "forward (up(c := False)) me p1 (next_vs vs) req1 [me, b, c] (y(me := (y me)\<lparr>rs_cfg := cfg\<rparr>)) = (False, y1)"
    using ms invoke_in_step [OF st(2) assms(2)] assms(2) by (auto simp: y1_def sb_def exec_ok_def)
  from primary_forwards [OF st(1) pr cfg this]
  have i1: "client_invoke (up(c := False)) me p1 req1 y = Some (rsm_BUSY, [], y1)" by simp
  define sc where "sc = advance (next_vs vs) a2 (y c)"
  define y2 where "y2 = y1(me := (y me)\<lparr>rs_cfg := cfg'\<rparr>, c := sc)"
  have y1: "y1 me = (y me)\<lparr>rs_cfg := cfg\<rparr>" "y1 b = sb" "y1 c = y c" using ms by (simp_all add: y1_def)
  have st1: "in_step ps vs a me (y1 me)"
    using st(1) get_curview_again [OF cfg] by (simp add: in_step_def y1 cfg_ismember_def)
  have f2: "forward up me p2 (next_vs vs) req2 [me, b, c] (y1(me := (y1 me)\<lparr>rs_cfg := cfg'\<rparr>)) = (True, y2)"
    using ms invoke_repeated [OF stb] invoke_in_step [OF st(3) assms(3)] assms(3)
    by (auto simp: y1 y2_def sc_def exec_ok_def rsm_ERR_def fun_upd_twist)
  have e: "rsm_execute p2 req2 (y2 me) = Some (enc_reply ret2 reps2, (y2 me)\<lparr>rs_app := a2\<rparr>)"
    using assms(3) st(1) ms by (simp add: execute_app y2_def exec_ok_def in_step_def)
  define y3 where "y3 = y2(me := advance (next_vs vs) a2 (y2 me))"
  have "client_invoke up me p2 req2 y1 = Some (rsm_OK, enc_reply ret2 reps2, y3)"
    using primary_forwards [OF st1 _ _ _ f2] pr cfg' e by (simp add: y1 advance_def y3_def)
  moreover have r: "y3 b = sb" "y3 c = sc" "rs_app (y3 me) = a2" "rs_myvs (y3 me) = next_vs vs" "\<not> rs_mutex (y3 me)"
    using ms y1(2) st(1) by (simp_all add: y3_def y2_def advance_def in_step_def)
  moreover have "rs_app sb = a1" "rs_myvs sb = next_vs vs" "rs_app sc = a2" by (simp_all add: sb_def sc_def advance_def)
  moreover from r have "transferreq b (rs_myvs sb) (y3 me) = Some (rsm_OK, \<lparr>tr_state = [], tr_last = next_vs vs\<rparr>)"
    using stb by (simp add: transferreq_def in_step_def split: option.splits)
  moreover have "statetransfer (Some \<lparr>tr_state = [], tr_last = next_vs vs\<rparr>) sb = Some (True, sb\<lparr>rs_last_myvs := next_vs vs, rs_myvs := next_vs vs\<rparr>)"
    using stb by (simp add: statetransfer_def in_step_def split: option.splits)
  ultimately show ?thesis
    using i1 by (intro exI [of _ y1] exI [of _ y3] exI [of _ "\<lparr>tr_state = [], tr_last = next_vs vs\<rparr>"]) simp
qed

theorem failed_request_diverges_witness:
  "\<exists>y1 y2. client_invoke (\<lambda>m. m \<noteq> ''c'') ''a'' 1 [] (demo_replica [''a'', ''b'', ''c'']) = Some (rsm_BUSY, [], y1)
     \<and> client_invoke (\<lambda>_. True) ''a'' 2 [] y1 = Some (rsm_OK, enc_reply 0 [], y2)
     \<and> rs_app (y2 ''a'') = [2] \<and> rs_app (y2 ''b'') = [1] \<and> rs_myvs (y2 ''b'') = rs_myvs (y2 ''a'')"
proof -
  have r: "at_rest (\<lambda>_. True) [''a'', ''b'', ''c''] ''a'' demo_procs (Viewstamp 1 1) [] (demo_replica [''a'', ''b'', ''c''])"
    by (rule demo_at_rest) (simp_all add: name_ok_def isspace_def)
  have u: "(\<lambda>_. True)(''c'' := False) = (\<lambda>m. m \<noteq> ''c'')" by auto
  show ?thesis
    using failed_request_diverges [OF r demo_exec(1) demo_exec(2), of "[]" "[]"] unfolding u by auto
qed

subsection \<open>View changes and state transfer\<close>

lemma get_prevview_again: "fst (get_prevview (snd (get_curview c))) = fst (get_prevview c)"
  by (simp add: get_prevview_def get_curview_def get_view_def acc_value_def)

text \<open>
  The primary survives a view change or is replaced by an old member.  When the new view is the previous one with a
  node added or removed and the primary belonged to the previous view, \<open>set_primary\<close> does not run into its assertions: the
  primary stays if the new view contains it, and otherwise becomes the first node of the previous view that the new one
  contains.  Either way it is a member of both views, and it depends only on the two views and the old primary.
\<close>

lemma primary_survives_view_change:
  assumes "fst (get_curview (rs_cfg s)) = c" "fst (get_prevview (rs_cfg s)) = p" "c = p @ [x] \<or> c = removeAll x p" "c \<noteq> []"
    and "rs_primary s \<in> set p"
  shows "\<exists>s'. set_primary s = Some s' \<and> rs_primary s' \<in> set c \<inter> set p
     \<and> rs_primary s' = (if rs_primary s \<in> set c then rs_primary s else hd (filter (\<lambda>m. m \<in> set c) p))"
proof -
  have sp: "set_primary s = map_option (\<lambda>m. s\<lparr>rs_cfg := snd (get_prevview (snd (get_curview (rs_cfg s)))), rs_primary := m\<rparr>)
      (choose_primary (rs_primary s) c p)"
    using assms(1,2) get_prevview_again [of "rs_cfg s"] by (simp add: set_primary_def split_beta)
  have "\<exists>m \<in> set p. m \<in> set c"
  proof (cases "c = p @ [x]")
    case False
    then have "set c \<subseteq> set p" using assms(3) by auto
    then show ?thesis using assms(4) by (meson hd_in_set subsetD)
  qed (use assms(5) in auto)
  then obtain m ms where m: "filter (\<lambda>m. m \<in> set c) p = m # ms" by (metis (mono_tags, lifting) filter_empty_conv neq_Nil_conv)
  then have "m \<in> set (filter (\<lambda>m. m \<in> set c) p)" by simp
  then have mc: "m \<in> set c" "m \<in> set p" by simp_all
  have f: "find (\<lambda>m. m \<in> set c) p = Some m"
    using m by (induction p) (auto split: if_splits)
  have "p \<noteq> []" using assms(5) by auto
  with f assms(4) have "choose_primary (rs_primary s) c p = Some (if rs_primary s \<in> set c then rs_primary s else m)"
    by (simp add: choose_primary_def)
  then show ?thesis using sp m mc assms(5) by auto
qed

text \<open>What the state machine relies on in the service it replicates: a fresh copy takes over a transferred state exactly.\<close>

locale transferable =
  fixes t :: "'s rsm_state_transfer"
    and good fresh :: "'s \<Rightarrow> bool"
  assumes transfer: "good a \<Longrightarrow> fresh b \<Longrightarrow> \<exists>st. marshal_state t a = Some st \<and> unmarshal_state t st b = Some a"
begin

lemma statetransfer_copies:
  assumes "rs_stf p = Some t" "rs_stf s = Some t" "good (rs_app p)" "fresh (rs_app s)" "\<not> rs_mutex p" "rs_myvs s \<noteq> rs_myvs p"
  shows "\<exists>r s'. transferreq src (rs_myvs s) p = Some (rsm_OK, r) \<and> statetransfer (Some r) s = Some (True, s')
    \<and> rs_app s' = rs_app p \<and> rs_myvs s' = rs_myvs p \<and> rs_procs s' = rs_procs s \<and> rs_inviewchange s' = rs_inviewchange s
    \<and> rs_cfg s' = rs_cfg s \<and> rs_primary s' = rs_primary s"
proof -
  obtain st where "marshal_state t (rs_app p) = Some st" "unmarshal_state t st (rs_app s) = Some (rs_app p)"
    using transfer assms(3,4) by blast
  then show ?thesis using assms by (simp add: transferreq_def statetransfer_def)
qed

text \<open>The recovery round of a joining backup: transfer, report, leave the view change.\<close>

lemma recovery_copies:
  assumes "rs_stf p = Some t" "rs_stf s = Some t" "good (rs_app p)" "fresh (rs_app s)" "\<not> rs_mutex p" "rs_myvs s \<noteq> rs_myvs p"
    and "rs_inviewchange s" "rs_primary s \<noteq> rs_me s"
  shows "\<exists>r s'. transferreq src (rs_myvs s) p = Some (rsm_OK, r) \<and> recovery_round (Some r) (Some rsm_OK) r0 s = Some (True, s')
    \<and> rs_app s' = rs_app p \<and> rs_myvs s' = rs_myvs p \<and> \<not> rs_inviewchange s'"
proof -
  obtain r s1 where "transferreq src (rs_myvs s) p = Some (rsm_OK, r)" "statetransfer (Some r) s = Some (True, s1)"
      "rs_app s1 = rs_app p" "rs_myvs s1 = rs_myvs p" "rs_inviewchange s1" "rs_primary s1 \<noteq> rs_me s1"
    using statetransfer_copies [OF assms(1-6), of src] assms(7,8) by auto
  then show ?thesis using assms(7,8) by (simp add: recovery_round_def statetransferdone_def rsm_OK_def)
qed

end

end
