(* ===== verification/RsmClient.thy ===== *)
theory RsmClient
  imports Rsm
begin

text \<open>
  The client of the replicated state machine, \<open>rsm_client.cc\<close> and \<open>rsm_client.h\<close>: finding the primary, the retry loop of \<open>invoke\<close>, and
  the typed wrappers \<open>call\<close>.  \<open>None\<close> is a failed assertion or \<open>exit\<close>.
\<close>

record rsm_client =
  rc_primary :: string
  rc_nref :: int
  rc_id :: int
  rc_known :: "string list"

text \<open>
  How the nodes answer: the list a node returns for \<open>rsm_client_protocol::members\<close>, if the call succeeds, and whether binding to a node
  succeeds.  The reply is unmarshalled into \<open>known_mems\<close>, whose old content stays in front.
\<close>

record members_env =
  env_members :: "string \<Rightarrow> string list option"
  env_bind :: "string \<Rightarrow> bool"

definition switch_primary :: "string \<Rightarrow> rsm_client \<Rightarrow> rsm_client option" where
  "switch_primary new_primary c = (if rc_nref c \<noteq> 0 then None else Some (c\<lparr>rc_primary := new_primary\<rparr>))"

definition init_members :: "members_env \<Rightarrow> bool \<Rightarrow> rsm_client \<Rightarrow> (bool \<times> rsm_client) option" where
  "init_members E send_member_rpc c =
     (let reply = (if send_member_rpc then env_members E (rc_primary c) else Some []) in
      case reply of
        None \<Rightarrow> Some (False, c)
      | Some l \<Rightarrow>
          let c = c\<lparr>rc_known := rc_known c @ l\<rparr> in
          if rc_known c = [] then None
          else let new_primary = last (rc_known c); c = c\<lparr>rc_known := butlast (rc_known c)\<rparr> in
            if new_primary \<noteq> rc_primary c
            then map_option (\<lambda>c. (env_bind E new_primary, c)) (switch_primary new_primary c)
            else Some (True, c))"

definition rsm_client_new :: "members_env \<Rightarrow> string \<Rightarrow> int \<Rightarrow> rsm_client option" where
  "rsm_client_new E dst cid =
     (if \<not> env_bind E dst then None
      else case init_members E True \<lparr>rc_primary = dst, rc_nref = 0, rc_id = cid, rc_known = []\<rparr> of
          Some (True, c) \<Rightarrow> Some c
        | _ \<Rightarrow> None)"

text \<open>
  The loop of \<open>primary_failure\<close>.  A round may learn new members, so it need not end; \<open>fuel\<close> bounds the rounds and \<open>Inl False\<close>
  says it ran out, \<open>Inl True\<close> that the process exits or asserts.
\<close>

fun primary_failure :: "nat \<Rightarrow> members_env \<Rightarrow> rsm_client \<Rightarrow> bool + rsm_client" where
  "primary_failure 0 E c = Inl False"
| "primary_failure (Suc fuel) E c =
     (if rc_known c = [] then Inl True
      else let new_primary = last (rc_known c); c = c\<lparr>rc_known := butlast (rc_known c)\<rparr> in
        case (if new_primary \<noteq> rc_primary c then switch_primary new_primary c else Some c) of
          None \<Rightarrow> Inl True
        | Some c \<Rightarrow>
            case init_members E True c of
              None \<Rightarrow> Inl True
            | Some (True, c) \<Rightarrow> Inr c
            | Some (False, c) \<Rightarrow> primary_failure fuel E c)"

text \<open>
  \<open>invoke\<close>, driven by what happens in each round of its loop: the result of the call to the primary and, for a round that looks
  for another primary, how the nodes answer.  When the rounds are used up it is still trying.
\<close>

datatype invoke_result = Done string rsm_client | Trying rsm_client | Dead

fun rsm_client_invoke :: "nat \<Rightarrow> ((int \<times> string) \<times> members_env) list \<Rightarrow> rsm_client \<Rightarrow> invoke_result" where
  "rsm_client_invoke fuel [] c = Trying c"
| "rsm_client_invoke fuel (((ret, rep), E) # rounds) c =
     (if ret = rsm_OK then Done rep c
      else if ret = rsm_BUSY then rsm_client_invoke fuel rounds c
      else
        let found = (if ret = rsm_NOTPRIMARY then init_members E True c else Some (False, c)) in
        case found of
          None \<Rightarrow> Dead
        | Some (True, c) \<Rightarrow> rsm_client_invoke fuel rounds c
        | Some (False, c) \<Rightarrow>
            (case primary_failure fuel E c of
               Inl True \<Rightarrow> Dead
             | Inl False \<Rightarrow> Trying c
             | Inr c \<Rightarrow> rsm_client_invoke fuel rounds c))"

subsection \<open>Typed calls\<close>

text \<open>
  \<open>invk\<close> is \<open>invoke\<close> with the procedure and the marshalled arguments, giving the reply string once it returns; it works on the
  state \<open>'y\<close> of the servers.
\<close>

definition decode_rep :: "(unmarshall \<Rightarrow> 'r \<times> unmarshall) \<Rightarrow> string \<Rightarrow> int \<times> 'r" where
  "decode_rep get rep =
     (let (intret, u) = get_int (unmarshall_string rep); (res, u) = get_string u; (r, u1) = get (unmarshall_string res)
      in (intret, r))"

definition rsm_call_m :: "(int \<Rightarrow> string \<Rightarrow> 'y \<Rightarrow> (string \<times> 'y) option) \<Rightarrow> int \<Rightarrow> (marshall \<Rightarrow> marshall option) list
    \<Rightarrow> (unmarshall \<Rightarrow> 'r \<times> unmarshall) \<Rightarrow> 'y \<Rightarrow> ((int \<times> 'r) \<times> 'y) option" where
  "rsm_call_m invk proc args get y = do {
     m \<leftarrow> put_all args marshall_new;
     req \<leftarrow> m_str m;
     (rep, y) \<leftarrow> invk proc req y;
     Some (decode_rep get rep, y) }"

definition rsm_call_1 where
  "rsm_call_1 invk proc p1 get a1 = rsm_call_m invk proc [p1 a1] get"

definition rsm_call_2 where
  "rsm_call_2 invk proc p1 p2 get a1 a2 = rsm_call_m invk proc [p1 a1, p2 a2] get"

definition rsm_call_3 where
  "rsm_call_3 invk proc p1 p2 p3 get a1 a2 a3 = rsm_call_m invk proc [p1 a1, p2 a2, p3 a3] get"

definition rsm_call_4 where
  "rsm_call_4 invk proc p1 p2 p3 p4 get a1 a2 a3 a4 = rsm_call_m invk proc [p1 a1, p2 a2, p3 a3, p4 a4] get"

definition rsm_call_5 where
  "rsm_call_5 invk proc p1 p2 p3 p4 p5 get a1 a2 a3 a4 a5 = rsm_call_m invk proc [p1 a1, p2 a2, p3 a3, p4 a4, p5 a5] get"

subsection \<open>Finding the primary again\<close>

lemma init_members_found:
  assumes "env_members E (rc_primary c) = Some (l @ [p])" "env_bind E p" "rc_nref c = 0"
  shows "\<exists>c'. init_members E True c = Some (True, c') \<and> rc_primary c' = p \<and> rc_nref c' = 0 \<and> rc_id c' = rc_id c \<and> rc_known c' = rc_known c @ l"
proof -
  have "butlast (rc_known c @ l @ [p]) = rc_known c @ l" by (metis append.assoc butlast_snoc)
  then show ?thesis using assms by (auto simp: init_members_def Let_def switch_primary_def)
qed

text \<open>
  A client finds the new primary.  If the members it knows end with some unreachable ones preceded by one that answers with
  a list whose last entry, the primary, can be bound to, then \<open>primary_failure\<close> returns with that primary after trying at most
  the unreachable ones and the answering one.
\<close>

lemma primary_failure_finds:
  assumes "rc_known c = known @ m # dead" "\<forall>d \<in> set dead. env_members E d = None" "env_members E m = Some (l @ [p])" "env_bind E p"
    and "rc_nref c = 0" "fuel > length dead"
  shows "\<exists>c'. primary_failure fuel E c = Inr c' \<and> rc_primary c' = p \<and> rc_nref c' = 0 \<and> rc_id c' = rc_id c"
  using assms
proof (induction dead arbitrary: c fuel rule: rev_induct)
  case Nil
  then obtain f where f: "fuel = Suc f" by (cases fuel) auto
  define c1 where "c1 = c\<lparr>rc_known := known, rc_primary := m\<rparr>"
  obtain c' where c': "init_members E True c1 = Some (True, c')" "rc_primary c' = p" "rc_nref c' = 0" "rc_id c' = rc_id c"
    using init_members_found [of E c1 l p] Nil by (auto simp: c1_def)
  have "(if m \<noteq> rc_primary (c\<lparr>rc_known := known\<rparr>) then switch_primary m (c\<lparr>rc_known := known\<rparr>) else Some (c\<lparr>rc_known := known\<rparr>)) = Some c1"
    using Nil by (auto simp: switch_primary_def c1_def)
  then show ?case using Nil c' f by (simp add: Let_def butlast_append)
next
  case (snoc d dead)
  then obtain f where f: "fuel = Suc f" "f > length dead" by (cases fuel) auto
  define c1 where "c1 = c\<lparr>rc_known := known @ m # dead, rc_primary := d\<rparr>"
  have l: "last (rc_known c) = d" "butlast (rc_known c) = known @ m # dead" using snoc.prems(1) by (auto simp: butlast_append)
  have "(if d \<noteq> rc_primary (c\<lparr>rc_known := known @ m # dead\<rparr>) then switch_primary d (c\<lparr>rc_known := known @ m # dead\<rparr>) else Some (c\<lparr>rc_known := known @ m # dead\<rparr>)) = Some c1"
    using snoc.prems(5) by (auto simp: switch_primary_def c1_def)
  moreover have "init_members E True c1 = Some (False, c1)" using snoc.prems(2) by (simp add: init_members_def c1_def)
  moreover have "\<exists>c'. primary_failure f E c1 = Inr c' \<and> rc_primary c' = p \<and> rc_nref c' = 0 \<and> rc_id c' = rc_id c1"
    using snoc.prems f(2) by (intro snoc.IH) (auto simp: c1_def)
  ultimately show ?case using snoc.prems(1) f(1) l by (simp add: Let_def c1_def)
qed

subsection \<open>A call through the replicated state machine\<close>

lemma string_cursor: "length bs < 2 ^ 32 - RPC_HEADER_SZ \<Longrightarrow> u_ok (unmarshall_string (string_of_bytes bs)) \<and> u_rest (unmarshall_string (string_of_bytes bs)) = bs"
  by (simp add: u_ok_def u_rest_def unmarshall_string_def)

lemma decode_enc_reply:
  assumes "int32_ok ret" "length reps < 2 ^ 31" "fst (get (unmarshall_string reps)) = r"
  shows "decode_rep get (enc_reply ret reps) = (ret, r)"
proof -
  define u where "u = unmarshall_string (enc_reply ret reps)"
  have u: "u_ok u" "u_rest u = enc_int ret @ enc_string reps @ []"
    using string_cursor [of "enc_int ret @ enc_string reps"] assms(2)
    by (simp_all add: u_def enc_reply_def enc_string_def RPC_HEADER_SZ_def)
  define u' where "u' = u\<lparr>u_ind := u_ind u + length (enc_int ret)\<rparr>"
  have i: "get_int u = (ret, u')" unfolding u'_def using parsesD [OF parses_int [OF assms(1)] u] .
  have u': "u_ok u'" "u_rest u' = enc_string reps @ []" unfolding u'_def using u_advance [OF u] by simp_all
  obtain u2 where "get_string u' = (reps, u2)" using parsesD [OF parses_string u'] assms(2) by simp
  then show ?thesis using i assms(3) by (simp add: decode_rep_def u_def split_beta)
qed

lemma rsm_call_m_emits:
  assumes "emits (put_all args) bs" "invk proc (string_of_bytes bs) y = Some (rep, y')"
  shows "rsm_call_m invk proc args get y = Some (decode_rep get rep, y')"
proof -
  obtain m where m: "put_all args marshall_new = Some m" "m_ok m" "m_bytes m = m_bytes marshall_new @ bs"
    using assms(1) by (rule emitsD [OF _ m_ok_new])
  then have "m_str m = Some (string_of_bytes bs)" by (simp add: m_str_bytes)
  then show ?thesis using m(1) assms(2) by (simp add: rsm_call_m_def)
qed

end
