(* ===== verification/ReplicatedLocks.thy ===== *)
theory ReplicatedLocks
  imports LockSystem RsmClient
begin

text \<open>
  The lock service as \<open>lock_smain.cc\<close> assembles it: the caching lock server's operations registered with the replicated state machine,
  called by clients through \<open>rsm_client::call\<close>.
\<close>

definition lock_acquire_proc :: int where "lock_acquire_proc = 0x7001"
definition lock_release_proc :: int where "lock_release_proc = 0x7002"
definition lock_subscribe_proc :: int where "lock_subscribe_proc = 0x7003"
definition lock_stat_proc :: int where "lock_stat_proc = 0x7004"

lemmas lock_proc_defs = lock_acquire_proc_def lock_release_proc_def lock_subscribe_proc_def lock_stat_proc_def

fun lock_status_int :: "lock_status \<Rightarrow> int" where
  "lock_status_int LOK = 0" | "lock_status_int LRETRY = 1" | "lock_status_int LRPCERR = 2"

text \<open>
  The registered methods.  Only \<open>stat\<close> sets its result; the others send back what their uninitialised \<open>int\<close> contained, \<open>junk\<close>.
  \<open>bound\<close>: whether a host can be bound to.
\<close>

definition acquire_meth :: "int \<Rightarrow> lock_server_cache \<Rightarrow> int \<Rightarrow> u64 \<Rightarrow> u64 \<Rightarrow> (int \<times> int \<times> lock_server_cache) option" where
  "acquire_meth junk s clid lid seqid = map_option (\<lambda>(st, s). (lock_status_int st, junk, s)) (lsc_acquire clid lid seqid s)"

definition release_meth :: "int \<Rightarrow> lock_server_cache \<Rightarrow> int \<Rightarrow> u64 \<Rightarrow> int \<Rightarrow> (int \<times> int \<times> lock_server_cache) option" where
  "release_meth junk s clid lid retry = map_option (\<lambda>(st, s). (lock_status_int st, junk, s)) (lsc_release clid lid retry s)"

definition subscribe_meth :: "(string \<Rightarrow> bool) \<Rightarrow> int \<Rightarrow> lock_server_cache \<Rightarrow> int \<Rightarrow> string \<Rightarrow> (int \<times> int \<times> lock_server_cache) option" where
  "subscribe_meth bound junk s clid host = map_option (\<lambda>(st, s). (lock_status_int st, junk, s)) (lsc_subscribe (bound host) clid host s)"

definition stat_meth :: "lock_server_cache \<Rightarrow> int \<Rightarrow> u64 \<Rightarrow> (int \<times> int \<times> lock_server_cache) option" where
  "stat_meth s clid lid = map_option (\<lambda>(r, s). (0, r, s)) (lsc_stat clid lid s)"

definition lock_procs :: "(string \<Rightarrow> bool) \<Rightarrow> int \<Rightarrow> (int, lock_server_cache handler) stdmap" where
  "lock_procs bound junk =
     mput lock_subscribe_proc (rsm_h2_fn get_int get_string put_int (subscribe_meth bound junk))
    (mput lock_release_proc (rsm_h3_fn get_int get_u64 get_int put_int (release_meth junk))
    (mput lock_acquire_proc (rsm_h3_fn get_int get_u64 get_u64 put_int (acquire_meth junk))
    (mput lock_stat_proc (rsm_h2_fn get_int get_u64 put_int stat_meth) [])))"

definition lock_stf :: "(string \<Rightarrow> bool) \<Rightarrow> lock_server_cache rsm_state_transfer" where
  "lock_stf bound = \<lparr>marshal_state = lsc_marshal_state, unmarshal_state = lsc_unmarshal_state bound\<rparr>"

text \<open>A call at the primary \<open>me\<close> that succeeds in the first round of \<open>rsm_client::invoke\<close>.\<close>

definition at_primary :: "(string \<Rightarrow> bool) \<Rightarrow> string \<Rightarrow> int \<Rightarrow> string \<Rightarrow> 's replicas \<Rightarrow> (string \<times> 's replicas) option" where
  "at_primary up me proc req y =
     (case client_invoke up me proc req y of
        Some (st, rep, y) \<Rightarrow> if st = rsm_OK then Some (rep, y) else None
      | None \<Rightarrow> None)"

definition rl_acquire :: "(string \<Rightarrow> bool) \<Rightarrow> string \<Rightarrow> int \<Rightarrow> u64 \<Rightarrow> u64 \<Rightarrow> lock_server_cache replicas \<Rightarrow> (bool \<times> lock_server_cache replicas) option" where
  "rl_acquire up me clid lid seqid y =
     map_option (\<lambda>((ret, r), y). (ret = 0, y)) (rsm_call_3 (at_primary up me) lock_acquire_proc put_int put_u64 put_u64 get_int clid lid seqid y)"

definition rl_release :: "(string \<Rightarrow> bool) \<Rightarrow> string \<Rightarrow> int \<Rightarrow> u64 \<Rightarrow> int \<Rightarrow> lock_server_cache replicas \<Rightarrow> (bool \<times> lock_server_cache replicas) option" where
  "rl_release up me clid lid retry y =
     map_option (\<lambda>((ret, r), y). (ret = 0, y)) (rsm_call_3 (at_primary up me) lock_release_proc put_int put_u64 put_int get_int clid lid retry y)"

subsection \<open>One call\<close>

lemma lock_procs_find:
  "mfind (lock_procs bound junk) lock_acquire_proc = Some (rsm_h3_fn get_int get_u64 get_u64 put_int (acquire_meth junk))"
  "mfind (lock_procs bound junk) lock_release_proc = Some (rsm_h3_fn get_int get_u64 get_int put_int (release_meth junk))"
  by (simp_all add: lock_procs_def lock_proc_defs mfind_def)

lemma parse3:
  assumes "parses g1 b1 a1" "parses g2 b2 a2" "parses g3 b3 a3" "u_ok u" "u_rest u = b1 @ b2 @ b3"
  shows "(let (a1, u) = g1 u; (a2, u) = g2 u; (a3, u) = g3 u in (a1, a2, a3, okdone u)) = (a1, a2, a3, True)"
proof -
  define u1 where "u1 = u\<lparr>u_ind := u_ind u + length b1\<rparr>"
  define u2 where "u2 = u1\<lparr>u_ind := u_ind u1 + length b2\<rparr>"
  define u3 where "u3 = u2\<lparr>u_ind := u_ind u2 + length b3\<rparr>"
  have 1: "g1 u = (a1, u1)" "u_ok u1" "u_rest u1 = b2 @ b3"
    unfolding u1_def using parsesD [OF assms(1,4,5)] u_advance [OF assms(4,5)] by simp_all
  have 2: "g2 u1 = (a2, u2)" "u_ok u2" "u_rest u2 = b3 @ []"
    unfolding u2_def using parsesD [OF assms(2) 1(2,3)] u_advance [OF 1(2,3)] by simp_all
  have 3: "g3 u2 = (a3, u3)" "u_ok u3" "u_rest u3 = []"
    unfolding u3_def using parsesD [OF assms(3) 2(2,3)] u_advance [OF 2(2,3)] by simp_all
  then have "okdone u3" by (simp add: okdone_def u_ok_def u_rest_def)
  then show ?thesis using 1 2 3 by simp
qed

lemma h3_runs:
  assumes "parses g1 b1 a1" "parses g2 b2 a2" "parses g3 b3 a3" "length (b1 @ b2 @ b3) < 2 ^ 31"
  shows "rsm_h3_fn g1 g2 g3 put meth st (unmarshall_string (string_of_bytes (b1 @ b2 @ b3))) ret =
     do { (b, r, st) \<leftarrow> meth st a1 a2 a3; ret \<leftarrow> put r ret; Some (b, ret, st) }"
proof -
  have "u_ok (unmarshall_string (string_of_bytes (b1 @ b2 @ b3)))" "u_rest (unmarshall_string (string_of_bytes (b1 @ b2 @ b3))) = b1 @ b2 @ b3"
    using string_cursor [of "b1 @ b2 @ b3"] assms(4) by (simp_all add: RPC_HEADER_SZ_def)
  from parse3 [OF assms(1-3) this] show ?thesis
    by (auto simp: rsm_h3_fn_def split: prod.splits)
qed

lemma lock_status_int_ok [simp]: "0 \<le> lock_status_int st" "int32_ok (lock_status_int st)" "lock_status_int st = 0 \<longleftrightarrow> st = LOK"
  by (cases st; simp add: int32_ok_def)+

lemma enc_int_wrap: "\<exists>r'. int32_ok r' \<and> enc_int r = enc_int r'"
proof (intro exI conjI)
  show "int32_ok (sint (word_of_int r :: u32))"
    using sint_lt [of "word_of_int r :: u32"] sint_ge [of "word_of_int r :: u32"] by (simp add: int32_ok_def)
  show "enc_int r = enc_int (sint (word_of_int r :: u32))" by (simp add: enc_int_def)
qed

lemma put_int_str:
  "put_int x marshall_new \<bind> (\<lambda>m. m_str m \<bind> k) = k (string_of_bytes (enc_int x))"
proof -
  obtain m where m: "put_int x marshall_new = Some m" "m_ok m" "m_bytes m = m_bytes marshall_new @ enc_int x"
    using emits_int by (rule emitsD [OF _ m_ok_new])
  then show ?thesis by (simp add: m_str_bytes)
qed

lemma junk_reply: "int32_ok junk \<Longrightarrow> fst (get_int (unmarshall_string (string_of_bytes (enc_int junk)))) = junk"
  using parsesD [OF parses_int, of junk "unmarshall_string (string_of_bytes (enc_int junk))" "[]"] string_cursor [of "enc_int junk"]
  by (simp add: RPC_HEADER_SZ_def enc_int_def)

lemma acquire_exec:
  assumes "lsc_acquire c l q s = Some (st, s')" "int32_ok c"
  shows "exec_ok (lock_procs bound junk) lock_acquire_proc (string_of_bytes (enc_int c @ enc_u64 l @ enc_u64 q)) s
     (lock_status_int st) (string_of_bytes (enc_int junk)) s'"
  using assms h3_runs [OF parses_int [OF assms(2)] parses_u64 [of l] parses_u64 [of q], of put_int "acquire_meth junk" s marshall_new] put_int_str [of junk]
  by (simp add: exec_ok_def app_exec_def lock_procs_find acquire_meth_def enc_int_def enc_u64_def)

lemma release_exec:
  assumes "lsc_release c l r s = Some (st, s')" "int32_ok c" "int32_ok r"
  shows "exec_ok (lock_procs bound junk) lock_release_proc (string_of_bytes (enc_int c @ enc_u64 l @ enc_int r)) s
     (lock_status_int st) (string_of_bytes (enc_int junk)) s'"
  using assms h3_runs [OF parses_int [OF assms(2)] parses_u64 [of l] parses_int [OF assms(3)], of put_int "release_meth junk" s marshall_new] put_int_str [of junk]
  by (simp add: exec_ok_def app_exec_def lock_procs_find release_meth_def enc_int_def enc_u64_def)

lemma lock_call:
  assumes "at_rest up ms me ps vs s y" "emits (put_all args) bs" "int32_ok junk"
    and "exec_ok ps proc (string_of_bytes bs) s ret (string_of_bytes (enc_int junk)) s'"
  shows "\<exists>y'. rsm_call_m (at_primary up me) proc args get_int y = Some ((ret, junk), y') \<and> at_rest up ms me ps (next_vs vs) s' y'"
proof -
  obtain y' where y': "client_invoke up me proc (string_of_bytes bs) y = Some (rsm_OK, enc_reply ret (string_of_bytes (enc_int junk)), y')"
      "at_rest up ms me ps (next_vs vs) s' y'"
    using invoke_at_rest [OF assms(1,4)] by blast
  have "decode_rep get_int (enc_reply ret (string_of_bytes (enc_int junk))) = (ret, junk)"
    using assms(4) junk_reply [OF assms(3)] by (intro decode_enc_reply) (auto simp: exec_ok_def)
  then show ?thesis
    using y' rsm_call_m_emits [OF assms(2), of "at_primary up me" proc y "enc_reply ret (string_of_bytes (enc_int junk))" y' get_int]
    by (simp add: at_primary_def)
qed

subsection \<open>The replicated lock service keeps the lock service's contract\<close>

definition rl_inv :: "(string \<Rightarrow> bool) \<Rightarrow> string list \<Rightarrow> string \<Rightarrow> (string \<Rightarrow> bool) \<Rightarrow> int \<Rightarrow> lock_server_cache replicas \<Rightarrow> bool" where
  "rl_inv up ms me bound junk y \<longleftrightarrow> int32_ok junk \<and> (\<exists>vs s. at_rest up ms me (lock_procs bound junk) vs s y \<and> lsc_inv s)"

definition rl_holder :: "string \<Rightarrow> lock_server_cache replicas \<Rightarrow> u64 \<Rightarrow> int option" where
  "rl_holder me y = lsc_holder (rs_app (y me))"

definition rl_client :: "string \<Rightarrow> lock_server_cache replicas \<Rightarrow> int \<Rightarrow> bool" where
  "rl_client me y = (\<lambda>c. int32_ok c \<and> lsc_client (rs_app (y me)) c)"

lemma at_rest_app: "at_rest up ms me ps vs s y \<Longrightarrow> rs_app (y me) = s"
  by (auto simp: at_rest_def in_step_def)

lemma rl_acquire_lemma:
  assumes "rl_inv up ms me bound junk y" "rl_client me y c"
  shows "\<exists>y'. rl_acquire up me c l q y = Some (rl_holder me y l = None, y') \<and> rl_inv up ms me bound junk y' \<and> rl_client me y' = rl_client me y
    \<and> rl_holder me y' = (if rl_holder me y l = None then (rl_holder me y)(l := Some c) else rl_holder me y)"
proof -
  obtain vs s where s: "at_rest up ms me (lock_procs bound junk) vs s y" "lsc_inv s" "int32_ok junk" using assms(1) by (auto simp: rl_inv_def)
  have a: "rs_app (y me) = s" using s(1) by (rule at_rest_app)
  have c: "int32_ok c" "lsc_client s c" using assms(2) a by (simp_all add: rl_client_def)
  obtain st s' where s': "lsc_acquire c l q s = Some (st, s')" "(st = LOK) = (lsc_holder s l = None)" "lsc_inv s'" "lsc_client s' = lsc_client s"
      "lsc_holder s' = (if lsc_holder s l = None then (lsc_holder s)(l := Some c) else lsc_holder s)"
    using lsc_acquire_lemma [OF s(2) c(2), of l q] by (auto simp: lsc_acq_def)
  have "emits (put_all [put_int c, put_u64 l, put_u64 q]) (enc_int c @ enc_u64 l @ enc_u64 q)"
    using emits_put_Cons [OF emits_int emits_put_two [OF emits_u64 emits_u64]] .
  from lock_call [OF s(1) this s(3) acquire_exec [OF s'(1) c(1)]]
  obtain y' where y': "rsm_call_3 (at_primary up me) lock_acquire_proc put_int put_u64 put_u64 get_int c l q y = Some ((lock_status_int st, junk), y')"
      "at_rest up ms me (lock_procs bound junk) (next_vs vs) s' y'"
    by (auto simp: rsm_call_3_def simp del: put_all.simps)
  have "rl_inv up ms me bound junk y'" using y'(2) s(3) s'(3) by (auto simp: rl_inv_def)
  then show ?thesis
    using y'(1) at_rest_app [OF y'(2)] a s'(2,4,5) by (simp add: rl_acquire_def rl_holder_def rl_client_def)
qed

lemma rl_release_lemma:
  assumes "rl_inv up ms me bound junk y" "rl_client me y c"
  shows "\<exists>y'. rl_release up me c l r y = Some (rl_holder me y l = Some c, y') \<and> rl_inv up ms me bound junk y' \<and> rl_client me y' = rl_client me y
    \<and> rl_holder me y' = (if rl_holder me y l = Some c then (rl_holder me y)(l := None) else rl_holder me y)"
proof -
  obtain vs s where s: "at_rest up ms me (lock_procs bound junk) vs s y" "lsc_inv s" "int32_ok junk" using assms(1) by (auto simp: rl_inv_def)
  have a: "rs_app (y me) = s" using s(1) by (rule at_rest_app)
  have c: "int32_ok c" "lsc_client s c" using assms(2) a by (simp_all add: rl_client_def)
  obtain r' where r': "int32_ok r'" "enc_int r = enc_int r'" using enc_int_wrap by blast
  obtain st s' where s': "lsc_release c l r' s = Some (st, s')" "(st = LOK) = (lsc_holder s l = Some c)" "lsc_inv s'" "lsc_client s' = lsc_client s"
      "lsc_holder s' = (if lsc_holder s l = Some c then (lsc_holder s)(l := None) else lsc_holder s)"
    using lsc_release_lemma [OF s(2) c(2), of l r'] by (auto simp: lsc_rel_def)
  have "emits (put_all [put_int c, put_u64 l, put_int r]) (enc_int c @ enc_u64 l @ enc_int r')"
    using emits_put_Cons [OF emits_int emits_put_two [OF emits_u64 emits_int]] r'(2) by metis
  from lock_call [OF s(1) this s(3) release_exec [OF s'(1) c(1) r'(1)]]
  obtain y' where y': "rsm_call_3 (at_primary up me) lock_release_proc put_int put_u64 put_int get_int c l r y = Some ((lock_status_int st, junk), y')"
      "at_rest up ms me (lock_procs bound junk) (next_vs vs) s' y'"
    by (auto simp: rsm_call_3_def simp del: put_all.simps)
  have "rl_inv up ms me bound junk y'" using y'(2) s(3) s'(3) by (auto simp: rl_inv_def)
  then show ?thesis
    using y'(1) at_rest_app [OF y'(2)] a s'(2,4,5) by (simp add: rl_release_def rl_holder_def rl_client_def)
qed

interpretation rl: lock_service "rl_inv up ms me bound junk" "rl_holder me" "rl_client me" "rl_acquire up me" "rl_release up me"
proof
  fix y c l q r assume i: "rl_inv up ms me bound junk y" "rl_client me y c"
  note a = rl_acquire_lemma [OF i, of l q] and r = rl_release_lemma [OF i, of l r]
  show "rl_holder me y l = None \<Longrightarrow> \<exists>y'. rl_acquire up me c l q y = Some (True, y') \<and> rl_inv up ms me bound junk y'
      \<and> rl_holder me y' = (rl_holder me y)(l := Some c) \<and> rl_client me y' = rl_client me y"
    using a by auto
  show "rl_holder me y l \<noteq> None \<Longrightarrow> \<exists>y'. rl_acquire up me c l q y = Some (False, y') \<and> rl_inv up ms me bound junk y'
      \<and> rl_holder me y' = rl_holder me y \<and> rl_client me y' = rl_client me y"
    using a by auto
  show "rl_holder me y l = Some c \<Longrightarrow> \<exists>y'. rl_release up me c l r y = Some (True, y') \<and> rl_inv up ms me bound junk y'
      \<and> rl_holder me y' = (rl_holder me y)(l := None) \<and> rl_client me y' = rl_client me y"
    using r by auto
  show "rl_holder me y l \<noteq> Some c \<Longrightarrow> \<exists>y'. rl_release up me c l r y = Some (False, y') \<and> rl_inv up ms me bound junk y'
      \<and> rl_holder me y' = rl_holder me y \<and> rl_client me y' = rl_client me y"
    using r by auto
qed



subsection \<open>A replica joins\<close>

definition lsc_good :: "(string \<Rightarrow> bool) \<Rightarrow> lock_server_cache \<Rightarrow> bool" where
  "lsc_good bound s \<longleftrightarrow> lsc_wf s \<and> length (enc_lsc s) + RPC_HEADER_SZ < 2 ^ 32 \<and> list_all (\<lambda>(c, h). bound h) (m_clid_host s)
     \<and> m_clid_rpcc s = m_clid_host s"

interpretation lock_transfer: transferable "lock_stf bound" "lsc_good bound" "\<lambda>s. s = lsc_new"
  by unfold_locales (auto simp: lock_stf_def lsc_good_def intro: transfer_fresh)

text \<open>
  C19. A replica that joins takes over the lock state.  Let a newly started replica of the lock service, in the view change that
  admits it, ask the primary for its state.  The primary answers, the replica's recovery ends after this one round, and the
  replica has the primary's lock server state and viewstamp.
\<close>

theorem joining_replica_copies_locks:
  assumes "rs_stf p = Some (lock_stf bound)" "rs_stf s = Some (lock_stf bound)" "lsc_good bound (rs_app p)" "rs_app s = lsc_new"
    and "\<not> rs_mutex p" "rs_myvs s \<noteq> rs_myvs p" "rs_inviewchange s" "rs_primary s \<noteq> rs_me s"
  shows "\<exists>r s'. transferreq src (rs_myvs s) p = Some (rsm_OK, r) \<and> recovery_round (Some r) (Some rsm_OK) r0 s = Some (True, s')
    \<and> rs_app s' = rs_app p \<and> rs_myvs s' = rs_myvs p \<and> \<not> rs_inviewchange s'"
  using assms by (rule lock_transfer.recovery_copies)

theorem joining_replica_copies_locks_witness:
  "\<exists>a r s'. lsc_run True [EvSubscribe 7 ''a'', EvAcquire 7 1 1] ([], lsc_new) = Some ([], a)
     \<and> transferreq ''b'' (Viewstamp 0 0) ((replica_at (lock_procs (\<lambda>_. True) 0) a [''a''] ''a'')\<lparr>rs_stf := Some (lock_stf (\<lambda>_. True))\<rparr>) = Some (rsm_OK, r)
     \<and> recovery_round (Some r) (Some rsm_OK) False ((replica_at (lock_procs (\<lambda>_. True) 0) lsc_new [''a''] ''b'')
          \<lparr>rs_stf := Some (lock_stf (\<lambda>_. True)), rs_myvs := Viewstamp 0 0, rs_inviewchange := True\<rparr>) = Some (True, s')
     \<and> rs_app s' = a"
proof -
  define a where "a = \<lparr>m_lock_status = [(1, LOCKED)], m_clid_rpcc = [(7, ''a'')], m_clid_host = [(7, ''a'')],
    m_lock_clid = [(1, 7)], m_lock_retrylist = [(1, [])], l_revoke = [], m_lock_clid_count = [(1, [(7, 1)])], m_lock_seqid = [(1, 1)]\<rparr>"
  have r: "lsc_run True [EvSubscribe 7 ''a'', EvAcquire 7 1 1] ([], lsc_new) = Some ([], a)"
    unfolding a_def by code_simp
  have "lsc_good (\<lambda>_. True) a"
    by (simp add: a_def lsc_good_def lsc_wf_def map_wf_def vec_wf_def sm_ok_def int32_ok_def LOCKED_def list_all_iff
        enc_lsc_def enc_vector_def enc_pair_def RPC_HEADER_SZ_def enc_revoke_def enc_string_def enc_int_def enc_u64_def)
  then show ?thesis
    using r joining_replica_copies_locks [of "(replica_at (lock_procs (\<lambda>_. True) 0) a [''a''] ''a'')\<lparr>rs_stf := Some (lock_stf (\<lambda>_. True))\<rparr>" "\<lambda>_. True"
        "(replica_at (lock_procs (\<lambda>_. True) 0) lsc_new [''a''] ''b'')\<lparr>rs_stf := Some (lock_stf (\<lambda>_. True)), rs_myvs := Viewstamp 0 0, rs_inviewchange := True\<rparr>"
        "''b''" False]
    by (simp add: replica_at_def demo_config_def) blast
qed

end
