(* ===== verification/SimpleClient.thy ===== *)
theory SimpleClient
  imports ReplicatedLocks
begin

text \<open>
  The clients of the demonstration and test programs: the stubs of \<open>lock_client.cc\<close> with the program \<open>lock_demo.cc\<close>, and those of
  \<open>rsmtest_client.cc\<close> with the program \<open>rsm_tester.cc\<close>.  \<open>None\<close> stands for a failed assertion, in the client or in a server.
\<close>

subsection \<open>The lock client\<close>

text \<open>\<open>call\<close> is the RSM client's \<open>invoke\<close>; \<open>clid\<close> is its identifier and \<open>tid\<close> the thread's.\<close>

definition sc_stat :: "(int \<Rightarrow> string \<Rightarrow> 'y \<Rightarrow> (string \<times> 'y) option) \<Rightarrow> int \<Rightarrow> u64 \<Rightarrow> 'y \<Rightarrow> (int \<times> 'y) option" where
  "sc_stat call clid lid y = do {
     ((ret, r), y) \<leftarrow> rsm_call_2 call lock_stat_proc put_int put_u64 get_int clid lid y;
     if ret = 0 then Some (r, y) else None }"

definition sc_acquire :: "(int \<Rightarrow> string \<Rightarrow> 'y \<Rightarrow> (string \<times> 'y) option) \<Rightarrow> int \<Rightarrow> u32 \<Rightarrow> u64 \<Rightarrow> 'y \<Rightarrow> (int \<times> 'y) option" where
  "sc_acquire call clid tid lid y = do {
     ((ret, r), y) \<leftarrow> rsm_call_3 call lock_acquire_proc put_int put_u32 put_u64 get_int clid tid lid y;
     if ret = 0 then Some (ret, y) else None }"

definition sc_release :: "(int \<Rightarrow> string \<Rightarrow> 'y \<Rightarrow> (string \<times> 'y) option) \<Rightarrow> int \<Rightarrow> u32 \<Rightarrow> u64 \<Rightarrow> 'y \<Rightarrow> (int \<times> 'y) option" where
  "sc_release call clid tid lid y = do {
     ((ret, r), y) \<leftarrow> rsm_call_3 call lock_release_proc put_int put_u32 put_u64 get_int clid tid lid y;
     if ret = 0 then Some (ret, y) else None }"

definition lock_demo :: "(int \<Rightarrow> string \<Rightarrow> 'y \<Rightarrow> (string \<times> 'y) option) \<Rightarrow> int \<Rightarrow> u32 \<Rightarrow> 'y \<Rightarrow> (int list \<times> 'y) option" where
  "lock_demo call clid tid y = do {
     (r1, y) \<leftarrow> sc_stat call clid 1 y;
     (r2, y) \<leftarrow> sc_acquire call clid tid 1 y;
     (r3, y) \<leftarrow> sc_release call clid tid 1 y;
     (r4, y) \<leftarrow> sc_stat call clid 1 y;
     Some ([r1, r2, r3, r4], y) }"

subsection \<open>The RSM test client\<close>

definition rt_net_repair :: "int \<Rightarrow> 's rsm \<Rightarrow> (int \<times> (string \<times> bool) list \<times> 's rsm) option" where
  "rt_net_repair heal s = do { (ret, l, s) \<leftarrow> test_net_repairreq heal s; if ret = rsm_OK then Some (ret, l, s) else None }"

definition rt_breakpoint :: "int \<Rightarrow> 's rsm \<Rightarrow> (int \<times> 's rsm) option" where
  "rt_breakpoint b s = do { (ret, s) \<leftarrow> breakpointreq b s; if ret = rsm_OK then Some (ret, s) else None }"

definition rsm_tester :: "string \<Rightarrow> int \<Rightarrow> 's rsm \<Rightarrow> 's rsm option" where
  "rsm_tester command arg s =
     (if command = ''partition'' then map_option (\<lambda>(r, l, s). s) (rt_net_repair arg s)
      else if command = ''breakpoint'' then map_option snd (rt_breakpoint arg s)
      else Some s)"

text \<open>The tester sets exactly the flags asked for, and aborts on any other breakpoint.\<close>

lemma rsm_tester_breakpoint:
  "\<not> rs_mutex s \<Longrightarrow> rsm_tester ''breakpoint'' b s =
     (if b = 1 then Some (s\<lparr>rs_break1 := True\<rparr>) else if b = 2 then Some (s\<lparr>rs_break2 := True\<rparr>)
      else if b = 3 \<or> b = 4 then Some (s\<lparr>rs_cfg := cfg_breakpoint b (rs_cfg s)\<rparr>) else None)"
  by (auto simp: rsm_tester_def rt_breakpoint_def breakpointreq_def rsm_status_defs)

subsection \<open>The lock client against the replicated lock server\<close>

lemma get_u32_next:
  assumes "u_ok u" "u_rest u = enc_u32 x @ r"
  shows "\<exists>u'. get_u32 u = (x, u') \<and> u_ok u' \<and> u_rest u' = r"
  using parsesD [OF parses_u32 assms] u_advance [OF assms] by auto

lemma get_u32_end: "u_rest u = [] \<Longrightarrow> \<not> u_good (snd (get_u32 u))"
  by (auto simp: u_rest_def get_u32_def u_rawbyte_def Let_def)

text \<open>The server reads a client identifier and two 64-bit numbers, the client sends its identifier, a 32-bit and a 64-bit number.\<close>

lemma acquire_short:
  assumes "u_ok u" "u_rest u = enc_int c @ enc_u32 t @ enc_u64 l"
  shows "rsm_h3_fn get_int get_u64 get_u64 put meth st u ret = None"
proof -
  have "u_rest u = enc_u32 (word_of_int c) @ enc_u32 t @ enc_u32 (ucast (drop_bit 32 l)) @ enc_u32 (ucast l) @ []"
    using assms(2) by (simp add: enc_int_def enc_u64_def)
  then obtain u1 u2 u3 u4 where "get_u32 u = (word_of_int c, u1)" "get_u32 u1 = (t, u2)" "get_u32 u2 = (ucast (drop_bit 32 l), u3)"
      "get_u32 u3 = (ucast l, u4)" and u4: "u_rest u4 = []"
    using get_u32_next assms(1) by metis
  moreover obtain x u5 where "get_u32 u4 = (x, u5)" by fastforce
  moreover have "\<not> u_good u5" using get_u32_end [OF u4] calculation by simp
  ultimately show ?thesis by (simp add: rsm_h3_fn_def get_int_def get_u64_def okdone_def)
qed

text \<open>What \<open>release\<close> decodes is another lock, and the lower half of the lock's name as the retry flag.\<close>

lemma release_misread:
  assumes "u_ok u" "u_rest u = enc_int c @ enc_u32 t @ enc_u64 l" "int32_ok c"
  shows "rsm_h3_fn get_int get_u64 get_int put meth st u ret =
    do { (b, r, st) \<leftarrow> meth st c (ucast (ucast (drop_bit 32 l) :: u32) OR push_bit 32 (ucast t)) (sint (ucast l :: u32)); ret \<leftarrow> put r ret; Some (b, ret, st) }"
proof -
  have "u_rest u = enc_u32 (word_of_int c) @ enc_u32 t @ enc_u32 (ucast (drop_bit 32 l)) @ enc_u32 (ucast l) @ []"
    using assms(2) by (simp add: enc_int_def enc_u64_def)
  then obtain u1 u2 u3 u4 where g: "get_u32 u = (word_of_int c, u1)" "get_u32 u1 = (t, u2)" "get_u32 u2 = (ucast (drop_bit 32 l), u3)"
      "get_u32 u3 = (ucast l, u4)" and u4: "u_ok u4" "u_rest u4 = []"
    using get_u32_next assms(1) by metis
  have "okdone u4" using u4 by (simp add: okdone_def u_ok_def u_rest_def)
  then show ?thesis using g assms(3) by (simp add: rsm_h3_fn_def get_int_def get_u64_def sint_word_of_int32)
qed

lemma lc_request: "emits (put_all [put_int c, put_u32 t, put_u64 l]) (enc_int c @ enc_u32 t @ enc_u64 l)"
  using emits_put_Cons [OF emits_int emits_put_two [OF emits_u32 emits_u64]] .

lemma acquire_aborts:
  assumes "rs_procs s = lock_procs bound junk"
  shows "rsm_execute lock_acquire_proc (string_of_bytes (enc_int c @ enc_u32 t @ enc_u64 l)) s = None"
proof -
  let ?b = "enc_int c @ enc_u32 t @ enc_u64 l"
  have u: "u_ok (unmarshall_string (string_of_bytes ?b))" "u_rest (unmarshall_string (string_of_bytes ?b)) = ?b"
    using string_cursor [of ?b] by (simp_all add: RPC_HEADER_SZ_def)
  show ?thesis by (simp add: rsm_execute_def assms lock_procs_find acquire_short [OF u])
qed

lemma forward_keeps_me: "forward up me p vs req ms y = (ok, y') \<Longrightarrow> y' me = y me"
  by (induction up me p vs req ms y rule: forward.induct) (auto split: if_splits option.splits)

lemma primary_aborts:
  assumes "rs_procs (y me) = lock_procs bound junk"
  shows "at_primary up me lock_acquire_proc (string_of_bytes (enc_int c @ enc_u32 t @ enc_u64 l)) y = None"
proof -
  let ?r = "string_of_bytes (enc_int c @ enc_u32 t @ enc_u64 l)"
  obtain mems cfg where v: "get_curview (rs_cfg (y me)) = (mems, cfg)" by fastforce
  define y0 where "y0 = y(me := (y me)\<lparr>rs_cfg := cfg\<rparr>)"
  define vs where "vs = Viewstamp (vid (rs_myvs (y me))) (seqno (rs_myvs (y me)) + 1)"
  obtain ok y' where f: "forward up me lock_acquire_proc vs ?r mems y0 = (ok, y')" by fastforce
  have "rs_procs (y' me) = lock_procs bound junk" using forward_keeps_me [OF f] assms by (simp add: y0_def)
  from acquire_aborts [OF this] show ?thesis
    using f v by (cases "rs_inviewchange (y me)"; cases "amiprimary (y me)")
      (auto simp: at_primary_def client_invoke_def rsm_status_defs Let_def vs_def y0_def)
qed



end
