(* ===== verification/Threads.thy ===== *)
theory Threads
  imports StdMap "HOL-Library.Multiset"
begin

text \<open>
  The helpers every component uses for its threads: \<open>rpc/slock.h\<close>, which holds a mutex for a scope, and \<open>rpc/method_thread.h\<close>, which starts a
  thread that runs a method of an object.
\<close>

subsection \<open>Scoped locks\<close>

text \<open>
  What a thread does, as the operations on mutexes and the actions between them.  A \<open>ScopedLock\<close> locks when it is constructed and unlocks when its
  scope ends; scopes nest.
\<close>

datatype ('m, 'a) op = ScopedLock_new 'm | ScopedLock_del 'm | Action 'a

datatype ('m, 'a) block = Plain 'a | Scope 'm "('m, 'a) block list"

fun block_ops :: "('m, 'a) block \<Rightarrow> ('m, 'a) op list" where
  "block_ops (Plain a) = [Action a]"
| "block_ops (Scope m bs) = ScopedLock_new m # concat (map block_ops bs) @ [ScopedLock_del m]"

record ('m, 't, 'a) lock_state =
  ls_owner :: "'m \<Rightarrow> 't option"
  ls_code :: "'t \<Rightarrow> ('m, 'a) op list"

text \<open>
  One step of a thread.  Locking waits while the mutex has an owner, which may be the thread itself.  Unlocking a mutex the thread does not own
  fails the assertion.
\<close>

definition lock_step :: "'t \<Rightarrow> ('m, 't, 'a) lock_state \<Rightarrow> ('m, 't, 'a) lock_state option" where
  "lock_step t s =
     (case ls_code s t of
        [] \<Rightarrow> Some s
      | ScopedLock_new m # c \<Rightarrow>
          Some (if ls_owner s m = None then s\<lparr>ls_owner := (ls_owner s)(m \<mapsto> t), ls_code := (ls_code s)(t := c)\<rparr> else s)
      | ScopedLock_del m # c \<Rightarrow>
          if ls_owner s m = Some t then Some (s\<lparr>ls_owner := (ls_owner s)(m := None), ls_code := (ls_code s)(t := c)\<rparr>) else None
      | Action a # c \<Rightarrow> Some (s\<lparr>ls_code := (ls_code s)(t := c)\<rparr>))"

fun scoped_run :: "'t list \<Rightarrow> ('m, 't, 'a) lock_state \<Rightarrow> ('m, 't, 'a) lock_state option" where
  "scoped_run [] s = Some s"
| "scoped_run (t # ts) s = (case lock_step t s of None \<Rightarrow> None | Some s \<Rightarrow> scoped_run ts s)"

definition lock_start :: "('t \<Rightarrow> ('m, 'a) block list) \<Rightarrow> ('m, 't, 'a) lock_state" where
  "lock_start P = \<lparr>ls_owner = (\<lambda>_. None), ls_code = (\<lambda>t. concat (map block_ops (P t)))\<rparr>"

text \<open>The scopes a thread is in, innermost first, read off the operations it has left.\<close>

fun scopes :: "('m, 'a) op list \<Rightarrow> 'm list" where
  "scopes [] = []"
| "scopes (ScopedLock_new m # c) = tl (scopes c)"
| "scopes (ScopedLock_del m # c) = m # scopes c"
| "scopes (Action a # c) = scopes c"

fun closes :: "('m, 'a) op list \<Rightarrow> 'm list \<Rightarrow> bool" where
  "closes [] st = (st = [])"
| "closes (ScopedLock_new m # c) st = closes c (m # st)"
| "closes (ScopedLock_del m # c) st = (st \<noteq> [] \<and> hd st = m \<and> closes c (tl st))"
| "closes (Action a # c) st = closes c st"

lemma closes_scopes: "closes c st \<Longrightarrow> scopes c = st"
  by (induction c st rule: closes.induct) auto

lemma closes_block: "closes (block_ops b @ c) st \<longleftrightarrow> closes c st"
proof (induction b arbitrary: c st)
  case (Scope m bs)
  have "closes (concat (map block_ops bs') @ c) st \<longleftrightarrow> closes c st" if "set bs' \<subseteq> set bs" for bs' c st
    using that by (induction bs') (auto simp: Scope)
  then show ?case by simp
qed simp

lemma closes_blocks: "closes (concat (map block_ops bs)) []"
  using closes_block by (induction bs) (simp_all add: closes_block)

definition lock_inv :: "('m, 't, 'a) lock_state \<Rightarrow> bool" where
  "lock_inv s \<longleftrightarrow> (\<forall>t. closes (ls_code s t) (scopes (ls_code s t)) \<and> distinct (scopes (ls_code s t)))
     \<and> (\<forall>t m. ls_owner s m = Some t \<longleftrightarrow> m \<in> set (scopes (ls_code s t)))"

lemma lock_inv_upd:
  assumes "lock_inv s" "closes k st" "distinct st" "\<And>m. own m = Some t \<longleftrightarrow> m \<in> set st" "\<And>m u. u \<noteq> t \<Longrightarrow> own m = Some u \<longleftrightarrow> ls_owner s m = Some u"
  shows "lock_inv (s\<lparr>ls_owner := own, ls_code := (ls_code s)(t := k)\<rparr>)"
  using assms(1,3-5) assms(2) closes_scopes [OF assms(2)] by (auto simp: lock_inv_def)

lemma lock_step_inv:
  assumes "lock_inv s"
  shows "\<exists>s'. lock_step t s = Some s' \<and> lock_inv s'"
proof -
  let ?st = "scopes (ls_code s t)"
  have c: "closes (ls_code s t) ?st" "distinct ?st" and o: "ls_owner s m = Some t \<longleftrightarrow> m \<in> set ?st" for m
    using assms by (simp_all add: lock_inv_def)
  show ?thesis
  proof (cases "ls_code s t")
    case Nil then show ?thesis using assms by (simp add: lock_step_def)
  next
    case (Cons x k)
    show ?thesis
    proof (cases x)
      case (ScopedLock_new m)
      show ?thesis
      proof (cases "ls_owner s m")
        case None
        have "lock_inv (s\<lparr>ls_owner := (ls_owner s)(m \<mapsto> t), ls_code := (ls_code s)(t := k)\<rparr>)"
          by (rule lock_inv_upd [OF assms, where st = "m # ?st"]) (use c o [of m] o None Cons ScopedLock_new in auto)
        then show ?thesis using None Cons ScopedLock_new by (simp add: lock_step_def)
      next
        case (Some u) then show ?thesis using assms Cons ScopedLock_new by (simp add: lock_step_def)
      qed
    next
      case (ScopedLock_del m)
      have st: "?st = m # scopes k" using Cons ScopedLock_del by simp
      have "ls_owner s m = Some t" using o [of m] st by simp
      moreover have "u \<noteq> t \<Longrightarrow> ls_owner s m \<noteq> Some u" for u using calculation by simp
      moreover have "lock_inv (s\<lparr>ls_owner := (ls_owner s)(m := None), ls_code := (ls_code s)(t := k)\<rparr>)"
        by (rule lock_inv_upd [OF assms, where st = "tl ?st"]) (use c o st calculation(2) Cons ScopedLock_del in auto)
      ultimately show ?thesis using Cons ScopedLock_del by (simp add: lock_step_def)
    next
      case (Action a)
      have "lock_inv (s\<lparr>ls_owner := ls_owner s, ls_code := (ls_code s)(t := k)\<rparr>)"
        by (rule lock_inv_upd [OF assms, where st = ?st]) (use c o Cons Action in auto)
      then show ?thesis using Cons Action by (simp add: lock_step_def)
    qed
  qed
qed

lemma scoped_run_inv: "lock_inv s \<Longrightarrow> \<exists>s'. scoped_run ts s = Some s' \<and> lock_inv s'"
proof (induction ts arbitrary: s)
  case (Cons t ts)
  obtain s1 where "lock_step t s = Some s1" "lock_inv s1" using lock_step_inv [OF Cons.prems] by blast
  then show ?case using Cons.IH by simp
qed simp

text \<open>
  Scoped locks exclude.  Threads whose code locks and unlocks only through nested \<open>ScopedLock\<close> objects never fail an assertion, whatever the
  interleaving; two threads are never in scopes of the same mutex, and a thread that has ended holds none.
\<close>

lemma scoped_locks_exclude:
  "\<exists>s. scoped_run ts (lock_start P) = Some s
     \<and> (\<forall>t u m. m \<in> set (scopes (ls_code s t)) \<longrightarrow> m \<in> set (scopes (ls_code s u)) \<longrightarrow> t = u)
     \<and> (\<forall>t m. ls_code s t = [] \<longrightarrow> ls_owner s m \<noteq> Some t)"
proof -
  have "lock_inv (lock_start P)"
    using closes_blocks closes_scopes [OF closes_blocks] by (auto simp: lock_inv_def lock_start_def)
  then obtain s where s: "scoped_run ts (lock_start P) = Some s" "lock_inv s" using scoped_run_inv by blast
  have o: "ls_owner s m = Some t \<longleftrightarrow> m \<in> set (scopes (ls_code s t))" for m t using s(2) by (simp add: lock_inv_def)
  then have "\<forall>t u m. m \<in> set (scopes (ls_code s t)) \<longrightarrow> m \<in> set (scopes (ls_code s u)) \<longrightarrow> t = u" by (metis option.inject)
  then show ?thesis using s(1) o by auto
qed

subsection \<open>Threads that run a method\<close>

text \<open>
  The object \<open>XXX\<close> carries the object, the method and its arguments to the new thread, which copies them, deletes the object and makes the call.
  The templates for zero to three arguments differ in the number of fields.
\<close>

record ('o, 'f, 'v) xxx =
  x_o :: 'o
  x_m :: 'f
  x_args :: "'v list"

datatype ('o, 'f, 'v) tpc = Entered nat | Copied nat "('o, 'f, 'v) xxx" | Deleted "('o, 'f, 'v) xxx" | Returned

record ('o, 'f, 'v) thr_state =
  th_heap :: "(nat, ('o, 'f, 'v) xxx) stdmap"
  th_pcs :: "('o, 'f, 'v) tpc list"
  th_detached :: "nat list"
  th_calls :: "('o, 'f, 'v) xxx list"

datatype thr_error = CreateFailed int | BadPointer nat

text \<open>\<open>err\<close> is what \<open>pthread_create\<close> returns; on an error the program exits.  The identifier is the position in the list of threads.\<close>

definition method_thread_parent :: "int \<Rightarrow> nat \<Rightarrow> bool \<Rightarrow> ('o, 'f, 'v) thr_state \<Rightarrow> thr_error + nat \<times> ('o, 'f, 'v) thr_state" where
  "method_thread_parent err arg detach s =
     (if err \<noteq> 0 then Inl (CreateFailed err)
      else let th = length (th_pcs s); s = s\<lparr>th_pcs := th_pcs s @ [Entered arg]\<rparr>
           in Inr (th, if detach then s\<lparr>th_detached := th # th_detached s\<rparr> else s))"

definition new_xxx :: "nat \<Rightarrow> ('o, 'f, 'v) xxx \<Rightarrow> ('o, 'f, 'v) thr_state \<Rightarrow> ('o, 'f, 'v) thr_state" where
  "new_xxx a x s = s\<lparr>th_heap := mput a x (th_heap s)\<rparr>"

text \<open>\<open>a\<close> is the address \<open>new\<close> returns.\<close>

definition method_thread0 :: "int \<Rightarrow> nat \<Rightarrow> 'o \<Rightarrow> bool \<Rightarrow> 'f \<Rightarrow> ('o, 'f, 'v) thr_state \<Rightarrow> thr_error + nat \<times> ('o, 'f, 'v) thr_state" where
  "method_thread0 err a ob detach m s = method_thread_parent err a detach (new_xxx a \<lparr>x_o = ob, x_m = m, x_args = []\<rparr> s)"

definition method_thread1 :: "int \<Rightarrow> nat \<Rightarrow> 'o \<Rightarrow> bool \<Rightarrow> 'f \<Rightarrow> 'v \<Rightarrow> ('o, 'f, 'v) thr_state \<Rightarrow> thr_error + nat \<times> ('o, 'f, 'v) thr_state" where
  "method_thread1 err a ob detach m v s = method_thread_parent err a detach (new_xxx a \<lparr>x_o = ob, x_m = m, x_args = [v]\<rparr> s)"

definition method_thread2 :: "int \<Rightarrow> nat \<Rightarrow> 'o \<Rightarrow> bool \<Rightarrow> 'f \<Rightarrow> 'v \<Rightarrow> 'v \<Rightarrow> ('o, 'f, 'v) thr_state \<Rightarrow> thr_error + nat \<times> ('o, 'f, 'v) thr_state" where
  "method_thread2 err a ob detach m v1 v2 s = method_thread_parent err a detach (new_xxx a \<lparr>x_o = ob, x_m = m, x_args = [v1, v2]\<rparr> s)"

definition method_thread3 :: "int \<Rightarrow> nat \<Rightarrow> 'o \<Rightarrow> bool \<Rightarrow> 'f \<Rightarrow> 'v \<Rightarrow> 'v \<Rightarrow> 'v \<Rightarrow> ('o, 'f, 'v) thr_state \<Rightarrow> thr_error + nat \<times> ('o, 'f, 'v) thr_state" where
  "method_thread3 err a ob detach m v1 v2 v3 s = method_thread_parent err a detach (new_xxx a \<lparr>x_o = ob, x_m = m, x_args = [v1, v2, v3]\<rparr> s)"

text \<open>
  \<open>yyy\<close>, the function of the new thread, one access to the object at a time.  \<open>method_thread_child\<close>, which disables cancellation before the call,
  touches nothing of this state.
\<close>

definition yyy :: "nat \<Rightarrow> ('o, 'f, 'v) thr_state \<Rightarrow> thr_error + ('o, 'f, 'v) thr_state" where
  "yyy i s =
     (case th_pcs s ! i of
        Entered a \<Rightarrow> (case mfind (th_heap s) a of None \<Rightarrow> Inl (BadPointer a) | Some x \<Rightarrow> Inr (s\<lparr>th_pcs := (th_pcs s)[i := Copied a x]\<rparr>))
      | Copied a x \<Rightarrow>
          if mcount (th_heap s) a then Inr (s\<lparr>th_heap := merase a (th_heap s), th_pcs := (th_pcs s)[i := Deleted x]\<rparr>) else Inl (BadPointer a)
      | Deleted x \<Rightarrow> Inr (s\<lparr>th_pcs := (th_pcs s)[i := Returned], th_calls := th_calls s @ [x]\<rparr>)
      | Returned \<Rightarrow> Inr s)"

text \<open>
  Threads are started and run in any order.  What is assumed of the allocator is that it returns addresses not in use, and of \<open>pthread_create\<close> that
  it succeeds.
\<close>

datatype ('o, 'f, 'v) tev = Start int nat "('o, 'f, 'v) xxx" bool | Step nat

definition method_thread :: "int \<Rightarrow> nat \<Rightarrow> ('o, 'f, 'v) xxx \<Rightarrow> bool \<Rightarrow> ('o, 'f, 'v) thr_state \<Rightarrow> (thr_error + nat \<times> ('o, 'f, 'v) thr_state) option" where
  "method_thread err a x detach s =
     (case x_args x of
        [] \<Rightarrow> Some (method_thread0 err a (x_o x) detach (x_m x) s)
      | [v] \<Rightarrow> Some (method_thread1 err a (x_o x) detach (x_m x) v s)
      | [v1, v2] \<Rightarrow> Some (method_thread2 err a (x_o x) detach (x_m x) v1 v2 s)
      | [v1, v2, v3] \<Rightarrow> Some (method_thread3 err a (x_o x) detach (x_m x) v1 v2 v3 s)
      | _ \<Rightarrow> None)"

fun tev_ok :: "('o, 'f, 'v) tev \<Rightarrow> ('o, 'f, 'v) thr_state \<Rightarrow> bool" where
  "tev_ok (Start err a x detach) s = (err = 0 \<and> \<not> mcount (th_heap s) a \<and> length (x_args x) \<le> 3)"
| "tev_ok (Step i) s = (i < length (th_pcs s))"

fun thr_step :: "('o, 'f, 'v) tev \<Rightarrow> ('o, 'f, 'v) thr_state \<Rightarrow> thr_error + ('o, 'f, 'v) thr_state" where
  "thr_step (Start err a x detach) s = (case method_thread err a x detach s of None \<Rightarrow> Inr s | Some (Inl e) \<Rightarrow> Inl e | Some (Inr (th, s)) \<Rightarrow> Inr s)"
| "thr_step (Step i) s = yyy i s"

fun thr_run :: "('o, 'f, 'v) tev list \<Rightarrow> ('o, 'f, 'v) thr_state \<Rightarrow> thr_error + ('o, 'f, 'v) thr_state" where
  "thr_run [] s = Inr s"
| "thr_run (e # es) s = (case thr_step e s of Inl x \<Rightarrow> Inl x | Inr s \<Rightarrow> thr_run es s)"

fun thr_ok :: "('o, 'f, 'v) tev list \<Rightarrow> ('o, 'f, 'v) thr_state \<Rightarrow> bool" where
  "thr_ok [] s = True"
| "thr_ok (e # es) s = (tev_ok e s \<and> (case thr_step e s of Inl x \<Rightarrow> True | Inr s \<Rightarrow> thr_ok es s))"

definition thr_new :: "('o, 'f, 'v) thr_state" where
  "thr_new = \<lparr>th_heap = [], th_pcs = [], th_detached = [], th_calls = []\<rparr>"

fun started :: "('o, 'f, 'v) tev list \<Rightarrow> ('o, 'f, 'v) xxx list" where
  "started [] = []"
| "started (Start err a x detach # es) = x # started es"
| "started (Step i # es) = started es"

text \<open>The invariant: every object belongs to one thread that has still to delete it, and the calls made are those of the threads that have returned.\<close>

fun pc_addr :: "('o, 'f, 'v) tpc \<Rightarrow> nat option" where
  "pc_addr (Entered a) = Some a"
| "pc_addr (Copied a x) = Some a"
| "pc_addr _ = None"

fun pc_ok :: "(nat, ('o, 'f, 'v) xxx) stdmap \<Rightarrow> ('o, 'f, 'v) xxx \<Rightarrow> ('o, 'f, 'v) tpc \<Rightarrow> bool" where
  "pc_ok h r (Entered a) = (mfind h a = Some r)"
| "pc_ok h r (Copied a x) = (mfind h a = Some r \<and> x = r)"
| "pc_ok h r (Deleted x) = (x = r)"
| "pc_ok h r Returned = True"

definition thr_inv :: "('o, 'f, 'v) xxx list \<Rightarrow> ('o, 'f, 'v) thr_state \<Rightarrow> bool" where
  "thr_inv rs s \<longleftrightarrow>
     length (th_pcs s) = length rs \<and> (\<forall>i < length rs. pc_ok (th_heap s) (rs ! i) (th_pcs s ! i))
     \<and> (\<forall>i j a. i < length rs \<longrightarrow> j < length rs \<longrightarrow> pc_addr (th_pcs s ! i) = Some a \<longrightarrow> pc_addr (th_pcs s ! j) = Some a \<longrightarrow> i = j)
     \<and> (\<forall>a. mcount (th_heap s) a \<longrightarrow> (\<exists>i < length rs. pc_addr (th_pcs s ! i) = Some a))
     \<and> mset (th_calls s) = image_mset ((!) rs) (mset_set {i. i < length rs \<and> th_pcs s ! i = Returned})"

lemma start_effect:
  assumes "tev_ok (Start err a x detach) s"
  shows "\<exists>d. thr_step (Start err a x detach) s = Inr (s\<lparr>th_heap := mput a x (th_heap s), th_pcs := th_pcs s @ [Entered a], th_detached := d\<rparr>)"
proof -
  have "method_thread err a x detach s = Some (method_thread_parent err a detach (new_xxx a x s))"
    using assms by (cases x) (auto simp: method_thread_def method_thread0_def method_thread1_def method_thread2_def method_thread3_def
        length_Suc_conv numeral_3_eq_3 le_Suc_eq)
  then show ?thesis using assms
    by (intro exI [of _ "if detach then length (th_pcs s) # th_detached s else th_detached s"]) (simp add: method_thread_parent_def new_xxx_def Let_def)
qed

lemma thr_invD:
  assumes "thr_inv rs s"
  shows "length (th_pcs s) = length rs" "i < length rs \<Longrightarrow> pc_ok (th_heap s) (rs ! i) (th_pcs s ! i)"
    "i < length rs \<Longrightarrow> j < length rs \<Longrightarrow> pc_addr (th_pcs s ! i) = Some a \<Longrightarrow> pc_addr (th_pcs s ! j) = Some a \<Longrightarrow> i = j"
    "mcount (th_heap s) a \<Longrightarrow> \<exists>i < length rs. pc_addr (th_pcs s ! i) = Some a"
    "mset (th_calls s) = image_mset ((!) rs) (mset_set {i. i < length rs \<and> th_pcs s ! i = Returned})"
  using assms unfolding thr_inv_def by (elim conjE, (assumption | simp | blast))+

lemma thr_invI:
  assumes "length (th_pcs s) = length rs" "\<And>i. i < length rs \<Longrightarrow> pc_ok (th_heap s) (rs ! i) (th_pcs s ! i)"
    "\<And>i j a. i < length rs \<Longrightarrow> j < length rs \<Longrightarrow> pc_addr (th_pcs s ! i) = Some a \<Longrightarrow> pc_addr (th_pcs s ! j) = Some a \<Longrightarrow> i = j"
    "\<And>a. mcount (th_heap s) a \<Longrightarrow> \<exists>i < length rs. pc_addr (th_pcs s ! i) = Some a"
    "mset (th_calls s) = image_mset ((!) rs) (mset_set {i. i < length rs \<and> th_pcs s ! i = Returned})"
  shows "thr_inv rs s"
  unfolding thr_inv_def using assms by (intro conjI allI impI)

lemma pc_addr_heap: "pc_ok h r pc \<Longrightarrow> pc_addr pc = Some a \<Longrightarrow> mcount h a"
  by (cases pc) (auto simp: mcount_def)

lemma pc_ok_frame: "pc_ok h r pc \<Longrightarrow> (\<And>a. pc_addr pc = Some a \<Longrightarrow> mfind h' a = mfind h a) \<Longrightarrow> pc_ok h' r pc"
  by (cases pc) auto

lemma thr_start_inv:
  assumes inv: "thr_inv rs s" and a: "\<not> mcount (th_heap s) a"
  shows "thr_inv (rs @ [x]) (s\<lparr>th_heap := mput a x (th_heap s), th_pcs := th_pcs s @ [Entered a], th_detached := d\<rparr>)"
proof -
  note I = thr_invD [OF inv]
  have other: "pc_addr (th_pcs s ! i) \<noteq> Some a" if "i < length rs" for i using pc_addr_heap [OF I(2) [OF that]] a by blast
  have pcs: "(th_pcs s @ [Entered a]) ! i = (if i < length rs then th_pcs s ! i else Entered a)" if "i < Suc (length rs)" for i
    using that I(1) by (auto simp: nth_append less_Suc_eq)
  have ok: "pc_ok (mput a x (th_heap s)) (rs ! i) (th_pcs s ! i)" if "i < length rs" for i
    using other [OF that] by (intro pc_ok_frame [OF I(2) [OF that]]) auto
  have ret: "{i. i < Suc (length rs) \<and> (th_pcs s @ [Entered a]) ! i = Returned} = {i. i < length rs \<and> th_pcs s ! i = Returned}"
    using pcs by (auto simp: less_Suc_eq)
  show ?thesis
  proof (rule thr_invI, goal_cases)
    case 1 then show ?case using I(1) by simp
  next
    case (2 i) then show ?case using ok pcs [of i] by (cases "i < length rs") (simp_all add: nth_append)
  next
    case (3 i j b)
    then have "i < Suc (length rs)" "j < Suc (length rs)" by simp_all
    then show ?case using 3 I(3) [of i j b] other [of i] other [of j] pcs [of i] pcs [of j] by (auto split: if_splits)
  next
    case (4 b)
    show ?case
    proof (cases "b = a")
      case True then show ?thesis using pcs [of "length rs"] by (intro exI [of _ "length rs"]) simp
    next
      case False
      then obtain i where "i < length rs" "pc_addr (th_pcs s ! i) = Some b" using 4 I(4) [of b] by (auto simp: mcount_mput)
      then show ?thesis using pcs [of i] by (intro exI [of _ i]) simp
    qed
  next
    case 5
    have "image_mset ((!) (rs @ [x])) (mset_set {i. i < length rs \<and> th_pcs s ! i = Returned}) = image_mset ((!) rs) (mset_set {i. i < length rs \<and> th_pcs s ! i = Returned})"
      by (intro image_mset_cong) (auto simp: nth_append)
    then show ?case using I(5) ret by simp
  qed
qed

text \<open>A step of a thread: it keeps its object or gives it up, and adds its call when it returns.\<close>

lemma thr_step_inv:
  assumes inv: "thr_inv rs s" and i: "i < length rs" "th_pcs s ! i \<noteq> Returned" and pc: "pc_ok h (rs ! i) pc"
    and addr: "pc_addr pc = None \<or> pc_addr pc = pc_addr (th_pcs s ! i)"
    and heap: "\<And>a. mfind h a = (if pc_addr (th_pcs s ! i) = Some a \<and> pc_addr pc = None then None else mfind (th_heap s) a)"
    and cs: "cs = (if pc = Returned then th_calls s @ [rs ! i] else th_calls s)"
  shows "thr_inv rs (s\<lparr>th_heap := h, th_pcs := (th_pcs s)[i := pc], th_calls := cs\<rparr>)"
proof -
  note I = thr_invD [OF inv]
  have pcs: "(th_pcs s)[i := pc] ! j = (if j = i then pc else th_pcs s ! j)" if "j < length rs" for j
    using that i(1) I(1) by (simp add: nth_list_update)
  have ad: "pc_addr (th_pcs s ! j) = Some a" if "j < length rs" "pc_addr ((th_pcs s)[i := pc] ! j) = Some a" for j a
    using that addr pcs [of j] by (auto split: if_splits)
  show ?thesis
  proof (rule thr_invI, goal_cases)
    case 1 then show ?case using I(1) by simp
  next
    case (2 j)
    have "pc_ok h (rs ! j) (th_pcs s ! j)" if "j \<noteq> i"
      using heap I(3) [OF 2 i(1)] that by (intro pc_ok_frame [OF I(2) [OF 2]]) auto
    then show ?case using pcs [OF 2] pc by simp
  next
    case (3 j k a) then show ?case using I(3) [of j k a] ad [of j a] ad [of k a] by simp
  next
    case (4 a)
    then have a: "mcount (th_heap s) a" "\<not> (pc_addr (th_pcs s ! i) = Some a \<and> pc_addr pc = None)" using heap [of a] by (auto simp: mcount_def split: if_splits)
    then obtain j where j: "j < length rs" "pc_addr (th_pcs s ! j) = Some a" using I(4) by blast
    then have "pc_addr ((th_pcs s)[i := pc] ! j) = Some a" using pcs [OF j(1)] a(2) addr by auto
    then show ?case using j(1) by auto
  next
    case 5
    have "{j. j < length rs \<and> (th_pcs s)[i := pc] ! j = Returned} =
      (if pc = Returned then insert i {j. j < length rs \<and> th_pcs s ! j = Returned} else {j. j < length rs \<and> th_pcs s ! j = Returned})"
      using pcs i by (auto split: if_splits)
    then show ?case using I(5) cs i(2) by simp
  qed
qed

lemma yyy_inv:
  assumes inv: "thr_inv rs s" and i: "i < length rs"
  shows "\<exists>s'. yyy i s = Inr s' \<and> thr_inv rs s'"
proof -
  note ok = thr_invD(2) [OF inv i]
  show ?thesis
  proof (cases "th_pcs s ! i")
    case (Entered a)
    then show ?thesis using ok thr_step_inv [OF inv i, of "th_heap s" "Copied a (rs ! i)" "th_calls s"] by (simp add: yyy_def)
  next
    case (Copied a x)
    then show ?thesis using ok thr_step_inv [OF inv i, of "merase a (th_heap s)" "Deleted x" "th_calls s"] by (simp add: yyy_def mcount_def)
  next
    case (Deleted x)
    then show ?thesis using ok thr_step_inv [OF inv i, of "th_heap s" Returned "th_calls s @ [x]"] by (simp add: yyy_def)
  next
    case Returned then show ?thesis using inv by (simp add: yyy_def)
  qed
qed

lemma thr_run_inv:
  "thr_inv rs s \<Longrightarrow> thr_ok es s \<Longrightarrow> \<exists>s'. thr_run es s = Inr s' \<and> thr_inv (rs @ started es) s'"
proof (induction es arbitrary: rs s)
  case (Cons e es)
  have "\<exists>s1. thr_step e s = Inr s1 \<and> thr_inv (rs @ started [e]) s1"
  proof (cases e)
    case (Start err a x detach)
    then show ?thesis using Cons.prems thr_start_inv [OF Cons.prems(1), of a x] start_effect [of err a x detach s] by fastforce
  next
    case (Step i)
    then show ?thesis using Cons.prems yyy_inv [OF Cons.prems(1), of i] thr_invD(1) [OF Cons.prems(1)] by simp
  qed
  then obtain s1 where s1: "thr_step e s = Inr s1" "thr_inv (rs @ started [e]) s1" by blast
  then have "\<exists>s'. thr_run es s1 = Inr s' \<and> thr_inv ((rs @ started [e]) @ started es) s'" using Cons.prems(2) by (intro Cons.IH) auto
  then show ?case using s1(1) by (cases e) auto
qed simp

text \<open>
  C29. Threads that run methods.  Whatever threads are started and however they are interleaved, no thread touches an object that has been
  deleted, and none is deleted twice, also when addresses are used again; the calls made are always calls asked for, none twice, and when
  all threads have returned they are exactly the calls asked for and no object is left.
\<close>

theorem method_threads_call_once:
  assumes "thr_ok es thr_new"
  shows "\<exists>s. thr_run es thr_new = Inr s \<and> mset (th_calls s) \<subseteq># mset (started es)
    \<and> ((\<forall>pc \<in> set (th_pcs s). pc = Returned) \<longrightarrow> mset (th_calls s) = mset (started es) \<and> th_heap s = [])"
proof -
  have inv: "thr_inv [] thr_new" by (rule thr_invI) (simp_all add: thr_new_def mcount_def)
  obtain s where s: "thr_run es thr_new = Inr s" "thr_inv (started es) s" using thr_run_inv [OF inv assms] by auto
  let ?n = "length (started es)"
  note I = thr_invD [OF s(2)]
  have all: "image_mset ((!) (started es)) (mset_set {..< ?n}) = mset (started es)"
    by (metis map_nth mset_map mset_upt atLeast0LessThan)
  have "{i. i < ?n \<and> th_pcs s ! i = Returned} \<subseteq> {..< ?n}" by auto
  then have "mset (th_calls s) \<subseteq># mset (started es)" unfolding I(5) all [symmetric] by (intro image_mset_subseteq_mono subset_imp_msubset_mset_set) auto
  moreover have "mset (th_calls s) = mset (started es) \<and> th_heap s = []" if "\<forall>pc \<in> set (th_pcs s). pc = Returned"
  proof -
    have r: "th_pcs s ! i = Returned" if "i < ?n" for i using \<open>\<forall>pc \<in> set (th_pcs s). pc = Returned\<close> I(1) that by simp
    then have "{i. i < ?n \<and> th_pcs s ! i = Returned} = {..< ?n}" by auto
    then have "mset (th_calls s) = mset (started es)" using I(5) all by simp
    moreover have "th_heap s = []"
    proof (cases "th_heap s")
      case (Cons kv h)
      then have "mcount (th_heap s) (fst kv)" by (cases kv) (simp add: mcount_def mfind_def)
      then show ?thesis using I(4) [of "fst kv"] r by auto
    qed
    ultimately show ?thesis by blast
  qed
  ultimately show ?thesis using s(1) by blast
qed

definition demo_threads :: "(nat, string, int) tev list" where
  "demo_threads = [Start 0 4 \<lparr>x_o = 7, x_m = ''loop'', x_args = []\<rparr> True, Step 0, Step 0, Start 0 4 \<lparr>x_o = 8, x_m = ''f'', x_args = [1, 2]\<rparr> False,
     Step 1, Step 0, Step 1, Step 1]"

theorem method_threads_call_once_witness:
  "\<exists>s. thr_run demo_threads thr_new = Inr s \<and> mset (th_calls s) = {# \<lparr>x_o = 7, x_m = ''loop'', x_args = []\<rparr>, \<lparr>x_o = 8, x_m = ''f'', x_args = [1, 2]\<rparr> #} \<and> th_heap s = []"
proof -
  note d = demo_threads_def thr_new_def method_thread_def method_thread0_def method_thread2_def method_thread_parent_def new_xxx_def yyy_def mfind_def
    mcount_def merase_def
  have ok: "thr_ok demo_threads thr_new" by (simp add: d)
  have "\<forall>s. thr_run demo_threads thr_new = Inr s \<longrightarrow> (\<forall>pc \<in> set (th_pcs s). pc = Returned)" by (simp add: d)
  moreover have "started demo_threads = [\<lparr>x_o = 7, x_m = ''loop'', x_args = []\<rparr>, \<lparr>x_o = 8, x_m = ''f'', x_args = [1, 2]\<rparr>]" by (simp add: d)
  ultimately show ?thesis using method_threads_call_once [OF ok] by fastforce
qed

end
