(* ===== verification/Spec2Isabelle.thy ===== *)
theory Spec2Isabelle
  imports PaxosSystem FuseDirectory FileTestRuns CallLoop ThreadPool HandleMgr SimpleLocks PollManager Listener Address RpcThreads DistributedFiles LockTester SimpleClient
    Threads
begin

text \<open>
  A verification of the YFS distributed file system: an RPC library, a lock service replicated with Paxos, and a file system whose
  clients cache files under those locks.

  \<^bold>\<open>The program.\<close>  A \<open>yfs_client\<close> process answers FUSE requests (\<open>fuse.cc\<close>) by operations on directories and files (\<open>yfs_client.cc\<close>).  These
  take locks from a caching lock client (\<open>lock_client_cache.cc\<close>) and read and write through a caching extent client (\<open>extent_client.cc\<close>), which
  talks to the extent server (\<open>extent_server.cc\<close>).  Before a lock goes back to the lock server the cached file is flushed.  The lock server
  (\<open>lock_server_cache.cc\<close>) is a replicated state machine: clients send requests to the primary (\<open>rsm_client.cc\<close>), which forwards them to the
  backups (\<open>rsm.cc\<close>); the views of the replicas are values agreed on with Paxos (\<open>config.cc\<close>, \<open>paxos.cc\<close>, \<open>log.cc\<close>).  Everything travels
  through the RPC library in \<open>rpc/\<close>.

  \<^bold>\<open>Conventions.\<close>  The machine has 32-bit \<open>int\<close>, \<open>unsigned\<close> and \<open>size_t\<close>.  Unsigned numbers are words of their width, so that they wrap
  around; a C++ \<open>int\<close> is an \<open>int\<close>, with its range (\<open>int32_ok\<close>) as an assumption where bytes depend on it.  Objects are records with the fields
  of the class; a \<open>std::map\<close> is a sorted association list (\<open>StdMap\<close>), a \<open>std::string\<close> a list of characters (\<open>StdString\<close> for the operations that
  throw).  An operation returns \<open>None\<close> where the code fails an assertion, throws, follows a null pointer, or waits.  A section of code that holds
  a mutex is one step; what may happen between two sections is in the step relations and event sequences of the systems below.  The network,
  the clock, the random source, \<open>select\<close> and the FUSE library are parameters.

  \<^bold>\<open>Foundations.\<close>  \<open>Prelude\<close> has the types and shared lemmas.  \<open>Marshall\<close> models \<open>rpc/marshall.h\<close>: the growing output buffer, the input
  cursor with its error flag, and every operator; its locale \<open>codec\<close> states what a pair of operators promises - what is written is read back and the
  rest of the message is left - and is interpreted for every type, in \<open>Protocols\<close> for the structs of the protocol headers and in
  \<open>LockServerState\<close> for the state of the lock server.  \<open>Simulation\<close> has forward simulation.

  \<^bold>\<open>The RPC library.\<close>
    \<^item> \<open>XidWindow\<close>, \<open>ReplyWindow\<close>: the two ends of at-most-once delivery.  \<open>update_xid_rep\<close> reports the greatest xid up to which all replies
      arrived; \<open>checkduplicate_and_update\<close> and \<open>add_reply\<close> refine a table of request states, and hand each request to its handler at most once as long as
      no duplicate arrives after its xid was acknowledged.  Without that assumption a request can run twice.
    \<^item> \<open>Rpc\<close>: registration, \<open>dispatch\<close>, the locked sections of \<open>call1\<close>, \<open>bind\<close>, and the typed wrappers.  The locale \<open>rpc_method\<close> carries a typed
      call through client, wire and server; it is interpreted for the prepare call of Paxos.
    \<^item> \<open>RpcSystem\<close>: one client and its server as a system at the level of bytes.  Calls, arriving copies of requests, ending handlers, arriving copies
      of replies and returns are steps in any order.  Each call is run at most once, on the caller's arguments, and returns what its run gave
      or a time-out; the states of the server are those of its handlers run in sequence.
    \<^item> \<open>RpcTest\<close>, \<open>RpcThreads\<close>: the library's own test program \<open>rpctest.cc\<close>, run in that system.  Its sequential tests pass.  Its threads share a
      client and make their calls beside a network that loses, delays and repeats; their assertions hold as long as no call of
      \<open>client1\<close> and \<open>client2\<close> times out.
    \<^item> \<open>CallLoop\<close>: the retransmission loop of \<open>call1\<close> with its time arithmetic ends within nine rounds, since the wait doubles from
      one second up to a time-out of at most 120 seconds.
    \<^item> \<open>Connection\<close>: framing over partial reads and writes delivers every message whole and in order; which size fields overrun the buffer.
    \<^item> \<open>Listener\<close>: the accepting thread with its table of reference counted connections, its destructor, and \<open>connect_to_dst\<close>.  The table owns every
      connection; the loop that collects dead connections uses an iterator it has erased, and the theorem says when.
    \<^item> \<open>Address\<close>: \<open>make_sockaddr\<close>, with \<open>inet_addr\<close> and \<open>gethostbyname\<close> as parameters; which hosts overrun its array.
    \<^item> \<open>PollManager\<close>: the event loop beside the threads that add and remove callbacks.  The locales \<open>aio_mgr\<close> and \<open>aio_loop\<close> are the interface
      \<open>aio_mgr\<close> of the code, interpreted on \<open>SelectAIO\<close> (both) and \<open>EPollAIO\<close> (the first).  A removed descriptor is quiet when the removal returns;
      callbacks and watched descriptors agree.  No spurious wakeups of the remover are assumed.
    \<^item> \<open>ThreadPool\<close>: the bounded queue, the pool that runs each accepted job once and in order, and \<open>rpcs::got_pdu\<close>.
    \<^item> \<open>Threads\<close>: scoped locks exclude in any nesting, and \<open>method_thread\<close> makes every call once and deletes the object with its arguments once.
    \<^item> \<open>HandleMgr\<close>: the reference counted cache of RPC clients in \<open>handle.cc\<close>.

  \<^bold>\<open>Paxos and views.\<close>
    \<^item> \<open>PaxosLog\<close>, \<open>Acceptor\<close>: the log file with its textual records, and the acceptor.  An acceptor restarted from its log answers as if it had not
      crashed; restoring a dump reproduces the state.
    \<^item> \<open>Proposer\<close>: \<open>prepare\<close>, \<open>accept\<close>, \<open>decide\<close> and \<open>run\<close> over a network given as a function.  The locales \<open>net_abs\<close> and \<open>net_inv\<close> transfer runs
      between networks of different detail.
    \<^item> \<open>PaxosSystem\<close>: an inductive step relation of competing proposers, acceptors and a network that loses, delays, duplicates and reorders.  Agreement
      holds if acceptors handle requests only for their next instance; the code does not check this, and a run that breaks agreement is given.
    \<^item> \<open>PaxosCluster\<close>: an undisturbed run with a majority up decides, and the prepare call works through the whole RPC stack.
    \<^item> \<open>ConfigView\<close>: member lists as values, \<open>add\<close> and \<open>remove\<close> through the modelled proposer, heartbeats.  A change installs the same view everywhere.

  \<^bold>\<open>Replication.\<close>  \<open>Rsm\<close> models registration, \<open>client_invoke\<close>, \<open>invoke\<close>, the choice of the primary, state transfer, join and recovery, \<open>RsmClient\<close>
  fail-over and retry.  While all replicas are up and in step, a replicated service behaves as one copy; a request that fails half-way can make the
  replicas diverge.  The locale \<open>transferable\<close> says when state transfer copies the service.

  \<^bold>\<open>Locks.\<close>
    \<^item> \<open>LockServerCache\<close>, \<open>LockServerState\<close>: handlers, revoker and retryer of the server, and its marshalled state.  The locale \<open>lock_service\<close> is the
      contract of exclusive locks; it is interpreted on the server alone and, in \<open>ReplicatedLocks\<close>, on the server reached through client,
      primary and backups.
    \<^item> \<open>LockClientCache\<close>, \<open>LockSystem\<close>: the client as the sections between its waits, and any number of clients with the server and the messages
      between them.  Two threads never hold one lock, and the releaser never fails an assertion.  Two runs in which a client is never served are given.
    \<^item> \<open>LockTester\<close>: the program \<open>lock_tester.cc\<close> on top of \<open>LockSystem\<close>.  Its threads never notice a lock granted twice.
    \<^item> \<open>SimpleLocks\<close>: the first lock server with its waiting threads.  One lock never loses a wakeup; two locks can.
    \<^item> \<open>SimpleClient\<close>: the stubs of \<open>lock_client.cc\<close> and of \<open>rsmtest_client.cc\<close> with the programs that use them.  The first do not fit the handlers
      of the replicated lock server.

  \<^bold>\<open>Files.\<close>
    \<^item> \<open>ExtentServer\<close>: all requests; the invariant that listed entries exist and sizes are lengths, which every request keeps, and the bounds
      within which no request throws; writes are read back.
    \<^item> \<open>ExtentClient\<close>, \<open>FileSharing\<close>: the caching client, and many clients that share files under locks.  They simulate one store without caches.
    \<^item> \<open>DistributedFiles\<close>: \<open>LockSystem\<close> and \<open>FileSharing\<close> together.  The lock protocol provides the discipline under which the caches are invisible, with
      the flush between taking a lock off the releaser's list and the release call; the system simulates the locks in front of one store.
    \<^item> \<open>YfsClient\<close>, \<open>Fuse\<close>: the operations with their locks, and the handlers with their replies.
    \<^item> \<open>FuseDirectory\<close>: the handlers of one client with everything below them down to the server simulate a table of names and contents.
    \<^item> \<open>FileTest\<close>, \<open>FileTestRuns\<close>: the programs \<open>test-lab-4-b.c\<close> and \<open>test-lab-4-c.c\<close>, a process and the child it forks.  The kernel is a parameter that
      follows \<open>pstep\<close>, a specification of files by name (the locale \<open>rel_simulation\<close> of \<open>Simulation\<close>).  \<open>safe\<close>, a coinductive predicate, says that no
      schedule fails; a test passes when it leads safely from one state without open files to another, and two processes at work are
      covered by an invariant on the files each has still to create or remove.

  \<^bold>\<open>Bounds.\<close>  Loops with a structural bound are recursive functions.  The retry rounds of \<open>rsm_client::invoke\<close> and of \<open>call1\<close> take the list of what the
  rounds find, so that the list bounds them; the theorems say which length is enough.  \<open>primary_failure\<close> may learn new members for ever and has
  fuel; one more than the number of dead members is enough.  The loops that draw random ids take the list of words drawn.  The reader of the log recurses on the bytes left.

  \<^bold>\<open>Not modelled.\<close>  The start of the programs and the reading of their options, logging, and \<open>gettime.cc\<close>, a substitute for a clock in floating point on
  one platform, have no state the rest depends on.  The socket calls of \<open>rpc/connection.cc\<close> and the kernel between the test programs and the
  FUSE handlers are parameters.  In the models of the components a section that holds a mutex is one step, which \<open>Threads\<close> justifies for
  \<open>ScopedLock\<close>.  Destructors that only free memory are left out, since the models have no heap; where freeing matters
  (\<open>got_pdu\<close>, \<open>handle.cc\<close>, \<open>method_thread.h\<close>, reference counts of connections, the listener) the model tracks it.
\<close>

end
